(* ===== verification/C_Prelude.thy ===== *)
theory C_Prelude
  imports Main "HOL-Library.Word" "HOL-Library.Signed_Division" "HOL-Library.Sublist"
begin

text \<open>
  What every component shares: bytes and NUL-terminated strings, the part of the C
  library the programs call (string comparison and copying, decimal printing and
  parsing, bounded formatting), and the ways a C function can end.

  A \<open>char *\<close> argument is the list of bytes from that address on. A \<open>char\<close> buffer of
  \<open>n\<close> bytes is a list of length \<open>n\<close>, followed by whatever the compiler put behind it
  where the code can run past its end.
\<close>

unbundle bit_operations_syntax

named_theorems c_str_simps \<open>rewriting of string and buffer operations\<close>
named_theorems frame_simps \<open>what an operation leaves unchanged\<close>

type_synonym byte = "8 word"

section \<open>How a C function ends\<close>

text \<open>
  A call returns a value, ends the process with \<open>exit\<close>, fails an \<open>assert\<close>, touches
  memory outside a mapping, or never returns because a system call blocks for ever.
\<close>

datatype ('a, 'w) outcome =
    Returns 'a 'w
  | Exits int 'w
  | Aborts 'w
  | Faults 'w
  | Blocks 'w

fun bind_outcome :: "('a, 'w) outcome \<Rightarrow> ('a \<Rightarrow> 'w \<Rightarrow> ('b, 'w) outcome) \<Rightarrow> ('b, 'w) outcome" where
  "bind_outcome (Returns a w) f = f a w"
| "bind_outcome (Exits e w) f = Exits e w"
| "bind_outcome (Aborts w) f = Aborts w"
| "bind_outcome (Faults w) f = Faults w"
| "bind_outcome (Blocks w) f = Blocks w"

definition c_assert :: "bool \<Rightarrow> 'w \<Rightarrow> (unit, 'w) outcome" where
  "c_assert b w = (if b then Returns () w else Aborts w)"

lemma c_assert_simps [simp]:
  "c_assert True w = Returns () w" "c_assert False w = Aborts w"
  by (simp_all add: c_assert_def)

lemma bind_outcome_Returns_iff:
  "bind_outcome m f = Returns b w' \<longleftrightarrow> (\<exists>a w. m = Returns a w \<and> f a w = Returns b w')"
  by (cases m) auto

section \<open>Bytes and strings\<close>

text \<open>A string literal of the source, as bytes, without its terminating NUL.\<close>

definition cstr :: "string \<Rightarrow> byte list" where
  "cstr s = map of_char s"

lemma cstr_simps [simp]:
  "cstr [] = []" "cstr (c # s) = of_char c # cstr s"
  by (simp_all add: cstr_def)

lemma length_cstr [simp]: "length (cstr s) = length s"
  by (simp add: cstr_def)

text \<open>The string that starts at an address: the bytes before the first NUL.\<close>

definition c_str :: "byte list \<Rightarrow> byte list" where
  "c_str mem = takeWhile (\<lambda>b. b \<noteq> 0) mem"

definition strlen :: "byte list \<Rightarrow> nat" where
  "strlen mem = length (c_str mem)"

lemma c_str_simps' [simp, c_str_simps]:
  "c_str [] = []" "c_str (b # bs) = (if b = 0 then [] else b # c_str bs)"
  by (simp_all add: c_str_def)

lemma c_str_no_nul [simp]: "0 \<notin> set (c_str mem)"
  by (auto simp: c_str_def dest: set_takeWhileD)

lemma c_str_append_nul [c_str_simps]: "0 \<notin> set s \<Longrightarrow> c_str (s @ 0 # rest) = s"
  by (induction s) auto

lemma c_str_no_nul_id [c_str_simps]: "0 \<notin> set s \<Longrightarrow> c_str s = s"
  by (induction s) auto

lemma c_str_replicate_nul [c_str_simps]: "0 \<notin> set s \<Longrightarrow> c_str (s @ replicate n 0) = s"
  by (cases n) (auto simp: c_str_append_nul c_str_no_nul_id)

lemma strlen_le: "strlen mem \<le> length mem"
  by (simp add: strlen_def c_str_def length_takeWhile_le)

lemma strlen_less: "0 \<in> set mem \<Longrightarrow> strlen mem < length mem"
  by (induction mem) (auto simp: strlen_def)

lemma take_strlen: "take (strlen mem) mem = c_str mem"
  by (simp add: strlen_def c_str_def takeWhile_eq_take [symmetric])

lemma drop_strlen: "0 \<in> set mem \<Longrightarrow> \<exists>rest. drop (strlen mem) mem = 0 # rest"
  by (induction mem) (auto simp: strlen_def)

lemma mem_split_at_nul: "0 \<in> set mem \<Longrightarrow> \<exists>rest. mem = c_str mem @ 0 # rest"
  by (induction mem) auto

lemma c_str_append_left: "0 \<in> set s \<Longrightarrow> c_str (s @ t) = c_str s"
  by (induction s) auto

lemma c_str_append: "0 \<notin> set s \<Longrightarrow> c_str (s @ t) = s @ c_str t"
  by (induction s) auto

lemma c_str_split:
  obtains rest where "mem = c_str mem @ rest" and "c_str rest = []"
proof -
  have "\<exists>rest. mem = c_str mem @ rest \<and> c_str rest = []"
    by (induction mem) auto
  with that show thesis by blast
qed

text \<open>\<open>strncmp\<close>: the sign of the first difference within \<open>n\<close> bytes, stopping at a NUL.\<close>

fun strncmp :: "byte list \<Rightarrow> byte list \<Rightarrow> nat \<Rightarrow> int" where
  "strncmp s t 0 = 0"
| "strncmp s t (Suc n) =
     (let a = (case s of [] \<Rightarrow> 0 | x # _ \<Rightarrow> x); b = (case t of [] \<Rightarrow> 0 | x # _ \<Rightarrow> x) in
      if a \<noteq> b then uint a - uint b
      else if a = 0 then 0
      else strncmp (tl s) (tl t) n)"

text \<open>\<open>strcmp\<close> up to the terminating NUL.\<close>

definition strcmp :: "byte list \<Rightarrow> byte list \<Rightarrow> int" where
  "strcmp s t = strncmp s t (Suc (max (strlen s) (strlen t)))"

lemma strncmp_eq_0:
  "0 \<notin> set t \<Longrightarrow> strncmp s t (length t) = 0 \<longleftrightarrow> prefix t (c_str s)"
proof (induction t arbitrary: s)
  case Nil
  then show ?case by simp
next
  case (Cons b t)
  then show ?case
    by (cases s) (auto simp: uint_0_iff dest: word_uint_eqI)
qed

text \<open>\<open>memset (buf, v, n)\<close>.\<close>

definition memset :: "byte list \<Rightarrow> byte \<Rightarrow> nat \<Rightarrow> byte list" where
  "memset mem v n = replicate (min n (length mem)) v @ drop n mem"

text \<open>
  Storing a byte sequence at an offset of a buffer; bytes past the modelled memory are
  appended, so that an overrun shows as a longer list.
\<close>

definition store_at :: "nat \<Rightarrow> byte list \<Rightarrow> byte list \<Rightarrow> byte list" where
  "store_at off bs mem = take off mem @ bs @ drop (off + length bs) mem"

lemma length_memset [simp]: "length (memset mem v n) = length mem"
  by (simp add: memset_def min_def)

lemma memset_all: "n = length mem \<Longrightarrow> memset mem v n = replicate n v"
  by (simp add: memset_def)

lemma length_store_at:
  "off + length bs \<le> length mem \<Longrightarrow> length (store_at off bs mem) = length mem"
  by (simp add: store_at_def)

text \<open>
  \<open>snprintf (mem + off, n, ...)\<close> with the expansion \<open>s\<close>: at most \<open>n - 1\<close> bytes of it and a
  NUL, nothing at all when \<open>n = 0\<close>.
\<close>

definition snprintf_at :: "nat \<Rightarrow> nat \<Rightarrow> byte list \<Rightarrow> byte list \<Rightarrow> byte list" where
  "snprintf_at off n s mem = (if n = 0 then mem else store_at off (take (n - 1) s @ [0]) mem)"

lemma length_snprintf_at:
  "off + n \<le> length mem \<Longrightarrow> length (snprintf_at off n s mem) = length mem"
  by (auto simp: snprintf_at_def intro!: length_store_at)

lemma c_str_snprintf_at:
  assumes "0 \<notin> set s" and "0 < n" and "off = strlen mem" and "off + n \<le> length mem"
  shows "c_str (snprintf_at off n s mem) = c_str mem @ take (n - 1) s"
proof -
  have "0 \<notin> set (take (n - 1) s)"
    using assms(1) by (meson in_set_takeD)
  then show ?thesis
    using assms
    by (simp add: snprintf_at_def store_at_def take_strlen c_str_append c_str_append_nul)
qed

section \<open>Signed bytes and C's remainder\<close>

text \<open>\<open>smod\<close> is C's \<open>%\<close>: the remainder has the sign of the dividend.\<close>

lemma sint_byte: "sint (b::byte) = (if uint b < 128 then uint b else uint b - 256)"
proof -
  have "sint b = (uint b + 128) mod 256 - 128"
    using int_word_sint [of "uint b", where 'a = 8] by simp
  moreover have "uint b < 256" using uint_lt2p [of b] by simp
  ultimately show ?thesis
    by (auto simp: mod_pos_pos_trivial mod_pos_geq)
qed

lemma smod_eq_0: "(a::int) smod b = 0 \<longleftrightarrow> b dvd a"
  by (simp add: smod_int_alt_def sgn_if mod_eq_0_iff_dvd)

lemma smod_mod: "(a smod b) mod b = (a::int) mod b" 
  by (metis mod_mult_self2 mult_sdiv_smod_eq add.commute)

lemma smod3_bound: "-3 < a smod 3 \<and> a smod 3 < (3::int)"
  using smod_int_range[of 3 a] by auto

section \<open>Decimal numbers\<close>

definition is_digit :: "byte \<Rightarrow> bool" where
  "is_digit b \<longleftrightarrow> 48 \<le> uint b \<and> uint b \<le> 57"

definition digit_val :: "byte \<Rightarrow> int" where
  "digit_val b = uint b - 48"

definition dec_value :: "byte list \<Rightarrow> int" where
  "dec_value ds = foldl (\<lambda>v d. 10 * v + digit_val d) 0 ds"

lemma dec_value_snoc [simp]: "dec_value (ds @ [d]) = 10 * dec_value ds + digit_val d"
  by (simp add: dec_value_def)

text \<open>
  \<open>atoi\<close>: leading white space, one sign, digits. The C library reads a \<open>long\<close>, which
  saturates, and casts it to \<open>int\<close>.
\<close>

definition is_space :: "byte \<Rightarrow> bool" where
  "is_space b \<longleftrightarrow> b = 32 \<or> 9 \<le> uint b \<and> uint b \<le> 13"

definition clamp_long :: "int \<Rightarrow> int" where
  "clamp_long v = max (- (2 ^ 63)) (min (2 ^ 63 - 1) v)"

definition atoi :: "byte list \<Rightarrow> int" where
  "atoi mem =
     (let s = dropWhile is_space mem;
          neg = (s \<noteq> [] \<and> hd s = of_char (CHR ''-''));
          s = (if s \<noteq> [] \<and> (hd s = of_char (CHR ''-'') \<or> hd s = of_char (CHR ''+'')) then tl s else s);
          v = dec_value (takeWhile is_digit s)
      in sint (word_of_int (clamp_long (if neg then - v else v)) :: 32 word))"

text \<open>\<open>%d\<close>.\<close>

fun dec_digits :: "nat \<Rightarrow> byte list" where
  "dec_digits n =
     (if n < 10 then [of_nat (48 + n)] else dec_digits (n div 10) @ [of_nat (48 + n mod 10)])"

declare dec_digits.simps [simp del]

definition dec_of_int :: "int \<Rightarrow> byte list" where
  "dec_of_int v = (if v < 0 then of_char (CHR ''-'') # dec_digits (nat (- v)) else dec_digits (nat v))"

lemma not_space_digit: "is_digit b \<Longrightarrow> \<not> is_space b"
  by (auto simp: is_digit_def is_space_def)

lemma digit_nonzero: "is_digit b \<Longrightarrow> b \<noteq> 0"
  by (auto simp: is_digit_def)

lemma digit_not_sign: "is_digit b \<Longrightarrow> b \<noteq> 45 \<and> b \<noteq> 43"
  by (auto simp: is_digit_def)

lemma is_digit_of_nat: "n < 10 \<Longrightarrow> is_digit (of_nat (48 + n)) \<and> digit_val (of_nat (48 + n)) = int n"
proof -
  assume "n < 10"
  then have "uint (of_nat (48 + n) :: byte) = 48 + int n"
    by (simp only: uint_nat unat_of_nat) simp
  then show ?thesis using \<open>n < 10\<close> by (simp add: is_digit_def digit_val_def)
qed

lemma dec_digits_all_digit: "list_all is_digit (dec_digits n)"
proof (induction n rule: dec_digits.induct)
  case (1 n)
  then show ?case
    using is_digit_of_nat [of n] is_digit_of_nat [of "n mod 10"]
    by (subst dec_digits.simps) auto
qed

lemma dec_digits_nonempty [simp]: "dec_digits n \<noteq> []"
  by (subst dec_digits.simps) simp

lemma dec_value_digits: "dec_value (dec_digits n) = int n"
proof (induction n rule: dec_digits.induct)
  case (1 n)
  show ?case
  proof (cases "n < 10")
    case True
    then show ?thesis using is_digit_of_nat [of n]
      by (subst dec_digits.simps) (simp add: dec_value_def)
  next
    case False
    then have "int n = 10 * int (n div 10) + int (n mod 10)" by presburger
    with False 1 is_digit_of_nat [of "n mod 10"] show ?thesis
      by (subst dec_digits.simps) (simp del: of_nat_add)
  qed
qed

lemma length_dec_digits: "n < 10 ^ Suc k \<Longrightarrow> length (dec_digits n) \<le> Suc k"
proof (induction k arbitrary: n)
  case 0
  then show ?case by (subst dec_digits.simps) simp
next
  case (Suc k)
  then have "n div 10 < 10 ^ Suc k" by simp
  with Suc.IH show ?case by (subst dec_digits.simps) simp
qed

lemma int_range_cast: "- (2 ^ 31) \<le> v \<Longrightarrow> v < 2 ^ 31 \<Longrightarrow> sint (word_of_int v :: 32 word) = v"
  by (simp add: int_word_sint mod_pos_pos_trivial)

text \<open>\<open>atoi\<close> of a digit string that fits an \<open>int\<close>, ended by anything that is not a digit.\<close>

lemma atoi_digits:
  assumes "list_all is_digit ds" and "ds \<noteq> []" and "rest = [] \<or> \<not> is_digit (hd rest)"
    and "0 \<le> dec_value ds" and "dec_value ds < 2 ^ 31"
  shows "atoi (ds @ rest) = dec_value ds"
proof -
  obtain d ds' where ds: "ds = d # ds'" using assms(2) by (cases ds) auto
  have d: "is_digit d" using assms(1) ds by simp
  have "takeWhile is_digit (ds @ rest) = ds"
    using assms(1,3) by (cases rest) (auto simp: takeWhile_append2 list_all_iff)
  moreover have "dropWhile is_space (ds @ rest) = ds @ rest"
    using not_space_digit [OF d] ds by simp
  moreover have "clamp_long (dec_value ds) = dec_value ds"
    using assms(4,5) by (simp add: clamp_long_def)
  ultimately show ?thesis
    using digit_not_sign [OF d] ds assms(4,5)
    by (simp add: atoi_def Let_def int_range_cast)
qed

lemma dec_value_nonneg: "list_all is_digit ds \<Longrightarrow> 0 \<le> dec_value ds"
  by (induction ds rule: rev_induct) (auto simp: is_digit_def digit_val_def dec_value_def)

end
