(* ===== verification/Posix_Files.thy ===== *)
theory Posix_Files
  imports C_Prelude
begin

text \<open>
  The files of a directory as the programs see them through \<open>open\<close>, \<open>unlink\<close>, \<open>fstat\<close>,
  \<open>read\<close> and \<open>write\<close>: a name leads to a node that is a regular file or something else,
  with its bytes and whether this process may read or write it. The directory itself
  is writable, so \<open>unlink\<close> removes any name and \<open>O_CREAT\<close> makes a missing one.
\<close>

record fnode =
  f_regular :: bool
  f_data :: "byte list"
  f_readable :: bool
  f_writable :: bool

type_synonym fsys = "byte list \<rightharpoonup> fnode"

definition new_file :: fnode where
  "new_file = \<lparr>f_regular = True, f_data = [], f_readable = True, f_writable = True\<rparr>"

text \<open>\<open>open (path, O_RDONLY)\<close>: the node, or \<open>None\<close> for a negative descriptor.\<close>

definition open_rdonly :: "fsys \<Rightarrow> byte list \<Rightarrow> fnode option" where
  "open_rdonly fs path =
     (case fs path of None \<Rightarrow> None | Some n \<Rightarrow> if f_readable n then Some n else None)"

text \<open>\<open>open (path, O_RDWR)\<close>; a directory cannot be opened for writing.\<close>

definition open_rdwr :: "fsys \<Rightarrow> byte list \<Rightarrow> fnode option" where
  "open_rdwr fs path =
     (case fs path of None \<Rightarrow> None
      | Some n \<Rightarrow> if f_readable n \<and> f_writable n \<and> f_regular n then Some n else None)"

definition unlink :: "fsys \<Rightarrow> byte list \<Rightarrow> fsys" where
  "unlink fs path = fs(path := None)"

text \<open>\<open>open (path, O_CREAT | O_RDWR, 0666)\<close>.\<close>

definition open_creat_rdwr :: "fsys \<Rightarrow> byte list \<Rightarrow> fnode option \<times> fsys" where
  "open_creat_rdwr fs path =
     (case fs path of
        None \<Rightarrow> (Some new_file, fs(path \<mapsto> new_file))
      | Some n \<Rightarrow> (open_rdwr fs path, fs))"

text \<open>The file the descriptor writes to holds these bytes now.\<close>

definition store_data :: "fsys \<Rightarrow> byte list \<Rightarrow> byte list \<Rightarrow> fsys" where
  "store_data fs path bs =
     (case fs path of None \<Rightarrow> fs | Some n \<Rightarrow> fs(path \<mapsto> n\<lparr>f_data := bs\<rparr>))"

lemma open_rdwr_unlink [simp]: "open_rdwr (unlink fs path) path = None"
  by (simp add: open_rdwr_def unlink_def)

lemma open_creat_after_unlink [simp]:
  "open_creat_rdwr (unlink fs path) path = (Some new_file, fs(path \<mapsto> new_file))"
  by (simp add: open_creat_rdwr_def unlink_def)

lemma open_creat_missing:
  "fs path = None \<Longrightarrow> open_creat_rdwr fs path = (Some new_file, fs(path \<mapsto> new_file))"
  by (simp add: open_creat_rdwr_def)

end
