(* ===== verification/BizzBuzz.thy ===== *)
theory BizzBuzz
  imports Posix_Files
begin

text \<open>
  \<open>BizzBuzz/bzbz_file.c\<close>: the filter that copies a file word by word and replaces
  every number divisible by three, by five or by both. First the loop of \<open>main\<close> as the
  code has it, one byte at a time with its flags; then what the loop computes, stated on
  whole words; then \<open>main\<close> around it.
\<close>

section \<open>The loop of main\<close>

text \<open>
  The local variables of \<open>main\<close> that the loop reads and writes, the offset of \<open>fd_src\<close>
  and the bytes written to \<open>fd_dir\<close>. \<open>char\<close> is signed.
\<close>

record bz_state =
  bz_pos :: nat
  bz_temp :: byte
  bz_last_is_5 :: bool
  bz_sum :: int
  bz_number :: int
  bz_prev_off :: int
  bz_check_is_num :: bool
  bz_negative :: bool
  bz_prev_symbol :: byte
  bz_prev_sep :: byte
  bz_out :: "byte list"

definition bz_init :: "byte \<Rightarrow> bz_state" where
  "bz_init t =
     \<lparr>bz_pos = 0, bz_temp = t, bz_last_is_5 = False, bz_sum = -3, bz_number = 0,
      bz_prev_off = 0, bz_check_is_num = True, bz_negative = False,
      bz_prev_symbol = of_char (CHR ''1''), bz_prev_sep = of_char (CHR ''0''), bz_out = []\<rparr>"

text \<open>\<open>read (fd_src, temp, 1)\<close> and \<open>write (fd_dir, ...)\<close>.\<close>

definition bz_read :: "byte list \<Rightarrow> bz_state \<Rightarrow> int \<times> bz_state" where
  "bz_read content s =
     (if bz_pos s < length content
      then (1, s\<lparr>bz_temp := content ! bz_pos s, bz_pos := bz_pos s + 1\<rparr>)
      else (0, s))"

definition bz_write :: "byte list \<Rightarrow> bz_state \<Rightarrow> bz_state" where
  "bz_write bs s = s\<lparr>bz_out := bz_out s @ bs\<rparr>"

definition bz_write_sep :: "bz_state \<Rightarrow> bz_state" where
  "bz_write_sep s =
     (if bz_prev_sep s \<noteq> of_char (CHR ''0'') then bz_write [bz_prev_sep s] s else s)"

text \<open>The inner loop that copies the current word again from the source.\<close>

primrec bz_copy :: "byte list \<Rightarrow> nat \<Rightarrow> bz_state \<Rightarrow> bz_state" where
  "bz_copy content 0 s = s"
| "bz_copy content (Suc n) s =
     (let s = snd (bz_read content s) in bz_copy content n (bz_write [bz_temp s] s))"

text \<open>
  The word is not a number to replace: seek back to its start, write the separator
  before it, its sign and its bytes, and read the separator after it again.
\<close>

definition bz_recopy :: "byte list \<Rightarrow> nat \<Rightarrow> bz_state \<Rightarrow> bz_state" where
  "bz_recopy content i s =
     (let s = s\<lparr>bz_pos := nat (bz_prev_off s)\<rparr>;
          s = bz_write_sep s;
          s = (if bz_negative s then bz_write (cstr ''-'') s else s);
          s = bz_copy content (nat (int i - bz_prev_off s)) s
      in snd (bz_read content s))"

text \<open>The branch taken at a separator or at the last byte.\<close>

definition bz_separator :: "byte list \<Rightarrow> nat \<Rightarrow> bz_state \<Rightarrow> bz_state" where
  "bz_separator content i s =
     (let s =
        (if bz_last_is_5 s \<and> bz_sum s = 0 \<and> bz_check_is_num s
         then bz_write (cstr ''bizzbuzz'') (bz_write_sep s)
         else if bz_last_is_5 s \<and> bz_check_is_num s
         then bz_write (cstr ''buzz'') (bz_write_sep s)
         else if bz_sum s = 0 \<and> bz_check_is_num s
         then bz_write (cstr ''bizz'') (bz_write_sep s)
         else bz_recopy content i s)
      in s\<lparr>bz_prev_off := int i + 1, bz_last_is_5 := False, bz_sum := -3,
           bz_check_is_num := True, bz_negative := False, bz_prev_sep := bz_temp s\<rparr>)"

definition is_sep :: "byte \<Rightarrow> bool" where
  "is_sep b \<longleftrightarrow> b = of_char (CHR '' '') \<or> b = 10 \<or> b = 9"

text \<open>The other branch: a byte of a word.\<close>

definition bz_symbol :: "nat \<Rightarrow> bz_state \<Rightarrow> bz_state" where
  "bz_symbol i s =
     (let s = s\<lparr>bz_number := sint (bz_temp s) - 48\<rparr> in
      if bz_temp s = of_char (CHR ''-'') then
        (if bz_prev_symbol s = of_char (CHR '' '') \<or> i = 0 \<or> bz_prev_symbol s = 10 \<or>
            bz_prev_symbol s = 9
         then s\<lparr>bz_negative := True, bz_prev_off := bz_prev_off s + 1\<rparr>
         else s\<lparr>bz_check_is_num := False\<rparr>)
      else if bz_number s < 0 \<or> bz_number s > 9 then s\<lparr>bz_check_is_num := False\<rparr>
      else s\<lparr>bz_last_is_5 := (bz_number s smod 5 = 0),
             bz_sum := (bz_sum s + bz_number s) smod 3\<rparr>)"

text \<open>One round of the \<open>for\<close> loop; a short read prints and exits with 3.\<close>

definition bz_body :: "byte list \<Rightarrow> nat \<Rightarrow> nat \<Rightarrow> bz_state \<Rightarrow> (unit, bz_state) outcome" where
  "bz_body content size_src i s =
     (let s = s\<lparr>bz_prev_symbol := bz_temp s\<rparr>;
          (read_size, s) = bz_read content s
      in if read_size \<noteq> 1 then Exits 3 s
         else if bz_temp s = of_char (CHR '' '') \<or> i = size_src - 1 \<or> bz_temp s = 10 \<or>
                 bz_temp s = 9
         then Returns () (bz_separator content i s)
         else Returns () (bz_symbol i s))"

function bz_loop :: "byte list \<Rightarrow> nat \<Rightarrow> nat \<Rightarrow> bz_state \<Rightarrow> (unit, bz_state) outcome" where
  "bz_loop content size_src i s =
     (if i < size_src
      then bind_outcome (bz_body content size_src i s)
             (\<lambda>_ s'. bz_loop content size_src (i + 1) s')
      else Returns () s)"
  by pat_completeness auto
termination
  by (relation "measure (\<lambda>(content, size_src, i, s). size_src - i)") auto

declare bz_loop.simps [simp del]

text \<open>The whole loop and the final newline.\<close>

definition bz_filter :: "byte \<Rightarrow> byte list \<Rightarrow> nat \<Rightarrow> (unit, bz_state) outcome" where
  "bz_filter t content size_src =
     bind_outcome (bz_loop content size_src 0 (bz_init t)) (\<lambda>_ s. Returns () (bz_write [10] s))"

section \<open>main\<close>

text \<open>
  \<open>main\<close> from its arguments to its exit status: what it leaves in the directory and
  prints. The descriptor of the source keeps the node it was opened on, so removing the
  destination first does not take the source away when both names are the same.
\<close>

definition bz_main :: "byte \<Rightarrow> byte list list \<Rightarrow> fsys \<Rightarrow> int \<times> fsys \<times> byte list" where
  "bz_main t argv fs =
     (if length argv \<noteq> 2 \<and> length argv \<noteq> 3
      then (0, fs, cstr ''Incorrect count of arguments'' @ [10])
      else
        let dst = (if length argv = 2 then cstr ''output'' else argv ! 2);
            fd_src = open_rdonly fs (argv ! 1);
            fs = (if open_rdwr fs dst \<noteq> None then unlink fs dst else fs);
            (fd_dir, fs) = open_creat_rdwr fs dst
        in case fd_src of
             None \<Rightarrow> (1, fs, cstr ''Error with opening'' @ [10])
           | Some n \<Rightarrow>
               if fd_dir = None then (1, fs, cstr ''Error with opening'' @ [10])
               else if \<not> f_regular n then (5, fs, cstr ''Not a regular file'' @ [10])
               else (case bz_filter t (f_data n) (length (f_data n)) of
                       Returns _ s \<Rightarrow> (0, store_data fs dst (bz_out s), [])
                     | Exits e s \<Rightarrow>
                         (e, store_data fs dst (bz_out s), cstr ''Error with reading symbol'' @ [10])
                     | _ \<Rightarrow> (0, fs, [])))"

section \<open>What the program computes, on words\<close>

text \<open>
  A word is a number when it is digits only, with or without a leading minus. Numbers
  divisible by fifteen, five and three are replaced; every other word is copied.
\<close>

definition word_digits :: "byte list \<Rightarrow> byte list" where
  "word_digits w = (if w \<noteq> [] \<and> hd w = of_char (CHR ''-'') then tl w else w)"

definition bizz_word :: "byte list \<Rightarrow> byte list" where
  "bizz_word w =
     (let ds = word_digits w; v = dec_value ds in
      if ds = [] \<or> \<not> list_all is_digit ds then w
      else if 15 dvd v then cstr ''bizzbuzz''
      else if 5 dvd v then cstr ''buzz''
      else if 3 dvd v then cstr ''bizz''
      else w)"

text \<open>
  Words of a file: the bytes up to the first separator, then each separator with the
  word after it.
\<close>

fun split_words :: "byte list \<Rightarrow> byte list \<times> (byte \<times> byte list) list" where
  "split_words [] = ([], [])"
| "split_words (b # bs) =
     (let (w, rest) = split_words bs in
      if is_sep b then ([], (b, w) # rest) else (b # w, rest))"

definition bizz_file :: "byte list \<Rightarrow> byte list" where
  "bizz_file content =
     (let (w, rest) = split_words (butlast content) in
      bizz_word w @ concat (map (\<lambda>(b, w). b # bizz_word w) rest) @ [10])"

section \<open>The loop computes it\<close>

lemma not_digit_code: "(sint b - 48 < 0 \<or> sint b - 48 > 9) \<longleftrightarrow> \<not> is_digit b"
  using uint_lt2p[of b] by (auto simp: is_digit_def sint_byte)

lemma digit_code: "is_digit b \<Longrightarrow> sint b - 48 = digit_val b"
  by (auto simp: is_digit_def sint_byte digit_val_def)

definition bz_in_word :: "byte \<Rightarrow> byte list \<Rightarrow> nat \<Rightarrow> byte list \<Rightarrow> bz_state \<Rightarrow> bool" where
  "bz_in_word sep out start w s \<longleftrightarrow>
     bz_pos s = start + length w \<and> bz_prev_sep s = sep \<and> bz_out s = out \<and>
     (bz_negative s \<longleftrightarrow> w \<noteq> [] \<and> hd w = of_char (CHR ''-'')) \<and>
     bz_prev_off s = int start + of_bool (bz_negative s) \<and>
     (bz_check_is_num s \<longleftrightarrow> list_all is_digit (word_digits w)) \<and>
     (bz_check_is_num s \<longrightarrow>
        bz_sum s mod 3 = dec_value (word_digits w) mod 3 \<and>
        (if word_digits w = [] then bz_sum s = -3 else -3 < bz_sum s \<and> bz_sum s < 3) \<and>
        (bz_last_is_5 s \<longleftrightarrow> word_digits w \<noteq> [] \<and> 5 dvd dec_value (word_digits w))) \<and>
     (if w = [] then start = 0 \<or> is_sep (bz_temp s) else bz_temp s = last w)"

lemma word_digits_snoc:
  "word_digits (w @ [c]) = (if w = [] \<and> c = of_char (CHR ''-'') then [] else word_digits w @ [c])"
  by (cases w) (auto simp: word_digits_def)

lemma digit_sum_step:
  assumes "x mod 3 = v mod (3::int)"
  shows "((x + d) smod 3) mod 3 = (10 * v + d) mod 3"
proof -
  have "(x + d) mod 3 = (v + d) mod 3"
    using assms by (metis mod_add_cong)
  also have "\<dots> = ((v + d) + 3 * (3 * v)) mod 3" by (simp only: mod_mult_self2)
  also have "(v + d) + 3 * (3 * v) = 10 * v + d" by simp
  finally show ?thesis by (simp add: smod_mod)
qed

lemma dvd5_step: "5 dvd 10 * v + (d::int) \<longleftrightarrow> 5 dvd d"
  by presburger

lemma minus_not_digit: "\<not> is_digit 45"
  by (simp add: is_digit_def)

lemma bz_symbol_step:
  assumes inv: "bz_in_word sep out start w s"
    and c: "content ! (start + length w) = c" "start + length w < length content"
    and nsep: "\<not> is_sep c" and nw: "\<forall>b\<in>set w. \<not> is_sep b"
    and last: "start + length w \<noteq> size_src - 1"
  shows "\<exists>s'. bz_body content size_src (start + length w) s = Returns () s' \<and>
              bz_in_word sep out start (w @ [c]) s'"
proof -
  let ?s = "s\<lparr>bz_prev_symbol := bz_temp s, bz_temp := c, bz_pos := start + length w + 1\<rparr>"
  have body: "bz_body content size_src (start + length w) s =
      Returns () (bz_symbol (start + length w) ?s)"
    using inv c nsep last
    by (simp add: bz_body_def bz_read_def bz_in_word_def is_sep_def)
  have "bz_in_word sep out start (w @ [c]) (bz_symbol (start + length w) ?s)"
  proof (cases "c = of_char (CHR ''-'')")
    case True
    show ?thesis
    proof (cases "w = []")
      case True
      then show ?thesis using inv \<open>c = of_char (CHR ''-'')\<close>
        by (auto simp: bz_in_word_def bz_symbol_def word_digits_def is_sep_def Let_def dec_value_def)
    next
      case False
      then have "\<not> is_sep (bz_temp s)" using inv nw by (simp add: bz_in_word_def)
      with False show ?thesis using inv \<open>c = of_char (CHR ''-'')\<close>
        by (auto simp: bz_in_word_def bz_symbol_def word_digits_snoc is_sep_def Let_def minus_not_digit)
    qed
  next
    case False
    have wd: "word_digits (w @ [c]) = word_digits w @ [c]"
      and neg: "hd (w @ [c]) = 45 \<longleftrightarrow> w \<noteq> [] \<and> hd w = 45"
      using False by (auto simp: word_digits_snoc hd_append)
    show ?thesis
    proof (cases "is_digit c")
      case True
      define v where "v = dec_value (word_digits w)"
      from True have num: "\<not> (sint c - 48 < 0 \<or> 9 < sint c - 48)"
        by (simp only: not_digit_code not_not)
      have sym: "bz_symbol (start + length w) ?s =
          ?s\<lparr>bz_number := digit_val c, bz_last_is_5 := (5 dvd digit_val c),
             bz_sum := (bz_sum s + digit_val c) smod 3\<rparr>"
        using False num by (simp add: bz_symbol_def Let_def digit_code [OF True] smod_eq_0)
      show ?thesis
      proof (cases "bz_check_is_num s")
        case True
        then have "bz_sum s mod 3 = v mod 3" using inv by (simp add: bz_in_word_def v_def)
        from digit_sum_step [OF this]
        have "((bz_sum s + digit_val c) smod 3) mod 3 = dec_value (word_digits w @ [c]) mod 3"
          by (simp add: v_def)
        then show ?thesis
          unfolding sym using inv True \<open>is_digit c\<close> smod3_bound [of "bz_sum s + digit_val c"]
          by (simp add: bz_in_word_def wd neg dvd5_step)
      next
        case nc: False
        then show ?thesis unfolding sym using inv True
          by (simp add: bz_in_word_def wd neg)
      qed
    next
      case nd: False
      then have "sint c - 48 < 0 \<or> 9 < sint c - 48"
        by (simp only: not_digit_code not_False_eq_True)
      with False have sym: "bz_symbol (start + length w) ?s =
          ?s\<lparr>bz_number := sint c - 48, bz_check_is_num := False\<rparr>"
        by (simp add: bz_symbol_def Let_def)
      show ?thesis unfolding sym using inv nd
        by (simp add: bz_in_word_def wd neg)
    qed
  qed
  with body show ?thesis by blast
qed

lemma bz_copy_eq:
  assumes "bz_pos s + n \<le> length content"
  shows "bz_copy content n s =
    s\<lparr>bz_pos := bz_pos s + n, bz_out := bz_out s @ take n (drop (bz_pos s) content),
      bz_temp := (if n = 0 then bz_temp s else content ! (bz_pos s + n - 1))\<rparr>"
  using assms
proof (induction n arbitrary: s)
  case 0
  then show ?case by simp
next
  case (Suc n)
  then have lt: "bz_pos s < length content" by simp
  then have "take (Suc n) (drop (bz_pos s) content) =
      content ! bz_pos s # take n (drop (Suc (bz_pos s)) content)"
    by (metis Cons_nth_drop_Suc take_Suc_Cons)
  with Suc lt show ?case
    by (simp add: bz_read_def bz_write_def Let_def)
qed

lemma bz_copy_read:
  assumes "bz_pos s + n < length content"
  shows "snd (bz_read content (bz_copy content n s)) =
    s\<lparr>bz_pos := bz_pos s + n + 1, bz_out := bz_out s @ take n (drop (bz_pos s) content),
      bz_temp := content ! (bz_pos s + n)\<rparr>"
  using assms by (simp add: bz_copy_eq bz_read_def)

lemma dvd15: "15 dvd (v::int) \<longleftrightarrow> 5 dvd v \<and> 3 dvd v"
  by presburger


lemma bz_recopy_eq:
  assumes content: "content = pre @ w @ b # rest" and start: "start = length pre"
    and off: "bz_prev_off s = int start + of_bool (bz_negative s)"
    and neg: "bz_negative s \<longleftrightarrow> w \<noteq> [] \<and> hd w = 45"
  shows "bz_recopy content (start + length w) s =
    s\<lparr>bz_pos := start + length w + 1, bz_temp := b,
      bz_out := bz_out s @ (if bz_prev_sep s \<noteq> 48 then [bz_prev_sep s] else []) @ w\<rparr>"
proof -
  let ?k = "of_bool (bz_negative s) :: nat"
  let ?i = "start + length w"
  have k: "?k \<le> length w" using neg by (cases w) auto
  have off': "nat (bz_prev_off s) = start + ?k" "nat (int ?i - bz_prev_off s) = length w - ?k"
    using off k by auto
  have taken: "take (length w - ?k) (drop (start + ?k) content) = drop ?k w"
    using content start k by simp
  have again: "bz_negative s \<Longrightarrow> 45 # drop (Suc 0) w = w"
    using neg by (cases w) auto
  have fits: "start + ?k + (length w - ?k) \<le> length content"
    using content start k by simp
  have at: "content ! ?i = b" "?i < length content"
    using content start by (simp_all add: nth_append)
  let ?t = "s\<lparr>bz_pos := start + ?k, bz_out := bz_out s @
      (if bz_prev_sep s \<noteq> 48 then [bz_prev_sep s] else []) @ (if bz_negative s then [45] else [])\<rparr>"
  have "bz_recopy content ?i s = snd (bz_read content (bz_copy content (length w - ?k) ?t))"
    by (simp add: bz_recopy_def Let_def bz_write_sep_def bz_write_def off'(1) off'(2) [unfolded of_nat_add])
  also have "\<dots> = ?t\<lparr>bz_pos := ?i + 1, bz_out := bz_out ?t @ drop ?k w, bz_temp := b\<rparr>"
    using bz_copy_read [of ?t "length w - ?k" content] taken k at by simp
  finally show ?thesis using again by (auto simp: Let_def)
qed

text \<open>What the separator branch leaves behind: the next word starts after it.\<close>

lemma bz_separator_step:
  assumes inv: "bz_in_word sep out start w s"
    and content: "content = pre @ w @ b # rest" and start: "start = length pre"
    and sep: "is_sep b \<or> start + length w = size_src - 1"
  shows "\<exists>s'. bz_body content size_src (start + length w) s = Returns () s' \<and>
      bz_pos s' = start + length w + 1 \<and> bz_temp s' = b \<and> bz_prev_sep s' = b \<and>
      bz_out s' = out @ (if sep \<noteq> of_char (CHR ''0'') then [sep] else []) @ bizz_word w \<and>
      bz_prev_off s' = int (start + length w + 1) \<and> \<not> bz_last_is_5 s' \<and> bz_sum s' = -3 \<and>
      bz_check_is_num s' \<and> \<not> bz_negative s'"
proof -
  let ?i = "start + length w"
  let ?s = "s\<lparr>bz_prev_symbol := bz_temp s, bz_temp := b, bz_pos := ?i + 1\<rparr>"
  have at: "content ! ?i = b" "?i < length content"
    using content start by (simp_all add: nth_append)
  have "bz_pos s = ?i" using inv by (simp add: bz_in_word_def)
  with at sep have body: "bz_body content size_src ?i s = Returns () (bz_separator content ?i ?s)"
    by (auto simp: bz_body_def bz_read_def is_sep_def)
  define v where "v = dec_value (word_digits w)"
  let ?num = "word_digits w \<noteq> [] \<and> list_all is_digit (word_digits w)"
  have three: "bz_check_is_num s \<and> bz_sum s = 0 \<longleftrightarrow> ?num \<and> 3 dvd v"
  proof -
    have "bz_check_is_num s \<Longrightarrow> word_digits w \<noteq> [] \<Longrightarrow> bz_sum s = 0 \<longleftrightarrow> 3 dvd v"
    proof -
      assume "bz_check_is_num s" "word_digits w \<noteq> []"
      then have "bz_sum s mod 3 = v mod 3" "-3 < bz_sum s" "bz_sum s < 3"
        using inv by (simp_all add: bz_in_word_def v_def)
      then show ?thesis by presburger
    qed
    then show ?thesis using inv
      by (cases "word_digits w = []") (auto simp: bz_in_word_def)
  qed
  have five: "bz_check_is_num s \<and> bz_last_is_5 s \<longleftrightarrow> ?num \<and> 5 dvd v"
    using inv by (auto simp: bz_in_word_def v_def)
  have word: "bizz_word w =
      (if ?num \<and> 3 dvd v \<and> 5 dvd v then cstr ''bizzbuzz''
       else if ?num \<and> 5 dvd v then cstr ''buzz''
       else if ?num \<and> 3 dvd v then cstr ''bizz'' else w)"
    by (auto simp: bizz_word_def Let_def v_def dvd15)
  have s: "bz_prev_sep s = sep" "bz_out s = out" "bz_pos s = ?i"
    "bz_prev_off s = int start + of_bool (bz_negative s)"
    "bz_negative s \<longleftrightarrow> w \<noteq> [] \<and> hd w = 45"
    using inv by (simp_all add: bz_in_word_def)
  show ?thesis
  proof (cases "bz_check_is_num s \<and> (bz_sum s = 0 \<or> bz_last_is_5 s)")
    case True
    then show ?thesis unfolding body word
      using three five s
      by (auto simp: bz_separator_def Let_def bz_write_def bz_write_sep_def)
  next
    case False
    let ?t = "?s\<lparr>bz_out := out @ (if sep \<noteq> of_char (CHR ''0'') then [sep] else []) @ w\<rparr>"
    have same: "bizz_word w = w" using False three five word by auto
    have "bz_recopy content ?i ?s = ?t"
      using bz_recopy_eq [OF content start, of ?s] s by simp
    then have sep_branch: "bz_separator content ?i ?s =
        ?t\<lparr>bz_prev_off := int ?i + 1, bz_last_is_5 := False, bz_sum := -3,
           bz_check_is_num := True, bz_negative := False, bz_prev_sep := b\<rparr>"
    proof -
      assume eq: "bz_recopy content ?i ?s = ?t"
      from False have no: "\<not> (bz_last_is_5 ?s \<and> bz_sum ?s = 0 \<and> bz_check_is_num ?s)"
        "\<not> (bz_last_is_5 ?s \<and> bz_check_is_num ?s)" "\<not> (bz_sum ?s = 0 \<and> bz_check_is_num ?s)"
        by auto
      show ?thesis unfolding bz_separator_def Let_def if_not_P [OF no(1)] if_not_P [OF no(2)]
          if_not_P [OF no(3)] eq by simp
    qed
    show ?thesis unfolding body sep_branch same by simp
  qed
qed

text \<open>Between two words the state is the initial one but for the position.\<close>

definition bz_fresh :: "byte \<Rightarrow> byte list \<Rightarrow> nat \<Rightarrow> bz_state \<Rightarrow> bool" where
  "bz_fresh sep out start s \<longleftrightarrow> bz_in_word sep out start [] s"

lemma bz_fresh_init: "bz_fresh (of_char (CHR ''0'')) [] 0 (bz_init t)"
  by (simp add: bz_fresh_def bz_in_word_def bz_init_def word_digits_def dec_value_def)

definition with_sep :: "byte \<Rightarrow> byte list \<Rightarrow> byte list" where
  "with_sep sep w = (if sep \<noteq> of_char (CHR ''0'') then sep # w else w)"

text \<open>The loop runs through the rest of a word and the byte that ends it.\<close>

lemma bz_loop_word:
  assumes "bz_in_word sep out start w s" and "content = pre @ w @ v @ b # rest"
    and "start = length pre" and "\<forall>c\<in>set (w @ v). \<not> is_sep c"
    and "is_sep b \<or> rest = []" and "size_src = length content"
  shows "\<exists>s'. bz_loop content size_src (start + length w) s =
           bz_loop content size_src (start + length w + length v + 1) s' \<and>
         (rest = [] \<or> bz_fresh b (out @ with_sep sep (bizz_word (w @ v))) (start + length w + length v + 1) s') \<and>
         bz_out s' = out @ with_sep sep (bizz_word (w @ v))"
  using assms
proof (induction v arbitrary: w s)
  case Nil
  have "is_sep b \<or> start + length w = size_src - 1"
    using Nil.prems by auto
  moreover have "content = pre @ w @ b # rest"
    using Nil.prems(2) by simp
  ultimately obtain s' where s': "bz_body content size_src (start + length w) s = Returns () s'"
    "bz_pos s' = start + length w + 1" "bz_temp s' = b" "bz_prev_sep s' = b"
    "bz_out s' = out @ (if sep \<noteq> of_char (CHR ''0'') then [sep] else []) @ bizz_word w"
    "bz_prev_off s' = int (start + length w + 1)" "\<not> bz_last_is_5 s'" "bz_sum s' = -3"
    "bz_check_is_num s'" "\<not> bz_negative s'"
    using bz_separator_step [OF Nil.prems(1) _ Nil.prems(3)] by blast
  have "start + length w < size_src" using Nil.prems by simp
  then have "bz_loop content size_src (start + length w) s =
      bz_loop content size_src (start + length w + 1) s'"
    by (subst bz_loop.simps) (simp add: s')
  moreover have "rest = [] \<or> bz_fresh b (out @ with_sep sep (bizz_word w)) (start + length w + 1) s'"
    using s' Nil.prems(5)
    by (auto simp: bz_fresh_def bz_in_word_def word_digits_def dec_value_def with_sep_def)
  ultimately show ?case using s' by (auto simp: with_sep_def)
next
  case (Cons c v)
  let ?i = "start + length w"
  have at: "content ! ?i = c" "?i < length content" "?i \<noteq> size_src - 1"
    using Cons.prems by (simp_all add: nth_append)
  have nc: "\<not> is_sep c" "\<forall>b\<in>set w. \<not> is_sep b" using Cons.prems(4) by auto
  from bz_symbol_step [OF Cons.prems(1) at(1,2) nc at(3)]
  obtain s1 where s1: "bz_body content size_src ?i s = Returns () s1"
    "bz_in_word sep out start (w @ [c]) s1" by blast
  have "?i < size_src" using Cons.prems(6) at(2) by simp
  then have "bz_loop content size_src ?i s = bz_loop content size_src (start + length (w @ [c])) s1"
    by (subst bz_loop.simps) (simp add: s1)
  with Cons.IH [OF s1(2) _ Cons.prems(3) _ Cons.prems(5,6)] Cons.prems(2,4)
  show ?case by simp
qed

lemma split_words_join:
  "split_words bs = (w, ws) \<Longrightarrow>
     bs = w @ concat (map (\<lambda>(b, v). b # v) ws) \<and> (\<forall>c\<in>set w. \<not> is_sep c)"
  by (induction bs arbitrary: w ws) (auto split: prod.splits if_splits)

lemma split_words_tail:
  "split_words bs = (w, (b, v) # ws) \<Longrightarrow>
     is_sep b \<and> (\<exists>bs'. bs = w @ b # bs' \<and> split_words bs' = (v, ws))"
  by (induction bs arbitrary: w) (auto split: prod.splits if_splits)

lemma sep_not_zero_char: "is_sep b \<Longrightarrow> b \<noteq> of_char (CHR ''0'')"
  by (auto simp: is_sep_def)

lemma bz_loop_file:
  assumes "bz_fresh sep out start s" and "content = pre @ body @ [l]" and "start = length pre"
    and "split_words body = (w, ws)" and "size_src = length content"
  shows "\<exists>s'. bz_loop content size_src start s = Returns () s' \<and>
     bz_out s' = out @ with_sep sep (bizz_word w) @ concat (map (\<lambda>(b, w). b # bizz_word w) ws)"
  using assms
proof (induction ws arbitrary: sep out start s pre body w)
  case Nil
  have body: "body = w" and nw: "\<forall>c\<in>set w. \<not> is_sep c"
    using split_words_join [OF Nil.prems(4)] by simp_all
  have fresh: "bz_in_word sep out start [] s"
    using Nil.prems(1) by (simp add: bz_fresh_def)
  from bz_loop_word [OF fresh, of content pre w l "[]" size_src] Nil.prems body nw
  obtain s' where s': "bz_loop content size_src start s =
      bz_loop content size_src (start + length w + 1) s'"
    "bz_out s' = out @ with_sep sep (bizz_word w)"
    by auto
  have "bz_loop content size_src (start + length w + 1) s' = Returns () s'"
    using Nil.prems body by (subst bz_loop.simps) simp
  with s' show ?case by simp
next
  case (Cons x ws)
  obtain b v where x: "x = (b, v)" by (cases x)
  from split_words_tail [OF Cons.prems(4) [unfolded x]]
  obtain body' where b: "is_sep b" and body: "body = w @ b # body'"
    and rest: "split_words body' = (v, ws)" by blast
  have nw: "\<forall>c\<in>set w. \<not> is_sep c"
    using split_words_join [OF Cons.prems(4)] by simp
  have fresh: "bz_in_word sep out start [] s"
    using Cons.prems(1) by (simp add: bz_fresh_def)
  from bz_loop_word [OF fresh, of content pre w b "body' @ [l]" size_src] Cons.prems(2,3,5) body nw b
  obtain s' where s': "bz_loop content size_src start s =
      bz_loop content size_src (start + length w + 1) s'"
    "bz_fresh b (out @ with_sep sep (bizz_word w)) (start + length w + 1) s'"
    by auto
  from Cons.IH [OF s'(2) _ _ rest Cons.prems(5), of "pre @ w @ [b]"] Cons.prems(2,3) body
  obtain s2 where s2: "bz_loop content size_src (start + length w + 1) s' = Returns () s2"
    "bz_out s2 = (out @ with_sep sep (bizz_word w)) @ with_sep b (bizz_word v) @
       concat (map (\<lambda>(b, w). b # bizz_word w) ws)"
    by auto
  with s' sep_not_zero_char [OF b] x show ?case by (simp add: with_sep_def)
qed

lemma bz_filter_total:
  "\<exists>s. bz_filter t content (length content) = Returns () s \<and>
     bz_out s = (if content = [] then [10] else bizz_file content)"
proof (cases "content = []")
  case True
  then show ?thesis
    by (simp add: bz_filter_def bz_loop.simps bz_write_def bz_init_def)
next
  case False
  obtain w ws where sp: "split_words (butlast content) = (w, ws)"
    by fastforce
  have "content = [] @ butlast content @ [last content]" using False by simp
  from bz_loop_file [OF bz_fresh_init this _ sp] False
  obtain s where "bz_loop content (length content) 0 (bz_init t) = Returns () s"
    "bz_out s = bizz_word w @ concat (map (\<lambda>(b, w). b # bizz_word w) ws)"
    by (auto simp: with_sep_def)
  with False sp show ?thesis
    by (simp add: bz_filter_def bz_write_def bizz_file_def)
qed

section \<open>Properties\<close>

text \<open>
  C1: for every file, whatever byte \<open>malloc\<close> left behind \<open>temp\<close>, the loop ends normally and
  writes the words of the file but its last byte, each number divisible by 15, 5 or 3
  replaced, with the separators between them and one newline at the end.
\<close>

theorem bz_filter_correct:
  "\<exists>s. bz_filter t content (length content) = Returns () s \<and>
     bz_out s = (if content = [] then [10] else bizz_file content)"
  by (rule bz_filter_total)

lemma bz_filter_cases:
  obtains s where "bz_filter t content (length content) = Returns () s"
    "bz_out s = (if content = [] then [10] else bizz_file content)"
proof -
  have "\<exists>s. bz_filter t content (length content) = Returns () s \<and>
      bz_out s = (if content = [] then [10] else bizz_file content)"
    by (rule bz_filter_total)
  then show thesis using that by blast
qed

text \<open>
  The last byte of a file only ends the last word. Two files that differ in it alone
  give the same output, so a last word with no newline after it loses its last character.
\<close>

theorem bz_last_byte_ignored:
  "\<exists>s s'. bz_filter t (content @ [x]) (length content + 1) = Returns () s \<and>
     bz_filter t (content @ [y]) (length content + 1) = Returns () s' \<and> bz_out s = bz_out s'"
proof -
  obtain s where s: "bz_filter t (content @ [x]) (length (content @ [x])) = Returns () s"
    "bz_out s = (if content @ [x] = [] then [10] else bizz_file (content @ [x]))"
    by (rule bz_filter_cases)
  obtain s' where s': "bz_filter t (content @ [y]) (length (content @ [y])) = Returns () s'"
    "bz_out s' = (if content @ [y] = [] then [10] else bizz_file (content @ [y]))"
    by (rule bz_filter_cases)
  from s s' show ?thesis by (simp add: bizz_file_def)
qed

lemma open_dst:
  assumes "fs dst = None \<or> open_rdwr fs dst \<noteq> None"
  shows "open_creat_rdwr (if open_rdwr fs dst \<noteq> None then unlink fs dst else fs) dst =
    (Some new_file, fs(dst \<mapsto> new_file))"
  using assms by (auto simp: open_creat_missing open_rdwr_def split: option.splits)

text \<open>
  C3: with a readable regular source and a destination that is missing or a regular file
  open for reading and writing, the run exits with 0, prints nothing and leaves the
  filtered bytes in a fresh destination file, all other files unchanged. The destination
  may be the source itself.
\<close>

theorem bz_main_writes:
  assumes "fs src = Some n" and "f_readable n" and "f_regular n"
    and "fs dst = None \<or> open_rdwr fs dst \<noteq> None"
  shows "bz_main t [prog, src, dst] fs =
    (0, fs(dst \<mapsto> new_file\<lparr>f_data := (if f_data n = [] then [10] else bizz_file (f_data n))\<rparr>), [])"
proof -
  obtain s where s: "bz_filter t (f_data n) (length (f_data n)) = Returns () s"
    "bz_out s = (if f_data n = [] then [10] else bizz_file (f_data n))"
    by (rule bz_filter_cases)
  have src: "open_rdonly fs src = Some n" using assms(1,2) by (simp add: open_rdonly_def)
  show ?thesis
    using open_dst [OF assms(4)] assms(3) s src
    by (simp add: bz_main_def Let_def store_data_def split: option.splits)
qed

theorem bz_main_writes_witness:
  "\<exists>fs. fs (cstr ''a'') = Some (new_file\<lparr>f_data := cstr ''15 7 '' @ [10]\<rparr>) \<and>
     bz_main 0 [cstr ''bz'', cstr ''a'', cstr ''a''] fs =
       (0, fs(cstr ''a'' \<mapsto> new_file\<lparr>f_data := cstr ''bizzbuzz 7 '' @ [10]\<rparr>), [])"
proof -
  define n where "n = new_file\<lparr>f_data := cstr ''15 7 '' @ [10]\<rparr>"
  define fs where "fs = [cstr ''a'' \<mapsto> n]"
  have h: "fs (cstr ''a'') = Some n" "f_readable n" "f_regular n"
    "fs (cstr ''a'') = None \<or> open_rdwr fs (cstr ''a'') \<noteq> None"
    by (simp_all add: new_file_def open_rdwr_def fs_def n_def)
  have out: "(if f_data n = [] then [10] else bizz_file (f_data n)) = cstr ''bizzbuzz 7 '' @ [10]"
    by (simp add: n_def bizz_file_def is_sep_def bizz_word_def word_digits_def dec_value_def
        digit_val_def is_digit_def)
  from bz_main_writes [OF h, of 0 "cstr ''bz''", unfolded out] h(1) [unfolded n_def]
  show ?thesis by blast
qed

text \<open>
  A run that cannot open its source, or finds it is not a regular file, has already
  replaced the destination by an empty file when it exits with 1 or 5.
\<close>

theorem bz_main_error_truncates:
  assumes "fs dst = None \<or> open_rdwr fs dst \<noteq> None"
    and "open_rdonly fs src = None \<or> open_rdonly fs src = Some n \<and> \<not> f_regular n"
  shows "\<exists>e msg. bz_main t [prog, src, dst] fs = (e, fs(dst \<mapsto> new_file), msg) \<and>
    e = (if open_rdonly fs src = None then 1 else 5)"
  using open_dst [OF assms(1)] assms(2)
  by (auto simp: bz_main_def Let_def split: option.splits)

theorem bz_main_error_truncates_witness:
  "\<exists>fs e msg. f_data (the (fs (cstr ''out''))) = cstr ''old'' \<and> e = 1 \<and>
     bz_main 0 [cstr ''bz'', cstr ''none'', cstr ''out''] fs =
       (e, fs(cstr ''out'' \<mapsto> new_file), msg)"
proof -
  define fs where "fs = [cstr ''out'' \<mapsto> new_file\<lparr>f_data := cstr ''old''\<rparr>]"
  have old: "f_data (the (fs (cstr ''out''))) = cstr ''old''"
    and h: "fs (cstr ''out'') = None \<or> open_rdwr fs (cstr ''out'') \<noteq> None"
    and none: "open_rdonly fs (cstr ''none'') = None"
    by (simp_all add: open_rdwr_def new_file_def open_rdonly_def fs_def)
  from bz_main_error_truncates [OF h disjI1 [OF none], of 0 "cstr ''bz''"] none old
  show ?thesis by auto
qed

end
