(* ===== verification/Signal_Bits.thy ===== *)
theory Signal_Bits
  imports C_Prelude
begin

text \<open>
  The bit format of \<open>Signal_copy\<close>: \<open>get_bites\<close> of \<open>sender.c\<close> takes a byte apart, least
  significant bit first, and \<open>write_symbol\<close> of \<open>receiver.c\<close> puts it together again. What
  each side relies on is the locale \<open>bit_codec\<close>.
\<close>

section \<open>The interface between the two programs\<close>

locale bit_codec =
  fixes to_bits :: "byte \<Rightarrow> int list" and of_bits :: "int list \<Rightarrow> byte"
  assumes length_bits: "length (to_bits b) = 8"
    and bits_01: "x \<in> set (to_bits b) \<Longrightarrow> x = 0 \<or> x = 1"
    and of_to_bits: "of_bits (to_bits b) = b"
begin

lemma nth_bit_01: "i < 8 \<Longrightarrow> to_bits b ! i = 0 \<or> to_bits b ! i = 1"
  using bits_01 [of "to_bits b ! i" b] by (simp add: length_bits)

lemma to_bits_inj: "to_bits a = to_bits b \<Longrightarrow> a = b"
  by (metis of_to_bits)

text \<open>One more bit of the byte stored where the receiver expects it.\<close>

lemma take_bits_step:
  assumes "take k arr = take k (to_bits b)" and "length arr = 8" and "k < 8"
  shows "take (Suc k) (arr[k := to_bits b ! k]) = take (Suc k) (to_bits b)"
  using assms by (simp add: take_Suc_conv_app_nth length_bits)

lemma of_bits_complete:
  assumes "take 8 arr = take 8 (to_bits b)" and "length arr = 8"
  shows "of_bits arr = b"
  using assms by (simp add: length_bits of_to_bits)

end

section \<open>get_bites\<close>

text \<open>
  The code loads an \<open>unsigned\<close> from the address of a one-byte buffer, so the three bytes
  behind it come along; x86 is little-endian.
\<close>

definition load_unsigned :: "byte list \<Rightarrow> 32 word" where
  "load_unsigned mem =
     ucast (mem ! 0) OR push_bit 8 (ucast (mem ! 1)) OR push_bit 16 (ucast (mem ! 2)) OR
     push_bit 24 (ucast (mem ! 3))"

primrec get_bites_loop :: "nat \<Rightarrow> 32 word \<Rightarrow> int list" where
  "get_bites_loop 0 num = []"
| "get_bites_loop (Suc n) num = uint (num AND 1) # get_bites_loop n (drop_bit 1 num)"

definition get_bites :: "byte list \<Rightarrow> int list" where
  "get_bites symbol = get_bites_loop 8 (load_unsigned symbol)"

section \<open>write_symbol\<close>

text \<open>The byte that is written; the loop adds up \<open>arr[i] * pov_2\<close> in an \<open>int\<close>.\<close>

primrec write_symbol_loop :: "int list \<Rightarrow> nat \<Rightarrow> nat \<times> int \<times> int \<Rightarrow> int" where
  "write_symbol_loop arr 0 st = (case st of (i, num, pov_2) \<Rightarrow> num)"
| "write_symbol_loop arr (Suc n) st =
     (case st of (i, num, pov_2) \<Rightarrow>
        write_symbol_loop arr n (i + 1, num + arr ! i * pov_2, pov_2 * 2))"

definition write_symbol :: "int list \<Rightarrow> byte" where
  "write_symbol arr = word_of_int (write_symbol_loop arr 8 (0, 0, 1))"

section \<open>They fit together\<close>

lemma nth_get_bites_loop:
  "i < n \<Longrightarrow> get_bites_loop n num ! i = of_bool (bit num i)"
proof (induction n arbitrary: i num)
  case 0
  then show ?case by simp
next
  case (Suc n)
  have "uint (num AND 1) = of_bool (bit num 0)"
    by (simp add: and_one_eq mod_2_eq_odd bit_0)
  with Suc show ?case by (cases i) (simp_all add: bit_drop_bit_eq)
qed

lemma length_get_bites_loop [simp]: "length (get_bites_loop n num) = n"
  by (induction n arbitrary: num) auto

lemma bit_load_unsigned: "i < 8 \<Longrightarrow> bit (load_unsigned (b # beyond)) i = bit b i"
  by (simp add: load_unsigned_def bit_or_iff bit_push_bit_iff bit_ucast_iff)

lemma length_get_bites [simp]: "length (get_bites mem) = 8"
  by (simp add: get_bites_def)

lemma nth_get_bites: "i < 8 \<Longrightarrow> get_bites (b # beyond) ! i = of_bool (bit b i)"
  by (simp add: get_bites_def nth_get_bites_loop bit_load_unsigned)

text \<open>What lies behind the buffer does not reach the bits.\<close>

lemma get_bites_beyond: "get_bites (b # beyond) = get_bites (b # beyond')"
  by (rule nth_equalityI) (simp_all add: nth_get_bites)

lemma write_symbol_eq:
  "write_symbol arr = word_of_int
     (arr ! 0 + 2 * arr ! 1 + 4 * arr ! 2 + 8 * arr ! 3 + 16 * arr ! 4 + 32 * arr ! 5 +
      64 * arr ! 6 + 128 * arr ! 7)"
  by (simp add: write_symbol_def numeral_eq_Suc)

lemma byte_of_bits:
  "(b::byte) = word_of_int
     (of_bool (bit b 0) + 2 * of_bool (bit b 1) + 4 * of_bool (bit b 2) + 8 * of_bool (bit b 3) +
      16 * of_bool (bit b 4) + 32 * of_bool (bit b 5) + 64 * of_bool (bit b 6) +
      128 * of_bool (bit b 7))"
proof -
  have "uint b = horner_sum of_bool 2 (map (bit (uint b)) [0..<8])"
    using uint_lt2p [of b] by (simp only: horner_sum_bit_eq_take_bit) (simp add: take_bit_eq_mod)
  also have "\<dots> = of_bool (bit b 0) + 2 * of_bool (bit b 1) + 4 * of_bool (bit b 2) +
      8 * of_bool (bit b 3) + 16 * of_bool (bit b 4) + 32 * of_bool (bit b 5) +
      64 * of_bool (bit b 6) + 128 * of_bool (bit b 7)"
    by (simp add: upt_rec numeral_eq_Suc bit_uint_iff algebra_simps)
  finally show ?thesis by (metis word_of_int_uint)
qed

lemma write_get_bites: "write_symbol (get_bites (b # beyond)) = b"
  using byte_of_bits [of b] by (simp add: write_symbol_eq nth_get_bites)

interpretation bits: bit_codec "\<lambda>b. get_bites (b # beyond)" write_symbol for beyond
proof unfold_locales
  fix b x
  show "length (get_bites (b # beyond)) = 8" by simp
  show "write_symbol (get_bites (b # beyond)) = b" by (rule write_get_bites)
  assume "x \<in> set (get_bites (b # beyond))"
  then obtain i where "i < 8" "x = get_bites (b # beyond) ! i"
    by (auto simp: in_set_conv_nth)
  then show "x = 0 \<or> x = 1" by (simp add: nth_get_bites)
qed

text \<open>
  C6: whatever the heap holds behind the sender's one-byte buffer, \<open>write_symbol\<close> of the
  bits that \<open>get_bites\<close> computes is the byte itself, and the bits are eight zeros and ones.
\<close>

theorem bits_roundtrip:
  "write_symbol (get_bites (b # beyond)) = b \<and> length (get_bites (b # beyond)) = 8 \<and>
   set (get_bites (b # beyond)) \<subseteq> {0, 1}"
  using bits.bits_01 by (auto simp: write_get_bites)

end
