(* ===== verification/Signal_Copy.thy ===== *)
theory Signal_Copy
  imports Signal_Bits Posix_Files
begin

text \<open>
  \<open>Signal_copy/sender.c\<close> and \<open>Signal_copy/receiver.c\<close>: two processes that copy a file
  through signals, one bit a signal. Each program is a state machine whose steps end at
  its system calls; a process at a \<open>kill\<close> says what it sends, a process in \<open>sigwaitinfo\<close>
  takes the least pending signal of its set. The messages to the terminal and the
  measured time are left out.
\<close>

section \<open>Signals and pending sets\<close>

datatype signal = SIGINT | SIGUSR1 | SIGUSR2 | SIGALRM | SIGTERM

fun signo :: "signal \<Rightarrow> nat" where
  "signo SIGINT = 2"
| "signo SIGUSR1 = 10"
| "signo SIGUSR2 = 12"
| "signo SIGALRM = 14"
| "signo SIGTERM = 15"

lemma signo_inject [simp]: "signo a = signo b \<longleftrightarrow> a = b"
  by (cases a; cases b) auto

instantiation signal :: linorder
begin

definition less_eq_signal :: "signal \<Rightarrow> signal \<Rightarrow> bool" where
  "less_eq_signal a b \<longleftrightarrow> signo a \<le> signo b"

definition less_signal :: "signal \<Rightarrow> signal \<Rightarrow> bool" where
  "less_signal a b \<longleftrightarrow> signo a < signo b"

instance
  by standard (auto simp: less_eq_signal_def less_signal_def)

end

abbreviation "SIG_FINISH \<equiv> SIGTERM"
abbreviation "SIG_GET0 \<equiv> SIGUSR1"
abbreviation "SIG_GET1 \<equiv> SIGUSR2"
abbreviation "SIG_CONTINUE \<equiv> SIGALRM"
abbreviation "SIG_STOP \<equiv> SIGINT"

type_synonym pid = int

text \<open>
  Standard signals do not queue: a blocked signal that is already pending is dropped, and
  \<open>si_pid\<close> stays that of the first one.
\<close>

type_synonym pending = "signal \<Rightarrow> pid option"

definition deliver :: "signal \<Rightarrow> pid \<Rightarrow> pending \<Rightarrow> pending" where
  "deliver sig from p = (if p sig = None then p(sig \<mapsto> from) else p)"

text \<open>\<open>sigwaitinfo\<close> takes the lowest numbered pending signal of the set.\<close>

definition sigwaitinfo :: "signal list \<Rightarrow> pending \<Rightarrow> (signal \<times> pid \<times> pending) option" where
  "sigwaitinfo sigset p =
     (case find (\<lambda>s. p s \<noteq> None) (sort sigset) of
        None \<Rightarrow> None
      | Some s \<Rightarrow> Some (s, the (p s), p(s := None)))"

section \<open>sender.c\<close>

text \<open>
  Where the sender is: about to send one of its signals, in one of its two
  \<open>sigwaitinfo\<close> calls, or gone with an exit status.
\<close>

datatype sender_pc =
    SHello | SWaitHello | SBit | SAck | SForwardStop | SFinish | SExit int

record sender =
  s_pc :: sender_pc
  s_content :: "byte list"
  s_i :: nat
  s_bit :: nat
  s_arr :: "int list"
  s_signal :: signal

record sender_args =
  a_argv :: "byte list list"
  a_files :: fsys
  a_pid :: pid
  a_heap :: "byte list"

definition sender_sigset :: "signal list" where
  "sender_sigset = [SIG_FINISH, SIG_CONTINUE, SIG_STOP]"

text \<open>\<open>my_open\<close>, and \<open>file_size\<close> as the number of bytes there are.\<close>

definition sender_open :: "sender_args \<Rightarrow> (byte list, unit) outcome" where
  "sender_open a =
     (if length (a_argv a) = 3 then
        (case open_rdonly (a_files a) (a_argv a ! 1) of
           None \<Rightarrow> Exits 1 ()
         | Some n \<Rightarrow> Returns (f_data n) ())
      else Exits 0 ())"

text \<open>\<open>main\<close> reads \<open>argv[2]\<close> before anything has looked at \<open>argc\<close>.\<close>

definition sender_rec_pid :: "sender_args \<Rightarrow> (pid, unit) outcome" where
  "sender_rec_pid a =
     (if 2 < length (a_argv a) then Returns (atoi (a_argv a ! 2)) () else Faults ())"

definition sender_init :: sender where
  "sender_init = \<lparr>s_pc = SHello, s_content = [], s_i = 0, s_bit = 0, s_arr = [],
     s_signal = SIG_CONTINUE\<rparr>"

text \<open>The head of the \<open>while\<close> loop in \<open>main\<close>: the next byte, or out of the loop.\<close>

definition sender_loop :: "sender_args \<Rightarrow> sender \<Rightarrow> sender" where
  "sender_loop a s =
     (if s_i s < length (s_content s) \<and> s_signal s = SIG_CONTINUE
      then s\<lparr>s_arr := get_bites (s_content s ! s_i s # a_heap a), s_bit := 0, s_pc := SBit\<rparr>
      else s\<lparr>s_pc := SFinish\<rparr>)"

text \<open>\<open>send_bites\<close> returns \<open>sig\<close> to the loop.\<close>

definition sender_return :: "sender_args \<Rightarrow> signal \<Rightarrow> sender \<Rightarrow> sender" where
  "sender_return a sig s = sender_loop a (s\<lparr>s_signal := sig, s_i := s_i s + 1\<rparr>)"

text \<open>The end of a round of the \<open>for\<close> loop in \<open>send_bites\<close>.\<close>

definition sender_next_bit :: "sender_args \<Rightarrow> signal \<Rightarrow> sender \<Rightarrow> sender" where
  "sender_next_bit a sig s =
     (if s_bit s + 1 < 8 then s\<lparr>s_bit := s_bit s + 1, s_pc := SBit\<rparr>
      else sender_return a sig s)"

text \<open>The signal the sender is about to send to the receiver, and where it goes then.\<close>

fun sender_kill :: "sender_args \<Rightarrow> sender \<Rightarrow> (signal \<times> sender) option" where
  "sender_kill a s =
     (case s_pc s of
        SHello \<Rightarrow> Some (SIG_CONTINUE, s\<lparr>s_pc := SWaitHello\<rparr>)
      | SBit \<Rightarrow> Some (if s_arr s ! s_bit s = 0 then SIG_GET0 else SIG_GET1, s\<lparr>s_pc := SAck\<rparr>)
      | SForwardStop \<Rightarrow> Some (SIG_STOP, sender_return a SIG_STOP s)
      | SFinish \<Rightarrow> Some (SIG_FINISH, s\<lparr>s_pc := SExit 0\<rparr>)
      | _ \<Rightarrow> None)"

text \<open>What the sender does with a signal that \<open>sigwaitinfo\<close> returned.\<close>

fun sender_recv :: "sender_args \<Rightarrow> pid \<Rightarrow> signal \<Rightarrow> pid \<Rightarrow> sender \<Rightarrow> sender" where
  "sender_recv a rec_pid sig from s =
     (case s_pc s of
        SWaitHello \<Rightarrow>
          if sig = SIG_FINISH then s\<lparr>s_pc := SExit (a_pid a)\<rparr>
          else (case sender_open a of
                  Returns content _ \<Rightarrow> sender_loop a (s\<lparr>s_content := content, s_signal := sig, s_i := 0\<rparr>)
                | Exits e _ \<Rightarrow> s\<lparr>s_pc := SExit e\<rparr>
                | _ \<Rightarrow> s)
      | SAck \<Rightarrow>
          if from = rec_pid then
            (case sig of
               SIGTERM \<Rightarrow> sender_return a SIG_FINISH s
             | SIGALRM \<Rightarrow> sender_next_bit a sig s
             | _ \<Rightarrow> sender_next_bit a sig s)
          else if sig = SIG_STOP then s\<lparr>s_pc := SForwardStop\<rparr>
          else sender_next_bit a sig s
      | _ \<Rightarrow> s)"

section \<open>receiver.c\<close>

datatype receiver_pc =
    RWaitFirst | RHello | RLoop | RWait | RKill pid | RStopSender | RDone

record receiver =
  r_pc :: receiver_pc
  r_arr :: "int list"
  r_len :: nat
  r_flag :: bool
  r_sen :: pid
  r_out :: "byte list"

definition receiver_sigset :: "signal list" where
  "receiver_sigset = [SIG_FINISH, SIG_GET0, SIG_GET1, SIG_CONTINUE, SIG_STOP]"

text \<open>\<open>my_open\<close>: the output file, created or truncated.\<close>

definition receiver_open :: "byte list list \<Rightarrow> fsys \<Rightarrow> (unit, fsys) outcome" where
  "receiver_open argv fs =
     (if length argv = 2 then
        (case fs (argv ! 1) of
           None \<Rightarrow> Returns () (fs(argv ! 1 \<mapsto> new_file))
         | Some n \<Rightarrow> if f_writable n \<and> f_regular n then Returns () (fs(argv ! 1 \<mapsto> n\<lparr>f_data := []\<rparr>))
                    else Exits 1 fs)
      else Exits 0 fs)"

definition receiver_init :: "int list \<Rightarrow> receiver" where
  "receiver_init heap = \<lparr>r_pc = RWaitFirst, r_arr = heap, r_len = 0, r_flag = True, r_sen = 0,
     r_out = []\<rparr>"

definition get_0 :: "receiver \<Rightarrow> receiver" where
  "get_0 r = r\<lparr>r_arr := (r_arr r)[r_len r := 0], r_len := r_len r + 1\<rparr>"

definition get_1 :: "receiver \<Rightarrow> receiver" where
  "get_1 r = r\<lparr>r_arr := (r_arr r)[r_len r := 1], r_len := r_len r + 1\<rparr>"

definition receiver_finish :: "receiver \<Rightarrow> receiver" where
  "receiver_finish r = r\<lparr>r_flag := False\<rparr>"

text \<open>\<open>write_symbol\<close> with its effects: the byte goes to the file, the count back to zero.\<close>

definition receiver_write_symbol :: "receiver \<Rightarrow> receiver" where
  "receiver_write_symbol r = r\<lparr>r_out := r_out r @ [write_symbol (r_arr r)], r_len := 0\<rparr>"

text \<open>The \<open>switch\<close> on a signal of the sender and the test after it.\<close>

definition receiver_data :: "signal \<Rightarrow> receiver \<Rightarrow> receiver" where
  "receiver_data sig r =
     (let r = (case sig of
                 SIGUSR1 \<Rightarrow> get_0 r
               | SIGUSR2 \<Rightarrow> get_1 r
               | SIGTERM \<Rightarrow> receiver_finish r
               | SIGINT \<Rightarrow> r\<lparr>r_flag := False\<rparr>
               | SIGALRM \<Rightarrow> r)
      in if r_len r = 8 then receiver_write_symbol r else r)"

text \<open>The head of the \<open>while\<close> loop.\<close>

definition receiver_loop :: "receiver \<Rightarrow> receiver" where
  "receiver_loop r = r\<lparr>r_pc := (if r_flag r then RLoop else RDone)\<rparr>"

text \<open>Whom the receiver is about to signal, with what, and where it goes then.\<close>

fun receiver_kill :: "receiver \<Rightarrow> (pid \<times> signal \<times> receiver) option" where
  "receiver_kill r =
     (case r_pc r of
        RHello \<Rightarrow> Some (r_sen r, SIG_CONTINUE, receiver_loop r)
      | RLoop \<Rightarrow> Some (r_sen r, SIG_CONTINUE, r\<lparr>r_pc := RWait\<rparr>)
      | RKill p \<Rightarrow> Some (p, SIG_FINISH, receiver_loop r)
      | RStopSender \<Rightarrow> Some (r_sen r, SIG_FINISH, receiver_loop (r\<lparr>r_flag := False\<rparr>))
      | _ \<Rightarrow> None)"

fun receiver_recv :: "pid \<Rightarrow> signal \<Rightarrow> pid \<Rightarrow> receiver \<Rightarrow> receiver" where
  "receiver_recv my_pid sig from r =
     (case r_pc r of
        RWaitFirst \<Rightarrow> r\<lparr>r_sen := from, r_pc := RHello\<rparr>
      | RWait \<Rightarrow>
          if r_sen r = from then receiver_loop (receiver_data sig r)
          else if sig = SIG_STOP then r\<lparr>r_pc := RStopSender\<rparr>
          else if from \<noteq> my_pid then r\<lparr>r_pc := RKill from\<rparr>
          else receiver_loop r
      | _ \<Rightarrow> r)"

section \<open>The two processes together\<close>

record copy_sys =
  sys_s :: sender
  sys_r :: receiver
  sys_sp :: pending
  sys_rp :: pending

datatype who = Sender | Receiver

text \<open>
  One step of one of the processes: its next \<open>kill\<close>, or its \<open>sigwaitinfo\<close> when a signal of
  its set is pending. A process that cannot move gives \<open>None\<close>.
\<close>

fun copy_step :: "sender_args \<Rightarrow> pid \<Rightarrow> who \<Rightarrow> copy_sys \<Rightarrow> copy_sys option" where
  "copy_step a rpid Sender st =
     (case sender_rec_pid a of
        Returns rec_pid _ \<Rightarrow>
          (case sender_kill a (sys_s st) of
             Some (sig, s) \<Rightarrow>
               Some (st\<lparr>sys_s := s,
                        sys_rp := (if rec_pid = rpid then deliver sig (a_pid a) (sys_rp st)
                                   else sys_rp st)\<rparr>)
           | None \<Rightarrow>
               if s_pc (sys_s st) = SWaitHello \<or> s_pc (sys_s st) = SAck then
                 (case sigwaitinfo sender_sigset (sys_sp st) of
                    Some (sig, from, sp) \<Rightarrow>
                      Some (st\<lparr>sys_s := sender_recv a rec_pid sig from (sys_s st), sys_sp := sp\<rparr>)
                  | None \<Rightarrow> None)
               else None)
      | _ \<Rightarrow> None)"
| "copy_step a rpid Receiver st =
     (case receiver_kill (sys_r st) of
        Some (p, sig, r) \<Rightarrow>
          Some (st\<lparr>sys_r := r,
                   sys_sp := (if p = a_pid a then deliver sig rpid (sys_sp st) else sys_sp st)\<rparr>)
      | None \<Rightarrow>
          if r_pc (sys_r st) = RWaitFirst \<or> r_pc (sys_r st) = RWait then
            (case sigwaitinfo receiver_sigset (sys_rp st) of
               Some (sig, from, rp) \<Rightarrow>
                 Some (st\<lparr>sys_r := receiver_recv rpid sig from (sys_r st), sys_rp := rp\<rparr>)
             | None \<Rightarrow> None)
          else None)"

fun copy_run :: "sender_args \<Rightarrow> pid \<Rightarrow> who list \<Rightarrow> copy_sys \<Rightarrow> copy_sys option" where
  "copy_run a rpid [] st = Some st"
| "copy_run a rpid (w # ws) st =
     (case copy_step a rpid w st of None \<Rightarrow> None | Some st' \<Rightarrow> copy_run a rpid ws st')"

definition copy_init :: "int list \<Rightarrow> copy_sys" where
  "copy_init heap = \<lparr>sys_s = sender_init, sys_r = receiver_init heap, sys_sp = Map.empty,
     sys_rp = Map.empty\<rparr>"

section \<open>The least pending signal\<close>

lemma sort_sender_sigset: "sort sender_sigset = [SIG_STOP, SIG_CONTINUE, SIG_FINISH]"
  by (simp add: sender_sigset_def less_eq_signal_def)

lemma sort_receiver_sigset:
  "sort receiver_sigset = [SIG_STOP, SIG_GET0, SIG_GET1, SIG_CONTINUE, SIG_FINISH]"
  by (simp add: receiver_sigset_def less_eq_signal_def)

lemma sigwaitinfo_None: "sigwaitinfo sigset p = None \<longleftrightarrow> (\<forall>s\<in>set sigset. p s = None)"
proof -
  have "sigwaitinfo sigset p = None \<longleftrightarrow> find (\<lambda>s. p s \<noteq> None) (sort sigset) = None"
    unfolding sigwaitinfo_def by (simp split: option.split)
  then show ?thesis by (auto simp: find_None_iff)
qed

lemma sigwaitinfo_empty [simp]: "sigwaitinfo sigset Map.empty = None"
  by (simp add: sigwaitinfo_None)

lemma sigwaitinfo_single:
  assumes "s \<in> set sigset"
  shows "sigwaitinfo sigset [s \<mapsto> p] = Some (s, p, Map.empty)"
proof -
  have "find (\<lambda>x. x = s) xs = Some s" if "s \<in> set xs" for xs
    using that by (induction xs) auto
  moreover have "(\<lambda>x. [s \<mapsto> p] x \<noteq> None) = (\<lambda>x. x = s)" by auto
  ultimately show ?thesis using assms by (simp add: sigwaitinfo_def)
qed

lemma deliver_empty [simp]: "deliver s p Map.empty = [s \<mapsto> p]"
  by (simp add: deliver_def)

lemma deliver_again [simp]: "deliver s p [s \<mapsto> q] = [s \<mapsto> q]"
  by (simp add: deliver_def)

lemma sigset_mem [simp]:
  "SIG_CONTINUE \<in> set sender_sigset" "SIG_FINISH \<in> set sender_sigset"
  "SIG_STOP \<in> set sender_sigset" "s \<in> set receiver_sigset"
  by (cases s; simp add: sender_sigset_def receiver_sigset_def)+

section \<open>One signal under way\<close>

text \<open>
  The phases of a copy in which exactly one signal is under way. The number counts the
  steps that are left: four a bit, two to end.
\<close>

definition rcv_at :: "sender_args \<Rightarrow> byte list \<Rightarrow> nat \<Rightarrow> nat \<Rightarrow> receiver_pc \<Rightarrow> receiver \<Rightarrow> bool" where
  "rcv_at a content i k pc r \<longleftrightarrow>
     r_pc r = pc \<and> r_sen r = a_pid a \<and> (r_flag r \<longleftrightarrow> pc \<noteq> RDone) \<and> length (r_arr r) = 8 \<and>
     r_len r = k \<and> r_out r = take i content \<and>
     (i < length content \<longrightarrow> take k (r_arr r) = take k (get_bites (content ! i # a_heap a)))"

definition snd_at :: "sender_args \<Rightarrow> byte list \<Rightarrow> nat \<Rightarrow> nat \<Rightarrow> sender_pc \<Rightarrow> sender \<Rightarrow> bool" where
  "snd_at a content i k pc s \<longleftrightarrow>
     s_pc s = pc \<and> s_content s = content \<and> s_i s = i \<and> s_bit s = k \<and> i < length content \<and> k < 8 \<and>
     s_arr s = get_bites (content ! i # a_heap a) \<and> s_signal s = SIG_CONTINUE"

definition bit_signal :: "int \<Rightarrow> signal" where
  "bit_signal x = (if x = 0 then SIG_GET0 else SIG_GET1)"

text \<open>After bit \<open>k\<close> of byte \<open>i\<close> the receiver expects this one.\<close>

definition next_bit :: "nat \<Rightarrow> nat \<Rightarrow> nat \<times> nat" where
  "next_bit i k = (if k + 1 < 8 then (i, k + 1) else (i + 1, 0))"

inductive copy_phase :: "sender_args \<Rightarrow> pid \<Rightarrow> byte list \<Rightarrow> nat \<Rightarrow> copy_sys \<Rightarrow> bool"
  for a rpid content where
  hello: "copy_phase a rpid content (32 * length content + 3)
      \<lparr>sys_s = s, sys_r = r, sys_sp = [SIG_CONTINUE \<mapsto> rpid], sys_rp = Map.empty\<rparr>"
    if "s_pc s = SWaitHello" "rcv_at a content 0 0 RWait r"
| ready: "copy_phase a rpid content (32 * (length content - i) - 4 * k + 2)
      \<lparr>sys_s = s, sys_r = r, sys_sp = Map.empty, sys_rp = Map.empty\<rparr>"
    if "snd_at a content i k SBit s" "rcv_at a content i k RWait r"
| sent: "copy_phase a rpid content (32 * (length content - i) - 4 * k + 1)
      \<lparr>sys_s = s, sys_r = r, sys_sp = Map.empty,
       sys_rp = [bit_signal (get_bites (content ! i # a_heap a) ! k) \<mapsto> a_pid a]\<rparr>"
    if "snd_at a content i k SAck s" "rcv_at a content i k RWait r"
| got: "copy_phase a rpid content (32 * (length content - i) - 4 * k)
      \<lparr>sys_s = s, sys_r = r, sys_sp = Map.empty, sys_rp = Map.empty\<rparr>"
    if "snd_at a content i k SAck s" "next_bit i k = (i', k')" "rcv_at a content i' k' RLoop r"
| acked: "copy_phase a rpid content (32 * (length content - i) - 4 * k - 1)
      \<lparr>sys_s = s, sys_r = r, sys_sp = [SIG_CONTINUE \<mapsto> rpid], sys_rp = Map.empty\<rparr>"
    if "snd_at a content i k SAck s" "next_bit i k = (i', k')" "rcv_at a content i' k' RWait r"
| ending: "copy_phase a rpid content 2
      \<lparr>sys_s = s, sys_r = r, sys_sp = Map.empty, sys_rp = Map.empty\<rparr>"
    if "s_pc s = SFinish" "rcv_at a content (length content) 0 RWait r"
| finish: "copy_phase a rpid content 1
      \<lparr>sys_s = s, sys_r = r, sys_sp = Map.empty, sys_rp = [SIG_FINISH \<mapsto> a_pid a]\<rparr>"
    if "s_pc s = SExit 0" "rcv_at a content (length content) 0 RWait r"
| finished: "copy_phase a rpid content 0
      \<lparr>sys_s = s, sys_r = r, sys_sp = Map.empty, sys_rp = Map.empty\<rparr>"
    if "s_pc s = SExit 0" "rcv_at a content (length content) 0 RDone r"

lemma sender_loop_phase:
  assumes "s_content s = content" "s_i s = i" "s_signal s = SIG_CONTINUE" "i \<le> length content"
    and "rcv_at a content i 0 RWait r"
  shows "copy_phase a rpid content (32 * (length content - i) + 2)
    \<lparr>sys_s = sender_loop a s, sys_r = r, sys_sp = Map.empty, sys_rp = Map.empty\<rparr>"
proof (cases "i < length content")
  case True
  then have "snd_at a content i 0 SBit (sender_loop a s)"
    using assms by (simp add: snd_at_def sender_loop_def)
  from copy_phase.ready [OF this assms(5)] show ?thesis by simp
next
  case False
  with assms have "i = length content" "s_pc (sender_loop a s) = SFinish"
    by (simp_all add: sender_loop_def)
  with copy_phase.ending [of "sender_loop a s" a content r rpid] assms(5) show ?thesis
    by (simp add: numeral_2_eq_2)
qed

lemma receiver_gets_bit:
  assumes "rcv_at a content i k RWait r" "i < length content" "k < 8" "next_bit i k = (i', k')"
    and "x = get_bites (content ! i # a_heap a) ! k"
  shows "rcv_at a content i' k' RLoop (receiver_recv rpid (bit_signal x) (a_pid a) r)"
proof -
  let ?b = "get_bites (content ! i # a_heap a)"
  let ?r = "r\<lparr>r_arr := (r_arr r)[k := x], r_len := k + 1\<rparr>"
  have x: "x = 0 \<or> x = 1"
    using bits.nth_bit_01 [OF assms(3)] assms(5) by blast
  have r: "r_pc r = RWait" "r_sen r = a_pid a" "r_flag r" "length (r_arr r) = 8" "r_len r = k"
    "r_out r = take i content" "take k (r_arr r) = take k ?b"
    using assms(1,2) by (simp_all add: rcv_at_def)
  have step: "take (Suc k) ((r_arr r)[k := x]) = take (Suc k) ?b"
    using bits.take_bits_step [OF r(7) r(4) assms(3)] assms(5) by simp
  have data: "receiver_data (bit_signal x) r = (if k + 1 = 8 then receiver_write_symbol ?r else ?r)"
    using x r(5) by (auto simp: receiver_data_def bit_signal_def get_0_def get_1_def)
  have recv: "receiver_recv rpid (bit_signal x) (a_pid a) r =
      receiver_loop (receiver_data (bit_signal x) r)"
    using r by simp
  show ?thesis
  proof (cases "k + 1 = 8")
    case True
    then have "k = 7" by simp
    have "write_symbol ((r_arr r)[k := x]) = content ! i"
      using bits.of_bits_complete [of "(r_arr r)[k := x]" "content ! i" "a_heap a"] step r(4) \<open>k = 7\<close> by simp
    with \<open>k = 7\<close> assms(2,4) r show ?thesis
      unfolding recv data
      by (auto simp: rcv_at_def receiver_loop_def receiver_write_symbol_def next_bit_def
          take_Suc_conv_app_nth)
  next
    case False
    with assms(3,4) r step show ?thesis
      unfolding recv data
      by (auto simp: rcv_at_def receiver_loop_def next_bit_def)
  qed
qed


definition step_to :: "sender_args \<Rightarrow> pid \<Rightarrow> byte list \<Rightarrow> nat \<Rightarrow> copy_sys \<Rightarrow> bool" where
  "step_to a rpid content m st \<longleftrightarrow>
     (\<exists>w st'. copy_step a rpid w st = Some st' \<and> copy_phase a rpid content m st' \<and>
        (\<forall>w'. w' \<noteq> w \<longrightarrow> copy_step a rpid w' st = None))"

lemma step_toI:
  assumes "copy_step a rpid w st = Some st'" and "copy_phase a rpid content m st'"
    and "copy_step a rpid (case w of Sender \<Rightarrow> Receiver | Receiver \<Rightarrow> Sender) st = None"
  shows "step_to a rpid content m st"
  unfolding step_to_def
proof (intro exI conjI allI impI)
  fix w' assume "w' \<noteq> w"
  then have "w' = (case w of Sender \<Rightarrow> Receiver | Receiver \<Rightarrow> Sender)"
    by (cases w; cases w') auto
  with assms(3) show "copy_step a rpid w' st = None" by simp
qed (use assms in auto)

lemma copy_phase_step:
  assumes ph: "copy_phase a rpid content m st" and m: "m = Suc m'"
    and cfg: "sender_rec_pid a = Returns rpid ()" "sender_open a = Returns content ()"
  shows "step_to a rpid content m' st"
  using ph
proof cases
  case (hello s r)
  have m': "m' = 32 * (length content - 0) + 2" using hello m by simp
  let ?s = "s\<lparr>s_content := content, s_signal := SIG_CONTINUE, s_i := 0\<rparr>"
  show ?thesis unfolding m' hello(2)
    by (rule step_toI [of _ _ Sender], simp add: hello cfg sigwaitinfo_single)
      (rule sender_loop_phase, use hello cfg in \<open>simp_all add: rcv_at_def\<close>)
next
  case (ready i k s r)
  then have m': "m' = 32 * (length content - i) - 4 * k + 1" using m by simp
  have s: "s_pc s = SBit" "s_bit s = k" "s_arr s = get_bites (content ! i # a_heap a)"
    using ready(3) by (simp_all add: snd_at_def)
  have "snd_at a content i k SAck (s\<lparr>s_pc := SAck\<rparr>)"
    using ready(3) by (simp add: snd_at_def)
  from copy_phase.sent [OF this ready(4)] ready(4) show ?thesis unfolding m' ready(2)
    by (intro step_toI [of _ _ Sender]) (auto simp: s cfg bit_signal_def rcv_at_def)
next
  case (sent i k s r)
  then have m': "m' = 32 * (length content - i) - 4 * k" using m by simp
  obtain i' k' where nb: "next_bit i k = (i', k')" by fastforce
  have s: "s_pc s = SAck" "i < length content" "k < 8" using sent(3) by (simp_all add: snd_at_def)
  from receiver_gets_bit [OF sent(4) s(2,3) nb refl]
  have "rcv_at a content i' k' RLoop (receiver_recv rpid (bit_signal (get_bites (content ! i # a_heap a) ! k)) (a_pid a) r)" .
  from copy_phase.got [OF sent(3) nb this] sent(4) show ?thesis unfolding m' sent(2)
    by (intro step_toI [of _ _ Receiver])
      (auto simp: s cfg rcv_at_def sigwaitinfo_single simp del: receiver_recv.simps)
next
  case (got i k s i' k' r)
  then have m': "m' = 32 * (length content - i) - 4 * k - 1" using m by simp
  have s: "s_pc s = SAck" using got(3) by (simp add: snd_at_def)
  have "rcv_at a content i' k' RWait (r\<lparr>r_pc := RWait\<rparr>)"
    using got(5) by (simp add: rcv_at_def)
  from copy_phase.acked [OF got(3,4) this] got(5) show ?thesis unfolding m' got(2)
    by (intro step_toI [of _ _ Receiver]) (auto simp: s cfg rcv_at_def)
next
  case (acked i k s i' k' r)
  have s: "s_pc s = SAck" "i < length content" "k < 8" "s_content s = content" "s_i s = i"
    "s_bit s = k" "s_arr s = get_bites (content ! i # a_heap a)" "s_signal s = SIG_CONTINUE"
    using acked(3) by (simp_all add: snd_at_def)
  have step: "copy_step a rpid Sender st =
      Some \<lparr>sys_s = sender_next_bit a SIG_CONTINUE s, sys_r = r, sys_sp = Map.empty, sys_rp = Map.empty\<rparr>"
    "copy_step a rpid Receiver st = None"
    using acked(5) by (simp_all add: acked(2) s cfg sigwaitinfo_single rcv_at_def)
  show ?thesis
  proof (cases "k + 1 < 8")
    case True
    then have m': "m' = 32 * (length content - i) - 4 * (k + 1) + 2" using acked(1) m s(2) by simp
    from True acked(4) have nb: "i' = i" "k' = k + 1" by (simp_all add: next_bit_def)
    have "snd_at a content i (k + 1) SBit (sender_next_bit a SIG_CONTINUE s)"
      using True s by (simp add: snd_at_def sender_next_bit_def)
    from copy_phase.ready [OF this] acked(5) nb show ?thesis unfolding m'
      by (intro step_toI [of _ _ Sender, OF step(1)]) (simp_all only: who.case step(2))
  next
    case False
    then have "k = 7" using s(3) by simp
    from False acked(4) have nb: "i' = i + 1" "k' = 0" by (simp_all add: next_bit_def)
    have m': "m' = 32 * (length content - i') + 2"
      using acked(1) m s(2) \<open>k = 7\<close> unfolding nb(1) by linarith
    let ?s = "s\<lparr>s_signal := SIG_CONTINUE, s_i := s_i s + 1\<rparr>"
    have "copy_phase a rpid content (32 * (length content - i') + 2)
        \<lparr>sys_s = sender_loop a ?s, sys_r = r, sys_sp = Map.empty, sys_rp = Map.empty\<rparr>"
      by (rule sender_loop_phase) (use s nb acked(5) in simp_all)
    moreover have "sender_next_bit a SIG_CONTINUE s = sender_loop a ?s"
      using False s by (simp add: sender_next_bit_def sender_return_def)
    ultimately show ?thesis unfolding m'
      by (intro step_toI [of _ _ Sender, OF step(1)]) (simp_all only: who.case step(2))
  qed
next
  case (ending s r)
  then have m': "m' = 1" using m by simp
  from copy_phase.finish [of "s\<lparr>s_pc := SExit 0\<rparr>" a content r rpid] ending(4)
  show ?thesis unfolding m' ending(2)
    by (intro step_toI [of _ _ Sender]) (auto simp: ending cfg rcv_at_def)
next
  case (finish s r)
  then have m': "m' = 0" using m by simp
  have "rcv_at a content (length content) 0 RDone (receiver_recv rpid SIG_FINISH (a_pid a) r)"
    using finish(4) by (auto simp: rcv_at_def receiver_data_def receiver_finish_def receiver_loop_def)
  from copy_phase.finished [OF finish(3) this] finish(4) show ?thesis unfolding m' finish(2)
    by (intro step_toI [of _ _ Receiver])
      (auto simp: finish(3) cfg rcv_at_def sigwaitinfo_single simp del: receiver_recv.simps)
next
  case finished
  with m show ?thesis by simp
qed

lemma copy_phase_0:
  assumes "copy_phase a rpid content 0 st"
  shows "sys_sp st = Map.empty \<and> sys_rp st = Map.empty \<and> s_pc (sys_s st) = SExit 0 \<and>
    rcv_at a content (length content) 0 RDone (sys_r st)"
  using assms
proof cases
  case (got i k s i' k' r)
  then have "i < length content" "k < 8" by (simp_all add: snd_at_def)
  with got(1) show ?thesis by linarith
next
  case (acked i k s i' k' r)
  then have "i < length content" "k < 8" by (simp_all add: snd_at_def)
  with acked(1) show ?thesis by linarith
qed simp_all

lemma copy_phase_stuck:
  assumes "copy_phase a rpid content 0 st" and "sender_rec_pid a = Returns rpid ()"
  shows "copy_step a rpid w st = None"
  using copy_phase_0 [OF assms(1)] assms(2)
  by (cases w) (simp_all add: rcv_at_def)

text \<open>
  A whole run: as many steps as the phase counts, no choice on the way, and nothing left
  to do at the end.
\<close>

lemma copy_run_phase:
  assumes "copy_phase a rpid content m st"
    and cfg: "sender_rec_pid a = Returns rpid ()" "sender_open a = Returns content ()"
  shows "\<exists>sched st'. length sched = m \<and> copy_run a rpid sched st = Some st' \<and>
    copy_phase a rpid content 0 st' \<and>
    (\<forall>ws st2. copy_run a rpid ws st = Some st2 \<longrightarrow> prefix ws sched)"
  using assms(1)
proof (induction m arbitrary: st)
  case 0
  have "ws = []" if "copy_run a rpid ws st = Some st2" for ws st2
    using that copy_phase_stuck [OF 0 cfg(1)] by (cases ws) auto
  with 0 show ?case by (intro exI [of _ "[]"] exI [of _ st]) auto
next
  case (Suc m)
  from copy_phase_step [OF Suc.prems refl cfg] obtain w st1
    where w: "copy_step a rpid w st = Some st1" "copy_phase a rpid content m st1"
      "\<And>w'. w' \<noteq> w \<Longrightarrow> copy_step a rpid w' st = None"
    unfolding step_to_def by blast
  from Suc.IH [OF w(2)] obtain sched st' where IH: "length sched = m"
    "copy_run a rpid sched st1 = Some st'" "copy_phase a rpid content 0 st'"
    "\<And>ws st2. copy_run a rpid ws st1 = Some st2 \<Longrightarrow> prefix ws sched" by blast
  have "prefix ws (w # sched)" if run: "copy_run a rpid ws st = Some st2" for ws st2
  proof (cases ws)
    case (Cons w' ws')
    with run w(3) have "w' = w" by (cases "w' = w") auto
    with Cons run w(1) IH(4) show ?thesis by simp
  qed simp
  with w IH show ?case by (intro exI [of _ "w # sched"] exI [of _ st']) auto
qed

section \<open>The receiver alone\<close>

text \<open>The receiver on its own, with any signals from anybody: it never overruns \<open>arr\<close>.\<close>

inductive receiver_reach :: "pid \<Rightarrow> int list \<Rightarrow> receiver \<Rightarrow> bool" for my_pid heap where
  start: "receiver_reach my_pid heap (receiver_init heap)"
| kill: "receiver_reach my_pid heap r \<Longrightarrow> receiver_kill r = Some (p, sig, r') \<Longrightarrow>
    receiver_reach my_pid heap r'"
| recv: "receiver_reach my_pid heap r \<Longrightarrow> receiver_kill r = None \<Longrightarrow>
    receiver_reach my_pid heap (receiver_recv my_pid sig from r)"

definition receiver_inv :: "receiver \<Rightarrow> bool" where
  "receiver_inv r \<longleftrightarrow> length (r_arr r) = 8 \<and> r_len r < 8"

lemma receiver_data_inv: "receiver_inv r \<Longrightarrow> receiver_inv (receiver_data sig r)"
  by (cases sig) (auto simp: receiver_inv_def receiver_data_def get_0_def get_1_def
      receiver_finish_def receiver_write_symbol_def Let_def)

lemma receiver_loop_inv [simp]: "receiver_inv (receiver_loop r) = receiver_inv r"
  by (simp add: receiver_inv_def receiver_loop_def)

lemma receiver_inv_pc [simp]: "receiver_inv (r\<lparr>r_pc := pc\<rparr>) = receiver_inv r"
  "receiver_inv (r\<lparr>r_flag := f\<rparr>) = receiver_inv r" "receiver_inv (r\<lparr>r_sen := p\<rparr>) = receiver_inv r"
  by (simp_all add: receiver_inv_def)

lemma receiver_recv_inv: "receiver_inv r \<Longrightarrow> receiver_inv (receiver_recv my_pid sig from r)"
  by (cases "r_pc r") (auto simp: receiver_data_inv)

lemma receiver_kill_inv: "receiver_inv r \<Longrightarrow> receiver_kill r = Some (p, sig, r') \<Longrightarrow> receiver_inv r'"
  by (cases "r_pc r") auto

lemma receiver_reach_inv: "receiver_reach my_pid heap r \<Longrightarrow> length heap = 8 \<Longrightarrow> receiver_inv r"
proof (induction rule: receiver_reach.induct)
  case start
  then show ?case by (simp add: receiver_inv_def receiver_init_def)
qed (blast intro: receiver_recv_inv receiver_kill_inv)+

text \<open>
  The two processes after the handshake, when the receiver's two \<open>SIG_CONTINUE\<close> have merged
  into one pending signal before the sender looked.
\<close>

definition copy_synced :: "sender_args \<Rightarrow> pid \<Rightarrow> copy_sys \<Rightarrow> bool" where
  "copy_synced a rpid st \<longleftrightarrow>
     s_pc (sys_s st) = SWaitHello \<and> sys_sp st = [SIG_CONTINUE \<mapsto> rpid] \<and> sys_rp st = Map.empty \<and>
     r_pc (sys_r st) = RWait \<and> r_sen (sys_r st) = a_pid a \<and> r_flag (sys_r st) \<and>
     length (r_arr (sys_r st)) = 8 \<and> r_len (sys_r st) = 0 \<and> r_out (sys_r st) = []"

section \<open>Properties\<close>

text \<open>
  C4: once the handshake has left a single \<open>SIG_CONTINUE\<close> pending, the copy is deterministic
  and exact. There is one schedule of \<open>32 n + 3\<close> steps for a file of \<open>n\<close> bytes, every run is
  a beginning of it, and at its end the sender has exited with 0, the receiver has left its
  loop, and the output is the file.
\<close>

theorem signal_copy_exact:
  assumes "copy_synced a rpid st" and "sender_rec_pid a = Returns rpid ()"
    and "sender_open a = Returns content ()"
  shows "\<exists>sched st'. copy_run a rpid sched st = Some st' \<and>
    length sched = 32 * length content + 3 \<and>
    s_pc (sys_s st') = SExit 0 \<and> r_pc (sys_r st') = RDone \<and> r_out (sys_r st') = content \<and>
    (\<forall>ws st2. copy_run a rpid ws st = Some st2 \<longrightarrow> prefix ws sched)"
proof -
  have "copy_phase a rpid content (32 * length content + 3) st"
    using copy_phase.hello [of "sys_s st" a content "sys_r st" rpid] assms(1)
    by (cases st) (simp add: copy_synced_def rcv_at_def)
  from copy_run_phase [OF this assms(2,3)] obtain sched st' where
    run: "length sched = 32 * length content + 3" "copy_run a rpid sched st = Some st'"
      "copy_phase a rpid content 0 st'"
      "\<forall>ws st2. copy_run a rpid ws st = Some st2 \<longrightarrow> prefix ws sched"
    by blast
  from copy_phase_0 [OF run(3)] have "s_pc (sys_s st') = SExit 0" "r_pc (sys_r st') = RDone"
    "r_out (sys_r st') = content"
    by (simp_all add: rcv_at_def)
  with run show ?thesis by blast
qed

theorem signal_copy_exact_witness:
  "\<exists>a st sched st'. copy_run a 2 [Sender, Receiver, Receiver, Receiver]
       (copy_init (replicate 8 7)) = Some st \<and> copy_run a 2 sched st = Some st' \<and>
     length sched = 67 \<and> r_pc (sys_r st') = RDone \<and> r_out (sys_r st') = [200, 13]"
proof -
  define a where "a = \<lparr>a_argv = [cstr ''s'', cstr ''f'', cstr ''2''],
    a_files = [cstr ''f'' \<mapsto> new_file\<lparr>f_data := [200, 13]\<rparr>], a_pid = 1, a_heap = [9, 9, 9]\<rparr>"
  have pid: "sender_rec_pid a = Returns 2 ()"
    using atoi_digits [of "[50]" "[]"]
    by (simp add: a_def sender_rec_pid_def is_digit_def dec_value_def digit_val_def)
  have content: "sender_open a = Returns [200, 13] ()"
    by (simp add: a_def sender_open_def open_rdonly_def new_file_def)
  have "a_pid a = 1" by (simp add: a_def)
  then obtain st where st: "copy_run a 2 [Sender, Receiver, Receiver, Receiver]
      (copy_init (replicate 8 7)) = Some st" "copy_synced a 2 st"
    by (simp add: pid copy_init_def sender_init_def receiver_init_def sigwaitinfo_single
        receiver_loop_def copy_synced_def)
  from signal_copy_exact [OF st(2) pid content] st(1) show ?thesis by auto
qed

text \<open>
  The handshake can also leave two \<open>SIG_CONTINUE\<close> for the sender, when it takes the first
  before the receiver sends the second. Then it runs one bit ahead, two equal bits can
  merge into one pending signal, and the copy ends normally with a wrong file: here the
  file of one zero byte arrives empty.
\<close>

theorem signal_copy_race:
  "\<exists>a sched. sender_open a = Returns [0] () \<and>
     map_option (\<lambda>st. (s_pc (sys_s st), r_pc (sys_r st), r_out (sys_r st)))
       (copy_run a 2 sched (copy_init [0, 0, 0, 0, 0, 0, 0, 0])) = Some (SExit 0, RDone, [])"
proof -
  define a where "a = \<lparr>a_argv = [cstr ''s'', cstr ''f'', cstr ''2''],
    a_files = [cstr ''f'' \<mapsto> new_file\<lparr>f_data := [0]\<rparr>], a_pid = 1, a_heap = [0, 0, 0]\<rparr>"
  have facts: "sender_rec_pid a = Returns 2 ()" "sender_open a = Returns [0] ()" "a_pid a = 1"
    using atoi_digits [of "[50]" "[]"]
    by (simp_all add: a_def sender_rec_pid_def is_digit_def dec_value_def digit_val_def
        sender_open_def open_rdonly_def new_file_def)
  have bits: "get_bites (0 # a_heap a) = [0, 0, 0, 0, 0, 0, 0, 0]"
    by (simp add: a_def get_bites_def load_unsigned_def numeral_eq_Suc)
  let ?sched = "[Sender, Receiver, Receiver, Sender, Receiver, Sender, Sender, Sender, Receiver,
    Receiver, Sender] @ concat (replicate (Suc (Suc (Suc (Suc (Suc (Suc 0)))))) [Sender, Receiver, Receiver, Sender]) @ [Sender, Receiver]"
  have "map_option (\<lambda>st. (s_pc (sys_s st), r_pc (sys_r st), r_out (sys_r st)))
      (copy_run a 2 ?sched (copy_init [0, 0, 0, 0, 0, 0, 0, 0])) = Some (SExit 0, RDone, [])"
    by (simp add: facts bits copy_init_def sender_init_def receiver_init_def sigwaitinfo_single
        receiver_loop_def sender_loop_def sender_next_bit_def sender_return_def receiver_data_def
        receiver_finish_def get_0_def get_1_def)
  with facts show ?thesis by blast
qed

text \<open>
  C7: whatever signals arrive from whatever processes, the receiver never has more than
  seven bits waiting when it stores the next one, so it stays inside its array of eight.
\<close>

theorem receiver_never_overruns:
  assumes "receiver_reach my_pid heap r" and "length heap = 8"
  shows "r_len r < 8 \<and> length (r_arr r) = 8"
  using receiver_reach_inv [OF assms] by (simp add: receiver_inv_def)

theorem receiver_never_overruns_witness:
  "\<exists>r. receiver_reach 2 (replicate 8 0) r \<and> r_pc r = RHello \<and> r_len r < 8 \<and> length (r_arr r) = 8"
proof -
  have reach: "receiver_reach 2 (replicate 8 0)
      (receiver_recv 2 SIG_STOP 1 (receiver_init (replicate 8 0)))"
    by (rule receiver_reach.recv [OF receiver_reach.start]) (simp add: receiver_init_def)
  have "r_pc (receiver_recv 2 SIG_STOP 1 (receiver_init (replicate 8 0))) = RHello"
    by (simp add: receiver_init_def)
  with receiver_never_overruns [OF reach] reach show ?thesis by auto
qed

end
