(* ===== verification/Signal_Stop.thy ===== *)
theory Signal_Stop
  imports Signal_Copy
begin

text \<open>
  Signals from outside a copy: the user stops a program with the keyboard (\<open>SIG_STOP\<close> is \<open>SIGINT\<close>, and its
  \<open>si_pid\<close> is 0), or another sender greets the receiver.
\<close>

section \<open>Events\<close>

text \<open>A step of one of the programs, or a signal that reaches the sender or the receiver from elsewhere.\<close>

datatype event = Step who | To_sender signal pid | To_receiver signal pid

fun event_run :: "sender_args \<Rightarrow> pid \<Rightarrow> event list \<Rightarrow> copy_sys \<Rightarrow> copy_sys option" where
  "event_run a rpid [] st = Some st"
| "event_run a rpid (Step w # es) st =
     (case copy_step a rpid w st of None \<Rightarrow> None | Some st' \<Rightarrow> event_run a rpid es st')"
| "event_run a rpid (To_sender sig from # es) st = event_run a rpid es (st\<lparr>sys_sp := deliver sig from (sys_sp st)\<rparr>)"
| "event_run a rpid (To_receiver sig from # es) st = event_run a rpid es (st\<lparr>sys_rp := deliver sig from (sys_rp st)\<rparr>)"

fun by_user :: "event \<Rightarrow> bool" where
  "by_user (Step w) = True"
| "by_user (To_sender sig from) \<longleftrightarrow> sig = SIG_STOP \<and> from = 0"
| "by_user (To_receiver sig from) \<longleftrightarrow> sig = SIG_STOP \<and> from = 0"

fun is_step :: "event \<Rightarrow> bool" where
  "is_step (Step w) = True"
| "is_step _ = False"

section \<open>Pending stops\<close>

definition hush :: "pending \<Rightarrow> pending" where
  "hush p = p(SIG_STOP := None)"

definition hushed :: "copy_sys \<Rightarrow> copy_sys" where
  "hushed st = st\<lparr>sys_sp := hush (sys_sp st), sys_rp := hush (sys_rp st)\<rparr>"

lemma hushed_simps [simp]:
  "sys_s (hushed st) = sys_s st" "sys_r (hushed st) = sys_r st"
  "sys_sp (hushed st) = hush (sys_sp st)" "sys_rp (hushed st) = hush (sys_rp st)"
  by (simp_all add: hushed_def)

lemma hush_apply [simp]: "hush p SIG_STOP = None" "s \<noteq> SIG_STOP \<Longrightarrow> hush p s = p s"
  by (simp_all add: hush_def)

lemma hush_id: "p SIG_STOP = None \<Longrightarrow> hush p = p"
  by (auto simp: hush_def)

lemma hush_upd [simp]: "hush (p(SIG_STOP := x)) = hush p"
  by (simp add: hush_def)

lemma hush_deliver:
  "hush (deliver SIG_STOP q p) = hush p" "s \<noteq> SIG_STOP \<Longrightarrow> hush (deliver s q p) = deliver s q (hush p)"
  by (auto simp: hush_def deliver_def)

lemma deliver_at: "deliver s q p t = (if t = s \<and> p s = None then Some q else p t)"
  by (simp add: deliver_def)

text \<open>A stop is the first signal that \<open>sigwaitinfo\<close> takes.\<close>

lemma sigwaitinfo_sender:
  "sigwaitinfo sender_sigset p =
     (if p SIG_STOP \<noteq> None then Some (SIG_STOP, the (p SIG_STOP), p(SIG_STOP := None))
      else if p SIG_CONTINUE \<noteq> None then Some (SIG_CONTINUE, the (p SIG_CONTINUE), p(SIG_CONTINUE := None))
      else if p SIG_FINISH \<noteq> None then Some (SIG_FINISH, the (p SIG_FINISH), p(SIG_FINISH := None))
      else None)"
  by (simp add: sigwaitinfo_def sort_sender_sigset)

lemma sigwaitinfo_receiver:
  "sigwaitinfo receiver_sigset p =
     (if p SIG_STOP \<noteq> None then Some (SIG_STOP, the (p SIG_STOP), p(SIG_STOP := None))
      else if p SIG_GET0 \<noteq> None then Some (SIG_GET0, the (p SIG_GET0), p(SIG_GET0 := None))
      else if p SIG_GET1 \<noteq> None then Some (SIG_GET1, the (p SIG_GET1), p(SIG_GET1 := None))
      else if p SIG_CONTINUE \<noteq> None then Some (SIG_CONTINUE, the (p SIG_CONTINUE), p(SIG_CONTINUE := None))
      else if p SIG_FINISH \<noteq> None then Some (SIG_FINISH, the (p SIG_FINISH), p(SIG_FINISH := None))
      else None)"
  by (simp add: sigwaitinfo_def sort_receiver_sigset)

section \<open>Three kinds of states\<close>

text \<open>What the sender can have pending, and how many steps of its own it has left when no more bits are taken.\<close>

definition sp_ok :: "pid \<Rightarrow> pending \<Rightarrow> bool" where
  "sp_ok rpid p \<longleftrightarrow> (p SIG_STOP = None \<or> p SIG_STOP = Some 0) \<and>
     (p SIG_CONTINUE = None \<or> p SIG_CONTINUE = Some rpid) \<and> (p SIG_FINISH = None \<or> p SIG_FINISH = Some rpid)"

definition sender_left :: "copy_sys \<Rightarrow> nat" where
  "sender_left st =
     (let c = (if sys_sp st SIG_CONTINUE = None then 0 else 2) in
      case s_pc (sys_s st) of
        SWaitHello \<Rightarrow> 5 + c
      | SBit \<Rightarrow> 4 + c
      | SAck \<Rightarrow> 3 + c
      | SForwardStop \<Rightarrow> 2
      | SFinish \<Rightarrow> 1
      | _ \<Rightarrow> 0)"

text \<open>The copy goes on, with stops pending that nobody has looked at.\<close>

definition running :: "sender_args \<Rightarrow> pid \<Rightarrow> byte list \<Rightarrow> nat \<Rightarrow> copy_sys \<Rightarrow> bool" where
  "running a rpid content m st \<longleftrightarrow> copy_phase a rpid content m (hushed st) \<and>
     (sys_sp st SIG_STOP = None \<or> sys_sp st SIG_STOP = Some 0) \<and>
     (sys_rp st SIG_STOP = None \<or> sys_rp st SIG_STOP = Some 0)"

text \<open>The sender has met a stop; the receiver may still take the last bit sent.\<close>

definition bits_ok :: "sender_args \<Rightarrow> byte list \<Rightarrow> nat \<Rightarrow> nat \<Rightarrow> pending \<Rightarrow> bool" where
  "bits_ok a content i k p \<longleftrightarrow>
     (\<forall>x. x = SIG_GET0 \<or> x = SIG_GET1 \<longrightarrow> p x \<noteq> None \<longrightarrow>
        p x = Some (a_pid a) \<and> i < length content \<and> x = bit_signal (get_bites (content ! i # a_heap a) ! k)) \<and>
     p SIG_CONTINUE = None \<and> (p SIG_FINISH = None \<or> p SIG_FINISH = Some (a_pid a)) \<and>
     (p SIG_STOP = None \<or> p SIG_STOP = Some 0 \<or> p SIG_STOP = Some (a_pid a))"

definition sender_stopped :: "sender_args \<Rightarrow> pid \<Rightarrow> byte list \<Rightarrow> copy_sys \<Rightarrow> bool" where
  "sender_stopped a rpid content st \<longleftrightarrow>
     (\<exists>i k. (r_pc (sys_r st) = RLoop \<or> r_pc (sys_r st) = RWait) \<and> k < 8 \<and>
        rcv_at a content i k (r_pc (sys_r st)) (sys_r st) \<and> bits_ok a content i k (sys_rp st)) \<and>
     (s_pc (sys_s st) = SForwardStop \<or> s_pc (sys_s st) = SFinish \<or>
        (\<exists>e. s_pc (sys_s st) = SExit e) \<and> sys_rp st SIG_FINISH \<noteq> None) \<and>
     sp_ok rpid (sys_sp st)"

definition receiver_left :: "copy_sys \<Rightarrow> nat" where
  "receiver_left st =
     (if r_pc (sys_r st) = RLoop then 3 else 2) +
     (if sys_rp st SIG_GET0 = None \<and> sys_rp st SIG_GET1 = None then 0 else 2)"

text \<open>The receiver takes no more bits.\<close>

definition receiver_stopped :: "sender_args \<Rightarrow> pid \<Rightarrow> byte list \<Rightarrow> copy_sys \<Rightarrow> bool" where
  "receiver_stopped a rpid content st \<longleftrightarrow>
     (r_pc (sys_r st) = RStopSender \<or> r_pc (sys_r st) = RDone) \<and> r_sen (sys_r st) = a_pid a \<and>
     prefix (r_out (sys_r st)) content \<and> sp_ok rpid (sys_sp st) \<and> s_pc (sys_s st) \<noteq> SHello \<and>
     (r_pc (sys_r st) = RDone \<and> s_pc (sys_s st) \<in> {SWaitHello, SBit, SAck} \<longrightarrow> sys_sp st SIG_FINISH \<noteq> None)"

definition stop_inv :: "sender_args \<Rightarrow> pid \<Rightarrow> byte list \<Rightarrow> nat \<Rightarrow> copy_sys \<Rightarrow> bool" where
  "stop_inv a rpid content n st \<longleftrightarrow>
     (\<exists>m. running a rpid content m st \<and> n = m + 9) \<or>
     sender_stopped a rpid content st \<and> n = sender_left st + receiver_left st \<or>
     receiver_stopped a rpid content st \<and> n = sender_left st + (if r_pc (sys_r st) = RStopSender then 1 else 0)"

section \<open>A copy that goes on\<close>

definition takes_stop :: "who \<Rightarrow> copy_sys \<Rightarrow> bool" where
  "takes_stop w st \<longleftrightarrow>
     (case w of
        Sender \<Rightarrow> (s_pc (sys_s st) = SWaitHello \<or> s_pc (sys_s st) = SAck) \<and> sys_sp st SIG_STOP \<noteq> None
      | Receiver \<Rightarrow> r_pc (sys_r st) = RWait \<and> sys_rp st SIG_STOP \<noteq> None)"

lemma phase_places:
  assumes "copy_phase a rpid content m st"
  shows "s_pc (sys_s st) \<noteq> SForwardStop" "s_pc (sys_s st) \<noteq> SHello"
    "r_pc (sys_r st) = RLoop \<or> r_pc (sys_r st) = RWait \<or> r_pc (sys_r st) = RDone"
    "sys_sp st = Map.empty \<or> sys_sp st = [SIG_CONTINUE \<mapsto> rpid]"
  using assms by (cases; simp add: snd_at_def rcv_at_def)+

lemma phase_next:
  assumes "copy_phase a rpid content m st" and "copy_step a rpid w st = Some st'"
    and "sender_rec_pid a = Returns rpid ()" "sender_open a = Returns content ()"
  shows "\<exists>m'. m = Suc m' \<and> copy_phase a rpid content m' st'"
proof (cases m)
  case 0
  with copy_phase_stuck [of a rpid content st w] assms show ?thesis by simp
next
  case (Suc m')
  from copy_phase_step [OF assms(1) this assms(3,4)] obtain w0 st0 where
    w0: "copy_step a rpid w0 st = Some st0" "copy_phase a rpid content m' st0"
      "\<And>w'. w' \<noteq> w0 \<Longrightarrow> copy_step a rpid w' st = None"
    unfolding step_to_def by blast
  with assms(2) have "w = w0" by (cases "w = w0") auto
  with w0 assms(2) Suc show ?thesis by auto
qed

lemma sender_kill_no_stop: "sender_kill a s = Some (sig, s') \<Longrightarrow> s_pc s \<noteq> SForwardStop \<Longrightarrow> sig \<noteq> SIG_STOP"
  by (cases "s_pc s") (auto split: if_splits)

lemma receiver_kill_no_stop: "receiver_kill r = Some (p, sig, r') \<Longrightarrow> sig \<noteq> SIG_STOP"
  by (cases "r_pc r") auto

lemma step_hushed:
  assumes step: "copy_step a rpid w st = Some st'" and "\<not> takes_stop w st"
    and "s_pc (sys_s st) \<noteq> SForwardStop" and "r_pc (sys_r st) \<noteq> RWaitFirst"
    and cfg: "sender_rec_pid a = Returns rpid ()"
  shows "copy_step a rpid w (hushed st) = Some (hushed st') \<and>
    sys_sp st' SIG_STOP = sys_sp st SIG_STOP \<and> sys_rp st' SIG_STOP = sys_rp st SIG_STOP"
proof (cases w)
  case Sender
  show ?thesis
  proof (cases "sender_kill a (sys_s st)")
    case (Some p)
    obtain sig s' where "p = (sig, s')" by fastforce
    with Some Sender step cfg sender_kill_no_stop [of a "sys_s st" sig s'] assms(3) show ?thesis
      by (auto simp: hush_deliver deliver_at hushed_def simp del: sender_kill.simps)
  next
    case None
    then have at: "s_pc (sys_s st) = SWaitHello \<or> s_pc (sys_s st) = SAck"
      using step Sender cfg by (simp split: if_splits del: sender_kill.simps)
    then have "sys_sp st SIG_STOP = None" using assms(2) Sender by (auto simp: takes_stop_def)
    with None at step Sender cfg show ?thesis
      by (auto simp: hushed_def hush_id sigwaitinfo_sender simp del: sender_kill.simps sender_recv.simps split: if_splits)
  qed
next
  case Receiver
  show ?thesis
  proof (cases "receiver_kill (sys_r st)")
    case (Some p)
    obtain q sig r' where "p = (q, sig, r')" by (cases p)
    with Some Receiver step receiver_kill_no_stop [of "sys_r st" q sig r'] show ?thesis
      by (auto simp: hush_deliver deliver_at hushed_def simp del: receiver_kill.simps)
  next
    case None
    then have at: "r_pc (sys_r st) = RWait"
      using step Receiver assms(4) by (simp split: if_splits del: receiver_kill.simps)
    then have "sys_rp st SIG_STOP = None" using assms(2) Receiver by (auto simp: takes_stop_def)
    with None at step Receiver show ?thesis
      by (auto simp: hushed_def hush_id sigwaitinfo_receiver simp del: receiver_kill.simps receiver_recv.simps split: if_splits)
  qed
qed

lemma running_on:
  assumes "running a rpid content m st" and "copy_step a rpid w st = Some st'" and "\<not> takes_stop w st"
    and "sender_rec_pid a = Returns rpid ()" "sender_open a = Returns content ()"
  shows "\<exists>m'. m = Suc m' \<and> running a rpid content m' st'"
proof -
  have phase: "copy_phase a rpid content m (hushed st)" using assms(1) by (simp add: running_def)
  from phase_places [OF this] have "s_pc (sys_s st) \<noteq> SForwardStop" "r_pc (sys_r st) \<noteq> RWaitFirst" by auto
  from step_hushed [OF assms(2,3) this assms(4)] have
    step: "copy_step a rpid w (hushed st) = Some (hushed st')" and
    same: "sys_sp st' SIG_STOP = sys_sp st SIG_STOP" "sys_rp st' SIG_STOP = sys_rp st SIG_STOP" by blast+
  from phase_next [OF phase step assms(4,5)] same assms(1) show ?thesis by (auto simp: running_def)
qed

section \<open>Stops that are met\<close>

lemma next_bit_less: "k < 8 \<Longrightarrow> next_bit i k = (i', k') \<Longrightarrow> k' < 8"
  by (auto simp: next_bit_def split: if_splits)

lemma bits_okI:
  assumes "hush p = Map.empty \<or> i < length content \<and> hush p = [bit_signal (get_bites (content ! i # a_heap a) ! k) \<mapsto> a_pid a]"
    and "p SIG_STOP = None \<or> p SIG_STOP = Some 0"
  shows "bits_ok a content i k p"
proof -
  have p: "p x = hush p x" if "x \<noteq> SIG_STOP" for x using that by simp
  show ?thesis using assms unfolding bits_ok_def by (auto simp: p bit_signal_def simp del: hush_apply(2) split: if_splits)
qed

lemma bits_okD:
  assumes "bits_ok a content i k p" and "x = SIG_GET0 \<or> x = SIG_GET1" and "p x \<noteq> None"
  shows "p x = Some (a_pid a)" "i < length content" "x = bit_signal (get_bites (content ! i # a_heap a) ! k)"
  using assms unfolding bits_ok_def by blast+

lemma sp_okI:
  assumes "hush p = Map.empty \<or> hush p = [SIG_CONTINUE \<mapsto> rpid]" and "p SIG_STOP = None \<or> p SIG_STOP = Some 0"
  shows "sp_ok rpid p"
proof -
  have p: "p x = hush p x" if "x \<noteq> SIG_STOP" for x using that by simp
  show ?thesis using assms unfolding sp_ok_def by (auto simp: p simp del: hush_apply(2))
qed

lemma sp_ok_upd: "sp_ok rpid p \<Longrightarrow> sp_ok rpid (p(x := None))"
  by (simp add: sp_ok_def)

lemma sp_ok_deliver:
  "sp_ok rpid p \<Longrightarrow> x \<noteq> SIG_STOP \<Longrightarrow> sp_ok rpid (deliver x rpid p)"
  "sp_ok rpid p \<Longrightarrow> sp_ok rpid (deliver SIG_STOP 0 p)"
  by (auto simp: sp_ok_def deliver_at)

lemma sender_left_at: "sender_left st \<le> 7"
  by (cases "s_pc (sys_s st)") (simp_all add: sender_left_def)

lemma receiver_left_at: "receiver_left st \<le> 5"
  by (simp add: receiver_left_def)

text \<open>The place of the receiver while the sender waits.\<close>

lemma phase_waiting:
  assumes "copy_phase a rpid content m st" and "s_pc (sys_s st) = SWaitHello \<or> s_pc (sys_s st) = SAck"
  shows "\<exists>i k. (r_pc (sys_r st) = RLoop \<or> r_pc (sys_r st) = RWait) \<and> k < 8 \<and>
    rcv_at a content i k (r_pc (sys_r st)) (sys_r st) \<and>
    (sys_rp st = Map.empty \<or> i < length content \<and> sys_rp st = [bit_signal (get_bites (content ! i # a_heap a) ! k) \<mapsto> a_pid a])"
  using assms(1)
proof cases
  case (hello s r)
  then show ?thesis by (intro exI [of _ 0] exI [of _ 0]) (auto simp: rcv_at_def)
next
  case (sent i k s r)
  then show ?thesis by (intro exI [of _ i] exI [of _ k]) (auto simp: rcv_at_def snd_at_def)
next
  case (got i k s i' k' r)
  then show ?thesis by (intro exI [of _ i'] exI [of _ k']) (auto simp: rcv_at_def snd_at_def dest: next_bit_less)
next
  case (acked i k s i' k' r)
  then show ?thesis by (intro exI [of _ i'] exI [of _ k']) (auto simp: rcv_at_def snd_at_def dest: next_bit_less)
qed (use assms(2) in \<open>auto simp: snd_at_def\<close>)

lemma phase_out:
  assumes "copy_phase a rpid content m st"
  shows "prefix (r_out (sys_r st)) content" "r_sen (sys_r st) = a_pid a"
  using assms by (cases; auto simp: rcv_at_def take_is_prefix)+

lemma sender_return_stop [simp]: "s_pc (sender_return a SIG_STOP s) = SFinish" "s_pc (sender_return a SIG_FINISH s) = SFinish"
  by (simp_all add: sender_return_def sender_loop_def)

lemma sender_meets_stop:
  assumes "running a rpid content m st" and "copy_step a rpid Sender st = Some st'" and "takes_stop Sender st"
    and "sender_rec_pid a = Returns rpid ()" "sender_open a = Returns content ()" and "rpid \<noteq> 0"
  shows "sender_stopped a rpid content st' \<and> sender_left st' \<le> 2"
proof -
  have phase: "copy_phase a rpid content m (hushed st)" and stops: "sys_sp st SIG_STOP = Some 0"
      "sys_rp st SIG_STOP = None \<or> sys_rp st SIG_STOP = Some 0"
    and at: "s_pc (sys_s st) = SWaitHello \<or> s_pc (sys_s st) = SAck"
    using assms(1,3) by (auto simp: running_def takes_stop_def)
  then have st': "st' = st\<lparr>sys_s := sender_recv a rpid SIG_STOP 0 (sys_s st), sys_sp := (sys_sp st)(SIG_STOP := None)\<rparr>"
    using assms(2,4) by (auto simp: sigwaitinfo_sender simp del: sender_recv.simps)
  from at have "s_pc (sys_s st') = SForwardStop \<or> s_pc (sys_s st') = SFinish"
    using assms(5,6) by (auto simp: st' sender_loop_def)
  moreover obtain i k where "r_pc (sys_r st) = RLoop \<or> r_pc (sys_r st) = RWait" "k < 8"
    "rcv_at a content i k (r_pc (sys_r st)) (sys_r st)" "bits_ok a content i k (sys_rp st)"
    using phase_waiting [OF phase] at bits_okI [of "sys_rp st" _ content a] stops(2) by (auto simp only: hushed_simps)
  moreover have "sp_ok rpid (sys_sp st')"
    using phase_places(4) [OF phase] stops(1) by (auto simp: st' intro!: sp_ok_upd sp_okI)
  ultimately show ?thesis by (auto simp: sender_stopped_def sender_left_def st' simp del: sender_recv.simps)
qed

lemma receiver_meets_stop:
  assumes "running a rpid content m st" and "copy_step a rpid Receiver st = Some st'" and "takes_stop Receiver st" and "a_pid a \<noteq> 0"
  shows "receiver_stopped a rpid content st' \<and> r_pc (sys_r st') = RStopSender"
proof -
  have phase: "copy_phase a rpid content m (hushed st)" and stops: "sys_rp st SIG_STOP = Some 0"
      "sys_sp st SIG_STOP = None \<or> sys_sp st SIG_STOP = Some 0" and at: "r_pc (sys_r st) = RWait"
    using assms(1,3) by (auto simp: running_def takes_stop_def)
  note P = phase_places [OF phase] phase_out [OF phase]
  from at stops(1) assms(2) have
    "st' = st\<lparr>sys_r := receiver_recv rpid SIG_STOP 0 (sys_r st), sys_rp := (sys_rp st)(SIG_STOP := None)\<rparr>"
    by (auto simp: sigwaitinfo_receiver simp del: receiver_recv.simps)
  with at assms(4) P have "sys_r st' = (sys_r st)\<lparr>r_pc := RStopSender\<rparr>" "sys_s st' = sys_s st" "sys_sp st' = sys_sp st"
    by auto
  moreover have "sp_ok rpid (sys_sp st)" using P(4) stops(2) by (auto intro!: sp_okI)
  ultimately show ?thesis using P by (simp add: receiver_stopped_def)
qed

section \<open>After a stop\<close>

lemma sender_stopped_sender:
  assumes "sender_stopped a rpid content st" and "copy_step a rpid Sender st = Some st'"
    and "sender_rec_pid a = Returns rpid ()"
  shows "sender_stopped a rpid content st' \<and> sender_left st' < sender_left st \<and> receiver_left st' = receiver_left st"
proof -
  consider "s_pc (sys_s st) = SForwardStop" | "s_pc (sys_s st) = SFinish"
    using assms by (auto simp: sender_stopped_def)
  then show ?thesis
  proof cases
    case 1
    then have "st' = st\<lparr>sys_s := sender_return a SIG_STOP (sys_s st), sys_rp := deliver SIG_STOP (a_pid a) (sys_rp st)\<rparr>"
      using assms(2,3) by auto
    with 1 assms(1) show ?thesis
      by (auto simp: sender_stopped_def sender_left_def receiver_left_def bits_ok_def deliver_at)
  next
    case 2
    then have "st' = st\<lparr>sys_s := (sys_s st)\<lparr>s_pc := SExit 0\<rparr>, sys_rp := deliver SIG_FINISH (a_pid a) (sys_rp st)\<rparr>"
      using assms(2,3) by auto
    with 2 assms(1) show ?thesis
      by (auto simp: sender_stopped_def sender_left_def receiver_left_def bits_ok_def deliver_at)
  qed
qed

lemma rcv_at_out: "rcv_at a content i k pc r \<Longrightarrow> prefix (r_out r) content"
  by (auto simp: rcv_at_def take_is_prefix)

text \<open>The receiver takes the pending signals one by one.\<close>

lemma sender_stopped_loop:
  assumes "sender_stopped a rpid content st" and "copy_step a rpid Receiver st = Some st'" and "r_pc (sys_r st) = RLoop"
  shows "sender_stopped a rpid content st' \<and> sender_left st' = sender_left st \<and> receiver_left st' < receiver_left st"
proof -
  have st': "st' = st\<lparr>sys_r := (sys_r st)\<lparr>r_pc := RWait\<rparr>, sys_sp := deliver SIG_CONTINUE rpid (sys_sp st)\<rparr>"
    using assms by (auto simp: sender_stopped_def rcv_at_def)
  with assms(1,3) sp_ok_deliver(1) [of rpid "sys_sp st" SIG_CONTINUE] show ?thesis
    by (auto simp: sender_stopped_def sender_left_def receiver_left_def rcv_at_def)
qed

lemma sender_stopped_wait:
  assumes "sender_stopped a rpid content st" and "copy_step a rpid Receiver st = Some st'" and "r_pc (sys_r st) = RWait"
    and "a_pid a \<noteq> 0"
  shows "(sender_stopped a rpid content st' \<and> receiver_left st' < receiver_left st \<or> receiver_stopped a rpid content st') \<and>
    sender_left st' = sender_left st"
proof -
  obtain i k where r: "rcv_at a content i k RWait (sys_r st)" "bits_ok a content i k (sys_rp st)" "k < 8"
    using assms(1,3) by (auto simp: sender_stopped_def)
  have s: "s_pc (sys_s st) \<notin> {SHello, SWaitHello, SBit, SAck}" "sp_ok rpid (sys_sp st)"
    using assms(1) by (auto simp: sender_stopped_def)
  note R = r(1) [unfolded rcv_at_def]
  obtain sig q rp where w: "sigwaitinfo receiver_sigset (sys_rp st) = Some (sig, q, rp)"
    and st': "st' = st\<lparr>sys_r := receiver_recv rpid sig q (sys_r st), sys_rp := rp\<rparr>"
    using assms(2,3) by (auto split: option.splits simp del: receiver_recv.simps)
  have left: "sender_left st' = sender_left st" by (simp add: st' sender_left_def)
  have pend: "sys_rp st sig = Some q" "rp = (sys_rp st)(sig := None)" "sig \<noteq> SIG_CONTINUE"
    using w r(2) by (auto simp: sigwaitinfo_receiver bits_ok_def split: if_splits)
  show ?thesis
  proof (cases "sig = SIG_GET0 \<or> sig = SIG_GET1")
    case True
    let ?x = "get_bites (content ! i # a_heap a) ! k"
    from bits_okD [OF r(2) True] pend(1) have i: "q = a_pid a" "i < length content" "sig = bit_signal ?x" by simp_all
    obtain i' k' where nb: "next_bit i k = (i', k')" by fastforce
    have "rcv_at a content i' k' RLoop (receiver_recv rpid sig q (sys_r st))"
      unfolding i(1,3) by (rule receiver_gets_bit [OF r(1) i(2) r(3) nb refl])
    moreover have none: "rp x = None" if "x = SIG_GET0 \<or> x = SIG_GET1" for x
    proof (rule ccontr)
      assume "rp x \<noteq> None"
      then have "sys_rp st x \<noteq> None" "x \<noteq> sig" by (auto simp: pend(2) split: if_splits)
      with bits_okD(3) [OF r(2) that] i(3) show False by simp
    qed
    moreover have "bits_ok a content i' k' rp"
      using r(2) none True unfolding bits_ok_def by (auto simp: pend(2))
    ultimately have "sender_stopped a rpid content st'"
      using assms(1) True next_bit_less [OF r(3) nb] unfolding sender_stopped_def st' pend(2)
      by (auto simp: rcv_at_def simp del: receiver_recv.simps)
    moreover have "receiver_left st' < receiver_left st"
      using none [of SIG_GET0] none [of SIG_GET1] pend(1) True by (auto simp: receiver_left_def st' assms(3) simp del: receiver_recv.simps)
    ultimately show ?thesis using left by blast
  next
    case False
    with pend(3) have "sig = SIG_STOP \<or> sig = SIG_FINISH" by (cases sig) auto
    moreover have "q = 0 \<or> q = a_pid a" "sig = SIG_FINISH \<Longrightarrow> q = a_pid a"
      using pend(1) r(2) calculation by (auto simp: bits_ok_def)
    ultimately have "r_pc (sys_r st') = RStopSender \<or> r_pc (sys_r st') = RDone"
      "r_sen (sys_r st') = a_pid a" "r_out (sys_r st') = r_out (sys_r st)"
      using R r(3) assms(4) by (auto simp: st' receiver_data_def receiver_finish_def receiver_loop_def)
    with rcv_at_out [OF r(1)] s have "receiver_stopped a rpid content st'"
      by (auto simp: receiver_stopped_def st' simp del: receiver_recv.simps)
    with left show ?thesis by blast
  qed
qed

lemma receiver_stopped_receiver:
  assumes "receiver_stopped a rpid content st" and "copy_step a rpid Receiver st = Some st'"
  shows "receiver_stopped a rpid content st' \<and> sender_left st' = sender_left st \<and>
    r_pc (sys_r st) = RStopSender \<and> r_pc (sys_r st') = RDone"
proof -
  have at: "r_pc (sys_r st) = RStopSender" "r_sen (sys_r st) = a_pid a"
    using assms by (auto simp: receiver_stopped_def split: option.splits)
  then have "st' = st\<lparr>sys_r := receiver_loop ((sys_r st)\<lparr>r_flag := False\<rparr>), sys_sp := deliver SIG_FINISH rpid (sys_sp st)\<rparr>"
    using assms(2) by simp
  with at assms(1) sp_ok_deliver(1) [of rpid "sys_sp st" SIG_FINISH] show ?thesis
    by (auto simp: receiver_stopped_def sender_left_def receiver_loop_def deliver_at)
qed

lemma sender_loop_pc: "s_pc (sender_loop a s) = SBit \<or> s_pc (sender_loop a s) = SFinish"
  by (simp add: sender_loop_def)

lemma sender_next_bit_pc: "s_pc (sender_next_bit a sig s) = SBit \<or> s_pc (sender_next_bit a sig s) = SFinish"
  using sender_loop_pc [of a "s\<lparr>s_signal := sig, s_i := s_i s + 1\<rparr>"]
  by (simp add: sender_next_bit_def sender_return_def)

lemma receiver_stopped_sender:
  assumes "receiver_stopped a rpid content st" and "copy_step a rpid Sender st = Some st'"
    and "sender_rec_pid a = Returns rpid ()" "sender_open a = Returns content ()" and "rpid \<noteq> 0"
  shows "receiver_stopped a rpid content st' \<and> sender_left st' < sender_left st \<and> sys_r st' = sys_r st"
proof (cases "sender_kill a (sys_s st)")
  case (Some p)
  obtain sig s' where p: "p = (sig, s')" by fastforce
  have "st' = st\<lparr>sys_s := s', sys_rp := deliver sig (a_pid a) (sys_rp st)\<rparr>"
    using assms(2,3) Some p by (simp del: sender_kill.simps)
  moreover have "s_pc (sys_s st) = SBit \<and> s_pc s' = SAck \<or> s_pc (sys_s st) = SForwardStop \<and> s_pc s' = SFinish \<or>
      s_pc (sys_s st) = SFinish \<and> s_pc s' = SExit 0"
    using Some p assms(1) by (cases "s_pc (sys_s st)") (auto simp: receiver_stopped_def)
  ultimately show ?thesis using assms(1) by (auto simp: receiver_stopped_def sender_left_def)
next
  case None
  then have at: "s_pc (sys_s st) = SWaitHello \<or> s_pc (sys_s st) = SAck"
    using assms(2,3) by (simp split: if_splits del: sender_kill.simps)
  then obtain sig q sp where w: "sigwaitinfo sender_sigset (sys_sp st) = Some (sig, q, sp)"
    and st': "st' = st\<lparr>sys_s := sender_recv a rpid sig q (sys_s st), sys_sp := sp\<rparr>"
    using assms(2,3) None by (auto split: option.splits simp del: sender_recv.simps sender_kill.simps)
  have sp: "sp_ok rpid (sys_sp st)" using assms(1) by (simp add: receiver_stopped_def)
  have pend: "sp = (sys_sp st)(sig := None)" "sys_sp st sig = Some q"
      "sig = SIG_STOP \<and> q = 0 \<or> (sig = SIG_CONTINUE \<or> sig = SIG_FINISH) \<and> q = rpid"
    using w sp by (auto simp: sigwaitinfo_sender sp_ok_def split: if_splits)
  have "sp_ok rpid sp" using sp by (simp add: pend(1) sp_ok_upd)
  have "sig = SIG_CONTINUE \<and> s_pc (sys_s st') \<in> {SBit, SFinish} \<or>
      s_pc (sys_s st') = SForwardStop \<or> s_pc (sys_s st') = SFinish \<or> (\<exists>e. s_pc (sys_s st') = SExit e)"
    using at
  proof
    assume at: "s_pc (sys_s st) = SWaitHello"
    from pend(3) show ?thesis
      using sender_loop_pc [of a "(sys_s st)\<lparr>s_content := content, s_signal := SIG_CONTINUE, s_i := 0\<rparr>"]
      by (elim disjE conjE) (simp_all add: st' at assms(4) sender_loop_def)
  next
    assume at: "s_pc (sys_s st) = SAck"
    from pend(3) show ?thesis
      using sender_next_bit_pc [of a SIG_CONTINUE "sys_s st"] assms(5)
      by (elim disjE conjE) (simp_all add: st' at)
  qed
  then show ?thesis
  proof (elim disjE conjE)
    assume "sig = SIG_CONTINUE" "s_pc (sys_s st') \<in> {SBit, SFinish}"
    with at pend(1,2) assms(1) \<open>sp_ok rpid sp\<close> show ?thesis
      by (auto simp: receiver_stopped_def sender_left_def st' simp del: sender_recv.simps)
  qed (use at assms(1) \<open>sp_ok rpid sp\<close> in \<open>auto simp: receiver_stopped_def sender_left_def st' simp del: sender_recv.simps\<close>)
qed

section \<open>The invariant\<close>

lemma stop_invI:
  "running a rpid content m st \<Longrightarrow> stop_inv a rpid content (m + 9) st"
  "sender_stopped a rpid content st \<Longrightarrow> stop_inv a rpid content (sender_left st + receiver_left st) st"
  "receiver_stopped a rpid content st \<Longrightarrow>
     stop_inv a rpid content (sender_left st + (if r_pc (sys_r st) = RStopSender then 1 else 0)) st"
  by (auto simp: stop_inv_def)

lemma stop_inv_step:
  assumes "stop_inv a rpid content n st" and step: "copy_step a rpid w st = Some st'"
    and cfg: "sender_rec_pid a = Returns rpid ()" "sender_open a = Returns content ()" "a_pid a \<noteq> 0" "rpid \<noteq> 0"
  shows "\<exists>n'<n. stop_inv a rpid content n' st'"
  using assms(1) unfolding stop_inv_def [of _ _ _ _ st]
proof (elim disjE exE conjE)
  fix m
  assume run: "running a rpid content m st" and n: "n = m + 9"
  show ?thesis
  proof (cases "takes_stop w st")
    case False
    from running_on [OF run step this cfg(1,2)] obtain m' where m': "m = Suc m'" "running a rpid content m' st'" by blast
    from stop_invI(1) [OF m'(2)] show ?thesis unfolding n m'(1) by (intro exI [of _ "m' + 9"]) simp
  next
    case True
    show ?thesis
    proof (cases w)
      case Sender
      with sender_meets_stop [OF run _ _ cfg(1,2,4)] step True have
        "sender_stopped a rpid content st'" "sender_left st' \<le> 2" by blast+
      with stop_invI(2) [of a rpid content st'] receiver_left_at [of st'] show ?thesis unfolding n
        by (intro exI [of _ "sender_left st' + receiver_left st'"]) linarith
    next
      case Receiver
      with receiver_meets_stop [OF run _ _ cfg(3)] step True have
        "receiver_stopped a rpid content st'" "r_pc (sys_r st') = RStopSender" by blast+
      with stop_invI(3) [of a rpid content st'] sender_left_at [of st'] show ?thesis unfolding n
        by (intro exI [of _ "sender_left st' + 1"]) simp
    qed
  qed
next
  assume stop: "sender_stopped a rpid content st" and n: "n = sender_left st + receiver_left st"
  show ?thesis
  proof (cases w)
    case Sender
    with sender_stopped_sender [OF stop _ cfg(1)] step have
      "sender_stopped a rpid content st'" "sender_left st' < sender_left st" "receiver_left st' = receiver_left st" by blast+
    with stop_invI(2) [of a rpid content st'] show ?thesis unfolding n
      by (intro exI [of _ "sender_left st' + receiver_left st'"]) simp
  next
    case Receiver
    from stop consider "r_pc (sys_r st) = RLoop" | "r_pc (sys_r st) = RWait" by (auto simp: sender_stopped_def)
    then have "(sender_stopped a rpid content st' \<and> receiver_left st' < receiver_left st \<or> receiver_stopped a rpid content st') \<and>
        sender_left st' = sender_left st"
      using sender_stopped_loop [OF stop] sender_stopped_wait [OF stop _ _ cfg(3)] step Receiver by cases blast+
    then show ?thesis
    proof (elim conjE disjE)
      assume "sender_stopped a rpid content st'" "receiver_left st' < receiver_left st" "sender_left st' = sender_left st"
      with stop_invI(2) [of a rpid content st'] show ?thesis unfolding n
        by (intro exI [of _ "sender_left st' + receiver_left st'"]) simp
    next
      assume "receiver_stopped a rpid content st'" "sender_left st' = sender_left st"
      moreover have "2 \<le> receiver_left st" by (simp add: receiver_left_def)
      ultimately show ?thesis using stop_invI(3) [of a rpid content st'] unfolding n
        by (intro exI [of _ "sender_left st' + (if r_pc (sys_r st') = RStopSender then 1 else 0)"]) simp
    qed
  qed
next
  assume stop: "receiver_stopped a rpid content st"
    and n: "n = sender_left st + (if r_pc (sys_r st) = RStopSender then 1 else 0)"
  show ?thesis
  proof (cases w)
    case Sender
    with receiver_stopped_sender [OF stop _ cfg(1,2,4)] step have
      "receiver_stopped a rpid content st'" "sender_left st' < sender_left st" "sys_r st' = sys_r st" by blast+
    with stop_invI(3) [of a rpid content st'] show ?thesis unfolding n
      by (intro exI [of _ "sender_left st' + (if r_pc (sys_r st') = RStopSender then 1 else 0)"]) simp
  next
    case Receiver
    with receiver_stopped_receiver [OF stop] step have
      "receiver_stopped a rpid content st'" "sender_left st' = sender_left st" "r_pc (sys_r st) = RStopSender" "r_pc (sys_r st') = RDone" by blast+
    with stop_invI(3) [of a rpid content st'] show ?thesis unfolding n
      by (intro exI [of _ "sender_left st'"]) simp
  qed
qed

text \<open>A stop that arrives changes nothing yet.\<close>

lemma running_stop:
  assumes "running a rpid content m st"
  shows "running a rpid content m (st\<lparr>sys_sp := deliver SIG_STOP 0 (sys_sp st)\<rparr>)"
    and "running a rpid content m (st\<lparr>sys_rp := deliver SIG_STOP 0 (sys_rp st)\<rparr>)"
  using assms by (auto simp: running_def hushed_def hush_deliver deliver_at)

lemma stop_inv_user:
  assumes "stop_inv a rpid content n st"
  shows "stop_inv a rpid content n (st\<lparr>sys_sp := deliver SIG_STOP 0 (sys_sp st)\<rparr>)" (is ?S)
    and "stop_inv a rpid content n (st\<lparr>sys_rp := deliver SIG_STOP 0 (sys_rp st)\<rparr>)" (is ?R)
proof -
  let ?s = "st\<lparr>sys_sp := deliver SIG_STOP 0 (sys_sp st)\<rparr>" and ?r = "st\<lparr>sys_rp := deliver SIG_STOP 0 (sys_rp st)\<rparr>"
  have left: "sender_left ?s = sender_left st" "receiver_left ?s = receiver_left st"
    "sender_left ?r = sender_left st" "receiver_left ?r = receiver_left st"
    by (simp_all add: sender_left_def receiver_left_def deliver_at)
  have bits: "bits_ok a content i k (deliver SIG_STOP 0 p) = bits_ok a content i k p" for i k p
    by (auto simp: bits_ok_def deliver_at)
  have "sender_stopped a rpid content st \<Longrightarrow> sender_stopped a rpid content ?s"
    "sender_stopped a rpid content st \<Longrightarrow> sender_stopped a rpid content ?r"
    using sp_ok_deliver(2) [of rpid "sys_sp st"] by (simp_all add: sender_stopped_def bits deliver_at)
  moreover have "receiver_stopped a rpid content st \<Longrightarrow> receiver_stopped a rpid content ?s"
    "receiver_stopped a rpid content st \<Longrightarrow> receiver_stopped a rpid content ?r"
    using sp_ok_deliver(2) [of rpid "sys_sp st"] by (auto simp: receiver_stopped_def deliver_at)
  ultimately show ?S ?R
    using assms running_stop [of a rpid content _ st] unfolding stop_inv_def left by auto
qed

lemma event_run_inv:
  assumes "event_run a rpid es st = Some st'" and "list_all by_user es" and "stop_inv a rpid content n st"
    and cfg: "sender_rec_pid a = Returns rpid ()" "sender_open a = Returns content ()" "a_pid a \<noteq> 0" "rpid \<noteq> 0"
  shows "\<exists>n'. stop_inv a rpid content n' st' \<and> length (filter is_step es) + n' \<le> n"
  using assms(1-3)
proof (induction es arbitrary: st n)
  case (Cons e es)
  show ?case
  proof (cases e)
    case (Step w)
    with Cons.prems(1) obtain st1 where 1: "copy_step a rpid w st = Some st1" "event_run a rpid es st1 = Some st'"
      by (auto split: option.splits)
    from stop_inv_step [OF Cons.prems(3) 1(1) cfg] obtain n1 where "n1 < n" "stop_inv a rpid content n1 st1" by blast
    with Cons.IH [OF 1(2)] Cons.prems(2) Step show ?thesis by fastforce
  next
    case (To_sender sig q)
    with Cons.prems Cons.IH [OF _ _ stop_inv_user(1) [OF Cons.prems(3)]] show ?thesis by simp
  next
    case (To_receiver sig q)
    with Cons.prems Cons.IH [OF _ _ stop_inv_user(2) [OF Cons.prems(3)]] show ?thesis by simp
  qed
qed auto

text \<open>Where both programs are stuck they have ended.\<close>

lemma sender_moves:
  assumes "sender_rec_pid a = Returns rpid ()" and "copy_step a rpid Sender st = None"
  shows "s_pc (sys_s st) \<notin> {SHello, SBit, SForwardStop, SFinish}"
    and "s_pc (sys_s st) = SWaitHello \<or> s_pc (sys_s st) = SAck \<Longrightarrow>
      sys_sp st SIG_STOP = None \<and> sys_sp st SIG_CONTINUE = None \<and> sys_sp st SIG_FINISH = None"
  using assms by (auto simp: sigwaitinfo_None sender_sigset_def simp del: sender_recv.simps split: option.splits)

lemma receiver_moves:
  assumes "copy_step a rpid Receiver st = None"
  shows "r_pc (sys_r st) \<notin> {RHello, RLoop, RStopSender}"
    and "r_pc (sys_r st) = RWait \<Longrightarrow> sys_rp st sig = None"
proof -
  show "r_pc (sys_r st) \<notin> {RHello, RLoop, RStopSender}" using assms by auto
  assume "r_pc (sys_r st) = RWait"
  with assms have "sigwaitinfo receiver_sigset (sys_rp st) = None"
    by (auto simp del: receiver_recv.simps split: option.splits)
  then show "sys_rp st sig = None" by (simp add: sigwaitinfo_None)
qed

lemma running_moves:
  assumes "copy_step a rpid w (hushed st) = Some st1" and "sender_rec_pid a = Returns rpid ()"
  shows "copy_step a rpid w st \<noteq> None"
proof
  assume none: "copy_step a rpid w st = None"
  show False
  proof (cases w)
    case Sender
    with sender_moves [of a rpid st] assms none have
      "sigwaitinfo sender_sigset (hush (sys_sp st)) \<noteq> None" "s_pc (sys_s st) = SWaitHello \<or> s_pc (sys_s st) = SAck"
      by (auto simp del: sender_recv.simps split: option.splits if_splits sender_pc.splits)
    with sender_moves(2) [OF assms(2)] none Sender show False
      by (auto simp: sigwaitinfo_None sender_sigset_def)
  next
    case Receiver
    show False
    proof (cases "r_pc (sys_r st) = RWaitFirst \<or> r_pc (sys_r st) = RWait")
      case True
      with Receiver assms(1) have "sigwaitinfo receiver_sigset (hush (sys_rp st)) \<noteq> None"
        by (auto simp del: receiver_recv.simps split: option.splits)
      then have "sigwaitinfo receiver_sigset (sys_rp st) \<noteq> None"
        by (auto simp: sigwaitinfo_None hush_def split: if_splits)
      with True none Receiver show False by (auto simp del: receiver_recv.simps split: option.splits)
    next
      case False
      with none Receiver assms(1) show False by (cases "r_pc (sys_r st)") auto
    qed
  qed
qed

lemma stop_inv_end:
  assumes "stop_inv a rpid content n st" and stuck: "\<forall>w. copy_step a rpid w st = None"
    and cfg: "sender_rec_pid a = Returns rpid ()" "sender_open a = Returns content ()"
  shows "(\<exists>e. s_pc (sys_s st) = SExit e) \<and> r_pc (sys_r st) = RDone"
proof -
  note S = sender_moves [OF cfg(1) spec [OF stuck, of Sender]] and R = receiver_moves [OF spec [OF stuck, of Receiver]]
  show ?thesis
    using assms(1) unfolding stop_inv_def
  proof (elim disjE exE conjE)
    fix m
    assume "running a rpid content m st"
    then have phase: "copy_phase a rpid content m (hushed st)" by (simp add: running_def)
    show ?thesis
    proof (cases m)
      case 0
      with phase copy_phase_0 [of a rpid content "hushed st"] show ?thesis by (auto simp: rcv_at_def)
    next
      case (Suc m')
      from copy_phase_step [OF phase this cfg] obtain w st1 where "copy_step a rpid w (hushed st) = Some st1"
        unfolding step_to_def by blast
      from running_moves [OF this cfg(1)] stuck show ?thesis by simp
    qed
  next
    assume "sender_stopped a rpid content st"
    with S(1) R show ?thesis by (auto simp: sender_stopped_def)
  next
    assume "receiver_stopped a rpid content st"
    with S R(1) show ?thesis by (cases "s_pc (sys_s st)") (auto simp: receiver_stopped_def)
  qed
qed

lemma stop_inv_out: "stop_inv a rpid content n st \<Longrightarrow> prefix (r_out (sys_r st)) content"
  using phase_out(1) [of a rpid content _ "hushed st"]
  by (auto simp: stop_inv_def running_def sender_stopped_def receiver_stopped_def dest: rcv_at_out)

lemma stop_inv_start:
  assumes "copy_synced a rpid st"
  shows "stop_inv a rpid content (32 * length content + 12) st"
proof -
  have "hushed st = st" using assms by (simp add: copy_synced_def hushed_def hush_id)
  moreover have "copy_phase a rpid content (32 * length content + 3) st"
    using copy_phase.hello [of "sys_s st" a content "sys_r st" rpid] assms
    by (cases st) (simp add: copy_synced_def rcv_at_def)
  ultimately have "running a rpid content (32 * length content + 3) st"
    using assms by (simp add: running_def copy_synced_def)
  from stop_invI(1) [OF this] show ?thesis by (simp add: add.assoc)
qed

section \<open>Properties\<close>

text \<open>
  C5: after a clean handshake the user may stop the sender, the receiver or both with the keyboard, at any
  moment and any number of times: what has been written is a prefix of the file, the programs make at most
  \<open>32 n + 12\<close> steps for a file of \<open>n\<close> bytes, and where neither can move both have ended, so no stop leaves one of them
  waiting for the other.
\<close>

theorem stopped_copy_ends:
  assumes "copy_synced a rpid st" and "sender_rec_pid a = Returns rpid ()" and "sender_open a = Returns content ()"
    and "a_pid a \<noteq> 0" and "rpid \<noteq> 0" and "list_all by_user es" and "event_run a rpid es st = Some st'"
  shows "prefix (r_out (sys_r st')) content \<and> length (filter is_step es) \<le> 32 * length content + 12 \<and>
    ((\<forall>w. copy_step a rpid w st' = None) \<longrightarrow> (\<exists>e. s_pc (sys_s st') = SExit e) \<and> r_pc (sys_r st') = RDone)"
proof -
  from event_run_inv [OF assms(7,6) stop_inv_start [OF assms(1)] assms(2-5)] obtain n where
    "stop_inv a rpid content n st'" "length (filter is_step es) + n \<le> 32 * length content + 12" by blast
  with stop_inv_out stop_inv_end assms(2,3) show ?thesis by fastforce
qed

text \<open>The receiver is stopped while the first bit is under way.\<close>

theorem stopped_copy_ends_witness:
  "\<exists>a st es st'. copy_run a 2 [Sender, Receiver, Receiver, Receiver] (copy_init (replicate 8 7)) = Some st \<and>
     list_all by_user es \<and> To_receiver SIG_STOP 0 \<in> set es \<and> event_run a 2 es st = Some st' \<and>
     prefix (r_out (sys_r st')) [0] \<and> s_pc (sys_s st') = SExit 0 \<and> r_pc (sys_r st') = RDone"
proof -
  define a where "a = \<lparr>a_argv = [cstr ''s'', cstr ''f'', cstr ''2''],
    a_files = [cstr ''f'' \<mapsto> new_file\<lparr>f_data := [0]\<rparr>], a_pid = 1, a_heap = [0, 0, 0]\<rparr>"
  have pid: "sender_rec_pid a = Returns 2 ()"
    using atoi_digits [of "[50]" "[]"]
    by (simp add: a_def sender_rec_pid_def is_digit_def dec_value_def digit_val_def)
  have content: "sender_open a = Returns [0] ()"
    by (simp add: a_def sender_open_def open_rdonly_def new_file_def)
  have a1: "a_pid a = 1" and bit: "get_bites (0 # a_heap a) ! 0 = 0"
    by (simp_all add: a_def get_bites_def load_unsigned_def numeral_eq_Suc)
  from a1 obtain st where st: "copy_run a 2 [Sender, Receiver, Receiver, Receiver]
      (copy_init (replicate 8 7)) = Some st" "copy_synced a 2 st"
    by (simp add: pid copy_init_def sender_init_def receiver_init_def sigwaitinfo_single
        receiver_loop_def copy_synced_def)
  let ?es = "[Step Sender, Step Sender, To_receiver SIG_STOP 0, Step Receiver, Step Receiver, Step Sender, Step Sender]"
  have at: "s_pc (sys_s st) = SWaitHello" "sys_sp st = [SIG_CONTINUE \<mapsto> 2]" "sys_rp st = Map.empty"
      "r_pc (sys_r st) = RWait" "r_sen (sys_r st) = 1"
    using st(2) a1 by (simp_all add: copy_synced_def)
  then obtain st' where run: "event_run a 2 ?es st = Some st'" "s_pc (sys_s st') = SExit 0" "r_pc (sys_r st') = RDone"
    by (simp add: pid content a1 bit sigwaitinfo_sender sigwaitinfo_receiver sender_loop_def receiver_loop_def deliver_def
        sender_return_def)
  have "list_all by_user ?es" by simp
  from stopped_copy_ends [OF st(2) pid content _ _ this run(1)] a1 have "prefix (r_out (sys_r st')) [0]" by simp
  with st(1) run show ?thesis by (intro exI [of _ a] exI [of _ st] exI [of _ ?es] exI [of _ st']) simp
qed

text \<open>
  A second sender that greets the receiver during a copy that began cleanly is turned away, but the receiver then sends
  its \<open>SIG_CONTINUE\<close> to the first sender once more. That one runs a bit ahead, two equal bits merge, and the
  copy ends normally with a wrong file: here the file of one zero byte arrives empty.
\<close>

theorem second_sender_breaks_copy:
  "\<exists>a st es. sender_open a = Returns [0] () \<and> copy_synced a 2 st \<and>
     filter (\<lambda>e. \<not> is_step e) es = [To_receiver SIG_CONTINUE 3] \<and>
     map_option (\<lambda>st. (s_pc (sys_s st), r_pc (sys_r st), r_out (sys_r st))) (event_run a 2 es st) = Some (SExit 0, RDone, [])"
proof -
  define a where "a = \<lparr>a_argv = [cstr ''s'', cstr ''f'', cstr ''2''],
    a_files = [cstr ''f'' \<mapsto> new_file\<lparr>f_data := [0]\<rparr>], a_pid = 1, a_heap = [0, 0, 0]\<rparr>"
  have facts: "sender_rec_pid a = Returns 2 ()" "sender_open a = Returns [0] ()" "a_pid a = 1"
    using atoi_digits [of "[50]" "[]"]
    by (simp_all add: a_def sender_rec_pid_def is_digit_def dec_value_def digit_val_def
        sender_open_def open_rdonly_def new_file_def)
  have bits: "get_bites (0 # a_heap a) = [0, 0, 0, 0, 0, 0, 0, 0]"
    by (simp add: a_def get_bites_def load_unsigned_def numeral_eq_Suc)
  define st where "st = \<lparr>sys_s = sender_init\<lparr>s_pc := SWaitHello\<rparr>, sys_r = (receiver_init [0, 0, 0, 0, 0, 0, 0, 0])\<lparr>r_pc := RWait, r_sen := 1\<rparr>,
    sys_sp = [SIG_CONTINUE \<mapsto> 2], sys_rp = Map.empty\<rparr>"
  have synced: "copy_synced a 2 st" by (simp add: copy_synced_def st_def sender_init_def receiver_init_def facts)
  let ?es = "[To_receiver SIG_CONTINUE 3, Step Receiver, Step Receiver, Step Sender, Step Receiver, Step Sender, Step Sender, Step Sender, Step Receiver,
    Step Receiver, Step Sender] @
    concat (replicate (Suc (Suc (Suc (Suc (Suc (Suc 0)))))) [Step Sender, Step Receiver, Step Receiver, Step Sender]) @ [Step Sender, Step Receiver]"
  have "map_option (\<lambda>st. (s_pc (sys_s st), r_pc (sys_r st), r_out (sys_r st))) (event_run a 2 ?es st) = Some (SExit 0, RDone, [])"
    by (simp add: facts bits st_def sender_init_def receiver_init_def sigwaitinfo_single
        receiver_loop_def sender_loop_def sender_next_bit_def sender_return_def receiver_data_def
        receiver_finish_def get_0_def get_1_def)
  moreover have "filter (\<lambda>e. \<not> is_step e) ?es = [To_receiver SIG_CONTINUE 3]" by simp
  ultimately show ?thesis using facts(2) synced by blast
qed

end
