(* ===== verification/SysV_Ipc.thy ===== *)
theory SysV_Ipc
  imports C_Prelude
begin

text \<open>
  The System V calls that \<open>Stack/stack.c\<close> makes: shared memory segments, semaphore sets and
  \<open>errno\<close>, as one process sees them while no other process acts. Identifiers are handed out
  in increasing order from wherever the kernel stands; \<open>shmat\<close> returns fresh addresses.
\<close>

datatype errno = E_NONE | ENOENT | EINVAL | EEXIST | EIDRM | EAGAIN | ERANGE | EFBIG | ETIMEDOUT | EOVERFLOW

record shmseg =
  sg_size :: int
  sg_cells :: "64 word list"
  sg_nattch :: nat
  sg_dest :: bool

record semset =
  ss_vals :: "int list"
  ss_adj :: "int list"

record ipc =
  shm_keys :: "int \<rightharpoonup> int"
  shms :: "int \<rightharpoonup> shmseg"
  next_shm :: int
  sem_keys :: "int \<rightharpoonup> int"
  sems :: "int \<rightharpoonup> semset"
  next_sem :: int
  maps :: "int \<rightharpoonup> int"
  next_addr :: int
  errno :: errno

text \<open>\<open>IPC_PRIVATE\<close> never names an existing object.\<close>

definition IPC_PRIVATE :: int where
  "IPC_PRIVATE = 0"

text \<open>A segment occupies whole pages of 4096 bytes, 512 pointers each.\<close>

definition seg_cells :: "int \<Rightarrow> nat" where
  "seg_cells bytes = nat ((bytes + 4095) div 4096) * 512"

lemma seg_cells_512 [simp]: "0 < n \<Longrightarrow> n \<le> 4096 \<Longrightarrow> seg_cells n = 512"
proof -
  assume "0 < n" "n \<le> 4096"
  then have "(n + 4095) div 4096 = 1"
    by (intro int_div_pos_eq [where r = "n - 1"]) simp_all
  then show ?thesis by (simp add: seg_cells_def)
qed

text \<open>\<open>size_t\<close> from an \<open>int\<close>, and the largest segment the kernel creates.\<close>

definition size_t :: "int \<Rightarrow> int" where
  "size_t n = n mod 2 ^ 64"

definition shmmax :: int where
  "shmmax = 2 ^ 64 - 1 - 2 ^ 24"

lemma size_t_nonneg: "0 \<le> n \<Longrightarrow> n < 2 ^ 64 \<Longrightarrow> size_t n = n"
  by (simp add: size_t_def)

section \<open>Shared memory\<close>

definition new_shm :: "int \<Rightarrow> int \<Rightarrow> 'a ipc_scheme \<Rightarrow> int \<times> 'a ipc_scheme" where
  "new_shm key bytes w =
     (next_shm w,
      w\<lparr>shm_keys := (if key = IPC_PRIVATE then shm_keys w else (shm_keys w)(key \<mapsto> next_shm w)),
        shms := (shms w)(next_shm w \<mapsto> \<lparr>sg_size = bytes, sg_cells = replicate (seg_cells bytes) 0,
          sg_nattch = 0, sg_dest = False\<rparr>),
        next_shm := next_shm w + 1\<rparr>)"

text \<open>\<open>shmget\<close> with \<open>IPC_CREAT\<close> and \<open>IPC_EXCL\<close> or without.\<close>

definition shmget :: "int \<Rightarrow> int \<Rightarrow> bool \<Rightarrow> bool \<Rightarrow> 'a ipc_scheme \<Rightarrow> int \<times> 'a ipc_scheme" where
  "shmget key bytes creat excl w =
     (case (if key = IPC_PRIVATE then None else shm_keys w key) of
        Some i \<Rightarrow>
          if creat \<and> excl then (-1, w\<lparr>errno := EEXIST\<rparr>)
          else if sg_size (the (shms w i)) < size_t bytes then (-1, w\<lparr>errno := EINVAL\<rparr>)
          else (i, w)
      | None \<Rightarrow>
          if key \<noteq> IPC_PRIVATE \<and> \<not> creat then (-1, w\<lparr>errno := ENOENT\<rparr>)
          else if size_t bytes < 1 \<or> shmmax < size_t bytes then (-1, w\<lparr>errno := EINVAL\<rparr>)
          else new_shm key (size_t bytes) w)"

text \<open>\<open>shmat\<close> gives an address, or \<open>(void* ) -1\<close>, which is not \<open>NULL\<close>.\<close>

definition shmat :: "int \<Rightarrow> 'a ipc_scheme \<Rightarrow> int \<times> 'a ipc_scheme" where
  "shmat i w =
     (case shms w i of
        None \<Rightarrow> (-1, w\<lparr>errno := EINVAL\<rparr>)
      | Some sg \<Rightarrow>
          (next_addr w,
           w\<lparr>shms := (shms w)(i \<mapsto> sg\<lparr>sg_nattch := sg_nattch sg + 1\<rparr>),
             maps := (maps w)(next_addr w \<mapsto> i), next_addr := next_addr w + 1\<rparr>))"

text \<open>\<open>shmdt\<close>: the last detachment of a segment marked for destruction destroys it.\<close>

definition shmdt :: "int \<Rightarrow> 'a ipc_scheme \<Rightarrow> int \<times> 'a ipc_scheme" where
  "shmdt addr w =
     (case maps w addr of
        None \<Rightarrow> (-1, w\<lparr>errno := EINVAL\<rparr>)
      | Some i \<Rightarrow>
          (case shms w i of
             None \<Rightarrow> (-1, w\<lparr>errno := EINVAL\<rparr>)
           | Some sg \<Rightarrow>
               (0, w\<lparr>maps := (maps w)(addr := None),
                     shms := (if sg_dest sg \<and> sg_nattch sg = 1 then (shms w)(i := None)
                              else (shms w)(i \<mapsto> sg\<lparr>sg_nattch := sg_nattch sg - 1\<rparr>))\<rparr>)))"

definition forget_key :: "int \<Rightarrow> (int \<rightharpoonup> int) \<Rightarrow> (int \<rightharpoonup> int)" where
  "forget_key i m = (\<lambda>k. if m k = Some i then None else m k)"

text \<open>\<open>shmctl (id, IPC_RMID)\<close>: the key is free at once, the segment goes with its last attachment.\<close>

definition shm_rmid :: "int \<Rightarrow> 'a ipc_scheme \<Rightarrow> int \<times> 'a ipc_scheme" where
  "shm_rmid i w =
     (case shms w i of
        None \<Rightarrow> (-1, w\<lparr>errno := EINVAL\<rparr>)
      | Some sg \<Rightarrow>
          (0, w\<lparr>shm_keys := forget_key i (shm_keys w),
                shms := (if sg_nattch sg = 0 then (shms w)(i := None)
                         else (shms w)(i \<mapsto> sg\<lparr>sg_dest := True\<rparr>))\<rparr>))"

text \<open>A load and a store through a pointer into an attached segment; \<open>None\<close> is a fault.\<close>

definition load_cell :: "int \<Rightarrow> int \<Rightarrow> 'a ipc_scheme \<Rightarrow> 64 word option" where
  "load_cell addr k w =
     (case maps w addr of
        None \<Rightarrow> None
      | Some i \<Rightarrow>
          (case shms w i of
             None \<Rightarrow> None
           | Some sg \<Rightarrow> if 0 \<le> k \<and> nat k < length (sg_cells sg) then Some (sg_cells sg ! nat k) else None))"

definition store_cell :: "int \<Rightarrow> int \<Rightarrow> 64 word \<Rightarrow> 'a ipc_scheme \<Rightarrow> 'a ipc_scheme option" where
  "store_cell addr k v w =
     (case maps w addr of
        None \<Rightarrow> None
      | Some i \<Rightarrow>
          (case shms w i of
             None \<Rightarrow> None
           | Some sg \<Rightarrow>
               if 0 \<le> k \<and> nat k < length (sg_cells sg)
               then Some (w\<lparr>shms := (shms w)(i \<mapsto> sg\<lparr>sg_cells := (sg_cells sg)[nat k := v]\<rparr>)\<rparr>)
               else None))"

text \<open>The cells behind an address, none when it is not attached.\<close>

definition cells_at :: "int \<Rightarrow> 'a ipc_scheme \<Rightarrow> 64 word list" where
  "cells_at addr w =
     (case maps w addr of
        None \<Rightarrow> []
      | Some i \<Rightarrow> (case shms w i of None \<Rightarrow> [] | Some sg \<Rightarrow> sg_cells sg))"

lemma load_cell_at:
  "n < length (cells_at addr w) \<Longrightarrow> load_cell addr (int n) w = Some (cells_at addr w ! n)"
  by (auto simp: load_cell_def cells_at_def split: option.splits)

lemma store_cell_at:
  assumes "n < length (cells_at addr w)"
  shows "\<exists>m. store_cell addr (int n) v w = Some (w\<lparr>shms := m\<rparr>) \<and>
    cells_at addr (w\<lparr>shms := m\<rparr>) = (cells_at addr w)[n := v]"
proof -
  from assms obtain i sg where at: "maps w addr = Some i" "shms w i = Some sg" "n < length (sg_cells sg)"
    by (auto simp: cells_at_def split: option.splits)
  define m where "m = (shms w)(i \<mapsto> sg\<lparr>sg_cells := (sg_cells sg)[n := v]\<rparr>)"
  have "store_cell addr (int n) v w = Some (w\<lparr>shms := m\<rparr>)"
    using at by (simp add: store_cell_def m_def)
  moreover have "cells_at addr (w\<lparr>shms := m\<rparr>) = (cells_at addr w)[n := v]"
    using at by (simp add: cells_at_def m_def)
  ultimately show ?thesis by blast
qed

lemma store_cell_outside:
  "length (cells_at addr w) \<le> n \<Longrightarrow> store_cell addr (int n) v w = None"
  by (auto simp: store_cell_def cells_at_def split: option.splits)

lemma load_cell_outside:
  "length (cells_at addr w) \<le> n \<Longrightarrow> load_cell addr (int n) w = None"
  by (auto simp: load_cell_def cells_at_def split: option.splits)

section \<open>Semaphores\<close>

definition semget :: "int \<Rightarrow> nat \<Rightarrow> bool \<Rightarrow> 'a ipc_scheme \<Rightarrow> int \<times> 'a ipc_scheme" where
  "semget key nsems creat w =
     (case (if key = IPC_PRIVATE then None else sem_keys w key) of
        Some i \<Rightarrow>
          if creat then (-1, w\<lparr>errno := EEXIST\<rparr>)
          else if length (ss_vals (the (sems w i))) < nsems then (-1, w\<lparr>errno := EINVAL\<rparr>)
          else (i, w)
      | None \<Rightarrow>
          if key \<noteq> IPC_PRIVATE \<and> \<not> creat then (-1, w\<lparr>errno := ENOENT\<rparr>)
          else
            (next_sem w,
             w\<lparr>sem_keys := (if key = IPC_PRIVATE then sem_keys w else (sem_keys w)(key \<mapsto> next_sem w)),
               sems := (sems w)(next_sem w \<mapsto> \<lparr>ss_vals = replicate nsems 0, ss_adj = replicate nsems 0\<rparr>),
               next_sem := next_sem w + 1\<rparr>))"

definition sem_getval :: "int \<Rightarrow> int \<Rightarrow> 'a ipc_scheme \<Rightarrow> int \<times> 'a ipc_scheme" where
  "sem_getval i n w =
     (case sems w i of
        None \<Rightarrow> (-1, w\<lparr>errno := EINVAL\<rparr>)
      | Some s \<Rightarrow> if 0 \<le> n \<and> nat n < length (ss_vals s) then (ss_vals s ! nat n, w)
                  else (-1, w\<lparr>errno := EINVAL\<rparr>))"

definition sem_rmid :: "int \<Rightarrow> 'a ipc_scheme \<Rightarrow> int \<times> 'a ipc_scheme" where
  "sem_rmid i w =
     (case sems w i of
        None \<Rightarrow> (-1, w\<lparr>errno := EINVAL\<rparr>)
      | Some s \<Rightarrow> (0, w\<lparr>sem_keys := forget_key i (sem_keys w), sems := (sems w)(i := None)\<rparr>))"

text \<open>How long an operation that cannot be done at once may wait.\<close>

datatype sem_wait = Forever | NoWait | AtMost int int

definition valid_timeout :: "sem_wait \<Rightarrow> bool" where
  "valid_timeout m = (case m of AtMost s ns \<Rightarrow> 0 \<le> s \<and> 0 \<le> ns \<and> ns < 1000000000 | _ \<Rightarrow> True)"

definition semvmx :: int where
  "semvmx = 32767"

text \<open>
  \<open>semop\<close> with one operation. With \<open>undo\<close> the adjustment that \<open>exit\<close> will apply is changed
  too. An operation that would have to wait returns with \<open>EAGAIN\<close> or blocks: while no other
  process acts the value does not change.
\<close>

definition semop :: "int \<Rightarrow> int \<Rightarrow> int \<Rightarrow> sem_wait \<Rightarrow> bool \<Rightarrow> 'a ipc_scheme \<Rightarrow> (int, 'a ipc_scheme) outcome" where
  "semop i n delta m undo w =
     (if \<not> valid_timeout m then Returns (-1) (w\<lparr>errno := EINVAL\<rparr>)
      else case sems w i of
        None \<Rightarrow> Returns (-1) (w\<lparr>errno := EINVAL\<rparr>)
      | Some s \<Rightarrow>
          if \<not> (0 \<le> n \<and> nat n < length (ss_vals s)) then Returns (-1) (w\<lparr>errno := EFBIG\<rparr>)
          else
            (let v = ss_vals s ! nat n in
             if (if delta = 0 then v \<noteq> 0 else v + delta < 0) then
               (if m = Forever then Blocks w else Returns (-1) (w\<lparr>errno := EAGAIN\<rparr>))
             else if semvmx < v + delta then Returns (-1) (w\<lparr>errno := ERANGE\<rparr>)
             else
               Returns 0 (w\<lparr>sems := (sems w)(i \<mapsto>
                 s\<lparr>ss_vals := (ss_vals s)[nat n := v + delta],
                   ss_adj := (if undo then (ss_adj s)[nat n := ss_adj s ! nat n - delta]
                              else ss_adj s)\<rparr>)\<rparr>)))"

text \<open>The end of the process: the kernel applies the adjustments and drops the mappings.\<close>

definition sem_exit :: "'a ipc_scheme \<Rightarrow> 'a ipc_scheme" where
  "sem_exit w = w\<lparr>sems := (\<lambda>i. map_option
     (\<lambda>s. s\<lparr>ss_vals := map2 (\<lambda>v a. max 0 (v + a)) (ss_vals s) (ss_adj s),
            ss_adj := map (\<lambda>_. 0) (ss_adj s)\<rparr>) (sems w i))\<rparr>"

end
