(* ===== verification/Stack_Spec.thy ===== *)
theory Stack_Spec
  imports C_Prelude
begin

text \<open>
  What \<open>Stack/stack.h\<close> promises: a stack of bounded size whose \<open>push\<close> fails with -1 when it
  is full and whose \<open>pop\<close> fails with -1 when it is empty. Both implementations of the
  repository are interpretations of the locale.
\<close>

datatype 'v stack_op = Push 'v | Pop

text \<open>The abstract stack, its top first, and what an operation answers.\<close>

fun spec_op :: "nat \<Rightarrow> 'v stack_op \<Rightarrow> 'v list \<Rightarrow> (int \<times> 'v option) \<times> 'v list" where
  "spec_op cap (Push v) xs = (if length xs < cap then ((0, None), v # xs) else ((-1, None), xs))"
| "spec_op cap Pop [] = ((-1, None), [])"
| "spec_op cap Pop (x # xs) = ((0, Some x), xs)"

fun spec_run :: "nat \<Rightarrow> 'v stack_op list \<Rightarrow> 'v list \<Rightarrow> (int \<times> 'v option) list \<times> 'v list" where
  "spec_run cap [] xs = ([], xs)"
| "spec_run cap (a # as) xs =
     (let (r, ys) = spec_op cap a xs; (rs, zs) = spec_run cap as ys in (r # rs, zs))"

fun do_op ::
  "('v \<Rightarrow> 'w \<Rightarrow> (int, 'w) outcome) \<Rightarrow> ('w \<Rightarrow> (int \<times> 'v option, 'w) outcome) \<Rightarrow> 'v stack_op \<Rightarrow> 'w \<Rightarrow>
   (int \<times> 'v option, 'w) outcome" where
  "do_op push pop (Push v) w = bind_outcome (push v w) (\<lambda>r w. Returns (r, None) w)"
| "do_op push pop Pop w = pop w"

fun do_run ::
  "('v \<Rightarrow> 'w \<Rightarrow> (int, 'w) outcome) \<Rightarrow> ('w \<Rightarrow> (int \<times> 'v option, 'w) outcome) \<Rightarrow> 'v stack_op list \<Rightarrow> 'w \<Rightarrow>
   ((int \<times> 'v option) list, 'w) outcome" where
  "do_run push pop [] w = Returns [] w"
| "do_run push pop (a # as) w =
     bind_outcome (do_op push pop a w) (\<lambda>r w.
     bind_outcome (do_run push pop as w) (\<lambda>rs w. Returns (r # rs) w))"

locale bounded_stack =
  fixes inv :: "'w \<Rightarrow> bool"
    and abs :: "'w \<Rightarrow> 'v list"
    and cap :: nat
    and push :: "'v \<Rightarrow> 'w \<Rightarrow> (int, 'w) outcome"
    and pop :: "'w \<Rightarrow> (int \<times> 'v option, 'w) outcome"
  assumes push_room: "inv w \<Longrightarrow> length (abs w) < cap \<Longrightarrow>
      \<exists>w'. push v w = Returns 0 w' \<and> inv w' \<and> abs w' = v # abs w"
    and push_full: "inv w \<Longrightarrow> cap \<le> length (abs w) \<Longrightarrow>
      \<exists>w'. push v w = Returns (-1) w' \<and> inv w' \<and> abs w' = abs w"
    and pop_top: "inv w \<Longrightarrow> abs w = x # xs \<Longrightarrow>
      \<exists>w'. pop w = Returns (0, Some x) w' \<and> inv w' \<and> abs w' = xs"
    and pop_empty: "inv w \<Longrightarrow> abs w = [] \<Longrightarrow>
      \<exists>w'. pop w = Returns (-1, None) w' \<and> inv w' \<and> abs w' = []"
begin

lemma op_refines:
  assumes "inv w"
  shows "\<exists>w'. do_op push pop a w = Returns (fst (spec_op cap a (abs w))) w' \<and> inv w' \<and>
    abs w' = snd (spec_op cap a (abs w))"
proof (cases a)
  case (Push v)
  then show ?thesis
    using push_room [OF assms, of v] push_full [OF assms, of v]
    by (cases "length (abs w) < cap") (auto simp: not_less)
next
  case Pop
  then show ?thesis
    using pop_top [OF assms] pop_empty [OF assms] by (cases "abs w") auto
qed

lemma run_refines:
  assumes "inv w"
  shows "\<exists>w'. do_run push pop as w = Returns (fst (spec_run cap as (abs w))) w' \<and> inv w' \<and>
    abs w' = snd (spec_run cap as (abs w))"
  using assms
proof (induction as arbitrary: w)
  case Nil
  then show ?case by simp
next
  case (Cons a as)
  from op_refines [OF Cons.prems, of a] obtain w1 where
    1: "do_op push pop a w = Returns (fst (spec_op cap a (abs w))) w1" "inv w1"
      "abs w1 = snd (spec_op cap a (abs w))" by blast
  from Cons.IH [OF 1(2)] obtain w2 where
    2: "do_run push pop as w1 = Returns (fst (spec_run cap as (abs w1))) w2" "inv w2"
      "abs w2 = snd (spec_run cap as (abs w1))" by blast
  show ?case
    using 1 2 by (auto simp: case_prod_beta Let_def)
qed

end

section \<open>The abstract stack is last-in first-out\<close>

lemma spec_run_append:
  "spec_run cap (as @ bs) xs =
     (let (rs, ys) = spec_run cap as xs; (rs', zs) = spec_run cap bs ys in (rs @ rs', zs))"
  by (induction as arbitrary: xs) (auto simp: case_prod_beta Let_def)

lemma spec_run_pushes:
  "length xs + length vs \<le> cap \<Longrightarrow>
   spec_run cap (map Push vs) xs = (map (\<lambda>_. (0, None)) vs, rev vs @ xs)"
  by (induction vs arbitrary: xs) auto

lemma spec_run_pops:
  "spec_run cap (replicate (length vs) Pop) (vs @ xs) = (map (\<lambda>v. (0, Some v)) vs, xs)"
  by (induction vs) auto

lemma spec_run_lifo:
  assumes "length xs + length vs \<le> cap"
  shows "spec_run cap (map Push vs @ replicate (length vs) Pop) xs =
    (map (\<lambda>_. (0, None)) vs @ map (\<lambda>v. (0, Some v)) (rev vs), xs)"
  using spec_run_pushes [OF assms] spec_run_pops [of cap "rev vs" xs]
  by (simp add: spec_run_append)

lemma spec_run_bounded:
  "length xs \<le> cap \<Longrightarrow> length (snd (spec_run cap as xs)) \<le> cap"
proof (induction as arbitrary: xs)
  case (Cons a as)
  have "length (snd (spec_op cap a xs)) \<le> cap"
    using Cons.prems by (cases a; cases xs) auto
  from Cons.IH [OF this] show ?case by (simp add: case_prod_beta Let_def)
qed simp

end
