(* ===== verification/Shm_Stack.thy ===== *)
theory Shm_Stack
  imports SysV_Ipc Stack_Spec
begin

text \<open>
  \<open>Stack/stack.c\<close>: a stack in a shared memory segment with a set of two semaphores, the
  number of elements and a flag that is 1 while nobody works on the stack. Here one process
  runs its operations to the end; \<open>Shm_Stack_Conc\<close> interleaves many.
\<close>

section \<open>State\<close>

text \<open>The two global variables, on top of what the kernel keeps.\<close>

record stack_world = ipc +
  timeout_flag :: int
  timeout_time :: "int \<times> int"

record stack_t =
  st_size :: int
  st_memory :: int
  st_shmem_id :: int
  st_sem_id :: int

definition SEM_COUNT :: int where "SEM_COUNT = 0"
definition SEM_FLAG :: int where "SEM_FLAG = 1"
definition NEED :: int where "NEED = 1"
definition NOT_NEED :: int where "NOT_NEED = 0"

lemmas stack_consts = SEM_COUNT_def SEM_FLAG_def NEED_def NOT_NEED_def

section \<open>Operations\<close>

definition sem_change :: "int \<Rightarrow> int \<Rightarrow> int \<Rightarrow> int \<Rightarrow> stack_world \<Rightarrow> (int, stack_world) outcome" where
  "sem_change sem_id sem_num val undo w =
     (if sem_num = SEM_COUNT then semop sem_id sem_num val Forever False w
      else if sem_num = SEM_FLAG then
        (if timeout_flag w = -1 then semop sem_id sem_num val NoWait (undo = NEED) w
         else if timeout_flag w = 0 then semop sem_id sem_num val Forever (undo = NEED) w
         else if timeout_flag w = 1 then
           semop sem_id sem_num val (AtMost (fst (timeout_time w)) (snd (timeout_time w))) (undo = NEED) w
         else Returns (-1) w)
      else Returns (-1) w)"

text \<open>What \<open>print_sem\<close> prints.\<close>

definition print_sem :: "int \<Rightarrow> int \<Rightarrow> stack_world \<Rightarrow> byte list \<times> stack_world" where
  "print_sem sem_id sem_num w =
     (let (val, w) = sem_getval sem_id sem_num w in
      if val = -1 then (cstr ''Invalid semaphore in print_sem'' @ [10], w)
      else (cstr ''value of '' @ dec_of_int sem_num @ cstr '' sem: '' @ dec_of_int val @ [10], w))"

definition attach_stack :: "int \<Rightarrow> int \<Rightarrow> stack_world \<Rightarrow> (stack_t option, stack_world) outcome" where
  "attach_stack key bytes w =
     (let (shmem_id, w) = shmget key bytes False True w; my_errno = errno w in
      if 0 < shmem_id then
        (let (memory, w) = shmat shmem_id w in
         bind_outcome (c_assert (memory \<noteq> 0) w) (\<lambda>_ w.
         let (sem_id, w) = semget key 2 False w in
         if sem_id \<le> 0 then Returns None w
         else Returns (Some \<lparr>st_size = bytes, st_memory = memory, st_shmem_id = shmem_id,
                             st_sem_id = sem_id\<rparr>) w))
      else if my_errno = EINVAL then Returns None w
      else
        (let (shmem_id, w) = shmget key bytes True True w in
         bind_outcome (c_assert (0 < shmem_id) w) (\<lambda>_ w.
         let (memory, w) = shmat shmem_id w in
         bind_outcome (c_assert (memory \<noteq> 0) w) (\<lambda>_ w.
         let (sem_id, w) = semget key 2 True w in
         if errno w = EEXIST \<or> sem_id \<le> 0 then Returns None w
         else
           bind_outcome (c_assert (0 < sem_id) w) (\<lambda>_ w.
           bind_outcome (sem_change sem_id SEM_FLAG 1 NOT_NEED w) (\<lambda>_ w.
           Returns (Some \<lparr>st_size = bytes, st_memory = memory, st_shmem_id = shmem_id,
                          st_sem_id = sem_id\<rparr>) w))))))"

text \<open>\<open>detach_stack\<close> runs off its end without a value when it succeeds.\<close>

definition detach_stack :: "stack_t option \<Rightarrow> stack_world \<Rightarrow> (int option, stack_world) outcome" where
  "detach_stack stack w =
     (case stack of
        None \<Rightarrow> Returns (Some (-1)) w
      | Some s \<Rightarrow>
          (let (check, w) = shmdt (st_memory s) w in
           bind_outcome (c_assert (0 \<le> check) w) (\<lambda>_ w. Returns None w)))"

definition mark_destruct :: "stack_t option \<Rightarrow> stack_world \<Rightarrow> (int, stack_world) outcome" where
  "mark_destruct stack w =
     (case stack of
        None \<Rightarrow> Returns (-1) w
      | Some s \<Rightarrow>
          (let (check, w) = shm_rmid (st_shmem_id s) w in
           bind_outcome (c_assert (check = 0) w) (\<lambda>_ w.
           let (check, w) = sem_rmid (st_sem_id s) w in
           bind_outcome (c_assert (check = 0) w) (\<lambda>_ w. Returns 0 w))))"

definition get_size :: "stack_t option \<Rightarrow> int" where
  "get_size stack = (case stack of None \<Rightarrow> -1 | Some s \<Rightarrow> st_size s)"

definition get_count :: "stack_t option \<Rightarrow> stack_world \<Rightarrow> (int, stack_world) outcome" where
  "get_count stack w =
     (case stack of
        None \<Rightarrow> Returns (-1) w
      | Some s \<Rightarrow>
          (let (val, w) = sem_getval (st_sem_id s) SEM_COUNT w in
           if errno w = EIDRM then Exits 1 w else Returns val w))"

definition push :: "stack_t option \<Rightarrow> 64 word \<Rightarrow> stack_world \<Rightarrow> (int, stack_world) outcome" where
  "push stack val w =
     (case stack of
        None \<Rightarrow> Returns (-1) w
      | Some s \<Rightarrow>
          bind_outcome (sem_change (st_sem_id s) SEM_FLAG (-1) NEED w) (\<lambda>check w.
          if check = 0 then
            bind_outcome (get_count stack w) (\<lambda>count w.
            if get_size stack \<le> count then
              bind_outcome (sem_change (st_sem_id s) SEM_FLAG 1 NEED w) (\<lambda>_ w. Returns (-1) w)
            else
              bind_outcome (get_count stack w) (\<lambda>count w.
              case store_cell (st_memory s) count val w of
                None \<Rightarrow> Faults w
              | Some w \<Rightarrow>
                  bind_outcome (sem_change (st_sem_id s) SEM_COUNT 1 NOT_NEED w) (\<lambda>_ w.
                  bind_outcome (sem_change (st_sem_id s) SEM_FLAG 1 NEED w) (\<lambda>_ w.
                  Returns 0 w))))
          else Returns check w))"

text \<open>\<open>pop\<close> with what it stores through \<open>val\<close>, if it does.\<close>

definition pop :: "stack_t option \<Rightarrow> stack_world \<Rightarrow> (int \<times> 64 word option, stack_world) outcome" where
  "pop stack w =
     (case stack of
        None \<Rightarrow> Returns (-1, None) w
      | Some s \<Rightarrow>
          bind_outcome (sem_change (st_sem_id s) SEM_FLAG (-1) NEED w) (\<lambda>check w.
          if check = 0 then
            bind_outcome (get_count stack w) (\<lambda>count w.
            if count = 0 then
              bind_outcome (sem_change (st_sem_id s) SEM_FLAG 1 NEED w) (\<lambda>_ w. Returns (-1, None) w)
            else
              bind_outcome (get_count stack w) (\<lambda>count w.
              case load_cell (st_memory s) (count - 1) w of
                None \<Rightarrow> Faults w
              | Some val \<Rightarrow>
                  bind_outcome (sem_change (st_sem_id s) SEM_COUNT (-1) NOT_NEED w) (\<lambda>_ w.
                  bind_outcome (sem_change (st_sem_id s) SEM_FLAG 1 NEED w) (\<lambda>_ w.
                  Returns (0, Some val) w))))
          else Returns (check, None) w))"

definition set_wait :: "int \<Rightarrow> (int \<times> int) option \<Rightarrow> stack_world \<Rightarrow> (int option, stack_world) outcome" where
  "set_wait val timeout w =
     Returns None
       (case timeout of
          None \<Rightarrow> w\<lparr>timeout_flag := val\<rparr>
        | Some t \<Rightarrow> w\<lparr>timeout_flag := val, timeout_time := t\<rparr>)"

definition clear_key :: "int \<Rightarrow> int \<Rightarrow> stack_world \<Rightarrow> (int option, stack_world) outcome" where
  "clear_key key bytes w =
     bind_outcome (attach_stack key bytes w) (\<lambda>stack w.
     bind_outcome (c_assert (stack \<noteq> None) w) (\<lambda>_ w.
     bind_outcome (mark_destruct stack w) (\<lambda>_ w. Returns None w)))"

text \<open>\<open>rnd\<close> is what \<open>rand\<close> returns after \<open>srand (time (NULL))\<close>.\<close>

definition rand_key_gen :: "int \<Rightarrow> byte list list \<Rightarrow> (int, unit) outcome" where
  "rand_key_gen rnd argv =
     (if length argv = 1 then Returns rnd ()
      else if 1 < length argv then Returns (atoi (argv ! 1)) ()
      else Faults ())"

section \<open>The view of one stack\<close>

definition stack_sems :: "stack_t \<Rightarrow> stack_world \<Rightarrow> int list" where
  "stack_sems s w = (case sems w (st_sem_id s) of None \<Rightarrow> [] | Some ss \<Rightarrow> ss_vals ss)"

definition stack_cells :: "stack_t \<Rightarrow> stack_world \<Rightarrow> 64 word list" where
  "stack_cells s w = cells_at (st_memory s) w"

definition waits_ok :: "stack_world \<Rightarrow> bool" where
  "waits_ok w \<longleftrightarrow> timeout_flag w = -1 \<or> timeout_flag w = 0 \<or>
     timeout_flag w = 1 \<and> valid_timeout (AtMost (fst (timeout_time w)) (snd (timeout_time w)))"

text \<open>The semaphores and the memory behind a handle, while nothing odd is going on around it.\<close>

definition stack_view :: "stack_t \<Rightarrow> stack_world \<Rightarrow> int list \<Rightarrow> 64 word list \<Rightarrow> bool" where
  "stack_view s w vals cells \<longleftrightarrow>
     stack_sems s w = vals \<and> stack_cells s w = cells \<and> errno w \<noteq> EIDRM \<and> waits_ok w"

text \<open>The abstract stack of a world: the first \<open>count\<close> cells, the last of them on top.\<close>

definition stack_abs :: "stack_t \<Rightarrow> stack_world \<Rightarrow> 64 word list" where
  "stack_abs s w = rev (take (nat (hd (stack_sems s w))) (stack_cells s w))"

definition stack_inv :: "stack_t \<Rightarrow> stack_world \<Rightarrow> bool" where
  "stack_inv s w \<longleftrightarrow>
     (\<exists>n cells. stack_view s w [int n, 1] cells \<and> n \<le> length cells \<and>
        0 \<le> st_size s \<and> st_size s \<le> int (length cells) \<and> st_size s \<le> semvmx \<and> int n \<le> semvmx)"

lemma semop_done:
  assumes "sems w i = Some ss" and "ss_vals ss = vals" and "0 \<le> n" and "nat n < length vals"
    and "delta \<noteq> 0" and "0 \<le> vals ! nat n + delta" and "vals ! nat n + delta \<le> semvmx"
    and "valid_timeout m"
  shows "\<exists>ss'. ss_vals ss' = vals[nat n := vals ! nat n + delta] \<and>
    semop i n delta m undo w = Returns 0 (w\<lparr>sems := (sems w)(i \<mapsto> ss')\<rparr>)"
proof -
  define ss' where "ss' = ss\<lparr>ss_vals := vals[nat n := vals ! nat n + delta],
    ss_adj := (if undo then (ss_adj ss)[nat n := ss_adj ss ! nat n - delta] else ss_adj ss)\<rparr>"
  have "semop i n delta m undo w = Returns 0 (w\<lparr>sems := (sems w)(i \<mapsto> ss')\<rparr>)"
    using assms by (simp add: semop_def Let_def ss'_def)
  moreover have "ss_vals ss' = vals[nat n := vals ! nat n + delta]" by (simp add: ss'_def)
  ultimately show ?thesis by blast
qed

lemma stack_sems_Some:
  assumes "stack_view s w vals cells" and "vals \<noteq> []"
  obtains ss where "sems w (st_sem_id s) = Some ss" and "ss_vals ss = vals"
  using assms by (auto simp: stack_view_def stack_sems_def split: option.splits)

lemma stack_view_sems:
  assumes "stack_view s w vals cells" and "ss_vals ss = vals'"
  shows "stack_view s (w\<lparr>sems := (sems w)(st_sem_id s \<mapsto> ss)\<rparr>) vals' cells"
proof -
  have "stack_cells s (w\<lparr>sems := (sems w)(st_sem_id s \<mapsto> ss)\<rparr>) = stack_cells s w"
    by (auto simp: stack_cells_def cells_at_def split: option.splits)
  with assms show ?thesis by (simp add: stack_view_def stack_sems_def waits_ok_def)
qed

lemma sem_change_flag:
  assumes "stack_view s w [c, f] cells" and "delta \<noteq> 0" and "0 \<le> f + delta" and "f + delta \<le> semvmx"
  shows "\<exists>w'. sem_change (st_sem_id s) SEM_FLAG delta undo w = Returns 0 w' \<and>
    stack_view s w' [c, f + delta] cells"
proof -
  from stack_sems_Some [OF assms(1)] obtain ss where
    ss: "sems w (st_sem_id s) = Some ss" "ss_vals ss = [c, f]" by auto
  obtain m where m: "valid_timeout m" "sem_change (st_sem_id s) SEM_FLAG delta undo w =
      semop (st_sem_id s) 1 delta m (undo = NEED) w"
  proof -
    from assms(1) consider "timeout_flag w = -1" | "timeout_flag w = 0"
      | "timeout_flag w = 1" "valid_timeout (AtMost (fst (timeout_time w)) (snd (timeout_time w)))"
      by (auto simp: stack_view_def waits_ok_def)
    then show ?thesis
    proof cases
      case 1
      then show ?thesis using that [of NoWait] by (simp add: sem_change_def stack_consts valid_timeout_def)
    next
      case 2
      then show ?thesis using that [of Forever] by (simp add: sem_change_def stack_consts valid_timeout_def)
    next
      case 3
      then show ?thesis using that [OF 3(2)] by (simp add: sem_change_def stack_consts)
    qed
  qed
  from semop_done [OF ss, of 1 delta m "undo = NEED"] m assms(2-4) obtain ss' where
    "ss_vals ss' = [c, f + delta]"
    "sem_change (st_sem_id s) SEM_FLAG delta undo w = Returns 0 (w\<lparr>sems := (sems w)(st_sem_id s \<mapsto> ss')\<rparr>)"
    by auto
  then show ?thesis
    using stack_view_sems [OF assms(1)] by blast
qed

lemma sem_change_count:
  assumes "stack_view s w [c, f] cells" and "delta \<noteq> 0" and "0 \<le> c + delta" and "c + delta \<le> semvmx"
  shows "\<exists>w'. sem_change (st_sem_id s) SEM_COUNT delta undo w = Returns 0 w' \<and>
    stack_view s w' [c + delta, f] cells"
proof -
  from stack_sems_Some [OF assms(1)] obtain ss where
    ss: "sems w (st_sem_id s) = Some ss" "ss_vals ss = [c, f]" by auto
  from semop_done [OF ss, of 0 delta Forever False] assms(2-4) obtain ss' where
    "ss_vals ss' = [c + delta, f]"
    "sem_change (st_sem_id s) SEM_COUNT delta undo w = Returns 0 (w\<lparr>sems := (sems w)(st_sem_id s \<mapsto> ss')\<rparr>)"
    by (auto simp: sem_change_def stack_consts valid_timeout_def)
  then show ?thesis
    using stack_view_sems [OF assms(1)] by blast
qed

lemma sem_change_frame:
  assumes "sem_change i n delta undo w = Returns r w'"
  shows "shm_keys w' = shm_keys w" and "sem_keys w' = sem_keys w" and "maps w' = maps w"
    and "shms w' = shms w"
  using assms
  by (auto simp: sem_change_def semop_def Let_def split: if_splits option.splits)

lemma get_count_view:
  "stack_view s w (c # vals) cells \<Longrightarrow> get_count (Some s) w = Returns c w"
  by (auto simp: get_count_def sem_getval_def stack_consts stack_view_def stack_sems_def
      split: option.splits)

lemma store_cell_view:
  assumes "stack_view s w vals cells" and "n < length cells"
  shows "\<exists>w'. store_cell (st_memory s) (int n) v w = Some w' \<and> stack_view s w' vals (cells[n := v])"
  using assms
  by (auto simp: store_cell_def stack_view_def stack_sems_def stack_cells_def cells_at_def waits_ok_def
      split: option.splits)

lemma store_cell_out:
  assumes "stack_view s w vals cells" and "length cells \<le> n"
  shows "store_cell (st_memory s) (int n) v w = None"
  using assms
  by (auto simp: store_cell_def stack_view_def stack_cells_def cells_at_def split: option.splits)

lemma load_cell_view:
  assumes "stack_view s w vals cells" and "n < length cells"
  shows "load_cell (st_memory s) (int n) w = Some (cells ! n)"
  using assms
  by (auto simp: load_cell_def stack_view_def stack_cells_def cells_at_def split: option.splits)

section \<open>What push and pop do\<close>

lemma push_view:
  assumes "stack_view s w [int n, 1] cells" and "int n < st_size s" and "n < length cells"
    and "int n < semvmx"
  shows "\<exists>w'. push (Some s) v w = Returns 0 w' \<and> stack_view s w' [int (Suc n), 1] (cells[n := v])"
proof -
  from sem_change_flag [OF assms(1), of "-1" NEED] obtain w1 where
    1: "sem_change (st_sem_id s) SEM_FLAG (-1) NEED w = Returns 0 w1"
      "stack_view s w1 [int n, 0] cells" by (auto simp: semvmx_def)
  from store_cell_view [OF 1(2) assms(3), of v] obtain w2 where
    2: "store_cell (st_memory s) (int n) v w1 = Some w2" "stack_view s w2 [int n, 0] (cells[n := v])"
    by blast
  from sem_change_count [OF 2(2), of 1 NOT_NEED] assms(4) obtain w3 where
    3: "sem_change (st_sem_id s) SEM_COUNT 1 NOT_NEED w2 = Returns 0 w3"
      "stack_view s w3 [int n + 1, 0] (cells[n := v])" by auto
  from sem_change_flag [OF 3(2), of 1 NEED] obtain w4 where
    4: "sem_change (st_sem_id s) SEM_FLAG 1 NEED w3 = Returns 0 w4"
      "stack_view s w4 [int n + 1, 1] (cells[n := v])" by (auto simp: semvmx_def)
  have "push (Some s) v w = Returns 0 w4"
    using 1(1) 2(1) 3(1) 4(1) get_count_view [OF 1(2)] assms(2)
    by (simp add: push_def get_size_def)
  with 4(2) show ?thesis by (auto simp: add.commute)
qed

lemma push_full_view:
  assumes "stack_view s w [int n, 1] cells" and "st_size s \<le> int n"
  shows "\<exists>w'. push (Some s) v w = Returns (-1) w' \<and> stack_view s w' [int n, 1] cells"
proof -
  from sem_change_flag [OF assms(1), of "-1" NEED] obtain w1 where
    1: "sem_change (st_sem_id s) SEM_FLAG (-1) NEED w = Returns 0 w1"
      "stack_view s w1 [int n, 0] cells" by (auto simp: semvmx_def)
  from sem_change_flag [OF 1(2), of 1 NEED] obtain w2 where
    2: "sem_change (st_sem_id s) SEM_FLAG 1 NEED w1 = Returns 0 w2"
      "stack_view s w2 [int n, 1] cells" by (auto simp: semvmx_def)
  have "push (Some s) v w = Returns (-1) w2"
    using 1(1) 2(1) get_count_view [OF 1(2)] assms(2) by (simp add: push_def get_size_def)
  with 2(2) show ?thesis by blast
qed

lemma pop_view:
  assumes "stack_view s w [int (Suc n), 1] cells" and "n < length cells" and "int (Suc n) \<le> semvmx"
  shows "\<exists>w'. pop (Some s) w = Returns (0, Some (cells ! n)) w' \<and> stack_view s w' [int n, 1] cells"
proof -
  from sem_change_flag [OF assms(1), of "-1" NEED] obtain w1 where
    1: "sem_change (st_sem_id s) SEM_FLAG (-1) NEED w = Returns 0 w1"
      "stack_view s w1 [int (Suc n), 0] cells" by (auto simp: semvmx_def)
  from sem_change_count [OF 1(2), of "-1" NOT_NEED] assms(3) obtain w2 where
    2: "sem_change (st_sem_id s) SEM_COUNT (-1) NOT_NEED w1 = Returns 0 w2"
      "stack_view s w2 [int n, 0] cells" by auto
  from sem_change_flag [OF 2(2), of 1 NEED] obtain w3 where
    3: "sem_change (st_sem_id s) SEM_FLAG 1 NEED w2 = Returns 0 w3"
      "stack_view s w3 [int n, 1] cells" by (auto simp: semvmx_def)
  have "pop (Some s) w = Returns (0, Some (cells ! n)) w3"
    using 1(1) 2(1) 3(1) get_count_view [OF 1(2)] load_cell_view [OF 1(2) assms(2)]
    by (simp add: pop_def)
  with 3(2) show ?thesis by blast
qed

lemma pop_empty_view:
  assumes "stack_view s w [0, 1] cells"
  shows "\<exists>w'. pop (Some s) w = Returns (-1, None) w' \<and> stack_view s w' [0, 1] cells"
proof -
  from sem_change_flag [OF assms(1), of "-1" NEED] obtain w1 where
    1: "sem_change (st_sem_id s) SEM_FLAG (-1) NEED w = Returns 0 w1"
      "stack_view s w1 [0, 0] cells" by (auto simp: semvmx_def)
  from sem_change_flag [OF 1(2), of 1 NEED] obtain w2 where
    2: "sem_change (st_sem_id s) SEM_FLAG 1 NEED w1 = Returns 0 w2"
      "stack_view s w2 [0, 1] cells" by (auto simp: semvmx_def)
  have "pop (Some s) w = Returns (-1, None) w2"
    using 1(1) 2(1) get_count_view [OF 1(2)] by (simp add: pop_def)
  with 2(2) show ?thesis by blast
qed

section \<open>The bounded stack of a good handle\<close>

lemma stack_abs_view:
  "stack_view s w [int n, f] cells \<Longrightarrow> stack_abs s w = rev (take n cells)"
  by (simp add: stack_view_def stack_abs_def)

lemma rev_take_update:
  "n < length cells \<Longrightarrow> rev (take (Suc n) (cells[n := v])) = v # rev (take n cells)"
  by (simp add: take_Suc_conv_app_nth)

lemma stack_invE:
  assumes "stack_inv s w"
  obtains n cells where "stack_view s w [int n, 1] cells" and "n \<le> length cells"
    and "0 \<le> st_size s" and "st_size s \<le> int (length cells)" and "st_size s \<le> semvmx"
    and "int n \<le> semvmx" and "stack_abs s w = rev (take n cells)"
  using assms stack_abs_view unfolding stack_inv_def by blast

lemma stack_invI:
  assumes "stack_view s w [int n, 1] cells" and "n \<le> length cells"
    and "0 \<le> st_size s" and "st_size s \<le> int (length cells)" and "st_size s \<le> semvmx"
    and "int n \<le> semvmx"
  shows "stack_inv s w" and "stack_abs s w = rev (take n cells)"
  using assms stack_abs_view unfolding stack_inv_def by blast+

interpretation shm: bounded_stack "stack_inv s" "stack_abs s" "nat (st_size s)"
    "push (Some s)" "pop (Some s)" for s :: stack_t
proof unfold_locales
  fix w v
  assume "stack_inv s w" and room: "length (stack_abs s w) < nat (st_size s)"
  from this(1) obtain n cells where g: "stack_view s w [int n, 1] cells" "n \<le> length cells"
      "0 \<le> st_size s" "st_size s \<le> int (length cells)" "st_size s \<le> semvmx" "int n \<le> semvmx"
      "stack_abs s w = rev (take n cells)"
    by (rule stack_invE)
  from room g have "int n < st_size s" "n < length cells" "int n < semvmx" by auto
  from push_view [OF g(1) this, of v] obtain w' where
    w': "push (Some s) v w = Returns 0 w'" "stack_view s w' [int (Suc n), 1] (cells[n := v])"
    by blast
  from stack_invI [OF w'(2)] g \<open>n < length cells\<close> \<open>int n < semvmx\<close>
  have "stack_inv s w'" "stack_abs s w' = v # stack_abs s w"
    by (simp_all add: rev_take_update del: take_Suc)
  with w'(1) show "\<exists>w'. push (Some s) v w = Returns 0 w' \<and> stack_inv s w' \<and>
      stack_abs s w' = v # stack_abs s w" by blast
next
  fix w v
  assume "stack_inv s w" and full: "nat (st_size s) \<le> length (stack_abs s w)"
  from this(1) obtain n cells where g: "stack_view s w [int n, 1] cells" "n \<le> length cells"
      "0 \<le> st_size s" "st_size s \<le> int (length cells)" "st_size s \<le> semvmx" "int n \<le> semvmx"
      "stack_abs s w = rev (take n cells)"
    by (rule stack_invE)
  from full g have "st_size s \<le> int n" by auto
  from push_full_view [OF g(1) this, of v] g show
    "\<exists>w'. push (Some s) v w = Returns (-1) w' \<and> stack_inv s w' \<and> stack_abs s w' = stack_abs s w"
    using stack_invI by metis
next
  fix w x xs
  assume "stack_inv s w" and top: "stack_abs s w = x # xs"
  from this(1) obtain n cells where g: "stack_view s w [int n, 1] cells" "n \<le> length cells"
      "0 \<le> st_size s" "st_size s \<le> int (length cells)" "st_size s \<le> semvmx" "int n \<le> semvmx"
      "stack_abs s w = rev (take n cells)"
    by (rule stack_invE)
  from top g(7) obtain k where k: "n = Suc k" by (cases n) auto
  with g(2) have "k < length cells" by simp
  with top g(7) k have x: "x = cells ! k" "xs = rev (take k cells)"
    by (auto simp: take_Suc_conv_app_nth)
  from pop_view [of s w k cells] g(1,6) k \<open>k < length cells\<close> obtain w' where
    w': "pop (Some s) w = Returns (0, Some x) w'" "stack_view s w' [int k, 1] cells"
    unfolding x by auto
  from stack_invI [OF w'(2)] g k have "stack_inv s w'" "stack_abs s w' = xs"
    by (simp_all add: x)
  with w'(1) show "\<exists>w'. pop (Some s) w = Returns (0, Some x) w' \<and> stack_inv s w' \<and>
      stack_abs s w' = xs" by blast
next
  fix w
  assume "stack_inv s w" and empty: "stack_abs s w = []"
  from this(1) obtain n cells where g: "stack_view s w [int n, 1] cells" "n \<le> length cells"
      "0 \<le> st_size s" "st_size s \<le> int (length cells)" "st_size s \<le> semvmx" "int n \<le> semvmx"
      "stack_abs s w = rev (take n cells)"
    by (rule stack_invE)
  from empty g have "n = 0" by (cases cells) auto
  with g(1) have "stack_view s w [0, 1] cells" by simp
  from pop_empty_view [OF this] obtain w' where
    w': "pop (Some s) w = Returns (-1, None) w'" "stack_view s w' [int 0, 1] cells" by auto
  from stack_invI [OF w'(2)] g have "stack_inv s w'" "stack_abs s w' = []" by simp_all
  with w'(1) show "\<exists>w'. pop (Some s) w = Returns (-1, None) w' \<and> stack_inv s w' \<and>
      stack_abs s w' = []" by blast
qed

section \<open>Attaching\<close>

lemma attach_new_view:
  assumes "shm_keys w key = None" and "sem_keys w key = None" and "key \<noteq> IPC_PRIVATE"
    and "0 < next_shm w" and "0 < next_sem w" and "0 < next_addr w"
    and "1 \<le> bytes" and "bytes \<le> 4096" and "waits_ok w"
  shows "\<exists>s w'. attach_stack key bytes w = Returns (Some s) w' \<and>
    stack_view s w' [0, 1] (replicate 512 0) \<and> st_size s = bytes \<and>
    shm_keys w' key = Some (st_shmem_id s) \<and> sem_keys w' key = Some (st_sem_id s) \<and>
    maps w' (st_memory s) = Some (st_shmem_id s)"
proof -
  define s where "s = \<lparr>st_size = bytes, st_memory = next_addr w, st_shmem_id = next_shm w,
    st_sem_id = next_sem w\<rparr>"
  define sg where "sg = \<lparr>sg_size = bytes, sg_cells = replicate 512 0, sg_nattch = 1, sg_dest = False\<rparr>"
  define ss where "ss = \<lparr>ss_vals = [0, 0], ss_adj = [0, 0]\<rparr>"
  define w1 where "w1 = w\<lparr>errno := ENOENT, shm_keys := (shm_keys w)(key \<mapsto> next_shm w),
    next_shm := next_shm w + 1, shms := (shms w)(next_shm w \<mapsto> sg),
    maps := (maps w)(next_addr w \<mapsto> next_shm w), next_addr := next_addr w + 1,
    sem_keys := (sem_keys w)(key \<mapsto> next_sem w), sems := (sems w)(next_sem w \<mapsto> ss),
    next_sem := next_sem w + 1\<rparr>"
  have size: "size_t bytes = bytes" "seg_cells bytes = 512" "bytes \<le> shmmax"
    using assms(7,8) by (simp_all add: size_t_nonneg shmmax_def)
  have run: "attach_stack key bytes w =
      bind_outcome (sem_change (next_sem w) SEM_FLAG 1 NOT_NEED w1) (\<lambda>_ w. Returns (Some s) w)"
    using assms size
    by (simp add: attach_stack_def shmget_def new_shm_def shmat_def semget_def w1_def sg_def ss_def s_def
        numeral_2_eq_2 Let_def)
  have view: "stack_view s w1 [0, 0] (replicate 512 0)"
    using assms(9)
    by (simp add: stack_view_def stack_sems_def stack_cells_def cells_at_def waits_ok_def w1_def s_def sg_def ss_def)
  have w1: "shm_keys w1 key = Some (st_shmem_id s)" "sem_keys w1 key = Some (st_sem_id s)"
      "maps w1 (st_memory s) = Some (st_shmem_id s)"
    by (simp_all add: w1_def s_def)
  from sem_change_flag [OF view, of 1 NOT_NEED] obtain w2 where
    w2: "sem_change (next_sem w) SEM_FLAG 1 NOT_NEED w1 = Returns 0 w2"
      "stack_view s w2 [0, 1] (replicate 512 0)"
    by (auto simp: semvmx_def s_def)
  have "attach_stack key bytes w = Returns (Some s) w2"
    by (simp add: run w2(1))
  then show ?thesis
    using w1 w2(2) sem_change_frame [OF w2(1)] by (auto simp: s_def)
qed

lemma attach_new:
  assumes "shm_keys w key = None" and "sem_keys w key = None" and "key \<noteq> IPC_PRIVATE"
    and "0 < next_shm w" and "0 < next_sem w" and "0 < next_addr w"
    and "1 \<le> bytes" and "bytes \<le> 512" and "waits_ok w"
  shows "\<exists>s w'. attach_stack key bytes w = Returns (Some s) w' \<and> stack_inv s w' \<and>
    stack_abs s w' = [] \<and> st_size s = bytes \<and>
    shm_keys w' key = Some (st_shmem_id s) \<and> sem_keys w' key = Some (st_sem_id s) \<and>
    maps w' (st_memory s) = Some (st_shmem_id s)"
proof -
  from assms(8) have "bytes \<le> 4096" by simp
  from attach_new_view [OF assms(1-7) this assms(9)] obtain s w' where
    1: "attach_stack key bytes w = Returns (Some s) w'" "stack_view s w' [0, 1] (replicate 512 0)"
      "st_size s = bytes" "shm_keys w' key = Some (st_shmem_id s)"
      "sem_keys w' key = Some (st_sem_id s)" "maps w' (st_memory s) = Some (st_shmem_id s)"
    by blast
  from stack_invI [of s w' 0] 1(2,3) assms(7,8)
  have "stack_inv s w'" "stack_abs s w' = []" by (simp_all add: semvmx_def)
  with 1 show ?thesis by blast
qed

lemma stack_view_maps:
  assumes "stack_view s w vals cells" and "maps w (st_memory s) = Some i"
    and "maps w' (st_memory s') = Some i" and "map_option sg_cells (shms w' i) = map_option sg_cells (shms w i)"
    and "sems w' = sems w" and "st_sem_id s' = st_sem_id s" and "errno w' = errno w"
    and "timeout_flag w' = timeout_flag w" and "timeout_time w' = timeout_time w"
  shows "stack_view s' w' vals cells"
proof -
  have "stack_cells s' w' = stack_cells s w"
    using assms(2-4) by (cases "shms w i"; cases "shms w' i") (auto simp: stack_cells_def cells_at_def)
  with assms show ?thesis by (simp add: stack_view_def stack_sems_def waits_ok_def)
qed

lemma attach_existing:
  assumes "stack_view s w [int n, 1] cells" and "n \<le> length cells" and "int n \<le> semvmx"
    and "shm_keys w key = Some i" and "maps w (st_memory s) = Some i" and "shms w i = Some sg"
    and "sem_keys w key = Some (st_sem_id s)" and "key \<noteq> IPC_PRIVATE"
    and "0 < i" and "0 < st_sem_id s" and "0 < next_addr w"
    and "0 \<le> bytes" and "bytes \<le> sg_size sg" and "bytes < 2 ^ 31" and "bytes \<le> int (length cells)"
    and "bytes \<le> semvmx"
  shows "\<exists>s' w'. attach_stack key bytes w = Returns (Some s') w' \<and> stack_inv s' w' \<and>
    stack_abs s' w' = stack_abs s w \<and> st_size s' = bytes \<and>
    st_sem_id s' = st_sem_id s \<and> maps w' (st_memory s') = Some i"
proof -
  define s' where "s' = \<lparr>st_size = bytes, st_memory = next_addr w, st_shmem_id = i,
    st_sem_id = st_sem_id s\<rparr>"
  define w' where "w' = w\<lparr>shms := (shms w)(i \<mapsto> sg\<lparr>sg_nattch := sg_nattch sg + 1\<rparr>),
     maps := (maps w)(next_addr w \<mapsto> i), next_addr := next_addr w + 1\<rparr>"
  from stack_sems_Some [OF assms(1)] obtain ss where
    ss: "sems w (st_sem_id s) = Some ss" "ss_vals ss = [int n, 1]" by auto
  have "size_t bytes = bytes" using assms(12,14) by (simp add: size_t_nonneg)
  then have "attach_stack key bytes w = Returns (Some s') w'"
    using assms ss
    by (simp add: attach_stack_def shmget_def shmat_def semget_def Let_def s'_def w'_def)
  moreover have view: "stack_view s' w' [int n, 1] cells"
    by (rule stack_view_maps [OF assms(1,5)]) (use assms in \<open>simp_all add: s'_def w'_def\<close>)
  moreover from stack_invI [OF view assms(2)] assms stack_abs_view [OF assms(1)]
  have "stack_inv s' w'" "stack_abs s' w' = stack_abs s w" by (simp_all add: s'_def)
  ultimately show ?thesis by (auto simp: s'_def w'_def)
qed

section \<open>Where push goes wrong\<close>

lemma push_faults_view:
  assumes "stack_view s w [int n, 1] cells" and "int n < st_size s" and "length cells \<le> n"
  shows "\<exists>w'. push (Some s) v w = Faults w'"
proof -
  from sem_change_flag [OF assms(1), of "-1" NEED] obtain w1 where
    1: "sem_change (st_sem_id s) SEM_FLAG (-1) NEED w = Returns 0 w1"
      "stack_view s w1 [int n, 0] cells" by (auto simp: semvmx_def)
  show ?thesis
    using 1(1) get_count_view [OF 1(2)] store_cell_out [OF 1(2) assms(3)] assms(2)
    by (simp add: push_def get_size_def)
qed

lemma sem_change_count_max:
  assumes "stack_view s w [semvmx, f] cells"
  shows "\<exists>w'. sem_change (st_sem_id s) SEM_COUNT 1 undo w = Returns (-1) w' \<and>
    stack_view s w' [semvmx, f] cells"
proof -
  from stack_sems_Some [OF assms] obtain ss where
    ss: "sems w (st_sem_id s) = Some ss" "ss_vals ss = [semvmx, f]" by auto
  then have "sem_change (st_sem_id s) SEM_COUNT 1 undo w = Returns (-1) (w\<lparr>errno := ERANGE\<rparr>)"
    by (simp add: sem_change_def stack_consts semop_def valid_timeout_def semvmx_def Let_def)
  moreover have "stack_cells s (w\<lparr>errno := ERANGE\<rparr>) = stack_cells s w"
    by (auto simp: stack_cells_def cells_at_def split: option.splits)
  ultimately show ?thesis
    using assms by (simp add: stack_view_def stack_sems_def waits_ok_def)
qed

lemma push_lost_view:
  assumes "stack_view s w [semvmx, 1] cells" and "semvmx < st_size s" and "nat semvmx < length cells"
  shows "\<exists>w'. push (Some s) v w = Returns 0 w' \<and> stack_abs s w' = stack_abs s w"
proof -
  from sem_change_flag [OF assms(1), of "-1" NEED] obtain w1 where
    1: "sem_change (st_sem_id s) SEM_FLAG (-1) NEED w = Returns 0 w1"
      "stack_view s w1 [semvmx, 0] cells" by (auto simp: semvmx_def)
  from store_cell_view [OF 1(2) assms(3), of v] obtain w2 where
    2: "store_cell (st_memory s) semvmx v w1 = Some w2"
      "stack_view s w2 [semvmx, 0] (cells[nat semvmx := v])"
    by (auto simp: semvmx_def)
  from sem_change_count_max [OF 2(2)] obtain w3 where
    3: "sem_change (st_sem_id s) SEM_COUNT 1 NOT_NEED w2 = Returns (-1) w3"
      "stack_view s w3 [semvmx, 0] (cells[nat semvmx := v])" by auto
  from sem_change_flag [OF 3(2), of 1 NEED] obtain w4 where
    4: "sem_change (st_sem_id s) SEM_FLAG 1 NEED w3 = Returns 0 w4"
      "stack_view s w4 [semvmx, 1] (cells[nat semvmx := v])" by (auto simp: semvmx_def)
  have "push (Some s) v w = Returns 0 w4"
    using 1(1) 2(1) 3(1) 4(1) get_count_view [OF 1(2)] assms(2)
    by (simp add: push_def get_size_def)
  moreover have "stack_abs s w4 = stack_abs s w"
    using 4(2) assms(1) by (simp add: stack_abs_def stack_view_def)
  ultimately show ?thesis by blast
qed

lemma sem_change_busy:
  assumes "stack_sems s w = [c, 0]" and "timeout_flag w \<noteq> 1 \<or> waits_ok w"
  shows "sem_change (st_sem_id s) SEM_FLAG (-1) NEED w =
    (if timeout_flag w = 0 then Blocks w
     else Returns (-1) (if timeout_flag w = -1 \<or> timeout_flag w = 1 then w\<lparr>errno := EAGAIN\<rparr> else w))"
proof -
  obtain ss where "sems w (st_sem_id s) = Some ss" "ss_vals ss = [c, 0]"
    using assms(1) by (auto simp: stack_sems_def split: option.splits)
  then show ?thesis
    using assms(2)
    by (auto simp: sem_change_def stack_consts semop_def Let_def waits_ok_def valid_timeout_def)
qed

lemma pushes_view:
  assumes "stack_view s w [int n, 1] cells" and "n + length vs \<le> length cells"
    and "int (n + length vs) \<le> st_size s" and "int (n + length vs) \<le> semvmx"
  shows "\<exists>w' cells'. do_run (push (Some s)) (pop (Some s)) (map Push vs) w =
      Returns (map (\<lambda>_. (0, None)) vs) w' \<and>
    stack_view s w' [int (n + length vs), 1] cells' \<and> length cells' = length cells"
  using assms
proof (induction vs arbitrary: n w cells)
  case Nil
  then show ?case by auto
next
  case (Cons v vs)
  from Cons.prems have "int n < st_size s" "n < length cells" "int n < semvmx" by auto
  from push_view [OF Cons.prems(1) this, of v] obtain w1 where
    1: "push (Some s) v w = Returns 0 w1" "stack_view s w1 [int (Suc n), 1] (cells[n := v])"
    by blast
  have "Suc n + length vs \<le> length (cells[n := v])" "int (Suc n + length vs) \<le> st_size s"
    "int (Suc n + length vs) \<le> semvmx"
    using Cons.prems by auto
  from Cons.IH [OF 1(2) this] obtain w2 cells' where
    "do_run (push (Some s)) (pop (Some s)) (map Push vs) w1 = Returns (map (\<lambda>_. (0, None)) vs) w2"
    "stack_view s w2 [int (Suc n + length vs), 1] cells'" "length cells' = length cells"
    by auto
  with 1(1) show ?case by (intro exI [of _ w2] exI [of _ cells']) simp
qed

lemma clear_key_run:
  assumes "shm_keys w key = Some i" and "shms w i = Some sg" and "sem_keys w key = Some j"
    and "sems w j = Some ss" and "2 \<le> length (ss_vals ss)" and "key \<noteq> IPC_PRIVATE"
    and "0 < i" and "0 < j" and "0 < next_addr w"
    and "0 \<le> bytes" and "bytes \<le> sg_size sg" and "bytes < 2 ^ 31"
  shows "\<exists>w'. clear_key key bytes w = Returns None w' \<and> shm_keys w' key = None \<and>
    sem_keys w' key = None \<and> sems w' j = None"
proof -
  have "size_t bytes = bytes" using assms(10,12) by (simp add: size_t_nonneg)
  with assms show ?thesis
    by (simp add: clear_key_def attach_stack_def shmget_def shmat_def semget_def mark_destruct_def
        shm_rmid_def sem_rmid_def forget_key_def Let_def)
qed

section \<open>Properties\<close>

text \<open>A system without segments and semaphores, for the witnesses.\<close>

definition fresh_world :: stack_world where
  "fresh_world = \<lparr>shm_keys = Map.empty, shms = Map.empty, next_shm = 1, sem_keys = Map.empty,
     sems = Map.empty, next_sem = 1, maps = Map.empty, next_addr = 1, errno = E_NONE,
     timeout_flag = 0, timeout_time = (0, 0)\<rparr>"

lemma fresh_world_attach:
  assumes "1 \<le> bytes" and "bytes \<le> 512"
  obtains s w where "attach_stack 7 bytes fresh_world = Returns (Some s) w" and "stack_inv s w"
    and "stack_abs s w = []" and "st_size s = bytes"
  using attach_new [of fresh_world 7 bytes] assms that
  by (auto simp: fresh_world_def IPC_PRIVATE_def waits_ok_def)

text \<open>
  C24: through a good handle (an idle flag, a size that fits the segment) any sequence of
  \<open>push\<close> and \<open>pop\<close> answers exactly as a stack bounded by the size of the handle, leaves the
  memory and the semaphores as that stack says, and keeps the handle good. That stack answers -1 at once when
  it is full or empty, whatever \<open>set_wait\<close> has set: the comment at \<open>stack.h:54\<close> says that the setting is for
  a full or an empty stack, and that 0 waits for ever and 1 for the timeout; in the code it is for the flag only.
\<close>

theorem shm_stack_refines:
  assumes "stack_inv s w"
  shows "\<exists>w'. do_run (push (Some s)) (pop (Some s)) ops w =
      Returns (fst (spec_run (nat (st_size s)) ops (stack_abs s w))) w' \<and>
    stack_inv s w' \<and> stack_abs s w' = snd (spec_run (nat (st_size s)) ops (stack_abs s w))"
  by (rule shm.run_refines [OF assms])

theorem shm_stack_refines_witness:
  "\<exists>s w w'. attach_stack 7 2 fresh_world = Returns (Some s) w \<and>
     do_run (push (Some s)) (pop (Some s)) [Push 5, Push 6, Push 8, Pop, Pop, Pop] w =
       Returns [(0, None), (0, None), (-1, None), (0, Some 6), (0, Some 5), (-1, None)] w'"
proof -
  obtain s w where s: "attach_stack 7 2 fresh_world = Returns (Some s) w" "stack_inv s w"
      "stack_abs s w = []" "st_size s = 2"
    by (rule fresh_world_attach [of 2]) auto
  have "fst (spec_run (nat 2) [Push (5 :: 64 word), Push 6, Push 8, Pop, Pop, Pop] []) =
      [(0, None), (0, None), (-1, None), (0, Some 6), (0, Some 5), (-1, None)]"
    by (simp add: numeral_2_eq_2)
  with shm_stack_refines [OF s(2), of "[Push 5, Push 6, Push 8, Pop, Pop, Pop]"] s
  show ?thesis by (metis s(1))
qed

text \<open>
  What \<open>push\<close> put on the stack, \<open>pop\<close> takes off in the opposite order, and then the stack
  is what it was before, as long as the size is not exceeded.
\<close>

theorem shm_stack_lifo:
  assumes "stack_inv s w" and "length (stack_abs s w) + length vs \<le> nat (st_size s)"
  shows "\<exists>w'. do_run (push (Some s)) (pop (Some s)) (map Push vs @ replicate (length vs) Pop) w =
      Returns (map (\<lambda>_. (0, None)) vs @ map (\<lambda>v. (0, Some v)) (rev vs)) w' \<and>
    stack_abs s w' = stack_abs s w"
  using shm.run_refines [OF assms(1), of "map Push vs @ replicate (length vs) Pop"]
  by (auto simp: spec_run_lifo [OF assms(2)])

theorem shm_stack_lifo_witness:
  "\<exists>s w w'. stack_inv s w \<and> do_run (push (Some s)) (pop (Some s)) [Push 5, Push 6, Pop, Pop] w =
     Returns [(0, None), (0, None), (0, Some 6), (0, Some 5)] w' \<and> stack_abs s w' = []"
proof -
  obtain s w where s: "attach_stack 7 2 fresh_world = Returns (Some s) w" "stack_inv s w"
      "stack_abs s w = []" "st_size s = 2"
    by (rule fresh_world_attach [of 2]) auto
  from shm_stack_lifo [OF s(2), of "[5, 6]"] s show ?thesis
    by (auto simp: numeral_2_eq_2)
qed

text \<open>
  With a key that names nothing yet and at most 512 as size, \<open>attach_stack\<close> returns a good
  handle on an empty stack, and the key names its segment and its semaphores from then on.
\<close>

theorem attach_stack_new:
  assumes "shm_keys w key = None" and "sem_keys w key = None" and "key \<noteq> IPC_PRIVATE"
    and "0 < next_shm w" and "0 < next_sem w" and "0 < next_addr w"
    and "1 \<le> bytes" and "bytes \<le> 512" and "waits_ok w"
  shows "\<exists>s w'. attach_stack key bytes w = Returns (Some s) w' \<and> stack_inv s w' \<and>
    stack_abs s w' = [] \<and> st_size s = bytes \<and>
    shm_keys w' key = Some (st_shmem_id s) \<and> sem_keys w' key = Some (st_sem_id s)"
  using attach_new [OF assms] by blast

theorem attach_stack_new_witness:
  "\<exists>s w'. attach_stack 7 512 fresh_world = Returns (Some s) w' \<and> stack_inv s w' \<and>
    stack_abs s w' = [] \<and> st_size s = 512 \<and>
    shm_keys w' 7 = Some (st_shmem_id s) \<and> sem_keys w' 7 = Some (st_sem_id s)"
  using attach_stack_new [of fresh_world 7 512]
  by (simp add: fresh_world_def IPC_PRIVATE_def waits_ok_def)

text \<open>
  A second \<open>attach_stack\<close> with the key of a good handle returns another good handle on the
  same stack: the same contents, semaphores and segment, with a size of its own that must not
  be more than the first one's segment.
\<close>

theorem attach_stack_shares:
  assumes "stack_inv s w" and "shm_keys w key = Some i" and "maps w (st_memory s) = Some i"
    and "shms w i = Some sg" and "sem_keys w key = Some (st_sem_id s)" and "key \<noteq> IPC_PRIVATE"
    and "0 < i" and "0 < st_sem_id s" and "0 < next_addr w"
    and "0 \<le> bytes" and "bytes \<le> sg_size sg" and "bytes \<le> 512" and "length (sg_cells sg) = 512"
  shows "\<exists>s' w'. attach_stack key bytes w = Returns (Some s') w' \<and> stack_inv s' w' \<and>
    stack_abs s' w' = stack_abs s w \<and> st_size s' = bytes \<and>
    st_sem_id s' = st_sem_id s \<and> maps w' (st_memory s') = Some i"
proof -
  from assms(1) obtain n cells where g: "stack_view s w [int n, 1] cells" "n \<le> length cells"
      "int n \<le> semvmx"
    by (rule stack_invE)
  then have "cells = sg_cells sg"
    using assms(3,4) by (simp add: stack_view_def stack_cells_def cells_at_def)
  with attach_existing [OF g assms(2,3,4,5,6,7,8,9,10,11)] assms(12,13) show ?thesis
    by (simp add: semvmx_def)
qed

theorem attach_stack_shares_witness:
  "\<exists>w s' w'. attach_stack 7 50 w = Returns (Some s') w' \<and> stack_inv s' w' \<and>
    stack_abs s' w' = [5] \<and> st_size s' = 50"
proof -
  define s where "s = \<lparr>st_size = 100, st_memory = 1, st_shmem_id = 1, st_sem_id = 1\<rparr>"
  define cells where "cells = (5 :: 64 word) # replicate 511 0"
  define sg where "sg = \<lparr>sg_size = 100, sg_cells = cells, sg_nattch = 1, sg_dest = False\<rparr>"
  define w where "w = fresh_world\<lparr>shm_keys := [7 \<mapsto> 1], sem_keys := [7 \<mapsto> 1], shms := [1 \<mapsto> sg],
    sems := [1 \<mapsto> \<lparr>ss_vals = [1, 1], ss_adj = [0, 0]\<rparr>], maps := [1 \<mapsto> 1], next_addr := 2\<rparr>"
  have len: "length cells = 512" by (simp add: cells_def)
  have view: "stack_view s w [int 1, 1] cells"
    by (simp add: stack_view_def stack_sems_def stack_cells_def cells_at_def waits_ok_def s_def w_def
        sg_def fresh_world_def)
  from stack_invI [OF view] len have good: "stack_inv s w" "stack_abs s w = [5]"
    by (simp_all add: s_def semvmx_def cells_def)
  have "\<exists>s' w'. attach_stack 7 50 w = Returns (Some s') w' \<and> stack_inv s' w' \<and>
      stack_abs s' w' = stack_abs s w \<and> st_size s' = 50 \<and>
      st_sem_id s' = st_sem_id s \<and> maps w' (st_memory s') = Some 1"
    by (rule attach_stack_shares [OF good(1), of _ _ sg])
      (use len in \<open>simp_all add: w_def s_def sg_def IPC_PRIVATE_def\<close>)
  with good(2) show ?thesis by auto
qed

text \<open>
  C25: the size given to \<open>attach_stack\<close> is a number of bytes for \<open>shmget\<close> and a number of
  elements for \<open>push\<close>. With more than 512 (and up to one page of bytes) the first 512 pushes
  succeed and the next one stores outside the segment.
\<close>

theorem push_faults_beyond_page:
  assumes "shm_keys w key = None" and "sem_keys w key = None" and "key \<noteq> IPC_PRIVATE"
    and "0 < next_shm w" and "0 < next_sem w" and "0 < next_addr w"
    and "512 < bytes" and "bytes \<le> 4096" and "waits_ok w" and "length vs = 512"
  shows "\<exists>s w1 w2 w3. attach_stack key bytes w = Returns (Some s) w1 \<and>
    do_run (push (Some s)) (pop (Some s)) (map Push vs) w1 = Returns (map (\<lambda>_. (0, None)) vs) w2 \<and>
    push (Some s) v w2 = Faults w3"
proof -
  from assms(7) have "1 \<le> bytes" by simp
  from attach_new_view [OF assms(1-6) this assms(8,9)] obtain s w1 where
    1: "attach_stack key bytes w = Returns (Some s) w1" "stack_view s w1 [int 0, 1] (replicate 512 0)"
      "st_size s = bytes" by auto
  from pushes_view [OF 1(2), of vs] 1(3) assms(7,10) obtain w2 cells where
    2: "do_run (push (Some s)) (pop (Some s)) (map Push vs) w1 = Returns (map (\<lambda>_. (0, None)) vs) w2"
      "stack_view s w2 [int 512, 1] cells" "length cells = 512"
    by (auto simp: semvmx_def)
  from push_faults_view [OF 2(2), of v] 2(3) 1(3) assms(7) obtain w3 where
    "push (Some s) v w2 = Faults w3" by auto
  with 1(1) 2(1) show ?thesis by blast
qed

theorem push_faults_beyond_page_witness:
  "\<exists>s w1 w2 w3. attach_stack 7 1000 fresh_world = Returns (Some s) w1 \<and>
    do_run (push (Some s)) (pop (Some s)) (map Push (replicate 512 1)) w1 =
      Returns (map (\<lambda>_. (0, None)) (replicate 512 (1 :: 64 word))) w2 \<and>
    push (Some s) 2 w2 = Faults w3"
  by (rule push_faults_beyond_page) (simp_all add: fresh_world_def IPC_PRIVATE_def waits_ok_def)

text \<open>
  A semaphore holds at most 32767. With that many elements on a stack of a larger size
  \<open>push\<close> still answers 0, but the element is lost.
\<close>

theorem push_loses_element:
  assumes "stack_view s w [semvmx, 1] cells" and "semvmx < st_size s" and "32767 < length cells"
  shows "\<exists>w'. push (Some s) v w = Returns 0 w' \<and> stack_abs s w' = stack_abs s w"
  using push_lost_view [OF assms(1,2)] assms(3) by (simp add: semvmx_def)

theorem push_loses_element_witness:
  "\<exists>s w w'. st_size s = 300000 \<and> push (Some s) 5 w = Returns 0 w' \<and> stack_abs s w' = stack_abs s w"
proof -
  define s where "s = \<lparr>st_size = 300000, st_memory = 1, st_shmem_id = 1, st_sem_id = 1\<rparr>"
  define w where "w = fresh_world\<lparr>maps := [1 \<mapsto> 1],
    shms := [1 \<mapsto> \<lparr>sg_size = 300000, sg_cells = replicate 37888 0, sg_nattch = 1, sg_dest = False\<rparr>],
    sems := [1 \<mapsto> \<lparr>ss_vals = [semvmx, 1], ss_adj = [0, 0]\<rparr>]\<rparr>"
  have "stack_view s w [semvmx, 1] (replicate 37888 0)"
    by (simp add: stack_view_def stack_sems_def stack_cells_def cells_at_def waits_ok_def s_def w_def fresh_world_def)
  moreover have "semvmx < st_size s" by (simp add: s_def semvmx_def)
  ultimately obtain w' where "push (Some s) 5 w = Returns 0 w'" "stack_abs s w' = stack_abs s w"
    using push_loses_element [of s w "replicate 37888 0" 5] by auto
  moreover have "st_size s = 300000" by (simp add: s_def)
  ultimately show ?thesis by blast
qed

text \<open>
  While another process holds the flag, \<open>push\<close> and \<open>pop\<close> wait for ever with
  \<open>set_wait (0)\<close>, and otherwise give up with -1; with -1 and with 1 and a valid time \<open>errno\<close> is
  \<open>EAGAIN\<close>. Either way the stack is not touched.
\<close>

theorem stack_busy:
  assumes "stack_sems s w = [c, 0]" and "waits_ok w"
  shows "push (Some s) v w =
      (if timeout_flag w = 0 then Blocks w else Returns (-1) (w\<lparr>errno := EAGAIN\<rparr>)) \<and>
    pop (Some s) w =
      (if timeout_flag w = 0 then Blocks w else Returns (-1, None) (w\<lparr>errno := EAGAIN\<rparr>))"
  using sem_change_busy [OF assms(1)] assms(2) by (auto simp: push_def pop_def waits_ok_def)

theorem stack_busy_witness:
  "\<exists>s w. timeout_flag w = -1 \<and> push (Some s) 5 w = Returns (-1) (w\<lparr>errno := EAGAIN\<rparr>) \<and>
     pop (Some s) w = Returns (-1, None) (w\<lparr>errno := EAGAIN\<rparr>)"
proof -
  define s where "s = \<lparr>st_size = 3, st_memory = 1, st_shmem_id = 1, st_sem_id = 1\<rparr>"
  define w where "w = fresh_world\<lparr>sems := [1 \<mapsto> \<lparr>ss_vals = [2, 0], ss_adj = [0, 0]\<rparr>],
    timeout_flag := -1\<rparr>"
  have "stack_sems s w = [2, 0]" "waits_ok w" "timeout_flag w = -1"
    by (simp_all add: stack_sems_def waits_ok_def s_def w_def)
  with stack_busy [of s w 2 5] show ?thesis by auto
qed

text \<open>
  \<open>clear_key\<close> on a key in use, with a size that its segment can serve, returns after the
  key names neither a segment nor semaphores any more.
\<close>

theorem clear_key_frees:
  assumes "shm_keys w key = Some i" and "shms w i = Some sg" and "sem_keys w key = Some j"
    and "sems w j = Some ss" and "length (ss_vals ss) = 2" and "key \<noteq> IPC_PRIVATE"
    and "0 < i" and "0 < j" and "0 < next_addr w"
    and "0 \<le> bytes" and "bytes \<le> sg_size sg" and "bytes < 2 ^ 31"
  shows "\<exists>w'. clear_key key bytes w = Returns None w' \<and> shm_keys w' key = None \<and>
    sem_keys w' key = None"
  using clear_key_run [OF assms(1-4) _ assms(6-12)] assms(5) by auto

theorem clear_key_frees_witness:
  "\<exists>w w'. shm_keys w 7 = Some 1 \<and> clear_key 7 100 w = Returns None w' \<and> shm_keys w' 7 = None \<and>
    sem_keys w' 7 = None"
proof -
  define sg where "sg = \<lparr>sg_size = 400, sg_cells = replicate 512 0, sg_nattch = 0, sg_dest = False\<rparr>"
  define ss where "ss = \<lparr>ss_vals = [2, 1], ss_adj = [0, 0]\<rparr>"
  define w where "w = fresh_world\<lparr>shm_keys := [7 \<mapsto> 1], sem_keys := [7 \<mapsto> 1],
    shms := [1 \<mapsto> sg], sems := [1 \<mapsto> ss]\<rparr>"
  have "shm_keys w 7 = Some 1" by (simp add: w_def)
  moreover have "\<exists>w'. clear_key 7 100 w = Returns None w' \<and> shm_keys w' 7 = None \<and> sem_keys w' 7 = None"
    by (rule clear_key_frees [of w 7 1 sg 1 ss])
      (simp_all add: w_def sg_def ss_def fresh_world_def IPC_PRIVATE_def)
  ultimately show ?thesis by blast
qed

text \<open>
  The key 0, which \<open>rand_key_gen\<close> makes of any argument that is not a number, is
  \<open>IPC_PRIVATE\<close>: the first \<open>shmget\<close> creates a segment, \<open>attach_stack\<close> takes it for an existing
  one, the flag is never set, and the first \<open>push\<close> waits for ever.
\<close>

theorem attach_private_unusable:
  assumes "0 < next_shm w" and "0 < next_sem w" and "0 < next_addr w" and "1 \<le> bytes"
    and "bytes < 2 ^ 31" and "timeout_flag w = 0"
  shows "\<exists>s w' w''. attach_stack IPC_PRIVATE bytes w = Returns (Some s) w' \<and>
    push (Some s) v w' = Blocks w''"
proof -
  have size: "size_t bytes = bytes" "bytes \<le> shmmax"
    using assms(4,5) by (simp_all add: size_t_nonneg shmmax_def)
  define s where "s = \<lparr>st_size = bytes, st_memory = next_addr w, st_shmem_id = next_shm w,
    st_sem_id = next_sem w\<rparr>"
  have "\<exists>w'. attach_stack IPC_PRIVATE bytes w = Returns (Some s) w' \<and>
      sems w' (next_sem w) = Some \<lparr>ss_vals = [0, 0], ss_adj = [0, 0]\<rparr> \<and> timeout_flag w' = 0"
    using assms size
    by (simp add: attach_stack_def shmget_def new_shm_def shmat_def semget_def Let_def s_def
        numeral_2_eq_2)
  then obtain w' where w': "attach_stack IPC_PRIVATE bytes w = Returns (Some s) w'"
      "sems w' (next_sem w) = Some \<lparr>ss_vals = [0, 0], ss_adj = [0, 0]\<rparr>" "timeout_flag w' = 0"
    by blast
  have "stack_sems s w' = [0, 0]" using w'(2) by (simp add: stack_sems_def s_def)
  from sem_change_busy [OF this] w'(3) have "push (Some s) v w' = Blocks w'"
    by (simp add: push_def)
  with w'(1) show ?thesis by blast
qed

theorem attach_private_unusable_witness:
  "\<exists>s w' w''. attach_stack IPC_PRIVATE 10 fresh_world = Returns (Some s) w' \<and>
    push (Some s) 5 w' = Blocks w''"
  by (rule attach_private_unusable) (simp_all add: fresh_world_def)

end
