(* ===== verification/Shm_Stack_Conc.thy ===== *)
theory Shm_Stack_Conc
  imports Shm_Stack
begin

text \<open>
  \<open>push\<close> and \<open>pop\<close> of \<open>Stack/stack.c\<close> run by many processes on one stack. Each process
  stands before its next system call or memory access; the kernel's undo adjustments are kept
  for each process, and a process can die at any point.
\<close>

section \<open>The processes and what they share\<close>

datatype stack_pc =
    Idle
  | PushLock "64 word" | PushTest "64 word" | PushIndex "64 word" | PushStore "64 word" int
  | PushCount "64 word" | PushUnlock | PushFull
  | PopLock | PopTest | PopIndex | PopLoad int | PopCount "64 word" | PopUnlock "64 word" | PopEmpty
  | Ret int "64 word option"
  | Dead

record conc =
  c_pc :: "nat \<Rightarrow> stack_pc"
  c_adj :: "nat \<Rightarrow> int"
  c_count :: int
  c_flag :: int
  c_cells :: "64 word list"

definition goto :: "nat \<Rightarrow> stack_pc \<Rightarrow> conc \<Rightarrow> conc" where
  "goto p pc st = st\<lparr>c_pc := (c_pc st)(p := pc)\<rparr>"

text \<open>A change of the flag by 1 or -1, with \<open>SEM_UNDO\<close>; \<open>None\<close> when it has to wait.\<close>

definition flag_op :: "nat \<Rightarrow> int \<Rightarrow> conc \<Rightarrow> conc option" where
  "flag_op p delta st =
     (if c_flag st + delta < 0 then None
      else Some (st\<lparr>c_flag := c_flag st + delta, c_adj := (c_adj st)(p := c_adj st p - delta)\<rparr>))"

text \<open>A change of the count, without \<open>SEM_UNDO\<close>; past its maximum the semaphore stays as it is.\<close>

definition count_op :: "int \<Rightarrow> conc \<Rightarrow> conc option" where
  "count_op delta st =
     (if c_count st + delta < 0 then None
      else if semvmx < c_count st + delta then Some st
      else Some (st\<lparr>c_count := c_count st + delta\<rparr>))"

text \<open>The end of a process: the kernel applies its adjustment to the flag.\<close>

definition die :: "nat \<Rightarrow> conc \<Rightarrow> conc" where
  "die p st = goto p Dead (st\<lparr>c_flag := max 0 (c_flag st + c_adj st p), c_adj := (c_adj st)(p := 0)\<rparr>)"

text \<open>The next step of a process inside \<open>push\<close> or \<open>pop\<close>; a fault kills it.\<close>

definition pstep :: "int \<Rightarrow> nat \<Rightarrow> conc \<Rightarrow> conc option" where
  "pstep bytes p st =
     (case c_pc st p of
        PushLock v \<Rightarrow> map_option (goto p (PushTest v)) (flag_op p (-1) st)
      | PushTest v \<Rightarrow> Some (goto p (if bytes \<le> c_count st then PushFull else PushIndex v) st)
      | PushIndex v \<Rightarrow> Some (goto p (PushStore v (c_count st)) st)
      | PushStore v i \<Rightarrow>
          Some (if 0 \<le> i \<and> nat i < length (c_cells st)
                then goto p (PushCount v) (st\<lparr>c_cells := (c_cells st)[nat i := v]\<rparr>)
                else die p st)
      | PushCount v \<Rightarrow> map_option (goto p PushUnlock) (count_op 1 st)
      | PushUnlock \<Rightarrow> map_option (goto p (Ret 0 None)) (flag_op p 1 st)
      | PushFull \<Rightarrow> map_option (goto p (Ret (-1) None)) (flag_op p 1 st)
      | PopLock \<Rightarrow> map_option (goto p PopTest) (flag_op p (-1) st)
      | PopTest \<Rightarrow> Some (goto p (if c_count st = 0 then PopEmpty else PopIndex) st)
      | PopIndex \<Rightarrow> Some (goto p (PopLoad (c_count st - 1)) st)
      | PopLoad i \<Rightarrow>
          Some (if 0 \<le> i \<and> nat i < length (c_cells st)
                then goto p (PopCount (c_cells st ! nat i)) st
                else die p st)
      | PopCount v \<Rightarrow> map_option (goto p (PopUnlock v)) (count_op (-1) st)
      | PopUnlock v \<Rightarrow> map_option (goto p (Ret 0 (Some v))) (flag_op p 1 st)
      | PopEmpty \<Rightarrow> map_option (goto p (Ret (-1) None)) (flag_op p 1 st)
      | _ \<Rightarrow> None)"

text \<open>
  The system: a process calls \<open>push\<close> or \<open>pop\<close>, moves, gives up the wait for the flag when its
  \<open>timeout_flag\<close> lets it, or dies.
\<close>

inductive conc_step :: "int \<Rightarrow> (nat \<Rightarrow> int) \<Rightarrow> conc \<Rightarrow> conc \<Rightarrow> bool" for bytes tf where
  call_push: "c_pc st p = Idle \<or> c_pc st p = Ret r x \<Longrightarrow> conc_step bytes tf st (goto p (PushLock v) st)"
| call_pop: "c_pc st p = Idle \<or> c_pc st p = Ret r x \<Longrightarrow> conc_step bytes tf st (goto p PopLock st)"
| move: "pstep bytes p st = Some st' \<Longrightarrow> conc_step bytes tf st st'"
| give_up: "c_pc st p = PushLock v \<or> c_pc st p = PopLock \<Longrightarrow> c_flag st = 0 \<Longrightarrow> tf p = -1 \<or> tf p = 1 \<Longrightarrow>
    conc_step bytes tf st (goto p (Ret (-1) None) st)"
| crash: "c_pc st p \<noteq> Dead \<Longrightarrow> conc_step bytes tf st (die p st)"

definition conc_start :: "64 word list \<Rightarrow> conc" where
  "conc_start cells = \<lparr>c_pc = (\<lambda>_. Idle), c_adj = (\<lambda>_. 0), c_count = 0, c_flag = 1, c_cells = cells\<rparr>"

inductive conc_reach :: "int \<Rightarrow> (nat \<Rightarrow> int) \<Rightarrow> 64 word list \<Rightarrow> conc \<Rightarrow> bool" for bytes tf cells where
  start: "conc_reach bytes tf cells (conc_start cells)"
| step: "conc_reach bytes tf cells st \<Longrightarrow> conc_step bytes tf st st' \<Longrightarrow> conc_reach bytes tf cells st'"

inductive_cases conc_stepE: "conc_step bytes tf st st'"

section \<open>Mutual exclusion\<close>

text \<open>The places at which a process holds the flag.\<close>

fun in_cs :: "stack_pc \<Rightarrow> bool" where
  "in_cs Idle = False"
| "in_cs (PushLock v) = False"
| "in_cs PopLock = False"
| "in_cs (Ret r x) = False"
| "in_cs Dead = False"
| "in_cs _ = True"

text \<open>What holds at each place of the code about the count and the cells.\<close>

fun pc_ok :: "int \<Rightarrow> conc \<Rightarrow> stack_pc \<Rightarrow> bool" where
  "pc_ok bytes st (PushIndex v) = (c_count st < bytes)"
| "pc_ok bytes st (PushStore v i) = (i = c_count st \<and> c_count st < bytes)"
| "pc_ok bytes st (PushCount v) = (c_count st < bytes \<and> c_cells st ! nat (c_count st) = v)"
| "pc_ok bytes st PopIndex = (0 < c_count st)"
| "pc_ok bytes st (PopLoad i) = (i = c_count st - 1 \<and> 0 < c_count st)"
| "pc_ok bytes st (PopCount v) = (0 < c_count st \<and> c_cells st ! nat (c_count st - 1) = v)"
| "pc_ok bytes st _ = True"

definition conc_inv :: "int \<Rightarrow> conc \<Rightarrow> bool" where
  "conc_inv bytes st \<longleftrightarrow>
     (\<forall>p. c_adj st p = (if in_cs (c_pc st p) then 1 else 0)) \<and>
     (\<forall>p. in_cs (c_pc st p) \<longrightarrow> c_flag st = 0) \<and>
     ((\<forall>p. \<not> in_cs (c_pc st p)) \<longrightarrow> c_flag st = 1) \<and>
     (\<forall>p q. in_cs (c_pc st p) \<longrightarrow> in_cs (c_pc st q) \<longrightarrow> p = q) \<and>
     (\<forall>p. pc_ok bytes st (c_pc st p)) \<and>
     0 \<le> c_count st \<and> c_count st \<le> bytes \<and> bytes \<le> int (length (c_cells st)) \<and> bytes \<le> semvmx"

lemma conc_invD:
  assumes "conc_inv bytes st"
  shows "c_adj st p = (if in_cs (c_pc st p) then 1 else 0)"
    and "in_cs (c_pc st p) \<Longrightarrow> c_flag st = 0"
    and "(\<And>q. \<not> in_cs (c_pc st q)) \<Longrightarrow> c_flag st = 1"
    and "in_cs (c_pc st p) \<Longrightarrow> in_cs (c_pc st q) \<Longrightarrow> p = q"
    and "pc_ok bytes st (c_pc st p)"
    and "0 \<le> c_count st" and "c_count st \<le> bytes" and "bytes \<le> int (length (c_cells st))"
    and "bytes \<le> semvmx"
  using assms unfolding conc_inv_def by blast+

lemma conc_flag_01: "conc_inv bytes st \<Longrightarrow> c_flag st = 0 \<or> c_flag st = 1"
  using conc_invD(2,3) by blast

lemma pc_ok_outside: "\<not> in_cs pc \<Longrightarrow> pc_ok bytes st pc"
  by (cases pc) auto

lemma pc_ok_cong:
  "c_count st = c_count st' \<Longrightarrow> c_cells st = c_cells st' \<Longrightarrow> pc_ok bytes st pc = pc_ok bytes st' pc"
  by (cases pc) auto

text \<open>
  The moves that keep the flag: outside the critical section nothing shared changes, inside
  only the process that holds the flag touches the count and the cells.
\<close>

lemma inv_stay:
  assumes "conc_inv bytes st" and "in_cs pc = in_cs (c_pc st p)"
    and "pc_ok bytes st' pc"
    and "c_pc st' = (c_pc st)(p := pc)" and "c_adj st' = c_adj st" and "c_flag st' = c_flag st"
    and "0 \<le> c_count st'" and "c_count st' \<le> bytes" and "length (c_cells st') = length (c_cells st)"
    and "\<not> in_cs pc \<Longrightarrow> c_count st' = c_count st \<and> c_cells st' = c_cells st"
  shows "conc_inv bytes st'"
proof -
  have same: "in_cs (c_pc st' q) = in_cs (c_pc st q)" for q
    using assms(2,4) by simp
  have "pc_ok bytes st' (c_pc st' q)" for q
  proof (cases "q = p")
    case False
    show ?thesis
    proof (cases "in_cs (c_pc st q)")
      case True
      with False conc_invD(4) [OF assms(1)] have "\<not> in_cs pc" using assms(2) by blast
      with assms(10) conc_invD(5) [OF assms(1), of q] False show ?thesis
        using pc_ok_cong [of st' st] by (simp add: assms(4))
    next
      case False
      with same pc_ok_outside show ?thesis by blast
    qed
  qed (simp add: assms(3,4))
  with assms same show ?thesis unfolding conc_inv_def by simp
qed

lemma inv_take:
  assumes "conc_inv bytes st" and "\<not> in_cs (c_pc st p)" and "in_cs pc" and "\<And>st. pc_ok bytes st pc"
    and "flag_op p (-1) st = Some st1"
  shows "conc_inv bytes (goto p pc st1)"
proof -
  from assms(5) have st1: "c_flag st - 1 \<ge> 0"
      "st1 = st\<lparr>c_flag := c_flag st - 1, c_adj := (c_adj st)(p := c_adj st p + 1)\<rparr>"
    by (auto simp: flag_op_def split: if_splits)
  with conc_flag_01 [OF assms(1)] have flag: "c_flag st = 1" by auto
  with conc_invD(2) [OF assms(1)] have none: "\<not> in_cs (c_pc st q)" for q by fastforce
  have "pc_ok bytes (goto p pc st1) (c_pc st q)" for q
    using none pc_ok_outside by blast
  then show ?thesis
    using assms none flag st1 conc_invD(6-9) [OF assms(1)] conc_invD(1) [OF assms(1)]
    unfolding conc_inv_def by (simp add: goto_def)
qed

lemma inv_release:
  assumes "conc_inv bytes st" and "in_cs (c_pc st p)" and "\<not> in_cs pc"
    and "flag_op p 1 st = Some st1"
  shows "conc_inv bytes (goto p pc st1)"
proof -
  from assms conc_invD(1,2) [OF assms(1)] have st1:
      "st1 = st\<lparr>c_flag := 1, c_adj := (c_adj st)(p := 0)\<rparr>"
    by (auto simp: flag_op_def split: if_splits)
  have "\<not> in_cs (c_pc st q)" if "q \<noteq> p" for q
    using conc_invD(4) [OF assms(1,2)] that by blast
  then have none: "\<not> in_cs (c_pc (goto p pc st1) q)" for q
    using assms(3) by (simp add: goto_def st1)
  then have "pc_ok bytes (goto p pc st1) (c_pc (goto p pc st1) q)" for q
    using pc_ok_outside by blast
  with none show ?thesis
    using conc_invD(6-9) [OF assms(1)] conc_invD(1) [OF assms(1)] \<open>\<And>q. q \<noteq> p \<Longrightarrow> \<not> in_cs (c_pc st q)\<close>
    unfolding conc_inv_def by (auto simp: goto_def st1)
qed

lemma inv_die:
  assumes "conc_inv bytes st"
  shows "conc_inv bytes (die p st)"
proof (cases "in_cs (c_pc st p)")
  case True
  have "flag_op p 1 st = Some (st\<lparr>c_flag := 1, c_adj := (c_adj st)(p := 0)\<rparr>)"
    using conc_invD(1,2) [OF assms, of p] True by (simp add: flag_op_def)
  from inv_release [OF assms True _ this, of Dead] conc_invD(1,2) [OF assms, of p] True
  show ?thesis by (simp add: die_def)
next
  case False
  have "c_adj (die p st) = c_adj st" "c_flag (die p st) = c_flag st"
    using conc_invD(1) [OF assms, of p] conc_flag_01 [OF assms] False by (auto simp: die_def goto_def)
  then show ?thesis
    by (intro inv_stay [OF assms, of Dead p])
      (use False conc_invD(6,7) [OF assms] in \<open>simp_all add: die_def goto_def\<close>)
qed

lemma pstep_inv:
  assumes inv: "conc_inv bytes st" and step: "pstep bytes p st = Some st'"
  shows "conc_inv bytes st'"
proof -
  note ok = conc_invD(5) [OF inv, of p] and bounds = conc_invD(6-9) [OF inv]
  note stay = inv_stay [OF inv, of _ p]
  show ?thesis
  proof (cases "c_pc st p")
    case (PushLock v)
    with step obtain st1 where "flag_op p (-1) st = Some st1" "st' = goto p (PushTest v) st1"
      by (auto simp: pstep_def)
    with inv_take [OF inv, of p "PushTest v" st1] PushLock show ?thesis by simp
  next
    case (PushTest v)
    with step show ?thesis
      by (intro stay [of "if bytes \<le> c_count st then PushFull else PushIndex v"])
        (use bounds in \<open>auto simp: pstep_def goto_def\<close>)
  next
    case (PushIndex v)
    with step ok show ?thesis
      by (intro stay [of "PushStore v (c_count st)"]) (use bounds in \<open>auto simp: pstep_def goto_def\<close>)
  next
    case (PushStore v i)
    with ok bounds have i: "0 \<le> i" "nat i < length (c_cells st)" "i = c_count st" "i < bytes" by auto
    with PushStore step show ?thesis
      by (intro stay [of "PushCount v"]) (use bounds in \<open>auto simp: pstep_def goto_def\<close>)
  next
    case (PushCount v)
    with ok bounds have "count_op 1 st = Some (st\<lparr>c_count := c_count st + 1\<rparr>)" "c_count st < bytes"
      by (auto simp: count_op_def)
    with PushCount step show ?thesis
      by (intro stay [of PushUnlock]) (use bounds in \<open>auto simp: pstep_def goto_def\<close>)
  next
    case PushUnlock
    with step obtain st1 where "flag_op p 1 st = Some st1" "st' = goto p (Ret 0 None) st1"
      by (auto simp: pstep_def)
    with inv_release [OF inv, of p "Ret 0 None" st1] PushUnlock show ?thesis by simp
  next
    case PushFull
    with step obtain st1 where "flag_op p 1 st = Some st1" "st' = goto p (Ret (-1) None) st1"
      by (auto simp: pstep_def)
    with inv_release [OF inv, of p "Ret (-1) None" st1] PushFull show ?thesis by simp
  next
    case PopLock
    with step obtain st1 where "flag_op p (-1) st = Some st1" "st' = goto p PopTest st1"
      by (auto simp: pstep_def)
    with inv_take [OF inv, of p PopTest st1] PopLock show ?thesis by simp
  next
    case PopTest
    with step show ?thesis
      by (intro stay [of "if c_count st = 0 then PopEmpty else PopIndex"])
        (use bounds in \<open>auto simp: pstep_def goto_def\<close>)
  next
    case PopIndex
    with step ok show ?thesis
      by (intro stay [of "PopLoad (c_count st - 1)"]) (use bounds in \<open>auto simp: pstep_def goto_def\<close>)
  next
    case (PopLoad i)
    with ok bounds have i: "0 \<le> i" "nat i < length (c_cells st)" "i = c_count st - 1" by auto
    with PopLoad step ok show ?thesis
      by (intro stay [of "PopCount (c_cells st ! nat i)"]) (use bounds in \<open>auto simp: pstep_def goto_def\<close>)
  next
    case (PopCount v)
    with ok bounds have "count_op (-1) st = Some (st\<lparr>c_count := c_count st - 1\<rparr>)" "0 < c_count st"
      by (auto simp: count_op_def)
    with PopCount step show ?thesis
      by (intro stay [of "PopUnlock v"]) (use bounds in \<open>auto simp: pstep_def goto_def\<close>)
  next
    case (PopUnlock v)
    with step obtain st1 where "flag_op p 1 st = Some st1" "st' = goto p (Ret 0 (Some v)) st1"
      by (auto simp: pstep_def)
    with inv_release [OF inv, of p "Ret 0 (Some v)" st1] PopUnlock show ?thesis by simp
  next
    case PopEmpty
    with step obtain st1 where "flag_op p 1 st = Some st1" "st' = goto p (Ret (-1) None) st1"
      by (auto simp: pstep_def)
    with inv_release [OF inv, of p "Ret (-1) None" st1] PopEmpty show ?thesis by simp
  qed (use step in \<open>simp_all add: pstep_def\<close>)
qed

lemma conc_step_inv:
  assumes "conc_inv bytes st" and "conc_step bytes tf st st'"
  shows "conc_inv bytes st'"
  using assms(2)
proof cases
  case (call_push p r x v)
  then show ?thesis
    by (intro inv_stay [OF assms(1), of "PushLock v" p])
      (use conc_invD(6,7) [OF assms(1)] in \<open>auto simp: goto_def\<close>)
next
  case (call_pop p r x)
  then show ?thesis
    by (intro inv_stay [OF assms(1), of PopLock p])
      (use conc_invD(6,7) [OF assms(1)] in \<open>auto simp: goto_def\<close>)
next
  case (move p)
  then show ?thesis by (rule pstep_inv [OF assms(1)])
next
  case (give_up p v)
  then show ?thesis
    by (intro inv_stay [OF assms(1), of "Ret (-1) None" p])
      (use conc_invD(6,7) [OF assms(1)] in \<open>auto simp: goto_def\<close>)
next
  case (crash p)
  then show ?thesis using inv_die [OF assms(1)] by simp
qed

lemma conc_reach_inv:
  assumes "conc_reach bytes tf cells st" and "0 \<le> bytes" and "bytes \<le> int (length cells)"
    and "bytes \<le> semvmx"
  shows "conc_inv bytes st"
  using assms(1)
proof induction
  case start
  then show ?case using assms(2-4) by (simp add: conc_inv_def conc_start_def)
next
  case (step st st')
  then show ?case by (blast intro: conc_step_inv)
qed

section \<open>The abstract stack\<close>

definition c_abs :: "conc \<Rightarrow> 64 word list" where
  "c_abs st = rev (take (nat (c_count st)) (c_cells st))"

text \<open>What a step of a process may do to the abstract stack.\<close>

inductive lin_step :: "int \<Rightarrow> conc \<Rightarrow> conc \<Rightarrow> bool" for bytes st st' where
  silent: "c_abs st' = c_abs st \<Longrightarrow> lin_step bytes st st'"
| pushes: "c_pc st p = PushCount v \<Longrightarrow> c_pc st' p = PushUnlock \<Longrightarrow> int (length (c_abs st)) < bytes \<Longrightarrow>
    c_abs st' = v # c_abs st \<Longrightarrow> lin_step bytes st st'"
| pops: "c_pc st p = PopCount v \<Longrightarrow> c_pc st' p = PopUnlock v \<Longrightarrow> c_abs st = v # c_abs st' \<Longrightarrow>
    lin_step bytes st st'"

lemma c_abs_same: "c_count st' = c_count st \<Longrightarrow> c_cells st' = c_cells st \<Longrightarrow> c_abs st' = c_abs st"
  by (simp add: c_abs_def)

lemma length_c_abs: "conc_inv bytes st \<Longrightarrow> int (length (c_abs st)) = c_count st"
  using conc_invD(6-8) [of bytes st] by (auto simp: c_abs_def)

lemma flag_op_same: "flag_op p d st = Some st' \<Longrightarrow> c_count st' = c_count st \<and> c_cells st' = c_cells st"
  by (auto simp: flag_op_def split: if_splits)

lemma goto_simps [simp]:
  "c_count (goto p pc st) = c_count st" "c_cells (goto p pc st) = c_cells st"
  "c_flag (goto p pc st) = c_flag st" "c_adj (goto p pc st) = c_adj st"
  "c_pc (goto p pc st) = (c_pc st)(p := pc)"
  by (simp_all add: goto_def)

lemma die_simps [simp]: "c_count (die p st) = c_count st" "c_cells (die p st) = c_cells st"
  by (simp_all add: die_def)

lemma rev_take_Suc:
  "n < length cells \<Longrightarrow> rev (take (Suc n) cells) = cells ! n # rev (take n cells)"
  by (simp add: take_Suc_conv_app_nth)

lemma pstep_silent:
  assumes "pstep bytes p st = Some st'" and "\<And>v. c_pc st p \<noteq> PushCount v" and "\<And>v. c_pc st p \<noteq> PopCount v"
    and "\<And>v i. c_pc st p \<noteq> PushStore v i"
  shows "c_abs st' = c_abs st"
  using assms by (auto simp: pstep_def dest: flag_op_same intro!: c_abs_same split: stack_pc.splits)

lemma pstep_lin:
  assumes inv: "conc_inv bytes st" and step: "pstep bytes p st = Some st'"
  shows "lin_step bytes st st'"
proof -
  note ok = conc_invD(5) [OF inv, of p] and bounds = conc_invD(6-9) [OF inv]
  consider (push) v where "c_pc st p = PushCount v" | (pop) v where "c_pc st p = PopCount v"
    | (store) v i where "c_pc st p = PushStore v i"
    | (other) "\<And>v. c_pc st p \<noteq> PushCount v" "\<And>v. c_pc st p \<noteq> PopCount v" "\<And>v i. c_pc st p \<noteq> PushStore v i"
    by (cases "c_pc st p") auto
  then show ?thesis
  proof cases
    case push
    with ok bounds have c: "count_op 1 st = Some (st\<lparr>c_count := c_count st + 1\<rparr>)" "c_count st < bytes"
        "c_cells st ! nat (c_count st) = v" "nat (c_count st) < length (c_cells st)"
      by (auto simp: count_op_def)
    with push step have st': "st' = goto p PushUnlock (st\<lparr>c_count := c_count st + 1\<rparr>)"
      by (simp add: pstep_def)
    have "nat (c_count st + 1) = Suc (nat (c_count st))" using bounds by simp
    with c rev_take_Suc [OF c(4)] have "c_abs st' = v # c_abs st" by (simp add: c_abs_def st')
    with push c show ?thesis
      by (intro lin_step.pushes [of st p v]) (simp_all add: st' length_c_abs [OF inv])
  next
    case pop
    with ok bounds have c: "count_op (-1) st = Some (st\<lparr>c_count := c_count st - 1\<rparr>)" "0 < c_count st"
        "c_cells st ! nat (c_count st - 1) = v" "nat (c_count st - 1) < length (c_cells st)"
      by (auto simp: count_op_def)
    with pop step have st': "st' = goto p (PopUnlock v) (st\<lparr>c_count := c_count st - 1\<rparr>)"
      by (simp add: pstep_def)
    have "nat (c_count st) = Suc (nat (c_count st - 1))" using c(2) by simp
    with c rev_take_Suc [OF c(4)] have "c_abs st = v # c_abs st'" by (simp add: c_abs_def st')
    with pop show ?thesis by (intro lin_step.pops [of st p v]) (simp_all add: st')
  next
    case store
    with ok have "i = c_count st" by simp
    with store step have "c_abs st' = c_abs st"
      by (auto simp: pstep_def c_abs_def)
    then show ?thesis by (rule lin_step.silent)
  next
    case other
    with pstep_silent [OF step] show ?thesis by (intro lin_step.silent) blast
  qed
qed

lemma conc_step_lin:
  assumes "conc_inv bytes st" and "conc_step bytes tf st st'"
  shows "lin_step bytes st st'"
  using assms(2)
proof cases
  case (move p)
  then show ?thesis by (rule pstep_lin [OF assms(1)])
qed (auto intro!: lin_step.silent c_abs_same)

section \<open>Progress\<close>

text \<open>A process moves \<open>n\<close> times while the others stand still.\<close>

fun solo :: "int \<Rightarrow> nat \<Rightarrow> nat \<Rightarrow> conc \<Rightarrow> conc option" where
  "solo bytes p 0 st = Some st"
| "solo bytes p (Suc n) st = (case pstep bytes p st of None \<Rightarrow> None | Some st' \<Rightarrow> solo bytes p n st')"

fun cs_rank :: "stack_pc \<Rightarrow> nat" where
  "cs_rank (PushTest v) = 5"
| "cs_rank (PushIndex v) = 4"
| "cs_rank (PushStore v i) = 3"
| "cs_rank (PushCount v) = 2"
| "cs_rank PushUnlock = 1"
| "cs_rank PushFull = 1"
| "cs_rank PopTest = 5"
| "cs_rank PopIndex = 4"
| "cs_rank (PopLoad i) = 3"
| "cs_rank (PopCount v) = 2"
| "cs_rank (PopUnlock v) = 1"
| "cs_rank PopEmpty = 1"
| "cs_rank _ = 0"

lemma cs_rank_0 [simp]: "cs_rank pc = 0 \<longleftrightarrow> \<not> in_cs pc"
  by (cases pc) auto

lemma cs_rank_le: "cs_rank pc \<le> 5"
  by (cases pc) auto

lemma cs_moves:
  assumes inv: "conc_inv bytes st" and cs: "in_cs (c_pc st p)"
  shows "\<exists>st'. pstep bytes p st = Some st' \<and> cs_rank (c_pc st' p) < cs_rank (c_pc st p) \<and>
    c_pc st' p \<noteq> Dead"
proof -
  note ok = conc_invD(5) [OF inv, of p] and bounds = conc_invD(6-9) [OF inv]
  have rel: "\<exists>st'. flag_op p 1 st = Some st'"
    using conc_invD(2) [OF inv cs] by (simp add: flag_op_def)
  show ?thesis
    using cs ok bounds rel
    by (cases "c_pc st p") (auto simp: pstep_def count_op_def)
qed

lemma pstep_others:
  assumes "pstep bytes p st = Some st'" and "q \<noteq> p"
  shows "c_pc st' q = c_pc st q"
  using assms by (auto simp: pstep_def flag_op_def count_op_def die_def split: stack_pc.splits if_splits)

lemma cs_leaves:
  assumes "conc_inv bytes st" and "in_cs (c_pc st p)"
  shows "\<exists>n st'. n \<le> cs_rank (c_pc st p) \<and> solo bytes p n st = Some st' \<and> \<not> in_cs (c_pc st' p) \<and>
    conc_inv bytes st' \<and> c_pc st' p \<noteq> Dead \<and> (\<forall>q. q \<noteq> p \<longrightarrow> c_pc st' q = c_pc st q)"
  using assms
proof (induction "cs_rank (c_pc st p)" arbitrary: st rule: less_induct)
  case less
  from cs_moves [OF less.prems] obtain st1 where
    1: "pstep bytes p st = Some st1" "cs_rank (c_pc st1 p) < cs_rank (c_pc st p)" "c_pc st1 p \<noteq> Dead"
    by blast
  note inv1 = pstep_inv [OF less.prems(1) 1(1)] and others = pstep_others [OF 1(1)]
  show ?case
  proof (cases "in_cs (c_pc st1 p)")
    case False
    with 1 inv1 others show ?thesis by (intro exI [of _ 1] exI [of _ st1]) auto
  next
    case True
    from less.hyps [OF 1(2) inv1 True] obtain n st2 where
      2: "n \<le> cs_rank (c_pc st1 p)" "solo bytes p n st1 = Some st2" "\<not> in_cs (c_pc st2 p)"
        "conc_inv bytes st2" "c_pc st2 p \<noteq> Dead" "\<forall>q. q \<noteq> p \<longrightarrow> c_pc st2 q = c_pc st1 q"
      by blast
    with 1 others show ?thesis by (intro exI [of _ "Suc n"] exI [of _ st2]) auto
  qed
qed

lemma flag_comes_back:
  assumes inv: "conc_inv bytes st" and cs: "in_cs (c_pc st p)"
  shows "\<exists>n st'. n \<le> 5 \<and> solo bytes p n st = Some st' \<and> c_flag st' = 1 \<and> c_pc st' p \<noteq> Dead"
proof -
  from cs_leaves [OF inv cs] obtain n st' where
    1: "n \<le> cs_rank (c_pc st p)" "solo bytes p n st = Some st'" "\<not> in_cs (c_pc st' p)"
      "conc_inv bytes st'" "c_pc st' p \<noteq> Dead" "\<forall>q. q \<noteq> p \<longrightarrow> c_pc st' q = c_pc st q"
    by blast
  have "\<not> in_cs (c_pc st' q)" for q
    using conc_invD(4) [OF inv cs, of q] 1(3,6) by (cases "q = p") auto
  with conc_invD(3) [OF 1(4)] have "c_flag st' = 1" by blast
  moreover have "n \<le> 5" using 1(1) cs_rank_le le_trans by blast
  ultimately show ?thesis using 1(2,5) by blast
qed

lemma lock_free_or_held:
  assumes inv: "conc_inv bytes st" and lock: "c_pc st p = PopLock \<or> (\<exists>v. c_pc st p = PushLock v)"
  shows "(\<exists>st'. pstep bytes p st = Some st') \<or> (\<exists>q. in_cs (c_pc st q))"
proof (cases "\<exists>q. in_cs (c_pc st q)")
  case False
  with conc_invD(3) [OF inv] have "c_flag st = 1" by blast
  with lock show ?thesis by (auto simp: pstep_def flag_op_def)
qed simp

section \<open>A process alone runs push and pop\<close>

text \<open>
  A state of the system in which process \<open>p\<close> is about to call, and the world of \<open>Shm_Stack\<close>
  behind a handle of the same size, with the same semaphores and cells.
\<close>

definition agree :: "stack_t \<Rightarrow> stack_world \<Rightarrow> conc \<Rightarrow> bool" where
  "agree s w st \<longleftrightarrow> stack_view s w [c_count st, c_flag st] (c_cells st)"

lemma flag_op_take: "c_flag st = 1 \<Longrightarrow>
    flag_op p (-1) st = Some (st\<lparr>c_flag := 0, c_adj := (c_adj st)(p := c_adj st p + 1)\<rparr>)"
  by (simp add: flag_op_def)

lemma flag_op_give: "c_flag st = 0 \<Longrightarrow>
    flag_op p 1 st = Some (st\<lparr>c_flag := 1, c_adj := (c_adj st)(p := c_adj st p - 1)\<rparr>)"
  by (simp add: flag_op_def)

lemmas solo_simps = pstep_def flag_op_take flag_op_give count_op_def

lemma solo_push:
  assumes "conc_inv bytes st" and "c_flag st = 1" and "c_pc st p = PushLock v"
  shows "\<exists>n st'. solo bytes p n st = Some st' \<and> c_flag st' = 1 \<and>
    (if c_count st < bytes
     then c_pc st' p = Ret 0 None \<and> c_count st' = c_count st + 1 \<and>
       c_cells st' = (c_cells st)[nat (c_count st) := v]
     else c_pc st' p = Ret (-1) None \<and> c_count st' = c_count st \<and> c_cells st' = c_cells st)"
proof -
  note bounds = conc_invD(6-9) [OF assms(1)]
  show ?thesis
  proof (cases "c_count st < bytes")
    case True
    with bounds have "nat (c_count st) < length (c_cells st)" "c_count st + 1 \<le> semvmx" by auto
    with True bounds assms(2,3) show ?thesis
      by (intro exI [of _ "Suc (Suc (Suc (Suc (Suc (Suc 0)))))"]) (simp add: solo_simps)
  next
    case False
    with bounds assms(2,3) show ?thesis
      by (intro exI [of _ "Suc (Suc (Suc 0))"]) (simp add: solo_simps)
  qed
qed

lemma solo_pop:
  assumes "conc_inv bytes st" and "c_flag st = 1" and "c_pc st p = PopLock"
  shows "\<exists>n st'. solo bytes p n st = Some st' \<and> c_flag st' = 1 \<and> c_cells st' = c_cells st \<and>
    (if c_count st = 0
     then c_pc st' p = Ret (-1) None \<and> c_count st' = 0
     else c_pc st' p = Ret 0 (Some (c_cells st ! nat (c_count st - 1))) \<and> c_count st' = c_count st - 1)"
proof -
  note bounds = conc_invD(6-9) [OF assms(1)]
  show ?thesis
  proof (cases "c_count st = 0")
    case False
    with bounds have "nat (c_count st - 1) < length (c_cells st)" "0 \<le> c_count st - 1"
      "c_count st - 1 \<le> semvmx" by auto
    with False bounds assms(2,3) show ?thesis
      by (intro exI [of _ "Suc (Suc (Suc (Suc (Suc (Suc 0)))))"]) (simp add: solo_simps)
  next
    case True
    with bounds assms(2,3) show ?thesis
      by (intro exI [of _ "Suc (Suc (Suc 0))"]) (simp add: solo_simps)
  qed
qed

definition call_pc :: "64 word stack_op \<Rightarrow> stack_pc" where
  "call_pc a = (case a of Push v \<Rightarrow> PushLock v | Pop \<Rightarrow> PopLock)"

lemma solo_agrees_push:
  assumes "agree s w st" and "conc_inv (st_size s) st" and "c_flag st = 1" and "c_pc st p = PushLock v"
  shows "\<exists>n st' r w'. solo (st_size s) p n st = Some st' \<and> c_pc st' p = Ret r None \<and>
    push (Some s) v w = Returns r w' \<and> agree s w' st'"
proof -
  note bounds = conc_invD(6-9) [OF assms(2)]
  define k where "k = nat (c_count st)"
  have view: "stack_view s w [int k, 1] (c_cells st)"
    using assms(1,3) bounds(1) by (simp add: agree_def k_def)
  from solo_push [OF assms(2-4)] obtain n st' where
    1: "solo (st_size s) p n st = Some st'" "c_flag st' = 1"
      "if c_count st < st_size s
       then c_pc st' p = Ret 0 None \<and> c_count st' = c_count st + 1 \<and>
         c_cells st' = (c_cells st)[nat (c_count st) := v]
       else c_pc st' p = Ret (-1) None \<and> c_count st' = c_count st \<and> c_cells st' = c_cells st"
    by blast
  show ?thesis
  proof (cases "c_count st < st_size s")
    case True
    with bounds have "int k < st_size s" "k < length (c_cells st)" "int k < semvmx"
      by (auto simp: k_def)
    from push_view [OF view this, of v] obtain w' where
      "push (Some s) v w = Returns 0 w'" "stack_view s w' [int (Suc k), 1] ((c_cells st)[k := v])"
      by blast
    with 1(2,3) True bounds(1) have "c_pc st' p = Ret 0 None" "agree s w' st'"
      by (auto simp: agree_def k_def add.commute)
    with 1(1) \<open>push (Some s) v w = Returns 0 w'\<close> show ?thesis by blast
  next
    case False
    with bounds have "st_size s \<le> int k" by (simp add: k_def)
    from push_full_view [OF view this, of v] obtain w' where
      "push (Some s) v w = Returns (-1) w'" "stack_view s w' [int k, 1] (c_cells st)" by blast
    moreover from this(2) 1(2,3) False bounds(1) have "c_pc st' p = Ret (-1) None" "agree s w' st'"
      by (auto simp: agree_def k_def)
    ultimately show ?thesis using 1(1) by blast
  qed
qed

lemma solo_agrees_pop:
  assumes "agree s w st" and "conc_inv (st_size s) st" and "c_flag st = 1" and "c_pc st p = PopLock"
  shows "\<exists>n st' r x w'. solo (st_size s) p n st = Some st' \<and> c_pc st' p = Ret r x \<and>
    pop (Some s) w = Returns (r, x) w' \<and> agree s w' st'"
proof -
  note bounds = conc_invD(6-9) [OF assms(2)]
  from solo_pop [OF assms(2-4)] obtain n st' where
    1: "solo (st_size s) p n st = Some st'" "c_flag st' = 1" "c_cells st' = c_cells st"
      "if c_count st = 0
       then c_pc st' p = Ret (-1) None \<and> c_count st' = 0
       else c_pc st' p = Ret 0 (Some (c_cells st ! nat (c_count st - 1))) \<and> c_count st' = c_count st - 1"
    by blast
  show ?thesis
  proof (cases "c_count st = 0")
    case True
    with assms(1,3) have "stack_view s w [0, 1] (c_cells st)" by (simp add: agree_def)
    from pop_empty_view [OF this] obtain w' where
      "pop (Some s) w = Returns (-1, None) w'" "stack_view s w' [0, 1] (c_cells st)" by blast
    moreover from this(2) 1(2-4) True have "c_pc st' p = Ret (-1) None" "agree s w' st'"
      by (auto simp: agree_def)
    ultimately show ?thesis using 1(1) by blast
  next
    case False
    define k where "k = nat (c_count st - 1)"
    have k: "c_count st = int (Suc k)" "k < length (c_cells st)" "int (Suc k) \<le> semvmx"
      using False bounds by (auto simp: k_def)
    with assms(1,3) have "stack_view s w [int (Suc k), 1] (c_cells st)" by (simp add: agree_def)
    from pop_view [OF this k(2,3)] obtain w' where
      "pop (Some s) w = Returns (0, Some (c_cells st ! k)) w'" "stack_view s w' [int k, 1] (c_cells st)"
      by blast
    moreover from this(2) 1(2-4) False k(1) have
      "c_pc st' p = Ret 0 (Some (c_cells st ! k))" "agree s w' st'"
      by (auto simp: agree_def)
    ultimately show ?thesis using 1(1) by blast
  qed
qed

lemma agree_fresh:
  obtains s w where "attach_stack 7 2 fresh_world = Returns (Some s) w" and "st_size s = 2"
    and "agree s w (conc_start (replicate 512 0))"
  using attach_new_view [of fresh_world 7 2] that
  by (auto simp: fresh_world_def IPC_PRIVATE_def waits_ok_def agree_def conc_start_def)

section \<open>Properties\<close>

text \<open>
  C15: with a size that fits the memory and the semaphore, at most one process is between the
  two changes of the flag, the flag is 0 exactly then, and the count stays between 0 and the
  size, whatever processes call, give up and die, at any point.
\<close>

theorem stack_mutual_exclusion:
  assumes "conc_reach bytes tf cells st" and "0 \<le> bytes" and "bytes \<le> int (length cells)"
    and "bytes \<le> semvmx"
  shows "(in_cs (c_pc st p) \<and> in_cs (c_pc st q) \<longrightarrow> p = q) \<and>
    c_flag st = (if \<exists>r. in_cs (c_pc st r) then 0 else 1) \<and>
    0 \<le> c_count st \<and> c_count st \<le> bytes"
  using conc_invD [OF conc_reach_inv [OF assms]] by auto

text \<open>
  C2: every step of every process leaves the abstract stack alone, or is the change of the
  count in a \<open>push\<close> below the size, which puts its value on top, or the change of the count in
  a \<open>pop\<close>, which takes off the value it will return. A process that dies inside \<open>push\<close> or
  \<open>pop\<close> leaves the stack as before or as after the call.
\<close>

theorem stack_linearizable:
  assumes "conc_reach bytes tf cells st" and "conc_step bytes tf st st'" and "0 \<le> bytes"
    and "bytes \<le> int (length cells)" and "bytes \<le> semvmx"
  shows "lin_step bytes st st'"
  by (rule conc_step_lin [OF conc_reach_inv [OF assms(1,3-5)] assms(2)])

text \<open>
  C16: a process that holds the flag gives it back in at most five steps of its own, and a
  process that wants the flag can take it or another process holds it: no deadlock, also after
  processes have died.
\<close>

theorem stack_no_deadlock:
  assumes "conc_reach bytes tf cells st" and "0 \<le> bytes" and "bytes \<le> int (length cells)"
    and "bytes \<le> semvmx"
  shows "(\<forall>p. in_cs (c_pc st p) \<longrightarrow>
      (\<exists>n st'. n \<le> 5 \<and> solo bytes p n st = Some st' \<and> c_flag st' = 1 \<and> c_pc st' p \<noteq> Dead)) \<and>
    (\<forall>p. c_pc st p = PopLock \<or> (\<exists>v. c_pc st p = PushLock v) \<longrightarrow>
      (\<exists>st'. pstep bytes p st = Some st') \<or> (\<exists>q. in_cs (c_pc st q)))"
  using flag_comes_back [OF conc_reach_inv [OF assms]] lock_free_or_held [OF conc_reach_inv [OF assms]]
  by blast

text \<open>
  C22: a process that calls \<open>push\<close> or \<open>pop\<close> on a stack with an idle flag and is not disturbed
  goes through its steps to the result that the function gives in one piece, and leaves the
  same semaphores and cells.
\<close>

theorem solo_is_call:
  assumes "agree s w st" and "conc_inv (st_size s) st" and "c_flag st = 1" and "c_pc st p = call_pc a"
  shows "\<exists>n st' r x w'. solo (st_size s) p n st = Some st' \<and> c_pc st' p = Ret r x \<and>
    do_op (push (Some s)) (pop (Some s)) a w = Returns (r, x) w' \<and> agree s w' st'"
proof (cases a)
  case (Push v)
  with solo_agrees_push [OF assms(1-3), of p v] assms(4) obtain n st' r w' where
    "solo (st_size s) p n st = Some st'" "c_pc st' p = Ret r None"
    "push (Some s) v w = Returns r w'" "agree s w' st'"
    by (auto simp: call_pc_def)
  with Push show ?thesis by auto
next
  case Pop
  with solo_agrees_pop [OF assms(1-3), of p] assms(4) show ?thesis
    by (auto simp: call_pc_def)
qed

section \<open>Witnesses\<close>

text \<open>Process 3 has called \<open>push\<close> and taken the flag, process 2 has called \<open>pop\<close>.\<close>

definition two_callers :: conc where
  "two_callers = goto 2 PopLock
     ((goto 3 (PushTest 5) (conc_start [0, 0]))\<lparr>c_flag := 0, c_adj := (\<lambda>_. 0)(3 := 1)\<rparr>)"

lemma two_callers_reach: "conc_reach 2 (\<lambda>_. 0) [0, 0] two_callers"
proof -
  have "conc_reach 2 (\<lambda>_. 0) [0, 0] (goto 3 (PushLock 5) (conc_start [0, 0]))"
    by (rule conc_reach.step [OF conc_reach.start conc_step.call_push])
      (simp add: conc_start_def)
  moreover have "conc_step 2 (\<lambda>_. 0) (goto 3 (PushLock 5) (conc_start [0, 0]))
      ((goto 3 (PushTest 5) (conc_start [0, 0]))\<lparr>c_flag := 0, c_adj := (\<lambda>_. 0)(3 := 1)\<rparr>)"
    by (rule conc_step.move [of _ 3])
      (simp add: pstep_def goto_def flag_op_def conc_start_def)
  ultimately have "conc_reach 2 (\<lambda>_. 0) [0, 0]
      ((goto 3 (PushTest 5) (conc_start [0, 0]))\<lparr>c_flag := 0, c_adj := (\<lambda>_. 0)(3 := 1)\<rparr>)"
    by (rule conc_reach.step)
  then show ?thesis
    unfolding two_callers_def
    by (rule conc_reach.step [OF _ conc_step.call_pop])
      (simp add: goto_def conc_start_def)
qed

lemma two_callers_pc: "c_pc two_callers 3 = PushTest 5" "c_pc two_callers 2 = PopLock"
  by (simp_all add: two_callers_def goto_def)

theorem stack_mutual_exclusion_witness:
  "in_cs (c_pc two_callers 3) \<and> c_flag two_callers = 0 \<and> \<not> in_cs (c_pc two_callers 2)"
proof -
  have "in_cs (c_pc two_callers 3)" "\<not> in_cs (c_pc two_callers 2)" by (simp_all add: two_callers_pc)
  with stack_mutual_exclusion [OF two_callers_reach, of 3 2] show ?thesis
    by (auto simp: semvmx_def)
qed

theorem stack_linearizable_witness:
  "c_pc two_callers 3 = PushTest 5 \<and> lin_step 2 two_callers (die 3 two_callers)"
proof -
  have "conc_step 2 (\<lambda>_. 0) two_callers (die 3 two_callers)"
    by (rule conc_step.crash) (simp add: two_callers_pc)
  from stack_linearizable [OF two_callers_reach this] show ?thesis
    by (simp add: semvmx_def two_callers_pc)
qed

theorem stack_no_deadlock_witness:
  "\<exists>n st'. n \<le> 5 \<and> solo 2 3 n two_callers = Some st' \<and> c_flag st' = 1"
proof -
  have "in_cs (c_pc two_callers 3)" by (simp add: two_callers_pc)
  moreover have "(0 :: int) \<le> 2" "(2 :: int) \<le> int (length [0 :: 64 word, 0])" "2 \<le> semvmx"
    by (simp_all add: semvmx_def)
  ultimately show ?thesis
    using stack_no_deadlock [OF two_callers_reach] by blast
qed

theorem solo_is_call_witness:
  "\<exists>s w n st' r w'. attach_stack 7 2 fresh_world = Returns (Some s) w \<and>
     solo 2 3 n (goto 3 (PushLock 5) (conc_start (replicate 512 0))) = Some st' \<and>
     c_pc st' 3 = Ret r None \<and> push (Some s) 5 w = Returns r w' \<and> agree s w' st'"
proof -
  obtain s w where s: "attach_stack 7 2 fresh_world = Returns (Some s) w" "st_size s = 2"
      "agree s w (conc_start (replicate 512 0))"
    by (rule agree_fresh)
  define st where "st = goto 3 (PushLock 5) (conc_start (replicate 512 0))"
  have "agree s w st" using s(3) by (simp add: agree_def st_def)
  moreover have "conc_inv (st_size s) st"
    by (simp add: conc_inv_def st_def conc_start_def s(2) semvmx_def)
  moreover have "c_flag st = 1" "c_pc st 3 = call_pc (Push 5)"
    by (simp_all add: st_def conc_start_def call_pc_def)
  ultimately obtain n st' r x w' where
    "solo (st_size s) 3 n st = Some st'" "c_pc st' 3 = Ret r x"
    "do_op (push (Some s)) (pop (Some s)) (Push 5) w = Returns (r, x) w'" "agree s w' st'"
    using solo_is_call [of s w st 3 "Push 5"] by blast
  then show ?thesis
    using s(1,2) by (auto simp: st_def bind_outcome_Returns_iff)
qed

end
