(* ===== verification/Shm_World.thy ===== *)
theory Shm_World
  imports Shm_Stack
begin

text \<open>
  What the operations of \<open>stack.c\<close> leave of the kernel's tables, whatever they are given and however
  they end: keys name objects that exist, a segment is there as long as it is attached and counts its
  attachments, a segment marked for destruction has no key, semaphores stay in their range.
\<close>

section \<open>Well-formed tables\<close>

definition seg_ok :: "(int \<rightharpoonup> int) \<Rightarrow> int \<Rightarrow> int \<Rightarrow> shmseg \<Rightarrow> bool" where
  "seg_ok at nid i sg \<longleftrightarrow> i < nid \<and> 1 \<le> sg_size sg \<and> length (sg_cells sg) = seg_cells (sg_size sg) \<and>
     sg_nattch sg = card {a. at a = Some i} \<and> (sg_dest sg \<longrightarrow> 0 < sg_nattch sg)"

definition shm_ok :: "(int \<rightharpoonup> int) \<Rightarrow> (int \<rightharpoonup> shmseg) \<Rightarrow> (int \<rightharpoonup> int) \<Rightarrow> int \<Rightarrow> int \<Rightarrow> bool" where
  "shm_ok keys segs at nid naddr \<longleftrightarrow>
     (\<forall>k i. keys k = Some i \<longrightarrow> (\<exists>sg. segs i = Some sg \<and> \<not> sg_dest sg)) \<and>
     (\<forall>i sg. segs i = Some sg \<longrightarrow> seg_ok at nid i sg) \<and>
     (\<forall>a i. at a = Some i \<longrightarrow> a < naddr \<and> (\<exists>sg. segs i = Some sg)) \<and> finite (dom at)"

lemma shm_okI:
  assumes "\<And>k i. keys k = Some i \<Longrightarrow> \<exists>sg. segs i = Some sg \<and> \<not> sg_dest sg"
    and "\<And>i sg. segs i = Some sg \<Longrightarrow> seg_ok at nid i sg"
    and "\<And>a i. at a = Some i \<Longrightarrow> a < naddr \<and> (\<exists>sg. segs i = Some sg)" and "finite (dom at)"
  shows "shm_ok keys segs at nid naddr"
  using assms by (simp add: shm_ok_def)

lemma shm_okD:
  assumes "shm_ok keys segs at nid naddr"
  shows "keys k = Some i \<Longrightarrow> \<exists>sg. segs i = Some sg \<and> \<not> sg_dest sg"
    and "segs i = Some sg \<Longrightarrow> seg_ok at nid i sg"
    and "at a = Some i \<Longrightarrow> a < naddr \<and> (\<exists>sg. segs i = Some sg)" and "finite (dom at)"
  using assms by (auto simp: shm_ok_def)

definition sem_ok :: "(int \<rightharpoonup> int) \<Rightarrow> (int \<rightharpoonup> semset) \<Rightarrow> int \<Rightarrow> bool" where
  "sem_ok keys sets nid \<longleftrightarrow>
     (\<forall>k i. keys k = Some i \<longrightarrow> i \<in> dom sets) \<and>
     (\<forall>i s. sets i = Some s \<longrightarrow> i < nid \<and> length (ss_adj s) = length (ss_vals s) \<and>
        (\<forall>v \<in> set (ss_vals s). 0 \<le> v \<and> v \<le> semvmx))"

definition ipc_ok :: "'a ipc_scheme \<Rightarrow> bool" where
  "ipc_ok w \<longleftrightarrow> shm_ok (shm_keys w) (shms w) (maps w) (next_shm w) (next_addr w) \<and>
     sem_ok (sem_keys w) (sems w) (next_sem w)"

fun ends_in :: "('w \<Rightarrow> bool) \<Rightarrow> ('a, 'w) outcome \<Rightarrow> bool" where
  "ends_in P (Returns a w) = P w"
| "ends_in P (Exits e w) = P w"
| "ends_in P (Aborts w) = P w"
| "ends_in P (Faults w) = P w"
| "ends_in P (Blocks w) = P w"

lemma ends_in_bind [intro]:
  "ends_in P m \<Longrightarrow> (\<And>a w. P w \<Longrightarrow> ends_in P (f a w)) \<Longrightarrow> ends_in P (bind_outcome m f)"
  by (cases m) auto

lemma ends_in_call:
  "P (snd c) \<Longrightarrow> (\<And>a w. P w \<Longrightarrow> ends_in P (f a w)) \<Longrightarrow> ends_in P (case c of (a, w) \<Rightarrow> f a w)"
  by (cases c) auto

lemma ends_in_if: "ends_in P x \<Longrightarrow> ends_in P y \<Longrightarrow> ends_in P (if b then x else y)"
  by simp

lemma ends_in_option: "ends_in P x \<Longrightarrow> (\<And>v. m = Some v \<Longrightarrow> ends_in P (f v)) \<Longrightarrow>
   ends_in P (case m of None \<Rightarrow> x | Some v \<Rightarrow> f v)"
  by (cases m) auto

lemmas ends_in_intros = ends_in_bind ends_in_call ends_in_if ends_in_option

lemma ends_in_assert [simp]: "ends_in P (c_assert b w) = P w"
  by (cases b) simp_all

section \<open>The system calls\<close>

lemma finite_at: "finite (dom at) \<Longrightarrow> finite {a. at a = Some i}"
  by (rule finite_subset [of _ "dom at"]) auto

lemma seg_ok_later: "seg_ok at nid i sg \<Longrightarrow> seg_ok at (nid + 1) i sg"
  by (auto simp: seg_ok_def)

lemma shm_ok_new:
  assumes ok: "shm_ok keys segs at nid naddr" and "1 \<le> bytes" and keys': "keys' = keys \<or> keys' = keys(k \<mapsto> nid)"
  shows "shm_ok keys' (segs(nid \<mapsto> \<lparr>sg_size = bytes, sg_cells = replicate (seg_cells bytes) 0,
    sg_nattch = 0, sg_dest = False\<rparr>)) at (nid + 1) naddr"
proof (rule shm_okI)
  have fresh: "segs nid = None" using shm_okD(2) [OF ok] by (cases "segs nid") (auto simp: seg_ok_def)
  then have none: "{a. at a = Some nid} = {}" using shm_okD(3) [OF ok] by fastforce
  let ?segs = "segs(nid \<mapsto> \<lparr>sg_size = bytes, sg_cells = replicate (seg_cells bytes) 0, sg_nattch = 0, sg_dest = False\<rparr>)"
  show "\<exists>sg. ?segs i = Some sg \<and> \<not> sg_dest sg" if "keys' k' = Some i" for k' i
    using that keys' shm_okD(1) [OF ok] fresh by (auto split: if_splits)
  show "seg_ok at (nid + 1) i sg" if "?segs i = Some sg" for i sg
  proof (cases "i = nid")
    case True
    with that assms(2) none show ?thesis by (auto simp: seg_ok_def)
  next
    case False
    with that show ?thesis using seg_ok_later [OF shm_okD(2) [OF ok]] by simp
  qed
  show "a < naddr \<and> (\<exists>sg. ?segs i = Some sg)" if "at a = Some i" for a i
    using that shm_okD(3) [OF ok] by auto
  show "finite (dom at)" using shm_okD(4) [OF ok] .
qed

lemma shm_ok_attach:
  assumes ok: "shm_ok keys segs at nid naddr" and i: "segs i = Some sg"
  shows "shm_ok keys (segs(i \<mapsto> sg\<lparr>sg_nattch := sg_nattch sg + 1\<rparr>)) (at(naddr \<mapsto> i)) nid (naddr + 1)"
proof (rule shm_okI)
  let ?segs = "segs(i \<mapsto> sg\<lparr>sg_nattch := sg_nattch sg + 1\<rparr>)" and ?at = "at(naddr \<mapsto> i)"
  have fresh: "at naddr = None" using shm_okD(3) [OF ok] by (cases "at naddr") auto
  have fin: "finite (dom at)" using shm_okD(4) [OF ok] .
  have "{a. ?at a = Some j} = (if j = i then insert naddr {a. at a = Some j} else {a. at a = Some j})" for j
    using fresh by auto
  then have card: "card {a. ?at a = Some j} = (if j = i then Suc (card {a. at a = Some j}) else card {a. at a = Some j})" for j
    using fin fresh finite_at [of at] by simp
  show "\<exists>sg. ?segs j = Some sg \<and> \<not> sg_dest sg" if "keys k = Some j" for k j
    using shm_okD(1) [OF ok that] i by auto
  show "seg_ok ?at nid j sg'" if "?segs j = Some sg'" for j sg'
    using that shm_okD(2) [OF ok, of j] i by (auto simp: seg_ok_def card simp del: fun_upd_apply split: if_splits)
      (auto split: if_splits)
  show "a < naddr + 1 \<and> (\<exists>sg. ?segs j = Some sg)" if "?at a = Some j" for a j
    using that shm_okD(3) [OF ok, of a j] by (auto split: if_splits)
  show "finite (dom ?at)" using fin by simp
qed

lemma shm_ok_detach:
  assumes ok: "shm_ok keys segs at nid naddr" and i: "at addr = Some i" "segs i = Some sg"
  shows "shm_ok keys (if sg_dest sg \<and> sg_nattch sg = 1 then segs(i := None)
      else segs(i \<mapsto> sg\<lparr>sg_nattch := sg_nattch sg - 1\<rparr>)) (at(addr := None)) nid naddr"
proof (rule shm_okI)
  let ?gone = "sg_dest sg \<and> sg_nattch sg = 1"
  let ?segs = "if ?gone then segs(i := None) else segs(i \<mapsto> sg\<lparr>sg_nattch := sg_nattch sg - 1\<rparr>)"
    and ?at = "at(addr := None)"
  have fin: "finite (dom at)" using shm_okD(4) [OF ok] .
  have "{a. ?at a = Some j} = (if j = i then {a. at a = Some j} - {addr} else {a. at a = Some j})" for j
    using i by auto
  then have card: "card {a. ?at a = Some j} = (if j = i then card {a. at a = Some j} - 1 else card {a. at a = Some j})" for j
    using fin finite_at [of at] i by simp
  have sg: "seg_ok at nid i sg" using shm_okD(2) [OF ok i(2)] .
  have last: "a = addr" if "?gone" "at a = Some i" for a
  proof -
    have "card {a. at a = Some i} = 1" using sg that by (simp add: seg_ok_def)
    then obtain x where "{a. at a = Some i} = {x}" by (meson card_1_singletonE)
    with that(2) i(1) show ?thesis by (metis mem_Collect_eq singletonD)
  qed
  show "\<exists>sg. ?segs j = Some sg \<and> \<not> sg_dest sg" if key: "keys k = Some j" for k j
  proof -
    obtain sg' where "segs j = Some sg'" "\<not> sg_dest sg'" using shm_okD(1) [OF ok key] by blast
    with i show ?thesis by (cases "j = i") simp_all
  qed
  show "seg_ok ?at nid j sg'" if seg: "?segs j = Some sg'" for j sg'
  proof (cases "j = i")
    case True
    with seg have "\<not> ?gone" "sg' = sg\<lparr>sg_nattch := sg_nattch sg - 1\<rparr>" by (auto split: if_splits)
    with True sg card [of i] show ?thesis by (auto simp: seg_ok_def simp del: fun_upd_apply)
  next
    case False
    with seg have "segs j = Some sg'" by (auto split: if_splits)
    moreover have "seg_ok ?at nid j sg' = seg_ok at nid j sg'"
      unfolding seg_ok_def card using False by simp
    ultimately show ?thesis using shm_okD(2) [OF ok] by blast
  qed
  show "a < naddr \<and> (\<exists>sg. ?segs j = Some sg)" if "?at a = Some j" for a j
  proof -
    have a: "a \<noteq> addr" "at a = Some j" using that by (auto split: if_splits)
    obtain sg' where sg': "a < naddr" "segs j = Some sg'" using shm_okD(3) [OF ok a(2)] by blast
    show ?thesis
    proof (cases "j = i")
      case True
      with a last have "\<not> ?gone" by blast
      then have "?segs j = Some (sg\<lparr>sg_nattch := sg_nattch sg - 1\<rparr>)" using True by simp
      with sg' show ?thesis by blast
    next
      case False
      then have "?segs j = Some sg'" using sg' by simp
      with sg' show ?thesis by blast
    qed
  qed
  show "finite (dom ?at)" using fin by simp
qed

lemma shm_ok_rmid:
  assumes ok: "shm_ok keys segs at nid naddr" and i: "segs i = Some sg"
  shows "shm_ok (forget_key i keys) (if sg_nattch sg = 0 then segs(i := None)
      else segs(i \<mapsto> sg\<lparr>sg_dest := True\<rparr>)) at nid naddr"
proof (rule shm_okI)
  let ?segs = "if sg_nattch sg = 0 then segs(i := None) else segs(i \<mapsto> sg\<lparr>sg_dest := True\<rparr>)"
  have sg: "seg_ok at nid i sg" using shm_okD(2) [OF ok i] .
  have "{a. at a = Some i} = {}" if "sg_nattch sg = 0"
    using sg that finite_at [OF shm_okD(4) [OF ok], of i] by (simp add: seg_ok_def)
  then have unused: "at a \<noteq> Some i" if "sg_nattch sg = 0" for a using that by blast
  show "\<exists>sg. ?segs j = Some sg \<and> \<not> sg_dest sg" if "forget_key i keys k = Some j" for k j
    using that shm_okD(1) [OF ok, of k j] by (auto simp: forget_key_def split: if_splits)
  show "seg_ok at nid j sg'" if "?segs j = Some sg'" for j sg'
    using that shm_okD(2) [OF ok, of j] sg by (auto simp: seg_ok_def split: if_splits)
  show "a < naddr \<and> (\<exists>sg. ?segs j = Some sg)" if "at a = Some j" for a j
    using that shm_okD(3) [OF ok, of a j] unused [of a] by (auto split: if_splits)
  show "finite (dom at)" using shm_okD(4) [OF ok] .
qed

lemma shm_ok_store:
  assumes ok: "shm_ok keys segs at nid naddr" and i: "segs i = Some sg"
  shows "shm_ok keys (segs(i \<mapsto> sg\<lparr>sg_cells := (sg_cells sg)[n := v]\<rparr>)) at nid naddr"
proof (rule shm_okI)
  let ?segs = "segs(i \<mapsto> sg\<lparr>sg_cells := (sg_cells sg)[n := v]\<rparr>)"
  show "\<exists>sg. ?segs j = Some sg \<and> \<not> sg_dest sg" if "keys k = Some j" for k j
    using shm_okD(1) [OF ok that] i by auto
  show "seg_ok at nid j sg'" if "?segs j = Some sg'" for j sg'
    using that shm_okD(2) [OF ok, of j] i by (auto simp: seg_ok_def split: if_splits)
  show "a < naddr \<and> (\<exists>sg. ?segs j = Some sg)" if "at a = Some j" for a j
    using shm_okD(3) [OF ok that] by auto
  show "finite (dom at)" using shm_okD(4) [OF ok] .
qed

lemma forget_key_Some: "forget_key i m k = Some j \<longleftrightarrow> m k = Some j \<and> j \<noteq> i"
  by (auto simp: forget_key_def)

lemma ipc_ok_errno [simp]: "ipc_ok (w\<lparr>errno := e\<rparr>) = ipc_ok w"
  by (simp add: ipc_ok_def)

lemma shmget_ok: "ipc_ok w \<Longrightarrow> ipc_ok (snd (shmget key bytes creat excl w))"
  using shm_ok_new [of "shm_keys w" "shms w" "maps w" "next_shm w" "next_addr w" "size_t bytes" "shm_keys w"]
    shm_ok_new [of "shm_keys w" "shms w" "maps w" "next_shm w" "next_addr w" "size_t bytes"
      "(shm_keys w)(key \<mapsto> next_shm w)" key]
  by (auto simp: shmget_def new_shm_def ipc_ok_def Let_def split: option.splits)

lemma shmat_ok: "ipc_ok w \<Longrightarrow> ipc_ok (snd (shmat i w))"
  using shm_ok_attach [of "shm_keys w" "shms w" "maps w" "next_shm w" "next_addr w" i]
  by (auto simp: shmat_def ipc_ok_def split: option.splits)

lemma shmdt_ok: "ipc_ok w \<Longrightarrow> ipc_ok (snd (shmdt addr w))"
  using shm_ok_detach [of "shm_keys w" "shms w" "maps w" "next_shm w" "next_addr w" addr]
  by (auto simp: shmdt_def ipc_ok_def split: option.splits)

lemma shm_rmid_ok: "ipc_ok w \<Longrightarrow> ipc_ok (snd (shm_rmid i w))"
  using shm_ok_rmid [of "shm_keys w" "shms w" "maps w" "next_shm w" "next_addr w" i]
  by (auto simp: shm_rmid_def ipc_ok_def split: option.splits)

lemma store_cell_ok: "ipc_ok w \<Longrightarrow> store_cell addr k v w = Some w' \<Longrightarrow> ipc_ok w'"
  using shm_ok_store [of "shm_keys w" "shms w" "maps w" "next_shm w" "next_addr w"]
  by (auto simp: store_cell_def ipc_ok_def split: option.splits if_splits)

lemma semget_ok: "ipc_ok w \<Longrightarrow> ipc_ok (snd (semget key n creat w))"
  by (auto simp: semget_def ipc_ok_def sem_ok_def semvmx_def split: option.splits) fastforce+

lemma sem_rmid_ok: "ipc_ok w \<Longrightarrow> ipc_ok (snd (sem_rmid i w))"
  by (auto simp: sem_rmid_def ipc_ok_def sem_ok_def forget_key_Some split: option.splits)

lemma sem_getval_ok: "ipc_ok w \<Longrightarrow> ipc_ok (snd (sem_getval i n w))"
  by (auto simp: sem_getval_def split: option.splits)

lemma sem_ok_change:
  assumes "sem_ok keys sets nid" and "sets i = Some s" and "0 \<le> ss_vals s ! n + delta" "ss_vals s ! n + delta \<le> semvmx"
    and "length adj = length (ss_adj s)"
  shows "sem_ok keys (sets(i \<mapsto> s\<lparr>ss_vals := (ss_vals s)[n := ss_vals s ! n + delta], ss_adj := adj\<rparr>)) nid"
proof -
  have "0 \<le> v \<and> v \<le> semvmx" if "v \<in> set ((ss_vals s)[n := ss_vals s ! n + delta])" for v
    using that set_update_subset_insert [of "ss_vals s" n "ss_vals s ! n + delta"] assms unfolding sem_ok_def by blast
  with assms show ?thesis by (auto simp: sem_ok_def)
qed

lemma semop_ok:
  assumes "ipc_ok w"
  shows "ends_in ipc_ok (semop i n delta m undo w)"
proof (cases "sems w i")
  case None
  with assms show ?thesis by (simp add: semop_def)
next
  case (Some s)
  have vals: "0 \<le> ss_vals s ! k \<and> ss_vals s ! k \<le> semvmx" if "k < length (ss_vals s)" for k
    using assms Some that by (auto simp: ipc_ok_def sem_ok_def)
  have "ipc_ok (w\<lparr>sems := (sems w)(i \<mapsto> s\<lparr>ss_vals := (ss_vals s)[nat n := ss_vals s ! nat n + delta],
      ss_adj := (if undo then (ss_adj s)[nat n := ss_adj s ! nat n - delta] else ss_adj s)\<rparr>)\<rparr>)"
    if "0 \<le> ss_vals s ! nat n + delta" "ss_vals s ! nat n + delta \<le> semvmx"
    using assms Some that sem_ok_change [of "sem_keys w" "sems w" "next_sem w" i s "nat n" delta]
    by (simp add: ipc_ok_def)
  with assms Some vals [of "nat n"] show ?thesis
    by (auto simp: semop_def Let_def split: if_splits)
qed

section \<open>The operations of the stack\<close>

lemma ipc_ok_flags [simp]:
  "ipc_ok (w\<lparr>timeout_flag := v\<rparr>) = ipc_ok w" "ipc_ok (w\<lparr>timeout_flag := v, timeout_time := t\<rparr>) = ipc_ok w"
  by (simp_all add: ipc_ok_def)

lemma sem_change_ok: "ipc_ok w \<Longrightarrow> ends_in ipc_ok (sem_change i n v undo w)"
  by (simp add: sem_change_def semop_ok)

lemma get_count_ok: "ipc_ok w \<Longrightarrow> ends_in ipc_ok (get_count stack w)"
  unfolding get_count_def Let_def by (intro ends_in_intros sem_getval_ok) simp_all

lemma attach_stack_ok: "ipc_ok w \<Longrightarrow> ends_in ipc_ok (attach_stack key bytes w)"
  unfolding attach_stack_def Let_def
  by (intro ends_in_intros shmget_ok shmat_ok semget_ok sem_change_ok) simp_all

lemma detach_stack_ok: "ipc_ok w \<Longrightarrow> ends_in ipc_ok (detach_stack stack w)"
  unfolding detach_stack_def Let_def by (intro ends_in_intros shmdt_ok) simp_all

lemma mark_destruct_ok: "ipc_ok w \<Longrightarrow> ends_in ipc_ok (mark_destruct stack w)"
  unfolding mark_destruct_def Let_def by (intro ends_in_intros shm_rmid_ok sem_rmid_ok) simp_all

lemma push_ok: "ipc_ok w \<Longrightarrow> ends_in ipc_ok (push stack v w)"
  unfolding push_def by (intro ends_in_intros sem_change_ok get_count_ok) (simp_all add: store_cell_ok)

lemma pop_ok: "ipc_ok w \<Longrightarrow> ends_in ipc_ok (pop stack w)"
  unfolding pop_def by (intro ends_in_intros sem_change_ok get_count_ok) simp_all

text \<open>
  Whatever key, size or handle it is given, and however it ends, no operation of \<open>stack.c\<close> breaks
  the tables of the kernel: keys name segments and semaphore sets that exist, a segment lives
  while it is attached and counts its attachments, one marked for destruction has no key and goes with
  the last attachment, semaphores stay between 0 and 32767.
\<close>

theorem stack_operations_keep_world:
  assumes "ipc_ok w"
  shows "ends_in ipc_ok (attach_stack key bytes w) \<and> ends_in ipc_ok (detach_stack stack w) \<and>
    ends_in ipc_ok (mark_destruct stack w) \<and> ends_in ipc_ok (get_count stack w) \<and>
    ends_in ipc_ok (push stack v w) \<and> ends_in ipc_ok (pop stack w) \<and>
    ends_in ipc_ok (set_wait val timeout w) \<and> ends_in ipc_ok (clear_key key bytes w)"
proof -
  have "ends_in ipc_ok (clear_key key bytes w)"
    unfolding clear_key_def
    by (intro ends_in_intros attach_stack_ok mark_destruct_ok assms) simp_all
  moreover have "ends_in ipc_ok (set_wait val timeout w)"
    using assms by (simp add: set_wait_def split: option.splits)
  ultimately show ?thesis
    using attach_stack_ok detach_stack_ok mark_destruct_ok get_count_ok push_ok pop_ok assms by blast
qed

definition empty_world :: stack_world where
  "empty_world = \<lparr>shm_keys = Map.empty, shms = Map.empty, next_shm = 1, sem_keys = Map.empty, sems = Map.empty,
     next_sem = 1, maps = Map.empty, next_addr = 4096, errno = E_NONE, timeout_flag = 0, timeout_time = (0, 0)\<rparr>"

lemma stack_operations_keep_world_witness:
  "ipc_ok empty_world \<and> ends_in ipc_ok (attach_stack 7 4 empty_world) \<and> ends_in ipc_ok (clear_key 7 4 empty_world)"
proof -
  have "ipc_ok empty_world"
    by (simp add: empty_world_def ipc_ok_def shm_ok_def sem_ok_def)
  with stack_operations_keep_world [OF this, of 7 4] show ?thesis by blast
qed

end
