(* ===== verification/Stack_Tests.thy ===== *)
theory Stack_Tests
  imports Shm_Stack_Conc Shm_World
begin

text \<open>
  The programs of \<open>Stack/tests\<close>, the clients of \<open>stack.c\<close>. The ones whose processes push and
  pop side by side are a script of calls for each process, run over the steps of
  \<open>Shm_Stack_Conc\<close>; \<open>prog.c\<close> and \<open>fork4.c\<close>, whose calls come one after the other, run over
  the functions of \<open>Shm_Stack\<close>.
\<close>

section \<open>Processes that follow a script\<close>

record test_state =
  t_conc :: conc
  t_todo :: "nat \<Rightarrow> 64 word stack_op list"

fun at_call :: "stack_pc \<Rightarrow> bool" where
  "at_call Idle = True"
| "at_call (Ret r x) = True"
| "at_call _ = False"

definition begin_call :: "nat \<Rightarrow> 64 word stack_op \<Rightarrow> 64 word stack_op list \<Rightarrow> test_state \<Rightarrow> test_state" where
  "begin_call p a as st =
     st\<lparr>t_conc := goto p (call_pc a) (t_conc st), t_todo := (t_todo st)(p := as)\<rparr>"

definition test_start :: "64 word list \<Rightarrow> (nat \<Rightarrow> 64 word stack_op list) \<Rightarrow> test_state" where
  "test_start cells scripts = \<lparr>t_conc = conc_start cells, t_todo = scripts\<rparr>"

text \<open>
  \<open>test_run bytes n scripts cells k st\<close>: the processes below \<open>n\<close>, with their stack attached and
  \<open>timeout_flag\<close> 0, have made \<open>k\<close> steps. None of them looks at what a call returned.
\<close>

inductive test_run ::
  "int \<Rightarrow> nat \<Rightarrow> (nat \<Rightarrow> 64 word stack_op list) \<Rightarrow> 64 word list \<Rightarrow> nat \<Rightarrow> test_state \<Rightarrow> bool"
  for bytes n scripts cells where
  start: "test_run bytes n scripts cells 0 (test_start cells scripts)"
| call: "test_run bytes n scripts cells k st \<Longrightarrow> p < n \<Longrightarrow> at_call (c_pc (t_conc st) p) \<Longrightarrow>
    t_todo st p = a # as \<Longrightarrow> test_run bytes n scripts cells (Suc k) (begin_call p a as st)"
| move: "test_run bytes n scripts cells k st \<Longrightarrow> p < n \<Longrightarrow> pstep bytes p (t_conc st) = Some c \<Longrightarrow>
    test_run bytes n scripts cells (Suc k) (st\<lparr>t_conc := c\<rparr>)"

text \<open>
  A script that needs at most \<open>cap\<close> places of its own: it never pops more than it has pushed,
  and never has more than \<open>cap\<close> elements on the stack.
\<close>

fun script_ok :: "nat \<Rightarrow> nat \<Rightarrow> 'v stack_op list \<Rightarrow> bool" where
  "script_ok cap h [] = (h \<le> cap)"
| "script_ok cap h (Push v # as) = (h < cap \<and> script_ok cap (Suc h) as)"
| "script_ok cap h (Pop # as) = (0 < h \<and> h \<le> cap \<and> script_ok cap (h - 1) as)"

fun script_net :: "'v stack_op list \<Rightarrow> int" where
  "script_net [] = 0"
| "script_net (Push v # as) = 1 + script_net as"
| "script_net (Pop # as) = script_net as - 1"

lemma script_ok_le: "script_ok cap h as \<Longrightarrow> h \<le> cap"
  by (cases "(cap, h, as)" rule: script_ok.cases) auto

section \<open>The invariant\<close>

text \<open>The call of a process that has not yet changed the count, with the rest of its script.\<close>

fun pending :: "stack_pc \<Rightarrow> 64 word stack_op list \<Rightarrow> 64 word stack_op list" where
  "pending (PushLock v) as = Push v # as"
| "pending (PushTest v) as = Push v # as"
| "pending (PushIndex v) as = Push v # as"
| "pending (PushStore v i) as = Push v # as"
| "pending (PushCount v) as = Push v # as"
| "pending PopLock as = Pop # as"
| "pending PopTest as = Pop # as"
| "pending PopIndex as = Pop # as"
| "pending (PopLoad i) as = Pop # as"
| "pending (PopCount v) as = Pop # as"
| "pending _ as = as"

fun no_failure :: "stack_pc \<Rightarrow> bool" where
  "no_failure PushFull = False"
| "no_failure PopEmpty = False"
| "no_failure Dead = False"
| "no_failure (Ret r x) = (r = 0)"
| "no_failure _ = True"

text \<open>The steps a process has left in its call.\<close>

fun steps_left :: "stack_pc \<Rightarrow> nat" where
  "steps_left (PushLock v) = 6"
| "steps_left PopLock = 6"
| "steps_left (PushTest v) = 5"
| "steps_left PopTest = 5"
| "steps_left (PushIndex v) = 4"
| "steps_left PopIndex = 4"
| "steps_left (PushStore v i) = 3"
| "steps_left (PopLoad i) = 3"
| "steps_left (PushCount v) = 2"
| "steps_left (PopCount v) = 2"
| "steps_left PushUnlock = 1"
| "steps_left (PopUnlock v) = 1"
| "steps_left _ = 0"

definition work :: "test_state \<Rightarrow> nat \<Rightarrow> nat" where
  "work st p = 7 * length (t_todo st p) + steps_left (c_pc (t_conc st) p)"

definition own :: "(nat \<Rightarrow> 'v stack_op list) \<Rightarrow> test_state \<Rightarrow> nat \<Rightarrow> int" where
  "own scripts st p = script_net (scripts p) - script_net (pending (c_pc (t_conc st) p) (t_todo st p))"

definition test_inv :: "nat \<Rightarrow> (nat \<Rightarrow> nat) \<Rightarrow> (nat \<Rightarrow> 64 word stack_op list) \<Rightarrow> test_state \<Rightarrow> bool" where
  "test_inv n cap scripts st \<longleftrightarrow>
     conc_inv (\<Sum>p<n. int (cap p)) (t_conc st) \<and>
     (\<forall>p<n. 0 \<le> own scripts st p \<and> no_failure (c_pc (t_conc st) p) \<and>
       script_ok (cap p) (nat (own scripts st p)) (pending (c_pc (t_conc st) p) (t_todo st p))) \<and>
     (\<forall>p\<ge>n. c_pc (t_conc st) p = Idle) \<and>
     c_count (t_conc st) = (\<Sum>p<n. own scripts st p)"

lemma test_invD:
  assumes "test_inv n cap scripts st"
  shows "conc_inv (\<Sum>p<n. int (cap p)) (t_conc st)"
    and "p < n \<Longrightarrow> 0 \<le> own scripts st p"
    and "p < n \<Longrightarrow> no_failure (c_pc (t_conc st) p)"
    and "p < n \<Longrightarrow> script_ok (cap p) (nat (own scripts st p)) (pending (c_pc (t_conc st) p) (t_todo st p))"
    and "n \<le> p \<Longrightarrow> c_pc (t_conc st) p = Idle"
    and "c_count (t_conc st) = (\<Sum>p<n. own scripts st p)"
  using assms unfolding test_inv_def by blast+

lemma own_le_cap: "test_inv n cap scripts st \<Longrightarrow> p < n \<Longrightarrow> own scripts st p \<le> int (cap p)"
  using script_ok_le [OF test_invD(4)] by fastforce

text \<open>A process with room of its own finds room, one with an element of its own finds an element.\<close>

lemma room_of_own:
  assumes inv: "test_inv n cap scripts st" and "p < n" and "own scripts st p < int (cap p)"
  shows "c_count (t_conc st) < (\<Sum>p<n. int (cap p))"
  unfolding test_invD(6) [OF inv]
  by (rule sum_strict_mono_ex1) (use own_le_cap [OF inv] assms(2,3) in auto)

lemma element_of_own:
  assumes inv: "test_inv n cap scripts st" and "p < n" and "0 < own scripts st p"
  shows "0 < c_count (t_conc st)"
  unfolding test_invD(6) [OF inv]
  by (rule sum_pos2 [of _ p]) (use test_invD(2) [OF inv] assms(2,3) in auto)

lemma pending_guard:
  assumes inv: "test_inv n cap scripts st" and p: "p < n"
  shows "pending (c_pc (t_conc st) p) (t_todo st p) = Push v # as \<Longrightarrow>
      c_count (t_conc st) < (\<Sum>p<n. int (cap p))"
    and "pending (c_pc (t_conc st) p) (t_todo st p) = Pop # as \<Longrightarrow> 0 < c_count (t_conc st)"
  using room_of_own [OF inv p] element_of_own [OF inv p] test_invD(2,4) [OF inv p] by auto

text \<open>What a move does to the process that makes it.\<close>

inductive call_effect :: "64 word stack_op list \<Rightarrow> int \<Rightarrow> 64 word stack_op list \<Rightarrow> int \<Rightarrow> bool" where
  "call_effect as c as c"
| "call_effect (Push v # as) c as (c + 1)"
| "call_effect (Pop # as) c as (c - 1)"

lemma effect_net: "call_effect as c as' c' \<Longrightarrow> c' + script_net as' = c + script_net as"
  by (induction rule: call_effect.induct) auto

lemma effect_ok:
  "call_effect as c as' c' \<Longrightarrow> script_ok cap (nat h) as \<Longrightarrow> 0 \<le> h \<Longrightarrow> 0 \<le> c' - c + h"
  "call_effect as c as' c' \<Longrightarrow> script_ok cap (nat h) as \<Longrightarrow> 0 \<le> h \<Longrightarrow> script_ok cap (nat (c' - c + h)) as'"
  by (induction rule: call_effect.induct) (auto simp: nat_add_distrib nat_diff_distrib)

lemma flag_op_pc: "flag_op p d c = Some c' \<Longrightarrow> c_pc c' = c_pc c"
  by (auto simp: flag_op_def split: if_splits)

lemmas flag_op_keeps = flag_op_same flag_op_pc

lemma move_effect:
  assumes inv: "conc_inv K c" and "no_failure (c_pc c p)" and "K \<le> bytes"
    and room: "\<And>v as'. pending (c_pc c p) as = Push v # as' \<Longrightarrow> c_count c < K"
    and elem: "\<And>as'. pending (c_pc c p) as = Pop # as' \<Longrightarrow> 0 < c_count c"
    and step: "pstep bytes p c = Some c'"
  shows "pstep K p c = Some c' \<and> no_failure (c_pc c' p) \<and>
    Suc (steps_left (c_pc c' p)) = steps_left (c_pc c p) \<and> (\<forall>q. q \<noteq> p \<longrightarrow> c_pc c' q = c_pc c q) \<and>
    call_effect (pending (c_pc c p) as) (c_count c) (pending (c_pc c' p) as) (c_count c')"
proof -
  note ok = conc_invD(5) [OF inv, of p] and bounds = conc_invD(6-9) [OF inv]
  have flag: ?thesis if "steps_left (c_pc c p) = Suc (steps_left pc)" "no_failure pc"
      "pending pc as = pending (c_pc c p) as"
      "pstep K p c = pstep bytes p c" "pstep bytes p c = map_option (goto p pc) (flag_op p d c)" for pc d
  proof -
    from that(5) step obtain c1 where c1: "flag_op p d c = Some c1" "c' = goto p pc c1"
      by (cases "flag_op p d c") auto
    with flag_op_keeps [OF c1(1)] that show ?thesis by (auto intro: call_effect.intros simp: step)
  qed
  have silent: ?thesis if "c' = goto p pc c1" "steps_left (c_pc c p) = Suc (steps_left pc)" "no_failure pc"
      "c_pc c1 = c_pc c" "call_effect (pending (c_pc c p) as) (c_count c) (pending pc as) (c_count c1)"
      "pstep K p c = pstep bytes p c" for pc c1
    using that by (auto simp: step)
  show ?thesis
  proof (cases "c_pc c p")
    case (PushLock v)
    show ?thesis by (rule flag [of "PushTest v"]) (simp_all add: PushLock pstep_def)
  next
    case (PushTest v)
    with room assms(3) have "c_count c < K" "c_count c < bytes" by auto
    then show ?thesis
      by (intro silent [of "PushIndex v" c]) (use step PushTest in \<open>auto simp: pstep_def intro: call_effect.intros\<close>)
  next
    case (PushIndex v)
    then show ?thesis
      by (intro silent [of "PushStore v (c_count c)" c]) (use step in \<open>auto simp: pstep_def intro: call_effect.intros\<close>)
  next
    case (PushStore v i)
    with ok bounds have "0 \<le> i" "nat i < length (c_cells c)" by auto
    then show ?thesis
      by (intro silent [of "PushCount v" "c\<lparr>c_cells := (c_cells c)[nat i := v]\<rparr>"])
        (use step PushStore in \<open>auto simp: pstep_def intro: call_effect.intros\<close>)
  next
    case (PushCount v)
    with ok bounds have "count_op 1 c = Some (c\<lparr>c_count := c_count c + 1\<rparr>)"
      by (auto simp: count_op_def)
    then show ?thesis
      by (intro silent [of PushUnlock "c\<lparr>c_count := c_count c + 1\<rparr>"])
        (use step PushCount in \<open>auto simp: pstep_def intro: call_effect.intros\<close>)
  next
    case PushUnlock
    show ?thesis by (rule flag [of "Ret 0 None"]) (simp_all add: PushUnlock pstep_def)
  next
    case PopLock
    show ?thesis by (rule flag [of PopTest]) (simp_all add: PopLock pstep_def)
  next
    case PopTest
    with elem have "0 < c_count c" by auto
    then show ?thesis
      by (intro silent [of PopIndex c]) (use step PopTest in \<open>auto simp: pstep_def intro: call_effect.intros\<close>)
  next
    case PopIndex
    then show ?thesis
      by (intro silent [of "PopLoad (c_count c - 1)" c]) (use step in \<open>auto simp: pstep_def intro: call_effect.intros\<close>)
  next
    case (PopLoad i)
    with ok bounds have "0 \<le> i" "nat i < length (c_cells c)" by auto
    then show ?thesis
      by (intro silent [of "PopCount (c_cells c ! nat i)" c])
        (use step PopLoad in \<open>auto simp: pstep_def intro: call_effect.intros\<close>)
  next
    case (PopCount v)
    with ok bounds have "count_op (-1) c = Some (c\<lparr>c_count := c_count c - 1\<rparr>)"
      by (auto simp: count_op_def)
    then show ?thesis
      by (intro silent [of "PopUnlock v" "c\<lparr>c_count := c_count c - 1\<rparr>"])
        (use step PopCount in \<open>auto simp: pstep_def intro: call_effect.intros\<close>)
  next
    case (PopUnlock v)
    show ?thesis by (rule flag [of "Ret 0 (Some v)"]) (simp_all add: PopUnlock pstep_def)
  qed (use step assms(2) in \<open>simp_all add: pstep_def\<close>)
qed

lemma sum_step:
  fixes f g :: "nat \<Rightarrow> int"
  assumes "p < n" and "\<And>q. q \<noteq> p \<Longrightarrow> f q = g q"
  shows "(\<Sum>q<n. f q) = (\<Sum>q<n. g q) + (f p - g p)"
proof -
  have "(\<Sum>q<n. f q) = f p + (\<Sum>q\<in>{..<n} - {p}. f q)" using assms(1) by (intro sum.remove) auto
  also have "(\<Sum>q\<in>{..<n} - {p}. f q) = (\<Sum>q\<in>{..<n} - {p}. g q)" by (intro sum.cong) (auto simp: assms(2))
  also have "(\<Sum>q<n. g q) = g p + (\<Sum>q\<in>{..<n} - {p}. g q)" using assms(1) by (intro sum.remove) auto
  ultimately show ?thesis by simp
qed

lemma test_inv_move:
  assumes inv: "test_inv n cap scripts st" and p: "p < n" and step: "pstep bytes p (t_conc st) = Some c"
    and "(\<Sum>p<n. int (cap p)) \<le> bytes"
  shows "test_inv n cap scripts (st\<lparr>t_conc := c\<rparr>)"
    and "Suc (work (st\<lparr>t_conc := c\<rparr>) p) = work st p"
    and "q \<noteq> p \<Longrightarrow> work (st\<lparr>t_conc := c\<rparr>) q = work st q"
proof -
  define st' where "st' = st\<lparr>t_conc := c\<rparr>"
  let ?K = "\<Sum>p<n. int (cap p)"
  have st': "t_conc st' = c" "t_todo st' = t_todo st" by (simp_all add: st'_def)
  note D = test_invD [OF inv]
  have "pstep ?K p (t_conc st) = Some c \<and> no_failure (c_pc c p) \<and>
    Suc (steps_left (c_pc c p)) = steps_left (c_pc (t_conc st) p) \<and>
    (\<forall>q. q \<noteq> p \<longrightarrow> c_pc c q = c_pc (t_conc st) q) \<and>
    call_effect (pending (c_pc (t_conc st) p) (t_todo st p)) (c_count (t_conc st))
      (pending (c_pc c p) (t_todo st p)) (c_count c)"
    by (rule move_effect [OF D(1) D(3) [OF p] assms(4) _ _ step])
      (use pending_guard [OF inv p] in blast)+
  then have k: "pstep ?K p (t_conc st) = Some c" and nf: "no_failure (c_pc c p)"
    and left: "Suc (steps_left (c_pc c p)) = steps_left (c_pc (t_conc st) p)"
    and others: "\<And>q. q \<noteq> p \<Longrightarrow> c_pc c q = c_pc (t_conc st) q"
    and eff: "call_effect (pending (c_pc (t_conc st) p) (t_todo st p)) (c_count (t_conc st))
      (pending (c_pc c p) (t_todo st p)) (c_count c)" by blast+
  have own_p: "own scripts st' p = c_count c - c_count (t_conc st) + own scripts st p"
    using effect_net [OF eff] by (simp add: own_def st')
  have own_q: "own scripts st' q = own scripts st q" if "q \<noteq> p" for q
    using others [OF that] by (simp add: own_def st')
  note ok = effect_ok [OF eff D(4) [OF p] D(2) [OF p]]
  have "0 \<le> own scripts st' q \<and> no_failure (c_pc c q) \<and>
      script_ok (cap q) (nat (own scripts st' q)) (pending (c_pc c q) (t_todo st' q))" if "q < n" for q
    using ok nf own_p own_q [of q] others [of q] D(2-4) [OF that] st' by (cases "q = p") auto
  moreover have "c_pc c q = Idle" if "n \<le> q" for q
    using others [of q] D(5) [OF that] p that by force
  moreover have "c_count c = (\<Sum>q<n. own scripts st' q)"
    using sum_step [of p n "own scripts st'" "own scripts st", OF p own_q] D(6) own_p by simp
  moreover have "conc_inv ?K c" by (rule pstep_inv [OF D(1) k])
  ultimately show "test_inv n cap scripts (st\<lparr>t_conc := c\<rparr>)"
    unfolding test_inv_def st'_def [symmetric] by (simp add: st')
  show "Suc (work (st\<lparr>t_conc := c\<rparr>) p) = work st p"
    using left by (simp add: work_def)
  show "q \<noteq> p \<Longrightarrow> work (st\<lparr>t_conc := c\<rparr>) q = work st q"
    using others by (simp add: work_def)
qed

lemma at_call_cs: "at_call pc \<Longrightarrow> \<not> in_cs pc"
  and at_call_left: "at_call pc \<Longrightarrow> steps_left pc = 0"
  and at_call_pending: "at_call pc \<Longrightarrow> pending pc as = as"
  by (cases pc; simp)+

lemma call_pc_simps [simp]:
  "pending (call_pc a) as = a # as" "no_failure (call_pc a)" "steps_left (call_pc a) = 6"
  "\<not> in_cs (call_pc a)" "pc_ok K c (call_pc a)"
  by (cases a; simp add: call_pc_def)+

lemma test_inv_call:
  assumes inv: "test_inv n cap scripts st" and p: "p < n" and at: "at_call (c_pc (t_conc st) p)"
    and todo: "t_todo st p = a # as"
  shows "test_inv n cap scripts (begin_call p a as st)"
    and "Suc (work (begin_call p a as st) p) = work st p"
    and "q \<noteq> p \<Longrightarrow> work (begin_call p a as st) q = work st q"
proof -
  let ?st = "begin_call p a as st"
  note D = test_invD [OF inv]
  have own: "own scripts ?st q = own scripts st q" for q
    using todo by (simp add: own_def begin_call_def at_call_pending [OF at])
  have "conc_inv (\<Sum>p<n. int (cap p)) (goto p (call_pc a) (t_conc st))"
    by (rule inv_stay [OF D(1), of "call_pc a" p]) (use at_call_cs [OF at] conc_invD(6,7) [OF D(1)] in auto)
  moreover have "no_failure (c_pc (t_conc ?st) q) \<and>
      script_ok (cap q) (nat (own scripts st q)) (pending (c_pc (t_conc ?st) q) (t_todo ?st q))"
    if "q < n" for q
    using D(3,4) [OF that] todo at_call_pending [OF at] by (auto simp: begin_call_def)
  ultimately show "test_inv n cap scripts ?st"
    using D(2,5,6) p unfolding test_inv_def own by (auto simp: begin_call_def)
  show "Suc (work ?st p) = work st p"
    using todo by (simp add: work_def begin_call_def at_call_left [OF at])
  show "q \<noteq> p \<Longrightarrow> work ?st q = work st q"
    by (simp add: work_def begin_call_def)
qed

lemma test_inv_start:
  assumes "\<forall>p<n. script_ok (cap p) 0 (scripts p)"
    and "(\<Sum>p<n. int (cap p)) \<le> int (length cells)" and "(\<Sum>p<n. int (cap p)) \<le> semvmx"
  shows "test_inv n cap scripts (test_start cells scripts)"
  using assms unfolding test_inv_def
  by (simp add: test_start_def conc_start_def conc_inv_def own_def sum_nonneg)

lemma sum_work_step:
  fixes f g :: "nat \<Rightarrow> nat"
  assumes "p < n" and "Suc (f p) = g p" and "\<And>q. q \<noteq> p \<Longrightarrow> f q = g q"
  shows "Suc (\<Sum>q<n. f q) = (\<Sum>q<n. g q)"
proof -
  have "(\<Sum>q<n. g q) = g p + (\<Sum>q\<in>{..<n} - {p}. g q)" using assms(1) by (intro sum.remove) auto
  also have "(\<Sum>q\<in>{..<n} - {p}. g q) = (\<Sum>q\<in>{..<n} - {p}. f q)" by (intro sum.cong) (auto simp: assms(3))
  moreover have "(\<Sum>q<n. f q) = f p + (\<Sum>q\<in>{..<n} - {p}. f q)" using assms(1) by (intro sum.remove) auto
  ultimately show ?thesis using assms(2) by simp
qed

lemma sum_decreases:
  fixes f g :: "nat \<Rightarrow> nat"
  assumes "p < n" and "f p < g p" and "\<And>q. q \<noteq> p \<Longrightarrow> f q = g q"
  shows "(\<Sum>q<n. f q) < (\<Sum>q<n. g q)"
proof (rule sum_strict_mono_ex1)
  show "\<forall>q\<in>{..<n}. f q \<le> g q" using assms(2,3) by (metis le_refl less_imp_le)
  show "\<exists>q\<in>{..<n}. f q < g q" using assms(1,2) by auto
qed simp

lemma test_run_inv:
  assumes "test_run bytes n scripts cells k st" and "\<forall>p<n. script_ok (cap p) 0 (scripts p)"
    and "(\<Sum>p<n. int (cap p)) \<le> bytes"
    and "(\<Sum>p<n. int (cap p)) \<le> int (length cells)" and "(\<Sum>p<n. int (cap p)) \<le> semvmx"
  shows "test_inv n cap scripts st \<and> k + (\<Sum>p<n. work st p) = (\<Sum>p<n. 7 * length (scripts p))"
  using assms(1)
proof induction
  case start
  from test_inv_start [OF assms(2,4,5)] show ?case
    by (simp add: test_start_def conc_start_def work_def)
next
  case (call k st p a as)
  then have inv: "test_inv n cap scripts st" by blast
  note C = test_inv_call [OF inv call.hyps(2-4)]
  from sum_work_step [of p n "work (begin_call p a as st)" "work st", OF call.hyps(2) C(2,3)] C(1) call.IH
  show ?case by simp
next
  case (move k st p c)
  then have inv: "test_inv n cap scripts st" by blast
  note C = test_inv_move [OF inv move.hyps(2,3) assms(3)]
  from sum_work_step [of p n "work (st\<lparr>t_conc := c\<rparr>)" "work st", OF move.hyps(2) C(2,3)] C(1) move.IH
  show ?case by simp
qed

section \<open>Progress and the end\<close>

lemma holder_moves:
  assumes "conc_inv K c" and "in_cs (c_pc c p)"
  shows "\<exists>c'. pstep bytes p c = Some c'"
proof -
  note ok = conc_invD(5) [OF assms(1), of p]
  have flag: "c_flag c = 0" by (rule conc_invD(2) [OF assms])
  have "0 \<le> c_count c" by (rule conc_invD(6) [OF assms(1)])
  with conc_invD(7,9) [OF assms(1)] have "\<exists>c'. count_op 1 c = Some c'" by (simp add: count_op_def)
  show ?thesis
    by (cases "c_pc c p")
      (use assms(2) ok flag \<open>\<exists>c'. count_op 1 c = Some c'\<close> in \<open>auto simp: pstep_def flag_op_def count_op_def\<close>)
qed

lemma test_progress:
  assumes inv: "test_inv n cap scripts st" and p: "p < n" and "0 < work st p"
  shows "(\<exists>q<n. \<exists>c. pstep bytes q (t_conc st) = Some c) \<or> at_call (c_pc (t_conc st) p) \<and> t_todo st p \<noteq> []"
proof (cases "\<exists>q. in_cs (c_pc (t_conc st) q)")
  case True
  then obtain q where q: "in_cs (c_pc (t_conc st) q)" by blast
  have "q < n" using test_invD(5) [OF inv, of q] q by (cases "q < n") auto
  with holder_moves [OF test_invD(1) [OF inv] q] show ?thesis by blast
next
  case False
  with conc_invD(3) [OF test_invD(1) [OF inv]] have flag: "c_flag (t_conc st) = 1" by blast
  show ?thesis
  proof (cases "at_call (c_pc (t_conc st) p)")
    case True
    with assms(3) have "t_todo st p \<noteq> []" by (auto simp: work_def at_call_left)
    with True show ?thesis by blast
  next
    case not_at: False
    have "\<exists>c. pstep bytes p (t_conc st) = Some c"
      by (cases "c_pc (t_conc st) p")
        (use not_at False [simplified, rule_format, of p] test_invD(3) [OF inv p] flag
          in \<open>simp_all add: pstep_def flag_op_def\<close>)
    with p show ?thesis by blast
  qed
qed

text \<open>Some process can take its next step: begin a call or go on in one.\<close>

definition can_move :: "int \<Rightarrow> nat \<Rightarrow> conc \<Rightarrow> (nat \<Rightarrow> 64 word stack_op list) \<Rightarrow> bool" where
  "can_move bytes n c todo \<longleftrightarrow> (\<exists>p<n. at_call (c_pc c p) \<and> todo p \<noteq> [] \<or> pstep bytes p c \<noteq> None)"

lemma can_move_run:
  assumes run: "test_run bytes n scripts cells k st" and "can_move bytes n (t_conc st) (t_todo st)"
  shows "\<exists>st'. test_run bytes n scripts cells (Suc k) st'"
proof -
  from assms(2) consider p where "p < n" "at_call (c_pc (t_conc st) p)" "t_todo st p \<noteq> []"
    | p c where "p < n" "pstep bytes p (t_conc st) = Some c" unfolding can_move_def by blast
  then show ?thesis
  proof cases
    case 1
    then obtain a as where "t_todo st p = a # as" by (cases "t_todo st p") auto
    with test_run.call [OF run 1(1,2)] show ?thesis by blast
  next
    case 2
    from test_run.move [OF run this] show ?thesis by blast
  qed
qed

lemma test_run_next:
  assumes inv: "test_inv n cap scripts st" and "(\<Sum>p<n. work st p) \<noteq> 0"
  shows "can_move bytes n (t_conc st) (t_todo st)"
proof -
  from assms(2) obtain p where p: "p < n" "0 < work st p" by auto
  from test_progress [OF inv this, of bytes] p(1) show ?thesis unfolding can_move_def by blast
qed

lemma work_0:
  assumes "test_inv n cap scripts st" and "p < n" and "work st p = 0"
  shows "t_todo st p = []" and "at_call (c_pc (t_conc st) p)"
    and "own scripts st p = script_net (scripts p)"
proof -
  show todo: "t_todo st p = []" using assms(3) by (simp add: work_def)
  show at: "at_call (c_pc (t_conc st) p)"
    by (cases "c_pc (t_conc st) p") (use assms(3) test_invD(3) [OF assms(1,2)] in \<open>simp_all add: work_def\<close>)
  show "own scripts st p = script_net (scripts p)"
    by (simp add: own_def todo at_call_pending [OF at])
qed

text \<open>A bounded run that can go on while it is not at its end can be brought there.\<close>

lemma bounded_run_ends:
  assumes "R k st" and "\<And>k st. R k st \<Longrightarrow> k \<le> (b :: nat) \<and> (\<not> ok st \<longrightarrow> (\<exists>st'. R (Suc k) st'))"
  shows "\<exists>k st. R k st \<and> ok st"
  using assms(1)
proof (induction "b - k" arbitrary: k st rule: less_induct)
  case less
  show ?case
  proof (cases "ok st")
    case False
    with assms(2) [OF less.prems] obtain st' where "R (Suc k) st'" by blast
    moreover from assms(2) [OF this] have "b - Suc k < b - k" by linarith
    ultimately show ?thesis using less.hyps by blast
  qed (use less.prems in blast)
qed

text \<open>What a run of well-behaved scripts looks like after \<open>k\<close> steps.\<close>

definition run_fine ::
  "int \<Rightarrow> nat \<Rightarrow> (nat \<Rightarrow> 64 word stack_op list) \<Rightarrow> 64 word list \<Rightarrow> nat \<Rightarrow> test_state \<Rightarrow> bool" where
  "run_fine bytes n scripts cells k st \<longleftrightarrow>
     (let total = (\<Sum>p<n. 7 * length (scripts p)) in
      (\<forall>p. no_failure (c_pc (t_conc st) p)) \<and> k \<le> total \<and>
      (k < total \<longrightarrow> can_move bytes n (t_conc st) (t_todo st)) \<and>
      (k = total \<longrightarrow> (\<forall>p<n. t_todo st p = [] \<and> at_call (c_pc (t_conc st) p)) \<and>
         c_flag (t_conc st) = 1 \<and> c_count (t_conc st) = (\<Sum>p<n. script_net (scripts p))))"

lemma scripts_run_fine:
  assumes run: "test_run bytes n scripts cells k st" and "\<forall>p<n. script_ok (cap p) 0 (scripts p)"
    and "(\<Sum>p<n. int (cap p)) \<le> bytes"
    and "(\<Sum>p<n. int (cap p)) \<le> int (length cells)" and "(\<Sum>p<n. int (cap p)) \<le> semvmx"
  shows "run_fine bytes n scripts cells k st"
proof -
  define total where "total = (\<Sum>p<n. 7 * length (scripts p))"
  from test_run_inv [OF assms] have inv: "test_inv n cap scripts st"
    and k: "k + (\<Sum>p<n. work st p) = total" by (simp_all add: total_def)
  have "no_failure (c_pc (t_conc st) p)" for p
    using test_invD(3,5) [OF inv, of p] by (cases "p < n") auto
  moreover have "can_move bytes n (t_conc st) (t_todo st)" if "k < total"
  proof -
    have "(\<Sum>p<n. work st p) \<noteq> 0" using k that by linarith
    with test_run_next [OF inv] show ?thesis by blast
  qed
  moreover have "(\<forall>p<n. t_todo st p = [] \<and> at_call (c_pc (t_conc st) p)) \<and> c_flag (t_conc st) = 1 \<and>
      c_count (t_conc st) = (\<Sum>p<n. script_net (scripts p))" if "k = total"
  proof -
    have "work st p = 0" if "p < n" for p
      using k \<open>k = total\<close> that by auto
    note ended = work_0 [OF inv _ this]
    have "\<not> in_cs (c_pc (t_conc st) p)" for p
      using ended(2) [of p] test_invD(5) [OF inv, of p] by (cases "p < n") (auto dest: at_call_cs)
    with conc_invD(3) [OF test_invD(1) [OF inv]] have "c_flag (t_conc st) = 1" by blast
    moreover have "(\<Sum>p<n. own scripts st p) = (\<Sum>p<n. script_net (scripts p))"
      using ended(3) by (intro sum.cong) auto
    ultimately show ?thesis using ended(1,2) test_invD(6) [OF inv] by auto
  qed
  ultimately show ?thesis using k unfolding run_fine_def total_def [symmetric] Let_def by auto
qed

section \<open>The scripts of the programs\<close>

text \<open>\<open>NULL + n\<close>: pointer arithmetic on \<open>void *\<close> in bytes.\<close>

definition null_plus :: "int \<Rightarrow> 64 word" where
  "null_plus n = word_of_int n"

text \<open>\<open>fork1.c\<close>: two processes push 50 and pop 50; \<open>pid\<close> is what \<open>fork\<close> returned to each.\<close>

definition fork1_size :: int where "fork1_size = 100"

definition fork1_script :: "int \<Rightarrow> 64 word stack_op list" where
  "fork1_script pid =
     map (\<lambda>i. Push (null_plus (int i + pid * 5))) [0..<nat (fork1_size div 2)] @
     map (\<lambda>i. Pop) [0..<nat (fork1_size div 2)]"

text \<open>
  \<open>fork2.c\<close>: eleven \<open>fork\<close>s in a row make 2048 processes, each pushes 10 and pops 10;
  \<open>pid\<close> is what the last \<open>fork\<close> returned.
\<close>

definition fork2_size :: int where "fork2_size = 1000000"
definition fork2_fork_count :: nat where "fork2_fork_count = 11"
definition fork2_push_count :: nat where "fork2_push_count = 10"

definition fork2_script :: "int \<Rightarrow> 64 word stack_op list" where
  "fork2_script pid =
     map (\<lambda>j. Push (null_plus (int j + pid * 5))) [0..<fork2_push_count] @
     map (\<lambda>j. Pop) [0..<fork2_push_count]"

text \<open>
  \<open>main.c\<close>: five rounds of \<open>fork\<close>, 5 pushes and 5 pops; a process made in round \<open>r\<close> starts in
  that round. \<open>pid i\<close> is what the variable holds in round \<open>i\<close>.
\<close>

definition main_size :: int where "main_size = 1000000"
definition main_fork_count :: nat where "main_fork_count = 5"
definition main_push_count :: nat where "main_push_count = 5"

definition main_round :: "int \<Rightarrow> 64 word stack_op list" where
  "main_round pid =
     map (\<lambda>j. Push (null_plus (int j + pid * 5))) [0..<main_push_count] @
     map (\<lambda>j. Pop) [0..<main_push_count]"

definition main_script :: "nat \<Rightarrow> (nat \<Rightarrow> int) \<Rightarrow> 64 word stack_op list" where
  "main_script r pid = concat (map (\<lambda>i. main_round (pid i)) [r..<main_fork_count])"

text \<open>
  A loop of \<open>k\<close> forks: the rounds in which the processes were made, the first process's (which
  starts at round 0) in front; every process alive forks in every round.
\<close>

fun fork_rounds :: "nat \<Rightarrow> nat list" where
  "fork_rounds 0 = [0]"
| "fork_rounds (Suc k) = fork_rounds k @ map (\<lambda>_. k) (fork_rounds k)"

lemma length_fork_rounds: "length (fork_rounds k) = 2 ^ k"
  by (induction k) auto

lemma script_ok_append:
  "script_ok cap h as \<Longrightarrow> 0 \<le> int h + script_net as \<Longrightarrow> script_ok cap (nat (int h + script_net as)) bs \<Longrightarrow>
    script_ok cap h (as @ bs)"
proof (induction as arbitrary: h)
  case (Cons a as)
  show ?case
  proof (cases a)
    case (Push v)
    with Cons.prems Cons.IH [of "Suc h"] show ?thesis by (simp add: algebra_simps)
  next
    case Pop
    with Cons.prems Cons.IH [of "h - 1"] show ?thesis by (simp add: of_nat_diff algebra_simps)
  qed
qed simp

lemma script_net_append [simp]: "script_net (as @ bs) = script_net as + script_net bs"
proof (induction as)
  case (Cons a as)
  then show ?case by (cases a) auto
qed simp

lemma script_pushes:
  "h + length xs \<le> cap \<Longrightarrow> script_ok cap h (map (\<lambda>x. Push (f x)) xs)"
  "script_net (map (\<lambda>x. Push (f x)) xs) = int (length xs)"
  by (induction xs arbitrary: h) auto

lemma script_pops:
  "length xs \<le> h \<Longrightarrow> h \<le> cap \<Longrightarrow> script_ok cap h (map (\<lambda>x. Pop) xs)"
  "script_net (map (\<lambda>x. Pop) xs) = - int (length xs)"
  by (induction xs arbitrary: h) auto

lemma script_round:
  "length xs = length ys \<Longrightarrow> length xs \<le> cap \<Longrightarrow>
    script_ok cap 0 (map (\<lambda>x. Push (f x)) xs @ map (\<lambda>y. Pop) ys)"
  "length xs = length ys \<Longrightarrow> script_net (map (\<lambda>x. Push (f x)) xs @ map (\<lambda>y. Pop) ys) = 0"
  by (auto intro!: script_ok_append script_pushes script_pops simp: script_pushes(2) script_pops(2))

lemma main_script_ok: "script_ok 5 0 (main_script r pid)" "script_net (main_script r pid) = 0"
proof -
  have one: "script_ok 5 0 (main_round i)" "script_net (main_round i) = 0" for i
    unfolding main_round_def by (rule script_round; simp add: main_push_count_def)+
  have "script_ok 5 0 (concat (map (\<lambda>i. main_round (pid i)) rs)) \<and>
      script_net (concat (map (\<lambda>i. main_round (pid i)) rs)) = 0" for rs
    by (induction rs) (simp_all add: script_ok_append one)
  then show "script_ok 5 0 (main_script r pid)" "script_net (main_script r pid) = 0"
    by (simp_all add: main_script_def)
qed

section \<open>prog.c: one process fills the stack and empties it\<close>

datatype prog_event = Pushed "64 word" | Popped "64 word"

text \<open>The loops, for the rest of their rounds; with what they print and the last value of \<open>a\<close>.\<close>

fun prog_pushes :: "stack_t option \<Rightarrow> nat \<Rightarrow> 64 word \<Rightarrow> stack_world \<Rightarrow>
   (prog_event list \<times> 64 word, stack_world) outcome" where
  "prog_pushes stack 0 a w = Returns ([], a) w"
| "prog_pushes stack (Suc k) a w =
     bind_outcome (push stack (a + 1) w) (\<lambda>check w.
     bind_outcome (prog_pushes stack k (a + 1) w) (\<lambda>(evs, a') w.
     Returns ((if check = 0 then [Pushed (a + 1)] else []) @ evs, a') w))"

fun prog_pops :: "stack_t option \<Rightarrow> nat \<Rightarrow> 64 word \<Rightarrow> stack_world \<Rightarrow>
   (prog_event list, stack_world) outcome" where
  "prog_pops stack 0 a w = Returns [] w"
| "prog_pops stack (Suc k) a w =
     bind_outcome (pop stack w) (\<lambda>(check, val) w.
     let a = (case val of None \<Rightarrow> a | Some v \<Rightarrow> v) in
     bind_outcome (prog_pops stack k a w) (\<lambda>evs w.
     Returns ((if check = 0 then [Popped a] else []) @ evs) w))"

definition prog_size :: int where "prog_size = 30"

definition prog_main :: "int \<Rightarrow> byte list list \<Rightarrow> stack_world \<Rightarrow> (prog_event list, stack_world) outcome" where
  "prog_main rnd argv w =
     (case rand_key_gen rnd argv of
        Returns key _ \<Rightarrow>
          bind_outcome (clear_key key prog_size w) (\<lambda>_ w.
          bind_outcome (attach_stack key prog_size w) (\<lambda>stack w.
          bind_outcome (prog_pushes stack (nat (prog_size + 1)) 0 w) (\<lambda>(evs, a) w.
          bind_outcome (prog_pops stack (nat (prog_size + 1)) a w) (\<lambda>evs' w.
          bind_outcome (detach_stack stack w) (\<lambda>_ w.
          bind_outcome (mark_destruct stack w) (\<lambda>_ w.
          Returns (evs @ evs') w))))))
      | _ \<Rightarrow> Faults w)"

text \<open>The next \<open>k\<close> values of \<open>a\<close>.\<close>

fun counted :: "64 word \<Rightarrow> nat \<Rightarrow> 64 word list" where
  "counted a 0 = []"
| "counted a (Suc k) = (a + 1) # counted (a + 1) k"

lemma length_counted [simp]: "length (counted a k) = k"
  by (induction k arbitrary: a) auto

lemma prog_pushes_room:
  assumes "stack_inv s w" and "length (stack_abs s w) + k \<le> nat (st_size s)"
  shows "\<exists>w'. stack_inv s w' \<and> stack_abs s w' = rev (counted a k) @ stack_abs s w \<and>
    prog_pushes (Some s) (k + m) a w = bind_outcome (prog_pushes (Some s) m (a + of_nat k) w')
      (\<lambda>(evs, a') w. Returns (map Pushed (counted a k) @ evs, a') w)"
  using assms
proof (induction k arbitrary: a w)
  case 0
  then show ?case by (intro exI [of _ w]) (cases "prog_pushes (Some s) m a w"; auto)
next
  case (Suc k)
  from Suc.prems shm.push_room [of s w "a + 1"] obtain w1 where
    1: "push (Some s) (a + 1) w = Returns 0 w1" "stack_inv s w1" "stack_abs s w1 = (a + 1) # stack_abs s w"
    by auto
  from Suc.IH [of w1 "a + 1"] 1 Suc.prems obtain w2 where
    2: "stack_inv s w2" "stack_abs s w2 = rev (counted (a + 1) k) @ (a + 1) # stack_abs s w"
      "prog_pushes (Some s) (k + m) (a + 1) w1 = bind_outcome (prog_pushes (Some s) m (a + 1 + of_nat k) w2)
        (\<lambda>(evs, a') w. Returns (map Pushed (counted (a + 1) k) @ evs, a') w)"
    by auto
  have a: "a + 1 + of_nat k = a + of_nat (Suc k)" by simp
  show ?case
    using 1 2 unfolding a
    by (intro exI [of _ w2]) (cases "prog_pushes (Some s) m (a + of_nat (Suc k)) w2"; simp split: prod.splits)
qed

lemma prog_pops_empty:
  "stack_inv s w \<Longrightarrow> stack_abs s w = [] \<Longrightarrow>
    \<exists>w'. prog_pops (Some s) k a w = Returns [] w' \<and> stack_inv s w'"
proof (induction k arbitrary: w)
  case (Suc k)
  from shm.pop_empty [OF Suc.prems] obtain w1 where
    "pop (Some s) w = Returns (-1, None) w1" "stack_inv s w1" "stack_abs s w1 = []" by auto
  with Suc.IH [of w1] show ?case by auto
qed auto

lemma prog_pops_all:
  assumes "stack_inv s w" and "stack_abs s w = xs"
  shows "\<exists>w'. prog_pops (Some s) (length xs + k) a w = Returns (map Popped xs) w' \<and> stack_inv s w'"
  using assms
proof (induction xs arbitrary: a w)
  case Nil
  with prog_pops_empty show ?case by simp
next
  case (Cons x xs)
  from shm.pop_top [OF Cons.prems] obtain w1 where
    1: "pop (Some s) w = Returns (0, Some x) w1" "stack_inv s w1" "stack_abs s w1 = xs" by blast
  from Cons.IH [OF 1(2,3), of x] obtain w2 where
    "prog_pops (Some s) (length xs + k) x w1 = Returns (map Popped xs) w2" "stack_inv s w2" by auto
  with 1 show ?case by auto
qed

text \<open>What \<open>push\<close> and \<open>pop\<close> leave of the tables of the kernel as they are.\<close>

definition tables :: "stack_world \<Rightarrow> _" where
  "tables w = (shm_keys w, sem_keys w, maps w,
     (\<lambda>i. map_option (\<lambda>sg. (sg_size sg, sg_nattch sg, sg_dest sg)) (shms w i)), dom (sems w))"

lemma tables_errno [simp]: "tables (w\<lparr>errno := e\<rparr>) = tables w"
  by (simp add: tables_def)

lemma tables_sems: "sems w i = Some ss \<Longrightarrow> tables (w\<lparr>sems := (sems w)(i \<mapsto> ss')\<rparr>) = tables w"
  by (auto simp: tables_def)

lemma semop_tables: "ends_in (\<lambda>w'. tables w' = tables w) (semop i n delta m undo w)"
  by (cases "sems w i") (simp_all add: semop_def Let_def tables_sems)

lemma sem_change_tables: "tables w = t \<Longrightarrow> ends_in (\<lambda>w. tables w = t) (sem_change i n v undo w)"
  using semop_tables [of w] by (simp add: sem_change_def)

lemma ends_in_bind_pair:
  "ends_in P m \<Longrightarrow> (\<And>a b w. P w \<Longrightarrow> ends_in P (f a b w)) \<Longrightarrow>
    ends_in P (bind_outcome m (\<lambda>(a, b) w. f a b w))"
  by (cases m) auto

lemma get_count_tables: "tables w = t \<Longrightarrow> ends_in (\<lambda>w. tables w = t) (get_count stack w)"
  unfolding get_count_def Let_def
  by (intro ends_in_intros) (auto simp: sem_getval_def split: option.splits)

lemma store_cell_tables: "store_cell a k v w = Some w' \<Longrightarrow> tables w' = tables w"
  by (auto simp: store_cell_def tables_def fun_eq_iff split: option.splits if_splits)

lemma push_tables: "tables w = t \<Longrightarrow> ends_in (\<lambda>w. tables w = t) (push stack v w)"
  unfolding push_def
  by (intro ends_in_intros sem_change_tables get_count_tables) (simp_all add: store_cell_tables)

lemma pop_tables: "tables w = t \<Longrightarrow> ends_in (\<lambda>w. tables w = t) (pop stack w)"
  unfolding pop_def
  by (intro ends_in_intros sem_change_tables get_count_tables) simp_all

lemma prog_pushes_tables: "tables w = t \<Longrightarrow> ends_in (\<lambda>w. tables w = t) (prog_pushes stack k a w)"
proof (induction k arbitrary: a w)
  case (Suc k)
  then show ?case
    unfolding prog_pushes.simps by (intro ends_in_bind push_tables ends_in_bind_pair) simp_all
qed simp

lemma prog_pops_tables: "tables w = t \<Longrightarrow> ends_in (\<lambda>w. tables w = t) (prog_pops stack k a w)"
proof (induction k arbitrary: a w)
  case (Suc k)
  then show ?case
    unfolding prog_pops.simps Let_def by (intro ends_in_bind_pair pop_tables ends_in_bind) simp_all
qed simp

text \<open>What the next \<open>attach_stack\<close> needs of the counters, and the waits.\<close>

definition counters_ok :: "stack_world \<Rightarrow> bool" where
  "counters_ok w \<longleftrightarrow> 0 < next_shm w \<and> 0 < next_sem w \<and> 0 < next_addr w \<and> waits_ok w"

lemma counters_errno [simp]: "counters_ok (w\<lparr>errno := e\<rparr>) = counters_ok w"
  by (simp add: counters_ok_def waits_ok_def)

lemma semop_counters: "counters_ok w \<Longrightarrow> ends_in counters_ok (semop i n delta m undo w)"
  by (cases "sems w i") (simp_all add: semop_def Let_def counters_ok_def waits_ok_def)

lemma sem_change_counters: "counters_ok w \<Longrightarrow> ends_in counters_ok (sem_change i n v undo w)"
  using semop_counters [of w] by (simp add: sem_change_def)

lemma shmget_counters: "counters_ok w \<Longrightarrow> counters_ok (snd (shmget key bytes creat excl w))"
  by (auto simp: shmget_def new_shm_def counters_ok_def waits_ok_def split: option.splits)

lemma shmat_counters: "counters_ok w \<Longrightarrow> counters_ok (snd (shmat i w))"
  by (auto simp: shmat_def counters_ok_def waits_ok_def split: option.splits)

lemma semget_counters: "counters_ok w \<Longrightarrow> counters_ok (snd (semget key n creat w))"
  by (auto simp: semget_def counters_ok_def waits_ok_def split: option.splits)

lemma attach_stack_counters: "counters_ok w \<Longrightarrow> ends_in counters_ok (attach_stack key bytes w)"
  unfolding attach_stack_def Let_def
  by (intro ends_in_intros shmget_counters shmat_counters semget_counters sem_change_counters) simp_all

text \<open>A handle that names what its key names, and the end of its objects.\<close>

definition named_by :: "int \<Rightarrow> stack_t \<Rightarrow> stack_world \<Rightarrow> bool" where
  "named_by key s w \<longleftrightarrow> shm_keys w key = Some (st_shmem_id s) \<and> sem_keys w key = Some (st_sem_id s) \<and>
     maps w (st_memory s) = Some (st_shmem_id s) \<and>
     (\<exists>sg. shms w (st_shmem_id s) = Some sg \<and> \<not> sg_dest sg) \<and> st_sem_id s \<in> dom (sems w)"

lemma tables_seg:
  assumes "tables w' = tables w" and "shms w i = Some sg"
  shows "\<exists>sg'. shms w' i = Some sg' \<and> sg_size sg' = sg_size sg \<and> sg_dest sg' = sg_dest sg"
proof -
  have "(\<lambda>i. map_option (\<lambda>sg. (sg_size sg, sg_nattch sg, sg_dest sg)) (shms w' i)) =
      (\<lambda>i. map_option (\<lambda>sg. (sg_size sg, sg_nattch sg, sg_dest sg)) (shms w i))"
    using assms(1) by (simp add: tables_def)
  from fun_cong [OF this, of i] assms(2) show ?thesis by auto
qed

lemma named_by_tables:
  assumes "tables w' = tables w" and "named_by key s w"
  shows "named_by key s w'"
proof -
  have "shm_keys w' = shm_keys w" "sem_keys w' = sem_keys w" "maps w' = maps w" "dom (sems w') = dom (sems w)"
    using assms(1) by (simp_all add: tables_def)
  with assms(2) show ?thesis
    using tables_seg [OF assms(1)] unfolding named_by_def by metis
qed

lemma named_by_attach:
  assumes "ipc_ok w" and "attach_stack key bytes w = Returns (Some s) w'" and "stack_inv s w'"
    and "shm_keys w' key = Some (st_shmem_id s)" and "sem_keys w' key = Some (st_sem_id s)"
    and "maps w' (st_memory s) = Some (st_shmem_id s)"
  shows "named_by key s w'"
proof -
  have "ipc_ok w'" using attach_stack_ok [OF assms(1), of key bytes] assms(2) by simp
  then have "\<exists>sg. shms w' (st_shmem_id s) = Some sg \<and> \<not> sg_dest sg"
    using shm_okD(1) assms(4) unfolding ipc_ok_def by blast
  moreover have "st_sem_id s \<in> dom (sems w')"
    using assms(3) by (auto simp: stack_inv_def stack_view_def stack_sems_def split: option.splits)
  ultimately show ?thesis using assms(4-6) by (auto simp: named_by_def)
qed

lemma mark_destruct_named:
  assumes "shm_keys w key = Some (st_shmem_id s)" and "sem_keys w key = Some (st_sem_id s)"
    and "\<exists>sg. shms w (st_shmem_id s) = Some sg" and "st_sem_id s \<in> dom (sems w)"
  shows "\<exists>w'. mark_destruct (Some s) w = Returns 0 w' \<and> shm_keys w' key = None \<and> sem_keys w' key = None \<and>
    (counters_ok w \<longrightarrow> counters_ok w')"
  using assms
  by (auto simp: mark_destruct_def shm_rmid_def sem_rmid_def forget_key_def counters_ok_def waits_ok_def)

lemma detach_named:
  assumes "named_by key s w"
  shows "\<exists>w'. detach_stack (Some s) w = Returns None w' \<and> shm_keys w' key = Some (st_shmem_id s) \<and>
    sem_keys w' key = Some (st_sem_id s) \<and> (\<exists>sg. shms w' (st_shmem_id s) = Some sg) \<and>
    st_sem_id s \<in> dom (sems w')"
  using assms by (auto simp: named_by_def detach_stack_def shmdt_def)

text \<open>A key that names nothing, in a system that can serve \<open>attach_stack\<close>.\<close>

definition free_key :: "int \<Rightarrow> stack_world \<Rightarrow> bool" where
  "free_key key w \<longleftrightarrow> ipc_ok w \<and> counters_ok w \<and> key \<noteq> IPC_PRIVATE \<and> shm_keys w key = None \<and>
     sem_keys w key = None"

lemma attach_free_key:
  assumes "free_key key w" and "1 \<le> bytes" and "bytes \<le> 512"
  shows "\<exists>s w'. attach_stack key bytes w = Returns (Some s) w' \<and> stack_inv s w' \<and> stack_abs s w' = [] \<and>
    st_size s = bytes \<and> named_by key s w' \<and> ipc_ok w' \<and> counters_ok w'"
proof -
  from assms attach_new [of w key bytes] obtain s w' where
    s: "attach_stack key bytes w = Returns (Some s) w'" "stack_inv s w'" "stack_abs s w' = []"
      "st_size s = bytes" "shm_keys w' key = Some (st_shmem_id s)" "sem_keys w' key = Some (st_sem_id s)"
      "maps w' (st_memory s) = Some (st_shmem_id s)"
    by (auto simp: free_key_def counters_ok_def)
  have "ipc_ok w" "counters_ok w" using assms(1) by (simp_all add: free_key_def)
  with named_by_attach [OF _ s(1,2,5,6,7)] attach_stack_ok [of w key bytes]
    attach_stack_counters [of w key bytes] s show ?thesis by auto
qed

lemma clear_named:
  assumes "attach_stack key bytes w = Returns (Some s) w1" and "named_by key s w1" and "ipc_ok w1" and "counters_ok w1"
    and "key \<noteq> IPC_PRIVATE"
  shows "\<exists>w'. clear_key key bytes w = Returns None w' \<and> free_key key w'"
proof -
  from mark_destruct_named [of w1 key s] assms(2,4) obtain w2 where
    2: "mark_destruct (Some s) w1 = Returns 0 w2" "shm_keys w2 key = None" "sem_keys w2 key = None" "counters_ok w2"
    by (auto simp: named_by_def)
  have "ipc_ok w2" using mark_destruct_ok [OF assms(3), of "Some s"] 2(1) by simp
  with 2 assms(1,5) show ?thesis by (auto simp: clear_key_def free_key_def)
qed

lemma clear_free_key:
  assumes "free_key key w" and "1 \<le> bytes" and "bytes \<le> 512"
  shows "\<exists>w'. clear_key key bytes w = Returns None w' \<and> free_key key w'"
proof -
  have "key \<noteq> IPC_PRIVATE" using assms(1) by (simp add: free_key_def)
  with attach_free_key [OF assms] clear_named show ?thesis by blast
qed

lemma counted_from: "counted (of_nat n) k = map of_nat [Suc n..<Suc n + k]"
proof (induction k arbitrary: n)
  case (Suc k)
  have "(of_nat n :: 64 word) + 1 = of_nat (Suc n)" by simp
  then have "counted (of_nat n) (Suc k) = of_nat (Suc n) # map of_nat [Suc (Suc n)..<Suc (Suc n) + k]"
    using Suc.IH [of "Suc n"] by (simp only: counted.simps)
  also have "\<dots> = map of_nat (Suc n # [Suc (Suc n)..<Suc n + Suc k])" by (simp del: upt_Suc)
  also have "Suc n # [Suc (Suc n)..<Suc n + Suc k] = [Suc n..<Suc n + Suc k]"
    by (rule upt_conv_Cons [symmetric]) simp
  finally show ?case .
qed simp

lemma prog_main_run:
  assumes "rand_key_gen rnd argv = Returns key ()" and "free_key key w"
  shows "\<exists>w'. prog_main rnd argv w =
      Returns (map Pushed (counted 0 30) @ map Popped (rev (counted 0 30))) w' \<and>
    shm_keys w' key = None \<and> sem_keys w' key = None"
proof -
  have size: "prog_size = 30" by (simp add: prog_size_def)
  from clear_free_key [OF assms(2), of 30] obtain w1 where
    1: "clear_key key 30 w = Returns None w1" "free_key key w1" by auto
  from attach_free_key [OF 1(2), of 30] obtain s w2 where
    2: "attach_stack key 30 w1 = Returns (Some s) w2" "stack_inv s w2" "stack_abs s w2 = []"
      "st_size s = 30" "named_by key s w2" by auto
  have "length (stack_abs s w2) + 30 \<le> nat (st_size s)" by (simp add: 2(3,4))
  from prog_pushes_room [where m = 1 and a = 0, OF 2(2) this] obtain w3 where
    3: "stack_inv s w3" "stack_abs s w3 = rev (counted 0 30) @ stack_abs s w2"
      "prog_pushes (Some s) (30 + 1) 0 w2 = bind_outcome (prog_pushes (Some s) 1 (0 + of_nat 30) w3)
        (\<lambda>(evs, a') w. Returns (map Pushed (counted 0 30) @ evs, a') w)"
    by (elim exE conjE) (rule that)
  have nums: "(30 :: nat) + 1 = 31" "(0 :: 64 word) + of_nat 30 = 30" by simp_all
  note 3 = 3(1) 3(2) [unfolded 2(3) append_Nil2] 3(3) [unfolded nums]
  have "length (stack_abs s w3) = 30" unfolding 3(2) by simp
  with shm.push_full [OF 3(1), of 31] 2(4) obtain w4 where
    4: "push (Some s) 31 w3 = Returns (-1) w4" "stack_inv s w4" "stack_abs s w4 = rev (counted 0 30)"
    by (auto simp: 3(2))
  have "prog_pushes (Some s) 1 30 w3 = Returns ([], 31) w4"
    using 4(1) by simp
  with 3(3) have pushes: "prog_pushes (Some s) 31 0 w2 = Returns (map Pushed (counted 0 30), 31) w4"
    by simp
  have "length (rev (counted 0 30)) + 1 = 31" by simp
  with prog_pops_all [OF 4(2,3), of 1 31] obtain w5 where
    5: "prog_pops (Some s) 31 31 w4 = Returns (map Popped (rev (counted 0 30))) w5" by metis
  have "tables w4 = tables w2" "tables w5 = tables w4"
    using prog_pushes_tables [of w2 "tables w2" "Some s" 31 0] prog_pops_tables [of w4 "tables w4" "Some s" 31 31]
      pushes 5 by simp_all
  with named_by_tables 2(5) have "named_by key s w5" by metis
  from detach_named [OF this] obtain w6 where
    6: "detach_stack (Some s) w5 = Returns None w6" "shm_keys w6 key = Some (st_shmem_id s)"
      "sem_keys w6 key = Some (st_sem_id s)" "\<exists>sg. shms w6 (st_shmem_id s) = Some sg"
      "st_sem_id s \<in> dom (sems w6)" by blast
  from mark_destruct_named [OF 6(2-5)] obtain w7 where
    "mark_destruct (Some s) w6 = Returns 0 w7" "shm_keys w7 key = None" "sem_keys w7 key = None" by blast
  then show ?thesis
    using 1(1) 2(1) pushes 5 6(1) assms(1) unfolding prog_main_def size by simp
qed

section \<open>fork4.c: two sizes for one stack\<close>

definition fork4_size :: int where "fork4_size = 10"

text \<open>The child before its \<open>sleep\<close>: it attaches the stack and pushes \<open>&a\<close> twenty times.\<close>

definition fork4_child :: "int \<Rightarrow> 64 word \<Rightarrow> stack_world \<Rightarrow> (stack_t option \<times> int list, stack_world) outcome" where
  "fork4_child key addr w =
     bind_outcome (attach_stack key fork4_size w) (\<lambda>stack w.
     bind_outcome (c_assert (stack \<noteq> None) w) (\<lambda>_ w.
     bind_outcome (do_run (push stack) (pop stack) (map (\<lambda>i. Push addr) [0..<nat (fork4_size * 2)]) w) (\<lambda>rs w.
     Returns (stack, map fst rs) w)))"

text \<open>The parent, which sleeps a second before it attaches; it returns the count it prints.\<close>

definition fork4_parent :: "int \<Rightarrow> int \<Rightarrow> stack_world \<Rightarrow> (int, stack_world) outcome" where
  "fork4_parent key pid w =
     bind_outcome (attach_stack key (fork4_size * 2) w) (\<lambda>stack w.
     bind_outcome (c_assert (stack \<noteq> None) w) (\<lambda>_ w.
     bind_outcome (do_run (push stack) (pop stack)
       (map (\<lambda>i. Push (null_plus (pid + int i))) [0..<nat fork4_size]) w) (\<lambda>_ w.
     bind_outcome (get_count stack w) (\<lambda>count w.
     bind_outcome (detach_stack stack w) (\<lambda>_ w.
     bind_outcome (mark_destruct stack w) (\<lambda>_ w.
     Returns count w))))))"

lemma fork4_parent_small:
  assumes "shm_keys w key = Some i" and "shms w i = Some sg" and "sg_size sg < 20" and "key \<noteq> IPC_PRIVATE"
  shows "fork4_parent key pid w = Aborts (w\<lparr>errno := EINVAL\<rparr>)"
  using assms
  by (simp add: fork4_parent_def fork4_size_def attach_stack_def shmget_def size_t_def Let_def)

lemma spec_run_overfull:
  "spec_run cap (map (\<lambda>i. Push v) js) xs =
    (map (\<lambda>i. (0, None)) (take (cap - length xs) js) @ map (\<lambda>i. (-1, None)) (drop (cap - length xs) js),
     replicate (min (cap - length xs) (length js)) v @ xs)"
proof (induction js arbitrary: xs)
  case (Cons j js)
  show ?case
  proof (cases "length xs < cap")
    case True
    then obtain d where d: "cap - length xs = Suc d" by (cases "cap - length xs") auto
    then have "cap - length (v # xs) = d" by simp
    with Cons.IH [of "v # xs"] True d show ?thesis by (simp add: replicate_app_Cons_same)
  next
    case False
    with Cons.IH [of xs] show ?thesis by simp
  qed
qed simp

lemma do_run_tables:
  "tables w = t \<Longrightarrow> ends_in (\<lambda>w. tables w = t) (do_run (push stack) (pop stack) as w)"
proof (induction as arbitrary: w)
  case (Cons a as)
  have "ends_in (\<lambda>w. tables w = t) (do_op (push stack) (pop stack) a w)"
    using Cons.prems by (cases a) (simp_all add: ends_in_bind push_tables pop_tables)
  with Cons.IH show ?case unfolding do_run.simps by (intro ends_in_bind) simp_all
qed simp

lemma attach_free_key_size:
  assumes "free_key key w" and "1 \<le> bytes" and "bytes \<le> 512"
    and "attach_stack key bytes w = Returns (Some s) w'"
  shows "\<exists>sg. shms w' (st_shmem_id s) = Some sg \<and> sg_size sg = bytes"
proof -
  have "size_t bytes = bytes" using assms(2,3) by (simp add: size_t_nonneg)
  with assms show ?thesis
    by (auto simp: free_key_def counters_ok_def attach_stack_def shmget_def new_shm_def shmat_def
        semget_def shmmax_def Let_def bind_outcome_Returns_iff dest!: sem_change_frame(4))
qed

lemma fork4_run:
  assumes "free_key key w"
  shows "\<exists>s w'. fork4_child key addr w =
      Returns (Some s, replicate 10 0 @ replicate 10 (-1)) w' \<and>
    stack_abs s w' = replicate 10 addr \<and> fork4_parent key pid w' = Aborts (w'\<lparr>errno := EINVAL\<rparr>)"
proof -
  have size: "fork4_size = 10" by (simp add: fork4_size_def)
  from attach_free_key [OF assms, of 10] obtain s w1 where
    1: "attach_stack key 10 w = Returns (Some s) w1" "stack_inv s w1" "stack_abs s w1 = []"
      "st_size s = 10" "named_by key s w1" by auto
  define ops where "ops = map (\<lambda>i. Push addr) [0..<20]"
  from shm.run_refines [OF 1(2), of ops] 1(3,4) obtain w2 where
    2: "do_run (push (Some s)) (pop (Some s)) ops w1 = Returns (fst (spec_run 10 ops [])) w2"
      "stack_abs s w2 = snd (spec_run 10 ops [])" by auto
  have spec: "map fst (fst (spec_run 10 ops [])) = replicate 10 0 @ replicate 10 (-1)"
      "snd (spec_run 10 ops []) = replicate 10 addr"
    unfolding ops_def spec_run_overfull by (simp_all add: map_replicate_const numeral_eq_Suc del: upt_Suc)
  have "tables w2 = tables w1" using do_run_tables [of w1 "tables w1" "Some s" ops] 2(1) by simp
  moreover obtain sg where "shms w1 (st_shmem_id s) = Some sg" "sg_size sg = 10"
    using attach_free_key_size [OF assms _ _ 1(1)] by auto
  ultimately have "\<exists>sg. shms w2 (st_shmem_id s) = Some sg \<and> sg_size sg = 10"
    using tables_seg by metis
  moreover have "named_by key s w2"
    using named_by_tables [OF \<open>tables w2 = tables w1\<close> 1(5)] .
  ultimately have "fork4_parent key pid w2 = Aborts (w2\<lparr>errno := EINVAL\<rparr>)"
    using assms by (auto simp: named_by_def free_key_def intro: fork4_parent_small)
  moreover have "fork4_child key addr w = Returns (Some s, replicate 10 0 @ replicate 10 (-1)) w2"
    using 1(1) 2(1) spec(1) by (simp add: fork4_child_def size ops_def del: upt_Suc)
  moreover have "stack_abs s w2 = replicate 10 addr" using 2(2) spec(2) by simp
  ultimately show ?thesis by (intro exI [of _ s] exI [of _ w2] conjI)
qed

section \<open>Properties\<close>

lemma caps: "(\<Sum>p<n. int c) = int n * int c"
  by simp

lemma fork1_ok: "script_ok 50 0 (fork1_script pid)" "script_net (fork1_script pid) = 0"
  unfolding fork1_script_def by (rule script_round; simp add: fork1_size_def)+

lemma fork2_ok: "script_ok 10 0 (fork2_script pid)" "script_net (fork2_script pid) = 0"
  unfolding fork2_script_def by (rule script_round; simp add: fork2_push_count_def)+

text \<open>
  C17: the loops of \<open>fork1.c\<close> (2 processes) and \<open>main.c\<close> (32), from the moment when every process has attached
  the same, empty stack, and for as long as the first process, which waits for nobody and only sleeps, has not
  destroyed it: however the processes interleave, every \<open>push\<close> and \<open>pop\<close> that ends has succeeded, some
  process can take its next step while a call is left, seven steps for each call are enough, and then
  the stack is empty and its flag up.
\<close>

theorem test_programs_balance:
  "(test_run fork1_size 2 (\<lambda>p. fork1_script (pid p)) (replicate (seg_cells fork1_size) 0) k st \<longrightarrow>
      run_fine fork1_size 2 (\<lambda>p. fork1_script (pid p)) (replicate (seg_cells fork1_size) 0) k st) \<and>
   (test_run main_size (length (fork_rounds main_fork_count))
        (\<lambda>p. main_script (fork_rounds main_fork_count ! p) (pids p)) (replicate (seg_cells main_size) 0) k st \<longrightarrow>
      run_fine main_size (length (fork_rounds main_fork_count))
        (\<lambda>p. main_script (fork_rounds main_fork_count ! p) (pids p)) (replicate (seg_cells main_size) 0) k st) \<and>
   script_net (fork1_script x) = 0 \<and> script_net (main_script r y) = 0"
proof (intro conjI impI)
  assume "test_run fork1_size 2 (\<lambda>p. fork1_script (pid p)) (replicate (seg_cells fork1_size) 0) k st"
  then show "run_fine fork1_size 2 (\<lambda>p. fork1_script (pid p)) (replicate (seg_cells fork1_size) 0) k st"
    by (rule scripts_run_fine [where cap = "\<lambda>_. 50"])
      (simp_all only: caps fork1_ok fork1_size_def seg_cells_512 length_replicate semvmx_def, simp_all)
next
  assume "test_run main_size (length (fork_rounds main_fork_count))
    (\<lambda>p. main_script (fork_rounds main_fork_count ! p) (pids p)) (replicate (seg_cells main_size) 0) k st"
  then show "run_fine main_size (length (fork_rounds main_fork_count))
      (\<lambda>p. main_script (fork_rounds main_fork_count ! p) (pids p)) (replicate (seg_cells main_size) 0) k st"
    by (rule scripts_run_fine [where cap = "\<lambda>_. 5"])
      (simp_all only: caps main_script_ok length_fork_rounds main_size_def main_fork_count_def length_replicate
        semvmx_def seg_cells_def, simp_all)
qed (rule fork1_ok main_script_ok)+

text \<open>\<open>fork1.c\<close> brought to its end, with an empty stack.\<close>

theorem test_programs_balance_witness:
  "\<exists>k st. test_run fork1_size 2 (\<lambda>p. fork1_script 0) (replicate (seg_cells fork1_size) 0) k st \<and>
    k = (\<Sum>p<(2 :: nat). 7 * length (fork1_script 0)) \<and> c_count (t_conc st) = 0 \<and> c_flag (t_conc st) = 1"
proof -
  define cells where "cells = replicate (seg_cells fork1_size) (0 :: 64 word)"
  define total where "total = (\<Sum>p<(2 :: nat). 7 * length (fork1_script 0))"
  let ?run = "test_run fork1_size 2 (\<lambda>p. fork1_script 0) cells"
  have fine: "run_fine fork1_size 2 (\<lambda>p. fork1_script 0) cells k st" if "?run k st" for k st
    using test_programs_balance [of "\<lambda>_. 0" k st] that by (simp add: cells_def)
  have "\<exists>k st. (?run k st \<and> k \<le> total) \<and> k = total"
  proof -
    have "\<exists>st. ?run j st" if "j \<le> total" for j
      using that
    proof (induction j)
      case (Suc j)
      then obtain st where run: "?run j st" by auto
      from fine [OF run] Suc.prems have "can_move fork1_size 2 (t_conc st) (t_todo st)"
        by (simp add: run_fine_def total_def Let_def)
      from can_move_run [OF run this] show ?case .
    qed (use test_run.start in blast)
    then show ?thesis by blast
  qed
  then obtain st where run: "?run total st" by blast
  have "c_count (t_conc st) = 0 \<and> c_flag (t_conc st) = 1"
    using fine [OF run] by (simp add: run_fine_def total_def Let_def fork1_ok(2))
  with run show ?thesis unfolding cells_def total_def by blast
qed

text \<open>
  \<open>prog.c\<close> with a key that names nothing prints that it pushed 1 to 30 and popped 30 to 1:
  the 31st \<open>push\<close> and the 31st \<open>pop\<close> fail; it leaves the key free.
\<close>

theorem prog_fills_and_empties:
  assumes "rand_key_gen rnd argv = Returns key ()" and "free_key key w"
  shows "\<exists>w'. prog_main rnd argv w =
      Returns (map Pushed (map of_nat [1..<31]) @ map Popped (rev (map of_nat [1..<31]))) w' \<and>
    shm_keys w' key = None \<and> sem_keys w' key = None"
proof -
  have "counted 0 30 = map of_nat [1..<31]"
    using counted_from [of 0 30] by (simp del: upt_Suc upt_conv_Cons)
  with prog_main_run [OF assms] show ?thesis by simp
qed

lemma free_empty_world: "free_key 7 empty_world"
  by (simp add: free_key_def counters_ok_def waits_ok_def empty_world_def ipc_ok_def shm_ok_def sem_ok_def
      IPC_PRIVATE_def)

theorem prog_fills_and_empties_witness:
  "\<exists>w'. prog_main 7 [cstr ''prog''] empty_world =
    Returns (map Pushed (map of_nat [1..<31]) @ map Popped (rev (map of_nat [1..<31]))) w'"
proof -
  have "rand_key_gen 7 [cstr ''prog''] = Returns 7 ()" by (simp add: rand_key_gen_def)
  from prog_fills_and_empties [OF this free_empty_world] show ?thesis by blast
qed

text \<open>
  \<open>fork4.c\<close> gives the two processes different sizes. The child, who comes first, gets a stack
  of 10 and fails in its last ten pushes; the parent asks for 20 of the segment made for 10, gets no
  stack and fails its \<open>assert\<close>.
\<close>

theorem fork4_parent_aborts:
  assumes "free_key key w"
  shows "\<exists>s w'. fork4_child key addr w =
      Returns (Some s, replicate 10 0 @ replicate 10 (-1)) w' \<and>
    stack_abs s w' = replicate 10 addr \<and> fork4_parent key pid w' = Aborts (w'\<lparr>errno := EINVAL\<rparr>)"
  by (rule fork4_run [OF assms])

theorem fork4_parent_aborts_witness:
  "\<exists>s w'. fork4_child 7 5 empty_world = Returns (Some s, replicate 10 0 @ replicate 10 (-1)) w' \<and>
    fork4_parent 7 100 w' = Aborts (w'\<lparr>errno := EINVAL\<rparr>)"
  using fork4_parent_aborts [OF free_empty_world, of 5 100] by blast

end
