(* ===== verification/Attach_Conc.thy ===== *)
theory Attach_Conc
  imports Stack_Tests
begin

text \<open>
  \<open>attach_stack\<close> of \<open>Stack/stack.c\<close> call by call, for any number of processes with one key, as the
  programs of \<open>tests\<close> run it after their \<open>fork\<close>s. The tables of the kernel are shared, \<open>errno\<close>
  belongs to each process; addresses are counted over all of them.
\<close>

section \<open>The steps\<close>

datatype attach_pc =
    A_find | A_map int | A_sems int int
  | A_make | A_map_new int | A_sems_new int int | A_flag int int int
  | A_ret "stack_t option" | A_abort

definition attach_step :: "int \<Rightarrow> int \<Rightarrow> attach_pc \<Rightarrow> stack_world \<Rightarrow> (attach_pc \<times> stack_world) option" where
  "attach_step key bytes pc w =
     (let handle = \<lambda>i m s. Some \<lparr>st_size = bytes, st_memory = m, st_shmem_id = i, st_sem_id = s\<rparr> in
      case pc of
        A_find \<Rightarrow>
          (let (i, w) = shmget key bytes False True w in
           Some (if 0 < i then A_map i else if errno w = EINVAL then A_ret None else A_make, w))
      | A_map i \<Rightarrow>
          (let (m, w) = shmat i w in Some (if m \<noteq> 0 then A_sems i m else A_abort, w))
      | A_sems i m \<Rightarrow>
          (let (s, w) = semget key 2 False w in
           Some (A_ret (if s \<le> 0 then None else handle i m s), w))
      | A_make \<Rightarrow>
          (let (i, w) = shmget key bytes True True w in Some (if 0 < i then A_map_new i else A_abort, w))
      | A_map_new i \<Rightarrow>
          (let (m, w) = shmat i w in Some (if m \<noteq> 0 then A_sems_new i m else A_abort, w))
      | A_sems_new i m \<Rightarrow>
          (let (s, w) = semget key 2 True w in
           Some (if errno w = EEXIST \<or> s \<le> 0 then A_ret None else A_flag i m s, w))
      | A_flag i m s \<Rightarrow>
          (case sem_change s SEM_FLAG 1 NOT_NEED w of
             Returns _ w \<Rightarrow> Some (A_ret (handle i m s), w)
           | _ \<Rightarrow> None)
      | _ \<Rightarrow> None)"

fun attach_steps :: "nat \<Rightarrow> int \<Rightarrow> int \<Rightarrow> attach_pc \<times> stack_world \<Rightarrow> attach_pc \<times> stack_world" where
  "attach_steps 0 key bytes x = x"
| "attach_steps (Suc n) key bytes (pc, w) =
     (case attach_step key bytes pc w of None \<Rightarrow> (pc, w) | Some x \<Rightarrow> attach_steps n key bytes x)"

record attach_sys =
  as_world :: stack_world
  as_pc :: "nat \<Rightarrow> attach_pc"
  as_errno :: "nat \<Rightarrow> errno"

text \<open>A step of process \<open>p\<close>, with its own \<open>errno\<close>.\<close>

definition attach_move :: "int \<Rightarrow> int \<Rightarrow> nat \<Rightarrow> attach_sys \<Rightarrow> attach_sys option" where
  "attach_move key bytes p st =
     map_option (\<lambda>(pc, w). \<lparr>as_world = w, as_pc = (as_pc st)(p := pc), as_errno = (as_errno st)(p := errno w)\<rparr>)
       (attach_step key bytes (as_pc st p) (as_world st\<lparr>errno := as_errno st p\<rparr>))"

definition attach_start :: "stack_world \<Rightarrow> (nat \<Rightarrow> errno) \<Rightarrow> attach_sys" where
  "attach_start w errs = \<lparr>as_world = w, as_pc = (\<lambda>_. A_find), as_errno = errs\<rparr>"

text \<open>From \<open>st0\<close> the first \<open>n\<close> processes have made \<open>k\<close> steps.\<close>

inductive attach_run :: "int \<Rightarrow> int \<Rightarrow> nat \<Rightarrow> attach_sys \<Rightarrow> nat \<Rightarrow> attach_sys \<Rightarrow> bool"
  for key bytes n st0 where
  start: "attach_run key bytes n st0 0 st0"
| step: "attach_run key bytes n st0 k st \<Longrightarrow> p < n \<Longrightarrow> attach_move key bytes p st = Some st' \<Longrightarrow>
    attach_run key bytes n st0 (Suc k) st'"

section \<open>Alone, the steps are the call\<close>

lemma attach_steps_final [simp]:
  "attach_steps n key bytes (A_ret h, w) = (A_ret h, w)" "attach_steps n key bytes (A_abort, w) = (A_abort, w)"
  by (cases n; simp add: attach_step_def)+

text \<open>
  A process whose calls no other process interrupts goes through its steps to what the function
  computes in one piece, failing assertions included.
\<close>

lemma attach_steps_call:
  "attach_steps 5 key bytes (A_find, w) =
    (case attach_stack key bytes w of
       Returns h w' \<Rightarrow> (A_ret h, w')
     | Exits e w' \<Rightarrow> (A_abort, w')
     | Aborts w' \<Rightarrow> (A_abort, w')
     | Faults w' \<Rightarrow> (A_abort, w')
     | Blocks w' \<Rightarrow> (A_abort, w'))"
proof -
  obtain i w1 where 1: "shmget key bytes False True w = (i, w1)" by fastforce
  obtain m w2 where 2: "shmat i w1 = (m, w2)" by fastforce
  obtain s w3 where 3: "semget key 2 False w2 = (s, w3)" by fastforce
  obtain j w4 where 4: "shmget key bytes True True w1 = (j, w4)" by fastforce
  obtain a w5 where 5: "shmat j w4 = (a, w5)" by fastforce
  obtain t w6 where 6: "semget key 2 True w5 = (t, w6)" by fastforce
  have "\<exists>r w7. sem_change t SEM_FLAG 1 NOT_NEED w6 = Returns r w7" if "\<not> t \<le> 0"
  proof -
    have "sems w6 t = Some \<lparr>ss_vals = [0, 0], ss_adj = [0, 0]\<rparr>"
      using 6 that by (auto simp: semget_def numeral_2_eq_2 split: option.splits if_splits)
    then show ?thesis by (auto simp: sem_change_def semop_def SEM_FLAG_def SEM_COUNT_def semvmx_def)
  qed
  then obtain r w7 where 7: "\<not> t \<le> 0 \<Longrightarrow> sem_change t SEM_FLAG 1 NOT_NEED w6 = Returns r w7" by blast
  have five: "(5 :: nat) = Suc (Suc (Suc (Suc (Suc 0))))" by simp
  show ?thesis
    unfolding five by (simp add: attach_stack_def attach_step_def 1 2 3 4 5 6 7 c_assert_def)
qed

section \<open>The invariant\<close>

text \<open>Between its \<open>shmget\<close> that made the segment and the change of the flag.\<close>

fun making :: "attach_pc \<Rightarrow> bool" where
  "making (A_map_new i) = True"
| "making (A_sems_new i m) = True"
| "making (A_flag i m s) = True"
| "making _ = False"

definition fresh_sems :: "int \<Rightarrow> semset" where
  "fresh_sems f = \<lparr>ss_vals = [0, f], ss_adj = [0, 0]\<rparr>"

definition flag_up :: "int \<Rightarrow> stack_world \<Rightarrow> bool" where
  "flag_up key w \<longleftrightarrow> (\<exists>s. sem_keys w key = Some s \<and> sems w s = Some (fresh_sems 1))"

definition key_ok :: "int \<Rightarrow> int \<Rightarrow> stack_world \<Rightarrow> bool" where
  "key_ok key bytes w \<longleftrightarrow> ipc_ok w \<and> counters_ok w \<and> key \<noteq> IPC_PRIVATE \<and>
     (\<forall>i. shm_keys w key = Some i \<longrightarrow> 0 < i \<and> (\<exists>sg. shms w i = Some sg \<and> sg_size sg = bytes)) \<and>
     (\<forall>s. sem_keys w key = Some s \<longrightarrow> 0 < s \<and> shm_keys w key \<noteq> None \<and>
       (sems w s = Some (fresh_sems 0) \<or> sems w s = Some (fresh_sems 1)))"

fun pc_fits :: "int \<Rightarrow> int \<Rightarrow> stack_world \<Rightarrow> errno \<Rightarrow> attach_pc \<Rightarrow> bool" where
  "pc_fits key bytes w e A_find = True"
| "pc_fits key bytes w e (A_map i) = (shm_keys w key = Some i)"
| "pc_fits key bytes w e (A_sems i m) = (shm_keys w key = Some i \<and> maps w m = Some i)"
| "pc_fits key bytes w e A_make = (e = ENOENT)"
| "pc_fits key bytes w e (A_map_new i) = (shm_keys w key = Some i \<and> sem_keys w key = None \<and> e = ENOENT)"
| "pc_fits key bytes w e (A_sems_new i m) =
     (shm_keys w key = Some i \<and> maps w m = Some i \<and> sem_keys w key = None \<and> e = ENOENT)"
| "pc_fits key bytes w e (A_flag i m s) =
     (shm_keys w key = Some i \<and> maps w m = Some i \<and> sem_keys w key = Some s \<and> sems w s = Some (fresh_sems 0))"
| "pc_fits key bytes w e (A_ret None) = (shm_keys w key \<noteq> None)"
| "pc_fits key bytes w e (A_ret (Some h)) = (named_by key h w \<and> st_size h = bytes)"
| "pc_fits key bytes w e A_abort = (shm_keys w key \<noteq> None)"

text \<open>What a step of one process leaves to the others.\<close>

definition extends :: "int \<Rightarrow> stack_world \<Rightarrow> stack_world \<Rightarrow> bool" where
  "extends key w w' \<longleftrightarrow> (\<forall>i. shm_keys w key = Some i \<longrightarrow> shm_keys w' key = Some i) \<and>
     (\<forall>s. sem_keys w key = Some s \<longrightarrow> sem_keys w' key = Some s) \<and>
     (\<forall>a i. maps w a = Some i \<longrightarrow> maps w' a = Some i)"

definition same_key :: "int \<Rightarrow> stack_world \<Rightarrow> stack_world \<Rightarrow> bool" where
  "same_key key w w' \<longleftrightarrow> shm_keys w' key = shm_keys w key \<and> sem_keys w' key = sem_keys w key \<and>
     sems w' = sems w"

fun attach_left :: "attach_pc \<Rightarrow> nat" where
  "attach_left A_find = 5"
| "attach_left A_make = 4"
| "attach_left (A_map_new i) = 3"
| "attach_left (A_sems_new i m) = 2"
| "attach_left (A_flag i m s) = 1"
| "attach_left (A_map i) = 2"
| "attach_left (A_sems i m) = 1"
| "attach_left _ = 0"

lemma key_okD:
  assumes "key_ok key bytes w"
  shows "ipc_ok w" and "counters_ok w" and "key \<noteq> IPC_PRIVATE"
    and "shm_keys w key = Some i \<Longrightarrow> 0 < i \<and> (\<exists>sg. shms w i = Some sg \<and> sg_size sg = bytes)"
    and "sem_keys w key = Some s \<Longrightarrow> 0 < s \<and> shm_keys w key \<noteq> None \<and>
      (sems w s = Some (fresh_sems 0) \<or> sems w s = Some (fresh_sems 1))"
  using assms unfolding key_ok_def by blast+

lemma key_ok_errno [simp]: "key_ok key bytes (w\<lparr>errno := e\<rparr>) = key_ok key bytes w"
  by (simp add: key_ok_def)

lemma extends_errno [simp]:
  "extends key (w\<lparr>errno := e\<rparr>) w' = extends key w w'" "extends key w (w'\<lparr>errno := e\<rparr>) = extends key w w'"
  by (simp_all add: extends_def)

lemma same_key_errno [simp]:
  "same_key key (w\<lparr>errno := e\<rparr>) w' = same_key key w w'" "same_key key w (w'\<lparr>errno := e\<rparr>) = same_key key w w'"
  by (simp_all add: same_key_def)

lemma flag_up_errno [simp]: "flag_up key (w\<lparr>errno := e\<rparr>) = flag_up key w"
  by (simp add: flag_up_def)

lemma pc_fits_errno [simp]: "pc_fits key bytes (w\<lparr>errno := e'\<rparr>) e pc = pc_fits key bytes w e pc"
  by (cases "(key, bytes, w, e, pc)" rule: pc_fits.cases) (simp_all add: named_by_def)

lemma extends_refl [simp]: "extends key w w"
  by (simp add: extends_def)

lemma same_key_refl [simp]: "same_key key w w"
  by (simp add: same_key_def)

lemma named_by_keys:
  assumes "ipc_ok w"
  shows "named_by key h w \<longleftrightarrow> shm_keys w key = Some (st_shmem_id h) \<and> sem_keys w key = Some (st_sem_id h) \<and>
    maps w (st_memory h) = Some (st_shmem_id h)"
  using assms by (auto simp: named_by_def ipc_ok_def shm_ok_def sem_ok_def)

lemma pc_fits_other:
  assumes "extends key w w'" and "ipc_ok w" and "ipc_ok w'" and "pc_fits key bytes w e pc"
    and "making pc \<Longrightarrow> same_key key w w'"
  shows "pc_fits key bytes w' e pc"
  using assms named_by_keys [of w] named_by_keys [of w']
  by (cases "(key, bytes, w, e, pc)" rule: pc_fits.cases) (auto simp: extends_def same_key_def)

text \<open>What one step of a process does; the last four lines are about the one that makes the stack.\<close>

definition step_ok :: "int \<Rightarrow> int \<Rightarrow> stack_world \<Rightarrow> attach_pc \<Rightarrow> stack_world \<Rightarrow> attach_pc \<Rightarrow> bool" where
  "step_ok key bytes w pc w' pc' \<longleftrightarrow>
     key_ok key bytes w' \<and> extends key w w' \<and> pc_fits key bytes w' (errno w') pc' \<and>
     attach_left pc' < attach_left pc \<and>
     (\<not> making pc \<and> \<not> making pc' \<and> same_key key w w' \<or>
      \<not> making pc \<and> making pc' \<and> shm_keys w key = None \<and> shm_keys w' key \<noteq> None \<and> sem_keys w' key = None \<or>
      making pc \<and> making pc' \<and> \<not> flag_up key w' \<or>
      making pc \<and> \<not> making pc' \<and> flag_up key w' \<and> (\<exists>h. pc' = A_ret (Some h)))"

lemma shmat_key:
  assumes "key_ok key bytes w" and "shm_keys w key = Some i"
  shows "\<exists>w'. shmat i w = (next_addr w, w') \<and> key_ok key bytes w' \<and> extends key w w' \<and> same_key key w w' \<and>
    maps w' (next_addr w) = Some i \<and> errno w' = errno w \<and> 0 < next_addr w"
proof -
  note D = key_okD [OF assms(1)]
  obtain sg where sg: "shms w i = Some sg" "sg_size sg = bytes" using D(4) [OF assms(2)] by blast
  define w' where "w' = w\<lparr>shms := (shms w)(i \<mapsto> sg\<lparr>sg_nattch := sg_nattch sg + 1\<rparr>),
    maps := (maps w)(next_addr w \<mapsto> i), next_addr := next_addr w + 1\<rparr>"
  have at: "shmat i w = (next_addr w, w')" by (simp add: shmat_def sg w'_def)
  have fresh: "maps w (next_addr w) = None"
    using D(1) by (cases "maps w (next_addr w)") (auto simp: ipc_ok_def shm_ok_def)
  have "ipc_ok w'" "counters_ok w'"
    using shmat_ok [OF D(1), of i] shmat_counters [OF D(2), of i] by (simp_all add: at)
  moreover have "\<exists>sg. shms w' j = Some sg \<and> sg_size sg = bytes" if "shm_keys w key = Some j" for j
    using D(4) [OF that] sg by (auto simp: w'_def)
  ultimately have "key_ok key bytes w'"
    using D(3,4,5) unfolding key_ok_def by (auto simp: w'_def)
  then show ?thesis
    using at fresh D(2) by (auto simp: w'_def extends_def same_key_def counters_ok_def)
qed

lemma step_shmat:
  assumes "key_ok key bytes w" and "shm_keys w key = Some i"
    and "attach_step key bytes pc w = Some (pc', w')" and "pc = A_map i \<or> pc = A_map_new i \<and> sem_keys w key = None \<and> errno w = ENOENT"
  shows "step_ok key bytes w pc w' pc'"
proof -
  from shmat_key [OF assms(1,2)] obtain w1 where
    1: "shmat i w = (next_addr w, w1)" "key_ok key bytes w1" "extends key w w1" "same_key key w w1"
      "maps w1 (next_addr w) = Some i" "errno w1 = errno w" "0 < next_addr w" by blast
  have keys: "shm_keys w1 key = Some i" "sem_keys w1 key = sem_keys w key" using 1(4) assms(2) by (simp_all add: same_key_def)
  from assms(4) show ?thesis
  proof
    assume "pc = A_map i"
    with 1 keys assms(3) show ?thesis by (auto simp: attach_step_def step_ok_def)
  next
    assume "pc = A_map_new i \<and> sem_keys w key = None \<and> errno w = ENOENT"
    with 1 keys assms(3) show ?thesis by (auto simp: attach_step_def step_ok_def flag_up_def)
  qed
qed

lemma step_find:
  assumes "key_ok key bytes w" and "size_t bytes = bytes" and "attach_step key bytes A_find w = Some (pc', w')"
  shows "step_ok key bytes w A_find w' pc'"
proof (cases "shm_keys w key")
  case None
  with key_okD [OF assms(1)] assms show ?thesis
    by (auto simp: attach_step_def shmget_def step_ok_def)
next
  case (Some i)
  with key_okD(3) [OF assms(1)] key_okD(4) [OF assms(1) Some] assms show ?thesis
    by (auto simp: attach_step_def shmget_def step_ok_def)
qed

lemma step_make:
  assumes "key_ok key bytes w" and "size_t bytes = bytes" and "1 \<le> bytes" and "bytes \<le> shmmax"
    and "errno w = ENOENT" and "attach_step key bytes A_make w = Some (pc', w')"
  shows "step_ok key bytes w A_make w' pc'"
proof (cases "shm_keys w key")
  case None
  note D = key_okD [OF assms(1)]
  have sem: "sem_keys w key = None" using D(5) None by (cases "sem_keys w key") auto
  have get: "shmget key bytes True True w = new_shm key bytes w"
    using None D(3) assms(2-4) by (simp add: shmget_def)
  define w1 where "w1 = snd (new_shm key bytes w)"
  have w1: "pc' = A_map_new (next_shm w)" "w' = w1" "shm_keys w1 key = Some (next_shm w)" "sem_keys w1 = sem_keys w"
      "errno w1 = ENOENT" "maps w1 = maps w" "sems w1 = sems w"
      "\<exists>sg. shms w1 (next_shm w) = Some sg \<and> sg_size sg = bytes"
    using assms(5,6) D(2,3) by (auto simp: attach_step_def get new_shm_def counters_ok_def w1_def)
  have "ipc_ok w1" "counters_ok w1"
    using shmget_ok [OF D(1), of key bytes True True] shmget_counters [OF D(2), of key bytes True True]
    by (simp_all add: get w1_def)
  with w1 D(2,3) sem have "key_ok key bytes w1" by (auto simp: key_ok_def counters_ok_def)
  with w1 None sem show ?thesis by (simp add: step_ok_def extends_def)
next
  case (Some i)
  with key_okD [OF assms(1)] assms show ?thesis
    by (auto simp: attach_step_def shmget_def step_ok_def)
qed

lemma step_sems:
  assumes "key_ok key bytes w" and "shm_keys w key = Some i" and "maps w m = Some i"
    and "attach_step key bytes (A_sems i m) w = Some (pc', w')"
  shows "step_ok key bytes w (A_sems i m) w' pc'"
proof (cases "sem_keys w key")
  case None
  with key_okD(3) [OF assms(1)] assms show ?thesis
    by (auto simp: attach_step_def semget_def step_ok_def)
next
  case (Some s)
  note D = key_okD [OF assms(1)]
  have "length (ss_vals (the (sems w s))) = 2" "0 < s" using D(5) [OF Some] by (auto simp: fresh_sems_def)
  with Some D(3) assms named_by_keys [OF D(1)] show ?thesis
    by (auto simp: attach_step_def semget_def step_ok_def)
qed

lemma step_sems_new:
  assumes "key_ok key bytes w" and "shm_keys w key = Some i" and "maps w m = Some i" and "sem_keys w key = None"
    and "errno w = ENOENT" and "attach_step key bytes (A_sems_new i m) w = Some (pc', w')"
  shows "step_ok key bytes w (A_sems_new i m) w' pc'"
proof -
  note D = key_okD [OF assms(1)]
  define w1 where "w1 = snd (semget key 2 True w)"
  have w1: "pc' = A_flag i m (next_sem w)" "w' = w1" "shm_keys w1 = shm_keys w" "sem_keys w1 key = Some (next_sem w)"
      "maps w1 = maps w" "shms w1 = shms w" "sems w1 (next_sem w) = Some (fresh_sems 0)" "0 < next_sem w"
    using assms(4-6) D(2,3)
    by (auto simp: attach_step_def semget_def counters_ok_def w1_def fresh_sems_def numeral_2_eq_2)
  have "ipc_ok w1" "counters_ok w1"
    using semget_ok [OF D(1), of key 2 True] semget_counters [OF D(2), of key 2 True] by (simp_all add: w1_def)
  with w1 D(3,4) assms(2) have "key_ok key bytes w1" by (auto simp: key_ok_def)
  with w1 assms(2-4) show ?thesis by (auto simp: step_ok_def extends_def flag_up_def fresh_sems_def)
qed

lemma step_flag:
  assumes "key_ok key bytes w" and "shm_keys w key = Some i" and "maps w m = Some i" and "sem_keys w key = Some s"
    and "sems w s = Some (fresh_sems 0)" and "attach_step key bytes (A_flag i m s) w = Some (pc', w')"
  shows "step_ok key bytes w (A_flag i m s) w' pc'"
proof -
  note D = key_okD [OF assms(1)]
  define w1 where "w1 = w\<lparr>sems := (sems w)(s \<mapsto> fresh_sems 1)\<rparr>"
  have change: "sem_change s SEM_FLAG 1 NOT_NEED w = Returns 0 w1"
    using D(2) assms(5) by (auto simp: sem_change_def semop_def SEM_FLAG_def SEM_COUNT_def NOT_NEED_def NEED_def
      counters_ok_def waits_ok_def valid_timeout_def fresh_sems_def semvmx_def w1_def)
  have "ipc_ok w1" using sem_change_ok [OF D(1), of s SEM_FLAG 1 NOT_NEED] by (simp add: change)
  moreover have "counters_ok w1" using sem_change_counters [OF D(2), of s SEM_FLAG 1 NOT_NEED] by (simp add: change)
  ultimately have k: "key_ok key bytes w1"
    using D(3,4,5) assms(4) unfolding key_ok_def by (auto simp: w1_def)
  have w1: "pc' = A_ret (Some \<lparr>st_size = bytes, st_memory = m, st_shmem_id = i, st_sem_id = s\<rparr>)" "w' = w1"
    using assms(6) by (simp_all add: attach_step_def change)
  have "named_by key \<lparr>st_size = bytes, st_memory = m, st_shmem_id = i, st_sem_id = s\<rparr> w1"
    unfolding named_by_keys [OF key_okD(1) [OF k]] using assms(2-4) by (simp add: w1_def)
  with w1 k assms(4) show ?thesis by (auto simp: step_ok_def extends_def flag_up_def w1_def)
qed

lemma attach_step_ok:
  assumes "key_ok key bytes w" and "size_t bytes = bytes" and "1 \<le> bytes" and "bytes \<le> shmmax"
    and "pc_fits key bytes w (errno w) pc" and "attach_step key bytes pc w = Some (pc', w')"
  shows "step_ok key bytes w pc w' pc'"
proof (cases pc)
  case A_find
  with step_find assms show ?thesis by blast
next
  case (A_map i)
  with step_shmat [OF assms(1)] assms show ?thesis by simp
next
  case (A_sems i m)
  with step_sems [OF assms(1)] assms show ?thesis by simp
next
  case A_make
  with step_make [OF assms(1-4)] assms show ?thesis by simp
next
  case (A_map_new i)
  with step_shmat [OF assms(1)] assms show ?thesis by simp
next
  case (A_sems_new i m)
  with step_sems_new [OF assms(1)] assms show ?thesis by simp
next
  case (A_flag i m s)
  with step_flag [OF assms(1)] assms show ?thesis by simp
qed (use assms(6) in \<open>simp_all add: attach_step_def\<close>)

section \<open>All processes together\<close>

definition attach_inv :: "int \<Rightarrow> int \<Rightarrow> nat \<Rightarrow> attach_sys \<Rightarrow> bool" where
  "attach_inv key bytes n st \<longleftrightarrow> key_ok key bytes (as_world st) \<and>
     (\<forall>p. pc_fits key bytes (as_world st) (as_errno st p) (as_pc st p)) \<and>
     (\<forall>p q. making (as_pc st p) \<longrightarrow> making (as_pc st q) \<longrightarrow> p = q) \<and>
     ((\<exists>p. making (as_pc st p)) \<longleftrightarrow> shm_keys (as_world st) key \<noteq> None \<and> \<not> flag_up key (as_world st)) \<and>
     (flag_up key (as_world st) \<longrightarrow> (\<exists>p h. as_pc st p = A_ret (Some h))) \<and>
     (\<forall>p\<ge>n. as_pc st p = A_find)"

lemma attach_invD:
  assumes "attach_inv key bytes n st"
  shows "key_ok key bytes (as_world st)"
    and "pc_fits key bytes (as_world st) (as_errno st p) (as_pc st p)"
    and "making (as_pc st p) \<Longrightarrow> making (as_pc st q) \<Longrightarrow> p = q"
    and "(\<exists>p. making (as_pc st p)) \<longleftrightarrow> shm_keys (as_world st) key \<noteq> None \<and> \<not> flag_up key (as_world st)"
    and "flag_up key (as_world st) \<Longrightarrow> \<exists>p h. as_pc st p = A_ret (Some h)"
    and "n \<le> p \<Longrightarrow> as_pc st p = A_find"
  using assms unfolding attach_inv_def by blast+

lemma flag_up_same: "same_key key w w' \<Longrightarrow> flag_up key w' = flag_up key w"
  by (simp add: same_key_def flag_up_def)

definition size_ok :: "int \<Rightarrow> bool" where
  "size_ok bytes \<longleftrightarrow> 1 \<le> bytes \<and> bytes \<le> shmmax"

lemma size_okD: "size_ok bytes \<Longrightarrow> size_t bytes = bytes \<and> 1 \<le> bytes \<and> bytes \<le> shmmax"
  by (simp add: size_ok_def shmmax_def size_t_nonneg)

lemma attach_moveE:
  assumes "attach_inv key bytes n st" and "size_ok bytes" and "attach_move key bytes p st = Some st'"
  obtains pc w where "st' = \<lparr>as_world = w, as_pc = (as_pc st)(p := pc), as_errno = (as_errno st)(p := errno w)\<rparr>"
    and "attach_step key bytes (as_pc st p) (as_world st\<lparr>errno := as_errno st p\<rparr>) = Some (pc, w)"
    and "step_ok key bytes (as_world st) (as_pc st p) w pc"
proof -
  note D = attach_invD [OF assms(1)]
  from assms(3) obtain pc w where
    1: "st' = \<lparr>as_world = w, as_pc = (as_pc st)(p := pc), as_errno = (as_errno st)(p := errno w)\<rparr>"
      "attach_step key bytes (as_pc st p) (as_world st\<lparr>errno := as_errno st p\<rparr>) = Some (pc, w)"
    by (auto simp: attach_move_def)
  have "step_ok key bytes (as_world st\<lparr>errno := as_errno st p\<rparr>) (as_pc st p) w pc"
    by (rule attach_step_ok [OF _ _ _ _ _ 1(2)]) (use D(1,2) size_okD [OF assms(2)] in simp_all)
  then have "step_ok key bytes (as_world st) (as_pc st p) w pc"
    unfolding step_ok_def by simp
  with 1 show thesis by (rule that)
qed

lemma attach_move_inv:
  assumes inv: "attach_inv key bytes n st" and "size_ok bytes" and "p < n" and "attach_move key bytes p st = Some st'"
  shows "attach_inv key bytes n st'"
proof -
  note D = attach_invD [OF inv]
  obtain pc w where st': "st' = \<lparr>as_world = w, as_pc = (as_pc st)(p := pc), as_errno = (as_errno st)(p := errno w)\<rparr>"
    and ok: "step_ok key bytes (as_world st) (as_pc st p) w pc"
    by (rule attach_moveE [OF inv assms(2,4)])
  note S = ok [unfolded step_ok_def]
  let ?w = "as_world st"
  have same: "same_key key ?w w" if "q \<noteq> p" "making (as_pc st q)" for q
    using S D(3) [of p q] D(4) that by blast
  have fits: "pc_fits key bytes w (as_errno st' q) (as_pc st' q)" for q
  proof (cases "q = p")
    case True
    with S st' show ?thesis by simp
  next
    case False
    have "pc_fits key bytes w (as_errno st q) (as_pc st q)"
      by (rule pc_fits_other [OF _ _ _ D(2)]) (use S key_okD(1) D(1) same False in blast)+
    with False st' show ?thesis by simp
  qed
  consider (idle) "\<not> making (as_pc st p)" "\<not> making pc" "same_key key ?w w"
    | (begins) "\<not> making (as_pc st p)" "making pc" "shm_keys ?w key = None" "shm_keys w key \<noteq> None" "sem_keys w key = None"
    | (goes_on) "making (as_pc st p)" "making pc" "\<not> flag_up key w"
    | (ready) "making (as_pc st p)" "\<not> making pc" "flag_up key w" "\<exists>h. pc = A_ret (Some h)"
    using S by (elim conjE disjE) simp_all
  then have rest: "(\<forall>q r. making (as_pc st' q) \<longrightarrow> making (as_pc st' r) \<longrightarrow> q = r) \<and>
      ((\<exists>q. making (as_pc st' q)) \<longleftrightarrow> shm_keys w key \<noteq> None \<and> \<not> flag_up key w) \<and>
      (flag_up key w \<longrightarrow> (\<exists>q h. as_pc st' q = A_ret (Some h)))"
  proof cases
    case idle
    have "making (as_pc st' q) = making (as_pc st q)" for q using idle st' by simp
    moreover have "as_pc st' q = as_pc st q \<or> q = p" for q using st' by simp
    moreover have "attach_left (as_pc st p) \<noteq> 0" using S by linarith
    ultimately show ?thesis
      using D(3,4,5) idle(3) flag_up_same [OF idle(3)] unfolding same_key_def by (metis attach_left.simps(8))
  next
    case begins
    then have "\<not> making (as_pc st q)" for q using D(4) by blast
    with begins st' show ?thesis by (auto simp: flag_up_def)
  next
    case goes_on
    then have "\<not> making (as_pc st q)" if "q \<noteq> p" for q using D(3) that by blast
    moreover have "shm_keys w key \<noteq> None" using S goes_on D(4) unfolding extends_def by blast
    ultimately show ?thesis using goes_on st' by auto
  next
    case ready
    then have "\<not> making (as_pc st q)" if "q \<noteq> p" for q using D(3) that by blast
    with ready st' show ?thesis by auto
  qed
  have "key_ok key bytes w" using S by blast
  moreover have "as_world st' = w" "\<forall>q\<ge>n. as_pc st' q = A_find" using st' D(6) assms(3) by simp_all
  ultimately show ?thesis using fits rest unfolding attach_inv_def by simp
qed

lemma attach_start_inv: "free_key key w \<Longrightarrow> attach_inv key bytes n (attach_start w errs)"
  by (auto simp: attach_inv_def attach_start_def free_key_def key_ok_def flag_up_def)

lemma attach_run_inv:
  assumes "attach_run key bytes n st0 k st" and "attach_inv key bytes n st0" and "size_ok bytes"
  shows "attach_inv key bytes n st"
  using assms(1) by induction (use assms(2,3) attach_move_inv in blast)+

lemma sum_left_move:
  assumes "attach_inv key bytes n st" and "size_ok bytes" and "p < n" and "attach_move key bytes p st = Some st'"
  shows "(\<Sum>q<n. attach_left (as_pc st' q)) < (\<Sum>q<n. attach_left (as_pc st q))"
proof -
  obtain pc w where st': "st' = \<lparr>as_world = w, as_pc = (as_pc st)(p := pc), as_errno = (as_errno st)(p := errno w)\<rparr>"
    and ok: "step_ok key bytes (as_world st) (as_pc st p) w pc"
    by (rule attach_moveE [OF assms(1,2,4)])
  have "attach_left pc < attach_left (as_pc st p)" using ok by (simp add: step_ok_def)
  then show ?thesis
    by (intro sum_strict_mono_ex1) (use assms(3) st' in \<open>auto intro!: bexI [of _ p]\<close>)
qed

lemma attach_run_steps:
  assumes "attach_run key bytes n st0 k st" and "attach_inv key bytes n st0" and "size_ok bytes"
  shows "k + (\<Sum>q<n. attach_left (as_pc st q)) \<le> (\<Sum>q<n. attach_left (as_pc st0 q))"
  using assms(1)
proof induction
  case (step k st p st')
  have "attach_inv key bytes n st" by (rule attach_run_inv [OF step(1) assms(2,3)])
  from sum_left_move [OF this assms(3) step(2,3)] step.IH show ?case by linarith
qed simp

text \<open>No step waits: the flag of the new set can always be raised.\<close>

lemma attach_step_some:
  assumes "pc_fits key bytes w e pc" and "attach_left pc \<noteq> 0"
  shows "\<exists>x. attach_step key bytes pc w = Some x"
proof (cases pc)
  case (A_flag i m s)
  with assms(1) have "sems w s = Some (fresh_sems 0)" by simp
  then have "\<exists>r w'. sem_change s SEM_FLAG 1 NOT_NEED w = Returns r w'"
    by (auto simp: sem_change_def semop_def SEM_FLAG_def SEM_COUNT_def fresh_sems_def semvmx_def)
  with A_flag show ?thesis by (auto simp: attach_step_def)
qed (use assms(2) in \<open>auto simp: attach_step_def split: prod.splits\<close>)

lemma attach_can_move:
  assumes "attach_inv key bytes n st" and "attach_left (as_pc st p) \<noteq> 0"
  shows "\<exists>st'. attach_move key bytes p st = Some st'"
proof -
  have "pc_fits key bytes (as_world st\<lparr>errno := as_errno st p\<rparr>) (as_errno st p) (as_pc st p)"
    using attach_invD(2) [OF assms(1), of p] by simp
  from attach_step_some [OF this assms(2)] show ?thesis by (auto simp: attach_move_def)
qed

text \<open>When all calls have ended somebody has a stack, with its flag up.\<close>

lemma attach_ended:
  assumes inv: "attach_inv key bytes n st" and "0 < n" and ended: "\<forall>p<n. attach_left (as_pc st p) = 0"
  shows "flag_up key (as_world st)"
    and "\<exists>p<n. \<exists>h. as_pc st p = A_ret (Some h) \<and> sems (as_world st) (st_sem_id h) = Some (fresh_sems 1)"
proof -
  note D = attach_invD [OF inv]
  have "attach_left (as_pc st 0) = 0" using assms(2) ended by blast
  moreover have idle: "\<not> making (as_pc st p)" for p
    using ended D(6) [of p] by (cases "p < n"; cases "as_pc st p") auto
  ultimately have "shm_keys (as_world st) key \<noteq> None"
    using D(2) [of 0] by (cases "(key, bytes, as_world st, as_errno st 0, as_pc st 0)" rule: pc_fits.cases) (auto simp: named_by_def)
  with D(4) idle show up: "flag_up key (as_world st)" by blast
  with D(5) obtain p h where h: "as_pc st p = A_ret (Some h)" by blast
  with D(6) [of p] have "p < n" by (cases "p < n") auto
  moreover have "sem_keys (as_world st) key = Some (st_sem_id h)"
    using D(2) [of p] h by (simp add: named_by_def)
  ultimately show "\<exists>p<n. \<exists>h. as_pc st p = A_ret (Some h) \<and> sems (as_world st) (st_sem_id h) = Some (fresh_sems 1)"
    using up h by (auto simp: flag_up_def)
qed

section \<open>A process that comes late\<close>

definition late :: "int \<Rightarrow> nat \<Rightarrow> attach_sys \<Rightarrow> bool" where
  "late key p st \<longleftrightarrow> sem_keys (as_world st) key \<noteq> None \<and>
     (as_pc st p = A_find \<or> (\<exists>i. as_pc st p = A_map i) \<or> (\<exists>i m. as_pc st p = A_sems i m) \<or>
      (\<exists>h. as_pc st p = A_ret (Some h)))"

lemma late_step:
  assumes "key_ok key bytes w" and "size_t bytes = bytes" and "sem_keys w key = Some s"
    and "pc_fits key bytes w (errno w) pc" and "attach_step key bytes pc w = Some (pc', w')"
    and "pc = A_find \<or> (\<exists>i. pc = A_map i) \<or> (\<exists>i m. pc = A_sems i m) \<or> (\<exists>h. pc = A_ret (Some h))"
  shows "(\<exists>i. pc' = A_map i) \<or> (\<exists>i m. pc' = A_sems i m) \<or> (\<exists>h. pc' = A_ret (Some h))"
proof -
  note D = key_okD [OF assms(1)]
  obtain i where i: "shm_keys w key = Some i" using D(5) [OF assms(3)] by blast
  note I = D(4) [OF i] and S = D(5) [OF assms(3)]
  from assms(6) show ?thesis
  proof (elim disjE exE)
    assume "pc = A_find"
    with assms(2,5) i I D(3) show ?thesis by (auto simp: attach_step_def shmget_def)
  next
    fix j assume j: "pc = A_map j"
    with assms(4) i have "j = i" by simp
    with shmat_key [OF assms(1) i] j assms(5) show ?thesis by (auto simp: attach_step_def)
  next
    fix j m assume "pc = A_sems j m"
    with assms(3,5) S D(3) show ?thesis by (auto simp: attach_step_def semget_def fresh_sems_def)
  next
    fix h assume "pc = A_ret (Some h)"
    with assms(5) show ?thesis by (simp add: attach_step_def)
  qed
qed

lemma late_move:
  assumes inv: "attach_inv key bytes n st" and "size_ok bytes" and "late key p st"
    and "attach_move key bytes q st = Some st'"
  shows "late key p st'"
proof -
  note D = attach_invD [OF inv]
  obtain pc w where st': "st' = \<lparr>as_world = w, as_pc = (as_pc st)(q := pc), as_errno = (as_errno st)(q := errno w)\<rparr>"
    and step: "attach_step key bytes (as_pc st q) (as_world st\<lparr>errno := as_errno st q\<rparr>) = Some (pc, w)"
    and ok: "step_ok key bytes (as_world st) (as_pc st q) w pc"
    by (rule attach_moveE [OF inv assms(2,4)])
  obtain s where s: "sem_keys (as_world st) key = Some s" using assms(3) by (auto simp: late_def)
  then have "sem_keys w key = Some s" using ok by (simp add: step_ok_def extends_def)
  moreover have "(\<exists>i. pc = A_map i) \<or> (\<exists>i m. pc = A_sems i m) \<or> (\<exists>h. pc = A_ret (Some h))" if "q = p"
    by (rule late_step [OF _ _ _ _ step])
      (use D(1,2) size_okD [OF assms(2)] s assms(3) that in \<open>auto simp: late_def\<close>)
  ultimately show ?thesis using assms(3) st' by (cases "q = p") (simp_all add: late_def)
qed

lemma late_run:
  assumes "attach_run key bytes n st0 k st" and "attach_inv key bytes n st0" and "size_ok bytes" and "late key p st0"
  shows "late key p st"
  using assms(1) by induction (use assms attach_run_inv late_move in blast)+

section \<open>The race\<close>

lemma find_nothing:
  "shm_keys w key = None \<Longrightarrow> key \<noteq> IPC_PRIVATE \<Longrightarrow>
    attach_step key bytes A_find w = Some (A_make, w\<lparr>errno := ENOENT\<rparr>)"
  by (simp add: attach_step_def shmget_def)

lemma find_segment:
  assumes "key_ok key bytes w" and "size_t bytes = bytes" and "shm_keys w key = Some i"
  shows "attach_step key bytes A_find w = Some (A_map i, w)"
  using assms key_okD(3) [OF assms(1)] key_okD(4) [OF assms(1,3)] by (auto simp: attach_step_def shmget_def)

lemma make_second: "shm_keys w key = Some i \<Longrightarrow> key \<noteq> IPC_PRIVATE \<Longrightarrow>
    attach_step key bytes A_make w = Some (A_abort, w\<lparr>errno := EEXIST\<rparr>)"
  by (simp add: attach_step_def shmget_def)

lemma sems_missing: "sem_keys w key = None \<Longrightarrow> key \<noteq> IPC_PRIVATE \<Longrightarrow>
    attach_step key bytes (A_sems i m) w = Some (A_ret None, w\<lparr>errno := ENOENT\<rparr>)"
  by (simp add: attach_step_def semget_def)

lemma make_first:
  assumes "shm_keys w key = None" and "key \<noteq> IPC_PRIVATE" and "size_ok bytes" and "0 < next_shm w"
  obtains w' where "attach_step key bytes A_make w = Some (A_map_new (next_shm w), w')"
    and "shm_keys w' key = Some (next_shm w)" and "sem_keys w' = sem_keys w"
  using assms size_okD [OF assms(3)] by (auto simp: attach_step_def shmget_def new_shm_def)

lemma attach_run_snoc: "attach_run key bytes n st0 k st \<Longrightarrow> p < n \<Longrightarrow>
    attach_step key bytes (as_pc st p) (as_world st\<lparr>errno := as_errno st p\<rparr>) = Some (pc, w) \<Longrightarrow>
    attach_run key bytes n st0 (Suc k)
      \<lparr>as_world = w, as_pc = (as_pc st)(p := pc), as_errno = (as_errno st)(p := errno w)\<rparr>"
  by (rule attach_run.step) (auto simp: attach_move_def)

lemma attach_run_last: "attach_run key bytes n st0 k st \<Longrightarrow> p < n \<Longrightarrow>
    attach_step key bytes (as_pc st p) (as_world st\<lparr>errno := as_errno st p\<rparr>) = Some (pc, w) \<Longrightarrow> k' = Suc k \<Longrightarrow>
    \<exists>st'. attach_run key bytes n st0 k' st' \<and> as_pc st' p = pc"
  by (rule exI, rule conjI, hypsubst, erule (2) attach_run_snoc, simp)

lemma race_start:
  assumes "free_key key w" and "size_ok bytes"
  obtains st1 st2 i where "attach_run key bytes 2 (attach_start w errs) 2 st1"
    and "as_pc st1 0 = A_map_new i" and "as_pc st1 1 = A_find" and "shm_keys (as_world st1) key = Some i"
    and "sem_keys (as_world st1) key = None"
    and "attach_run key bytes 2 (attach_start w errs) 3 st2" and "as_pc st2 1 = A_make"
    and "shm_keys (as_world st2) key = Some i"
proof -
  have free: "shm_keys w key = None" "sem_keys w key = None" "key \<noteq> IPC_PRIVATE" "0 < next_shm w"
    using assms(1) by (simp_all add: free_key_def counters_ok_def)
  define find1 where "find1 = \<lparr>as_world = w\<lparr>errno := ENOENT\<rparr>, as_pc = (\<lambda>_. A_find)(0 := A_make), as_errno = errs(0 := ENOENT)\<rparr>"
  have "attach_step key bytes (as_pc (attach_start w errs) 0) (as_world (attach_start w errs)\<lparr>errno := as_errno (attach_start w errs) 0\<rparr>) =
      Some (A_make, w\<lparr>errno := ENOENT\<rparr>)"
    using find_nothing [of "w\<lparr>errno := errs 0\<rparr>"] free by (simp add: attach_start_def)
  from attach_run_snoc [OF attach_run.start _ this, of 2] have
    1: "attach_run key bytes 2 (attach_start w errs) 1 find1" by (simp add: attach_start_def find1_def)
  obtain w1 where w1: "attach_step key bytes A_make (w\<lparr>errno := ENOENT\<rparr>) = Some (A_map_new (next_shm w), w1)"
      "shm_keys w1 key = Some (next_shm w)" "sem_keys w1 = sem_keys w"
    by (rule make_first [of "w\<lparr>errno := ENOENT\<rparr>" key bytes]) (use free assms(2) in simp_all)
  define st1 where "st1 = \<lparr>as_world = w1, as_pc = (\<lambda>_. A_find)(0 := A_map_new (next_shm w)),
    as_errno = errs(0 := errno w1)\<rparr>"
  have st1: "attach_run key bytes 2 (attach_start w errs) 2 st1"
    using attach_run_snoc [OF 1, of 0 "A_map_new (next_shm w)" w1] w1(1)
    by (simp add: find1_def st1_def numeral_2_eq_2)
  define find2 where "find2 = \<lparr>as_world = w\<lparr>errno := ENOENT\<rparr>, as_pc = (\<lambda>_. A_find)(0 := A_make, 1 := A_make),
    as_errno = errs(0 := ENOENT, 1 := ENOENT)\<rparr>"
  have 2: "attach_run key bytes 2 (attach_start w errs) 2 find2"
    using attach_run_snoc [OF 1, of 1 A_make "w\<lparr>errno := ENOENT\<rparr>"] find_nothing [of "w\<lparr>errno := errs 1\<rparr>" key bytes] free
    by (simp add: find1_def find2_def numeral_2_eq_2)
  define st2 where "st2 = \<lparr>as_world = w1, as_pc = (\<lambda>_. A_find)(0 := A_map_new (next_shm w), 1 := A_make),
    as_errno = errs(0 := errno w1, 1 := ENOENT)\<rparr>"
  have st2: "attach_run key bytes 2 (attach_start w errs) 3 st2"
    using attach_run_snoc [OF 2, of 0 "A_map_new (next_shm w)" w1] w1(1)
    by (simp add: find2_def st2_def numeral_2_eq_2 numeral_3_eq_3 fun_upd_twist)
  show thesis
    by (rule that [OF st1 _ _ _ _ st2]) (use w1 free in \<open>simp_all add: st1_def st2_def\<close>)
qed

lemma race_abort:
  assumes "free_key key w" and "size_ok bytes"
  shows "\<exists>st. attach_run key bytes 2 (attach_start w errs) 4 st \<and> as_pc st 1 = A_abort"
proof -
  obtain st1 st2 i where st2: "attach_run key bytes 2 (attach_start w errs) 3 st2" "as_pc st2 1 = A_make"
      "shm_keys (as_world st2) key = Some i"
    by (rule race_start [OF assms, of errs])
  have "attach_step key bytes (as_pc st2 1) (as_world st2\<lparr>errno := as_errno st2 1\<rparr>) =
      Some (A_abort, as_world st2\<lparr>errno := EEXIST\<rparr>)"
    using make_second [of "as_world st2\<lparr>errno := as_errno st2 1\<rparr>" key i bytes] st2(2,3) assms(1)
    by (simp add: free_key_def)
  from attach_run_last [OF st2(1) _ this, of 4] show ?thesis by simp
qed

lemma race_null:
  assumes "free_key key w" and "size_ok bytes"
  shows "\<exists>st. attach_run key bytes 2 (attach_start w errs) 5 st \<and> as_pc st 1 = A_ret None"
proof -
  obtain st1 st2 i where st1: "attach_run key bytes 2 (attach_start w errs) 2 st1" "as_pc st1 1 = A_find"
      "shm_keys (as_world st1) key = Some i" "sem_keys (as_world st1) key = None"
    by (rule race_start [OF assms, of errs])
  let ?w = "as_world st1\<lparr>errno := as_errno st1 1\<rparr>"
  have ok: "key_ok key bytes ?w"
    using attach_run_inv [OF st1(1) attach_start_inv [OF assms(1)] assms(2)] by (simp add: attach_invD(1))
  define st3 where "st3 = \<lparr>as_world = ?w, as_pc = (as_pc st1)(1 := A_map i), as_errno = (as_errno st1)(1 := as_errno st1 1)\<rparr>"
  have st3: "attach_run key bytes 2 (attach_start w errs) 3 st3"
    using attach_run_snoc [OF st1(1), of 1 "A_map i" ?w] find_segment [OF ok _ , of i] size_okD [OF assms(2)] st1(2,3)
    by (simp add: st3_def numeral_2_eq_2 numeral_3_eq_3)
  from shmat_key [OF ok, of i] st1(3) obtain w4 where
    w4: "shmat i ?w = (next_addr ?w, w4)" "same_key key ?w w4" "0 < next_addr ?w" by auto
  define st4 where "st4 = \<lparr>as_world = w4, as_pc = (as_pc st3)(1 := A_sems i (next_addr ?w)), as_errno = (as_errno st3)(1 := errno w4)\<rparr>"
  have st4: "attach_run key bytes 2 (attach_start w errs) 4 st4"
    using attach_run_snoc [OF st3, of 1 "A_sems i (next_addr ?w)" w4] w4
    by (simp add: st3_def st4_def attach_step_def numeral_eq_Suc)
  have "attach_step key bytes (as_pc st4 1) (as_world st4\<lparr>errno := as_errno st4 1\<rparr>) = Some (A_ret None, w4\<lparr>errno := ENOENT\<rparr>)"
    using sems_missing [of w4 key bytes i "next_addr ?w"] w4(2) st1(4) assms(1)
    by (simp add: st4_def same_key_def free_key_def)
  from attach_run_last [OF st4 _ this, of 5] show ?thesis by simp
qed

section \<open>Properties\<close>

text \<open>
  C19: any number of processes call \<open>attach_stack\<close> with the same size and a key that names nothing, in any
  interleaving. All calls end after five steps each and never wait; those that return a stack
  all return the same segment and semaphores; when all have ended, at least one has a stack,
  the count is 0 and the flag is up; and a process that begins when the semaphores are
  there gets the stack.
\<close>

theorem attach_all_end:
  assumes "free_key key w" and "size_ok bytes" and "attach_run key bytes n (attach_start w errs) k st"
  shows "k \<le> 5 * n \<and> (\<forall>p<n. attach_left (as_pc st p) \<noteq> 0 \<longrightarrow> (\<exists>st'. attach_move key bytes p st = Some st')) \<and>
    (\<forall>p h. as_pc st p = A_ret (Some h) \<longrightarrow> st_size h = bytes \<and> named_by key h (as_world st)) \<and>
    (0 < n \<longrightarrow> (\<forall>p<n. attach_left (as_pc st p) = 0) \<longrightarrow>
      (\<exists>p<n. \<exists>h. as_pc st p = A_ret (Some h) \<and> sems (as_world st) (st_sem_id h) = Some (fresh_sems 1))) \<and>
    (\<forall>p j st'. as_pc st p = A_find \<longrightarrow> sem_keys (as_world st) key \<noteq> None \<longrightarrow>
      attach_run key bytes n st j st' \<longrightarrow> attach_left (as_pc st' p) = 0 \<longrightarrow> (\<exists>h. as_pc st' p = A_ret (Some h)))"
proof (intro conjI)
  note inv = attach_run_inv [OF assms(3) attach_start_inv [OF assms(1)] assms(2)]
  note D = attach_invD [OF inv]
  show "k \<le> 5 * n"
    using attach_run_steps [OF assms(3) attach_start_inv [OF assms(1)] assms(2)] by (simp add: attach_start_def)
  show "\<forall>p<n. attach_left (as_pc st p) \<noteq> 0 \<longrightarrow> (\<exists>st'. attach_move key bytes p st = Some st')"
    using attach_can_move [OF inv] by blast
  show "\<forall>p h. as_pc st p = A_ret (Some h) \<longrightarrow> st_size h = bytes \<and> named_by key h (as_world st)"
    using D(2) by (metis pc_fits.simps(9))
  show "0 < n \<longrightarrow> (\<forall>p<n. attach_left (as_pc st p) = 0) \<longrightarrow>
      (\<exists>p<n. \<exists>h. as_pc st p = A_ret (Some h) \<and> sems (as_world st) (st_sem_id h) = Some (fresh_sems 1))"
    using attach_ended [OF inv] by blast
  show "\<forall>p j st'. as_pc st p = A_find \<longrightarrow> sem_keys (as_world st) key \<noteq> None \<longrightarrow>
      attach_run key bytes n st j st' \<longrightarrow> attach_left (as_pc st' p) = 0 \<longrightarrow> (\<exists>h. as_pc st' p = A_ret (Some h))"
  proof (intro allI impI)
    fix p j st'
    assume "as_pc st p = A_find" "sem_keys (as_world st) key \<noteq> None"
      and run: "attach_run key bytes n st j st'" and ended: "attach_left (as_pc st' p) = 0"
    then have "late key p st" by (simp add: late_def)
    from late_run [OF run inv assms(2) this] ended show "\<exists>h. as_pc st' p = A_ret (Some h)"
      by (auto simp: late_def)
  qed
qed

theorem attach_all_end_witness:
  "\<exists>st. attach_run 7 100 2 (attach_start empty_world (\<lambda>_. E_NONE)) 5 st \<and> 5 \<le> 5 * (2 :: nat) \<and> as_pc st 1 = A_ret None"
proof -
  have "size_ok 100" by (simp add: size_ok_def shmmax_def)
  from race_null [OF free_empty_world this] obtain st where
    "attach_run 7 100 2 (attach_start empty_world (\<lambda>_. E_NONE)) 5 st" "as_pc st 1 = A_ret None" by blast
  with attach_all_end [OF free_empty_world \<open>size_ok 100\<close> this(1)] show ?thesis by blast
qed

text \<open>
  Two processes that attach to the same new key, like those of \<open>fork1.c\<close> after their \<open>fork\<close>, can
  lose: the second fails its \<open>assert\<close> when both have found no segment before the first makes it, and
  gets no stack when it comes between the making of the segment and that of the semaphores.
\<close>

theorem attach_race:
  assumes "free_key key w" and "size_ok bytes"
  shows "(\<exists>st. attach_run key bytes 2 (attach_start w errs) 4 st \<and> as_pc st 1 = A_abort) \<and>
    (\<exists>st. attach_run key bytes 2 (attach_start w errs) 5 st \<and> as_pc st 1 = A_ret None)"
  using race_abort [OF assms] race_null [OF assms] by blast

theorem attach_race_witness:
  "\<exists>st. attach_run 7 fork1_size 2 (attach_start empty_world (\<lambda>_. E_NONE)) 4 st \<and> as_pc st 1 = A_abort"
proof -
  have "size_ok fork1_size" by (simp add: size_ok_def shmmax_def fork1_size_def)
  from attach_race [OF free_empty_world this] show ?thesis by blast
qed

end
