(* ===== verification/Destroy_Conc.thy ===== *)
theory Destroy_Conc
  imports Stack_Tests
begin

text \<open>
  \<open>mark_destruct\<close> of \<open>Stack/stack.c\<close> while other processes are in \<open>push\<close> and \<open>pop\<close>, as when the first
  process of a test program destroys the stack after its \<open>sleep\<close>. The segment stays until the last
  process detaches it; the semaphores are gone at once and every call on them fails.
\<close>

section \<open>Steps without the semaphores\<close>

text \<open>
  \<open>idrm\<close>: the kernel answers \<open>semctl\<close> with \<open>EIDRM\<close>, for which \<open>get_count\<close> ends the program, and not with
  \<open>EINVAL\<close>, after which it returns -1. Both occur: Linux gives \<open>EIDRM\<close> only when a new set has taken the
  place of the old one.
\<close>

definition gone_count :: "bool \<Rightarrow> (int \<Rightarrow> stack_pc) \<Rightarrow> stack_pc" where
  "gone_count idrm f = (if idrm then Dead else f (-1))"

text \<open>Where the next step leads, and what it does to the cells.\<close>

fun gone_pc :: "bool \<Rightarrow> int \<Rightarrow> 64 word list \<Rightarrow> stack_pc \<Rightarrow> stack_pc option" where
  "gone_pc idrm bytes cells (PushLock v) = Some (Ret (-1) None)"
| "gone_pc idrm bytes cells (PushTest v) = Some (gone_count idrm (\<lambda>n. if bytes \<le> n then PushFull else PushIndex v))"
| "gone_pc idrm bytes cells (PushIndex v) = Some (gone_count idrm (\<lambda>n. PushStore v n))"
| "gone_pc idrm bytes cells (PushStore v i) = Some (if 0 \<le> i \<and> nat i < length cells then PushCount v else Dead)"
| "gone_pc idrm bytes cells (PushCount v) = Some PushUnlock"
| "gone_pc idrm bytes cells PushUnlock = Some (Ret 0 None)"
| "gone_pc idrm bytes cells PushFull = Some (Ret (-1) None)"
| "gone_pc idrm bytes cells PopLock = Some (Ret (-1) None)"
| "gone_pc idrm bytes cells PopTest = Some (gone_count idrm (\<lambda>n. if n = 0 then PopEmpty else PopIndex))"
| "gone_pc idrm bytes cells PopIndex = Some (gone_count idrm (\<lambda>n. PopLoad (n - 1)))"
| "gone_pc idrm bytes cells (PopLoad i) = Some (if 0 \<le> i \<and> nat i < length cells then PopCount (cells ! nat i) else Dead)"
| "gone_pc idrm bytes cells (PopCount v) = Some (PopUnlock v)"
| "gone_pc idrm bytes cells (PopUnlock v) = Some (Ret 0 (Some v))"
| "gone_pc idrm bytes cells PopEmpty = Some (Ret (-1) None)"
| "gone_pc idrm bytes cells _ = None"

fun gone_cells :: "64 word list \<Rightarrow> stack_pc \<Rightarrow> 64 word list" where
  "gone_cells cells (PushStore v i) = (if 0 \<le> i then cells[nat i := v] else cells)"
| "gone_cells cells _ = cells"

definition gone_step :: "bool \<Rightarrow> int \<Rightarrow> nat \<Rightarrow> conc \<Rightarrow> conc option" where
  "gone_step idrm bytes p st =
     map_option (\<lambda>pc. goto p pc (st\<lparr>c_cells := gone_cells (c_cells st) (c_pc st p)\<rparr>))
       (gone_pc idrm bytes (c_cells st) (c_pc st p))"

text \<open>The processes from the moment \<open>st0\<close> at which the set is removed.\<close>

inductive gone_reach :: "bool \<Rightarrow> int \<Rightarrow> conc \<Rightarrow> conc \<Rightarrow> bool" for idrm bytes st0 where
  start: "gone_reach idrm bytes st0 st0"
| call_push: "gone_reach idrm bytes st0 st \<Longrightarrow> at_call (c_pc st p) \<Longrightarrow> gone_reach idrm bytes st0 (goto p (PushLock v) st)"
| call_pop: "gone_reach idrm bytes st0 st \<Longrightarrow> at_call (c_pc st p) \<Longrightarrow> gone_reach idrm bytes st0 (goto p PopLock st)"
| move: "gone_reach idrm bytes st0 st \<Longrightarrow> gone_step idrm bytes p st = Some st' \<Longrightarrow> gone_reach idrm bytes st0 st'"
| crash: "gone_reach idrm bytes st0 st \<Longrightarrow> gone_reach idrm bytes st0 (goto p Dead st)"

section \<open>Who still touches the stack\<close>

definition gone_inv :: "conc \<Rightarrow> conc \<Rightarrow> bool" where
  "gone_inv st0 st \<longleftrightarrow>
     (\<forall>p. in_cs (c_pc st p) \<longrightarrow> in_cs (c_pc st0 p)) \<and>
     (\<forall>p v i. c_pc st p = PushStore v i \<longrightarrow> 0 \<le> i \<longrightarrow> c_pc st0 p = PushStore v i) \<and>
     (c_cells st = c_cells st0 \<or>
      (\<exists>p v i. c_pc st0 p = PushStore v i \<and> 0 \<le> i \<and> c_cells st = (c_cells st0)[nat i := v]))"

lemma gone_invD:
  assumes "gone_inv st0 st"
  shows "in_cs (c_pc st p) \<Longrightarrow> in_cs (c_pc st0 p)"
    and "c_pc st p = PushStore v i \<Longrightarrow> 0 \<le> i \<Longrightarrow> c_pc st0 p = PushStore v i"
    and "c_cells st = c_cells st0 \<or>
      (\<exists>p v i. c_pc st0 p = PushStore v i \<and> 0 \<le> i \<and> c_cells st = (c_cells st0)[nat i := v])"
  using assms unfolding gone_inv_def by blast+

lemma gone_goto:
  assumes "gone_inv st0 st" and "in_cs pc \<Longrightarrow> in_cs (c_pc st0 p)"
    and "\<And>v i. pc = PushStore v i \<Longrightarrow> i < 0"
    and "cells = c_cells st \<or> (\<exists>v i. c_pc st0 p = PushStore v i \<and> 0 \<le> i \<and> cells = (c_cells st0)[nat i := v])"
  shows "gone_inv st0 (goto p pc (st\<lparr>c_cells := cells\<rparr>))"
  unfolding gone_inv_def
proof (intro conjI allI impI)
  let ?st = "goto p pc (st\<lparr>c_cells := cells\<rparr>)"
  note D = gone_invD [OF assms(1)]
  show "in_cs (c_pc st0 q)" if "in_cs (c_pc ?st q)" for q
    using that D(1) [of q] assms(2) by (cases "q = p") simp_all
  show "c_pc st0 q = PushStore v i" if "c_pc ?st q = PushStore v i" "0 \<le> i" for q v i
    using that D(2) [of q v i] assms(3) [of v i] by (cases "q = p") simp_all
  show "c_cells ?st = c_cells st0 \<or>
      (\<exists>q v i. c_pc st0 q = PushStore v i \<and> 0 \<le> i \<and> c_cells ?st = (c_cells st0)[nat i := v])"
  proof -
    have "c_cells ?st = cells" by simp
    then show ?thesis using assms(4) D(3) by metis
  qed
qed

lemma gone_pc_cs: "gone_pc idrm bytes cells pc = Some pc' \<Longrightarrow> in_cs pc' \<Longrightarrow> in_cs pc"
  by (cases pc) (auto simp: gone_count_def)

lemma gone_pc_store: "gone_pc idrm bytes cells pc = Some (PushStore v i) \<Longrightarrow> i < 0"
  by (cases pc) (auto simp: gone_count_def split: if_splits)

lemma gone_move:
  assumes inv: "gone_inv st0 st" and conc: "conc_inv bytes st0" and step: "gone_step idrm bytes p st = Some st'"
  shows "gone_inv st0 st'"
proof -
  let ?cells = "gone_cells (c_cells st) (c_pc st p)"
  from step obtain pc where pc: "gone_pc idrm bytes (c_cells st) (c_pc st p) = Some pc"
      "st' = goto p pc (st\<lparr>c_cells := ?cells\<rparr>)"
    by (auto simp: gone_step_def)
  have "?cells = c_cells st \<or> (\<exists>v i. c_pc st0 p = PushStore v i \<and> 0 \<le> i \<and> ?cells = (c_cells st0)[nat i := v])"
  proof (cases "\<exists>v i. c_pc st p = PushStore v i \<and> 0 \<le> i")
    case True
    then obtain v i where i: "c_pc st p = PushStore v i" "0 \<le> i" by blast
    with inv have p: "c_pc st0 p = PushStore v i" by (simp add: gone_inv_def)
    have "(c_cells st)[nat i := v] = (c_cells st0)[nat i := v]"
      using gone_invD(3) [OF inv]
    proof (elim disjE exE)
      fix q u j
      assume q: "c_pc st0 q = PushStore u j \<and> 0 \<le> j \<and> c_cells st = (c_cells st0)[nat j := u]"
      then have "q = p" using conc_invD(4) [OF conc, of q p] p by simp
      with p q show ?thesis by simp
    qed simp
    with i p show ?thesis by simp
  next
    case False
    then have "?cells = c_cells st" by (cases "c_pc st p") auto
    then show ?thesis ..
  qed
  moreover have "in_cs (c_pc st0 p)" if "in_cs pc"
    using gone_pc_cs [OF pc(1) that] inv by (simp add: gone_inv_def)
  ultimately show ?thesis
    unfolding pc(2) using gone_pc_store pc(1) by (intro gone_goto [OF inv]) auto
qed

lemma gone_reach_inv:
  assumes "gone_reach idrm bytes st0 st" and "conc_inv bytes st0"
  shows "gone_inv st0 st"
  using assms(1)
proof induction
  case start
  show ?case by (simp add: gone_inv_def)
next
  case (call_push st p v)
  from gone_goto [OF call_push.IH, of "PushLock v" p "c_cells st"] show ?case by simp
next
  case (call_pop st p)
  from gone_goto [OF call_pop.IH, of PopLock p "c_cells st"] show ?case by simp
next
  case (move st p st')
  from gone_move [OF move.IH assms(2) move.hyps(2)] show ?case .
next
  case (crash st p)
  from gone_goto [OF crash.IH, of Dead p "c_cells st"] show ?case by simp
qed

fun gone_solo :: "bool \<Rightarrow> int \<Rightarrow> nat \<Rightarrow> nat \<Rightarrow> conc \<Rightarrow> conc option" where
  "gone_solo idrm bytes p 0 st = Some st"
| "gone_solo idrm bytes p (Suc n) st =
     (case gone_step idrm bytes p st of None \<Rightarrow> None | Some st' \<Rightarrow> gone_solo idrm bytes p n st')"

lemma gone_reach_ok:
  assumes "conc_reach bytes tf cells st0" and "1 \<le> bytes" and "bytes \<le> int (length cells)" and "bytes \<le> semvmx"
    and "gone_reach idrm bytes st0 st"
  shows "gone_inv st0 st"
proof -
  have "0 \<le> bytes" using assms(2) by simp
  from gone_reach_inv [OF assms(5) conc_reach_inv [OF assms(1) this assms(3,4)]] show ?thesis .
qed

section \<open>Properties\<close>

text \<open>
  C23: when the stack is destroyed while processes are in \<open>push\<close> and \<open>pop\<close>, no call waits any more,
  a call that waits or begins returns -1, no process gets past the flag, and the cells stay
  as they are but for the one store that was about to be made. A process between the flag and the store
  takes the count -1, if the kernel does not say \<open>EIDRM\<close>: \<open>push\<close> stores in front of the segment, which
  faults; if it does, the process ends. A \<open>push\<close> that has stored returns 0, though nothing counts
  the element.
\<close>

theorem destroyed_in_use:
  assumes "conc_reach bytes tf cells st0" and "1 \<le> bytes" and "bytes \<le> int (length cells)" and "bytes \<le> semvmx"
    and "gone_reach idrm bytes st0 st"
  shows "(\<forall>p. \<not> at_call (c_pc st p) \<and> c_pc st p \<noteq> Dead \<longrightarrow> (\<exists>st'. gone_step idrm bytes p st = Some st')) \<and>
    (\<forall>p. (\<exists>v. c_pc st p = PushLock v) \<or> c_pc st p = PopLock \<longrightarrow> gone_step idrm bytes p st = Some (goto p (Ret (-1) None) st)) \<and>
    (\<forall>p. in_cs (c_pc st p) \<longrightarrow> in_cs (c_pc st0 p)) \<and>
    (c_cells st = c_cells st0 \<or>
      (\<exists>p v. c_pc st0 p = PushStore v (c_count st0) \<and> c_cells st = (c_cells st0)[nat (c_count st0) := v])) \<and>
    (\<forall>p v. c_pc st p = PushTest v \<longrightarrow>
      (if idrm then gone_step idrm bytes p st = Some (goto p Dead st)
       else gone_solo idrm bytes p 2 st = Some (goto p (PushStore v (-1)) st) \<and>
         gone_solo idrm bytes p 3 st = Some (goto p Dead st))) \<and>
    (\<forall>p v. c_pc st p = PushCount v \<longrightarrow> gone_solo idrm bytes p 2 st = Some (goto p (Ret 0 None) st))"
proof (intro conjI allI impI)
  have inv: "gone_inv st0 st" by (rule gone_reach_ok [OF assms])
  have conc: "conc_inv bytes st0" using conc_reach_inv [OF assms(1) _ assms(3,4)] assms(2) by simp
  show "\<exists>st'. gone_step idrm bytes p st = Some st'" if "\<not> at_call (c_pc st p) \<and> c_pc st p \<noteq> Dead" for p
    using that by (cases "c_pc st p") (simp_all add: gone_step_def)
  show "gone_step idrm bytes p st = Some (goto p (Ret (-1) None) st)"
    if "(\<exists>v. c_pc st p = PushLock v) \<or> c_pc st p = PopLock" for p
    using that by (auto simp: gone_step_def)
  show "in_cs (c_pc st0 p)" if "in_cs (c_pc st p)" for p using gone_invD(1) [OF inv that] .
  have "i = c_count st0" if "c_pc st0 p = PushStore v i" for p v i
    using conc_invD(5) [OF conc, of p] that by simp
  with gone_invD(3) [OF inv] show "c_cells st = c_cells st0 \<or>
      (\<exists>p v. c_pc st0 p = PushStore v (c_count st0) \<and> c_cells st = (c_cells st0)[nat (c_count st0) := v])"
    by metis
  show "if idrm then gone_step idrm bytes p st = Some (goto p Dead st)
       else gone_solo idrm bytes p 2 st = Some (goto p (PushStore v (-1)) st) \<and>
         gone_solo idrm bytes p 3 st = Some (goto p Dead st)" if "c_pc st p = PushTest v" for p v
    using that assms(2) by (simp add: gone_step_def gone_count_def numeral_eq_Suc goto_def)
  show "gone_solo idrm bytes p 2 st = Some (goto p (Ret 0 None) st)" if "c_pc st p = PushCount v" for p v
    using that by (simp add: gone_step_def numeral_eq_Suc goto_def)
qed

theorem destroyed_in_use_witness:
  "c_pc two_callers 3 = PushTest 5 \<and> gone_solo False 2 3 3 two_callers = Some (goto 3 Dead two_callers)"
proof -
  have "(1 :: int) \<le> 2" "(2 :: int) \<le> int (length [0 :: 64 word, 0])" "2 \<le> semvmx" by (simp_all add: semvmx_def)
  from destroyed_in_use [OF two_callers_reach this gone_reach.start, of False] have
    "c_pc two_callers 3 = PushTest 5 \<Longrightarrow> gone_solo False 2 3 3 two_callers = Some (goto 3 Dead two_callers)" by simp
  then show ?thesis by (simp add: two_callers_pc)
qed

end
