(* ===== verification/Stack_Waits.thy ===== *)
theory Stack_Waits
  imports Stack_Tests
begin

text \<open>
  The programs of \<open>Stack/tests\<close> whose calls may fail: \<open>prog_setwait-1.c\<close> and \<open>sw1.c\<close>, which do not wait
  or wait two seconds for the flag, and \<open>fork.c\<close>, where one process pops what the other pushes. Beside
  the steps of \<open>Shm_Stack_Conc\<close> a process can give up its wait for the flag.
\<close>

section \<open>Runs\<close>

text \<open>The last two fields are history: the calls of each process that returned 0.\<close>

record wait_state =
  w_conc :: conc
  w_todo :: "nat \<Rightarrow> 64 word stack_op list"
  w_pushed :: "nat \<Rightarrow> nat"
  w_popped :: "nat \<Rightarrow> nat"

fun pushes_done :: "stack_pc \<Rightarrow> nat" where
  "pushes_done (Ret r None) = (if r = 0 then 1 else 0)"
| "pushes_done _ = 0"

fun pops_done :: "stack_pc \<Rightarrow> nat" where
  "pops_done (Ret r (Some v)) = (if r = 0 then 1 else 0)"
| "pops_done _ = 0"

definition wait_start :: "64 word list \<Rightarrow> (nat \<Rightarrow> 64 word stack_op list) \<Rightarrow> wait_state" where
  "wait_start cells scripts = \<lparr>w_conc = conc_start cells, w_todo = scripts, w_pushed = (\<lambda>_. 0), w_popped = (\<lambda>_. 0)\<rparr>"

definition wait_call :: "nat \<Rightarrow> 64 word stack_op \<Rightarrow> 64 word stack_op list \<Rightarrow> wait_state \<Rightarrow> wait_state" where
  "wait_call p a as st = st\<lparr>w_conc := goto p (call_pc a) (w_conc st), w_todo := (w_todo st)(p := as)\<rparr>"

definition wait_move :: "nat \<Rightarrow> conc \<Rightarrow> wait_state \<Rightarrow> wait_state" where
  "wait_move p c st = st\<lparr>w_conc := c, w_pushed := (w_pushed st)(p := w_pushed st p + pushes_done (c_pc c p)),
     w_popped := (w_popped st)(p := w_popped st p + pops_done (c_pc c p))\<rparr>"

definition waits_for_flag :: "stack_pc \<Rightarrow> bool" where
  "waits_for_flag pc \<longleftrightarrow> (\<exists>v. pc = PushLock v) \<or> pc = PopLock"

text \<open>\<open>tf\<close> is the value that the processes gave to \<open>set_wait\<close>; with 0 they never give up.\<close>

inductive wait_run ::
  "int \<Rightarrow> int \<Rightarrow> nat \<Rightarrow> (nat \<Rightarrow> 64 word stack_op list) \<Rightarrow> 64 word list \<Rightarrow> nat \<Rightarrow> wait_state \<Rightarrow> bool"
  for bytes tf n scripts cells where
  start: "wait_run bytes tf n scripts cells 0 (wait_start cells scripts)"
| call: "wait_run bytes tf n scripts cells k st \<Longrightarrow> p < n \<Longrightarrow> at_call (c_pc (w_conc st) p) \<Longrightarrow>
    w_todo st p = a # as \<Longrightarrow> wait_run bytes tf n scripts cells (Suc k) (wait_call p a as st)"
| move: "wait_run bytes tf n scripts cells k st \<Longrightarrow> p < n \<Longrightarrow> pstep bytes p (w_conc st) = Some c \<Longrightarrow>
    wait_run bytes tf n scripts cells (Suc k) (wait_move p c st)"
| give_up: "wait_run bytes tf n scripts cells k st \<Longrightarrow> p < n \<Longrightarrow>
    waits_for_flag (c_pc (w_conc st) p) \<Longrightarrow> c_flag (w_conc st) = 0 \<Longrightarrow>
    tf = -1 \<or> tf = 1 \<Longrightarrow> wait_run bytes tf n scripts cells (Suc k) (wait_move p (goto p (Ret (-1) None) (w_conc st)) st)"

section \<open>The ledger\<close>

fun pushes_in :: "'v stack_op list \<Rightarrow> nat" where
  "pushes_in [] = 0"
| "pushes_in (Push v # as) = Suc (pushes_in as)"
| "pushes_in (Pop # as) = pushes_in as"

fun pops_in :: "'v stack_op list \<Rightarrow> nat" where
  "pops_in [] = 0"
| "pops_in (Push v # as) = pops_in as"
| "pops_in (Pop # as) = Suc (pops_in as)"

text \<open>A change of the count that the call has not yet returned from.\<close>

fun push_under_way :: "stack_pc \<Rightarrow> nat" where
  "push_under_way PushUnlock = 1"
| "push_under_way _ = 0"

fun pop_under_way :: "stack_pc \<Rightarrow> nat" where
  "pop_under_way (PopUnlock v) = 1"
| "pop_under_way _ = 0"

fun wait_left :: "stack_pc \<Rightarrow> nat" where
  "wait_left PushFull = 1"
| "wait_left PopEmpty = 1"
| "wait_left pc = steps_left pc"

lemma wait_moves:
  assumes inv: "conc_inv bytes c" and "c_pc c p \<noteq> Dead" and step: "pstep bytes p c = Some c'"
  shows "c_pc c' p \<noteq> Dead \<and> (\<forall>q. q \<noteq> p \<longrightarrow> c_pc c' q = c_pc c q) \<and> wait_left (c_pc c' p) < wait_left (c_pc c p) \<and>
    c_count c' + int (push_under_way (c_pc c p)) + int (pop_under_way (c_pc c' p)) + int (pops_done (c_pc c' p)) =
      c_count c + int (push_under_way (c_pc c' p)) + int (pushes_done (c_pc c' p)) + int (pop_under_way (c_pc c p)) \<and>
    pushes_done (c_pc c' p) + push_under_way (c_pc c' p) + pushes_in (pending (c_pc c' p) as) +
      (if c_pc c' p = PushFull then 1 else 0) = push_under_way (c_pc c p) + pushes_in (pending (c_pc c p) as) \<and>
    pops_done (c_pc c' p) + pop_under_way (c_pc c' p) + pops_in (pending (c_pc c' p) as)
      \<le> pop_under_way (c_pc c p) + pops_in (pending (c_pc c p) as)"
proof -
  note ok = conc_invD(5) [OF inv, of p] and bounds = conc_invD(6-9) [OF inv]
  have flag: "\<exists>c1. flag_op p d c = Some c1 \<and> c' = goto p pc c1 \<and> c_count c1 = c_count c \<and> c_pc c1 = c_pc c"
    if "pstep bytes p c = map_option (goto p pc) (flag_op p d c)" for pc d
    using that step flag_op_keeps by (cases "flag_op p d c") auto
  show ?thesis
  proof (cases "c_pc c p")
    case (PushLock v)
    with flag [of "PushTest v" "-1"] show ?thesis by (auto simp: pstep_def)
  next
    case (PushTest v)
    with step show ?thesis by (cases "bytes \<le> c_count c") (auto simp: pstep_def)
  next
    case (PushIndex v)
    with step show ?thesis by (auto simp: pstep_def)
  next
    case (PushStore v i)
    with ok bounds have "0 \<le> i" "nat i < length (c_cells c)" by auto
    with step PushStore show ?thesis by (auto simp: pstep_def)
  next
    case (PushCount v)
    with ok bounds have "count_op 1 c = Some (c\<lparr>c_count := c_count c + 1\<rparr>)" by (auto simp: count_op_def)
    with step PushCount show ?thesis by (auto simp: pstep_def)
  next
    case PushUnlock
    with flag [of "Ret 0 None" 1] show ?thesis by (auto simp: pstep_def)
  next
    case PushFull
    with flag [of "Ret (-1) None" 1] show ?thesis by (auto simp: pstep_def)
  next
    case PopLock
    with flag [of PopTest "-1"] show ?thesis by (auto simp: pstep_def)
  next
    case PopTest
    with step show ?thesis by (cases "c_count c = 0") (auto simp: pstep_def)
  next
    case PopIndex
    with step show ?thesis by (auto simp: pstep_def)
  next
    case (PopLoad i)
    with ok bounds have "0 \<le> i" "nat i < length (c_cells c)" by auto
    with step PopLoad show ?thesis by (auto simp: pstep_def)
  next
    case (PopCount v)
    with ok bounds have "count_op (-1) c = Some (c\<lparr>c_count := c_count c - 1\<rparr>)" by (auto simp: count_op_def)
    with step PopCount show ?thesis by (auto simp: pstep_def)
  next
    case (PopUnlock v)
    with flag [of "Ret 0 (Some v)" 1] show ?thesis by (auto simp: pstep_def)
  next
    case PopEmpty
    with flag [of "Ret (-1) None" 1] show ?thesis by (auto simp: pstep_def)
  qed (use step assms(2) in \<open>simp_all add: pstep_def\<close>)
qed


section \<open>The invariant\<close>

text \<open>What process \<open>p\<close> has put on the stack, less what it has taken.\<close>

definition net :: "wait_state \<Rightarrow> nat \<Rightarrow> int" where
  "net st p = int (w_pushed st p + push_under_way (c_pc (w_conc st) p)) -
     int (w_popped st p + pop_under_way (c_pc (w_conc st) p))"

definition push_total :: "wait_state \<Rightarrow> nat \<Rightarrow> nat" where
  "push_total st p = w_pushed st p + push_under_way (c_pc (w_conc st) p) +
     pushes_in (pending (c_pc (w_conc st) p) (w_todo st p))"

definition pop_total :: "wait_state \<Rightarrow> nat \<Rightarrow> nat" where
  "pop_total st p = w_popped st p + pop_under_way (c_pc (w_conc st) p) +
     pops_in (pending (c_pc (w_conc st) p) (w_todo st p))"

definition wait_work :: "wait_state \<Rightarrow> nat \<Rightarrow> nat" where
  "wait_work st p = 7 * length (w_todo st p) + wait_left (c_pc (w_conc st) p)"

text \<open>With \<open>sure\<close> no call to \<open>push\<close> fails.\<close>

definition wait_inv :: "int \<Rightarrow> bool \<Rightarrow> nat \<Rightarrow> (nat \<Rightarrow> 64 word stack_op list) \<Rightarrow> wait_state \<Rightarrow> bool" where
  "wait_inv bytes sure n scripts st \<longleftrightarrow>
     conc_inv bytes (w_conc st) \<and> (\<forall>p. c_pc (w_conc st) p \<noteq> Dead) \<and> (\<forall>p\<ge>n. c_pc (w_conc st) p = Idle) \<and>
     (\<forall>p<n. push_total st p \<le> pushes_in (scripts p) \<and> (sure \<longrightarrow> push_total st p = pushes_in (scripts p)) \<and>
       pop_total st p \<le> pops_in (scripts p)) \<and>
     c_count (w_conc st) = (\<Sum>p<n. net st p)"

lemma wait_invD:
  assumes "wait_inv bytes sure n scripts st"
  shows "conc_inv bytes (w_conc st)" and "c_pc (w_conc st) p \<noteq> Dead"
    and "n \<le> p \<Longrightarrow> c_pc (w_conc st) p = Idle"
    and "p < n \<Longrightarrow> push_total st p \<le> pushes_in (scripts p)"
    and "p < n \<Longrightarrow> sure \<Longrightarrow> push_total st p = pushes_in (scripts p)"
    and "p < n \<Longrightarrow> pop_total st p \<le> pops_in (scripts p)"
    and "c_count (w_conc st) = (\<Sum>p<n. net st p)"
  using assms unfolding wait_inv_def by blast+

text \<open>A change of one process keeps the invariant if it keeps that process's ledger.\<close>

lemma wait_inv_step:
  assumes inv: "wait_inv bytes sure n scripts st" and p: "p < n" and "conc_inv bytes (w_conc st')"
    and "c_pc (w_conc st') p \<noteq> Dead"
    and others: "\<And>q. q \<noteq> p \<Longrightarrow> c_pc (w_conc st') q = c_pc (w_conc st) q \<and> w_todo st' q = w_todo st q \<and>
      w_pushed st' q = w_pushed st q \<and> w_popped st' q = w_popped st q"
    and "push_total st' p \<le> push_total st p" and "sure \<Longrightarrow> push_total st' p = push_total st p"
    and "pop_total st' p \<le> pop_total st p"
    and count: "c_count (w_conc st') - c_count (w_conc st) = net st' p - net st p"
  shows "wait_inv bytes sure n scripts st'"
proof -
  note D = wait_invD [OF inv]
  have same: "net st' q = net st q" "push_total st' q = push_total st q" "pop_total st' q = pop_total st q"
    if "q \<noteq> p" for q
    using others [OF that] by (simp_all add: net_def push_total_def pop_total_def)
  have "c_count (w_conc st') = (\<Sum>q<n. net st' q)"
    using sum_step [of p n "net st'" "net st", OF p same(1)] D(7) count by simp
  moreover have "push_total st' q \<le> pushes_in (scripts q) \<and> (sure \<longrightarrow> push_total st' q = pushes_in (scripts q)) \<and>
      pop_total st' q \<le> pops_in (scripts q)" if "q < n" for q
  proof (cases "q = p")
    case True
    show ?thesis unfolding True 
      using le_trans [OF assms(6) D(4) [OF p]] le_trans [OF assms(8) D(6) [OF p]] assms(7) D(5) [OF p] by simp
  next
    case False
    show ?thesis unfolding same [OF False] using D(4-6) [OF that] by blast
  qed
  moreover have "c_pc (w_conc st') q \<noteq> Dead" for q using others D(2) assms(4) by metis
  moreover have "c_pc (w_conc st') q = Idle" if "n \<le> q" for q using others D(3) [OF that] p that by force
  ultimately show ?thesis using assms(3) unfolding wait_inv_def by blast
qed

lemma wait_move_simps [simp]:
  "w_conc (wait_move p c st) = c" "w_todo (wait_move p c st) = w_todo st"
  "w_pushed (wait_move p c st) q = w_pushed st q + (if q = p then pushes_done (c_pc c p) else 0)"
  "w_popped (wait_move p c st) q = w_popped st q + (if q = p then pops_done (c_pc c p) else 0)"
  by (simp_all add: wait_move_def)

lemma wait_call_simps [simp]:
  "w_conc (wait_call p a as st) = goto p (call_pc a) (w_conc st)" "w_todo (wait_call p a as st) = (w_todo st)(p := as)"
  "w_pushed (wait_call p a as st) = w_pushed st" "w_popped (wait_call p a as st) = w_popped st"
  by (simp_all add: wait_call_def)

lemma becomes_full:
  assumes "pstep bytes p c = Some c'" and "c_pc c' p = PushFull"
  shows "\<exists>v. c_pc c p = PushTest v \<and> bytes \<le> c_count c"
proof -
  have "c_pc c' p \<noteq> PushFull" if "pstep bytes p c = map_option (goto p pc) (flag_op p d c)" "pc \<noteq> PushFull" for pc d
    using that assms(1) by (cases "flag_op p d c") auto
  with assms show ?thesis
    by (cases "c_pc c p") (auto simp: pstep_def die_def split: if_splits option.splits)
qed

text \<open>A call to \<open>push\<close> that is not yet through finds room, if there is room for all the calls.\<close>

lemma sure_room:
  assumes inv: "wait_inv bytes True n scripts st" and p: "p < n" and "c_pc (w_conc st) p = PushTest v"
    and room: "(\<Sum>p<n. int (pushes_in (scripts p))) \<le> bytes"
  shows "c_count (w_conc st) < bytes"
proof -
  have le: "net st q \<le> int (push_total st q)" for q by (simp add: net_def push_total_def)
  have "(\<Sum>q<n. net st q) < (\<Sum>q<n. int (push_total st q))"
    by (rule sum_strict_mono_ex1) (use le p assms(3) in \<open>auto simp: net_def push_total_def intro!: bexI [of _ p]\<close>)
  also have "\<dots> = (\<Sum>q<n. int (pushes_in (scripts q)))"
    by (intro sum.cong) (simp_all add: wait_invD(5) [OF inv])
  finally show ?thesis using wait_invD(7) [OF inv] room by simp
qed


definition enough_room :: "bool \<Rightarrow> int \<Rightarrow> nat \<Rightarrow> (nat \<Rightarrow> 64 word stack_op list) \<Rightarrow> bool" where
  "enough_room sure bytes n scripts \<longleftrightarrow> (sure \<longrightarrow> (\<Sum>p<n. int (pushes_in (scripts p))) \<le> bytes)"

lemma wait_inv_move:
  assumes inv: "wait_inv bytes sure n scripts st" and p: "p < n" and step: "pstep bytes p (w_conc st) = Some c"
    and room: "enough_room sure bytes n scripts"
  shows "wait_inv bytes sure n scripts (wait_move p c st)"
    and "wait_work (wait_move p c st) p < wait_work st p"
    and "q \<noteq> p \<Longrightarrow> wait_work (wait_move p c st) q = wait_work st q"
proof -
  note D = wait_invD [OF inv]
  note M = wait_moves [OF D(1) D(2) step, of "w_todo st p"]
  have others: "c_pc c q = c_pc (w_conc st) q" if "q \<noteq> p" for q using M that by blast
  have not_full: "c_pc c p \<noteq> PushFull" if sure: sure
  proof
    assume "c_pc c p = PushFull"
    from becomes_full [OF step this] obtain v where v: "c_pc (w_conc st) p = PushTest v" "bytes \<le> c_count (w_conc st)"
      by blast
    from inv sure have "wait_inv bytes True n scripts st" by simp
    from sure_room [OF this p v(1)] v(2) room sure show False by (simp add: enough_room_def)
  qed
  have push: "push_total (wait_move p c st) p + (if c_pc c p = PushFull then 1 else 0) = push_total st p"
    and pop: "pop_total (wait_move p c st) p \<le> pop_total st p"
    using M by (simp_all add: push_total_def pop_total_def)
  show "wait_inv bytes sure n scripts (wait_move p c st)"
  proof (rule wait_inv_step [OF inv p])
    show "conc_inv bytes (w_conc (wait_move p c st))" using pstep_inv [OF D(1) step] by simp
    show "c_pc (w_conc (wait_move p c st)) p \<noteq> Dead" using M by simp
    show "push_total (wait_move p c st) p \<le> push_total st p" using push by simp
    show "push_total (wait_move p c st) p = push_total st p" if sure using push not_full [OF that] by simp
    show "pop_total (wait_move p c st) p \<le> pop_total st p" by (rule pop)
    show "c_count (w_conc (wait_move p c st)) - c_count (w_conc st) = net (wait_move p c st) p - net st p"
      using M by (simp add: net_def)
  qed (use others in simp)
  show "wait_work (wait_move p c st) p < wait_work st p" using M by (simp add: wait_work_def)
  show "q \<noteq> p \<Longrightarrow> wait_work (wait_move p c st) q = wait_work st q" using others by (simp add: wait_work_def)
qed

lemma call_pc_ledger [simp]:
  "push_under_way (call_pc a) = 0" "pop_under_way (call_pc a) = 0" "wait_left (call_pc a) = 6" "call_pc a \<noteq> Dead"
  by (cases a; simp add: call_pc_def)+

lemma at_call_ledger:
  assumes "at_call pc"
  shows "push_under_way pc = 0" "pop_under_way pc = 0" "wait_left pc = 0"
  using assms by (cases pc; simp)+

lemma wait_inv_call:
  assumes inv: "wait_inv bytes sure n scripts st" and p: "p < n" and at: "at_call (c_pc (w_conc st) p)"
    and todo: "w_todo st p = a # as"
  shows "wait_inv bytes sure n scripts (wait_call p a as st)"
    and "wait_work (wait_call p a as st) p < wait_work st p"
    and "q \<noteq> p \<Longrightarrow> wait_work (wait_call p a as st) q = wait_work st q"
proof -
  note D = wait_invD [OF inv] and L = at_call_ledger [OF at] at_call_pending [OF at]
  have "conc_inv bytes (goto p (call_pc a) (w_conc st))"
    by (rule inv_stay [OF D(1), of "call_pc a" p]) (use at_call_cs [OF at] conc_invD(6,7) [OF D(1)] in auto)
  then show "wait_inv bytes sure n scripts (wait_call p a as st)"
    by (intro wait_inv_step [OF inv p]) (simp_all add: net_def push_total_def pop_total_def L todo)
  show "wait_work (wait_call p a as st) p < wait_work st p"
    using todo by (simp add: wait_work_def L)
  show "q \<noteq> p \<Longrightarrow> wait_work (wait_call p a as st) q = wait_work st q"
    by (simp add: wait_work_def)
qed

lemma wait_inv_give_up:
  assumes inv: "wait_inv bytes False n scripts st" and p: "p < n" and at: "waits_for_flag (c_pc (w_conc st) p)"
  defines "st' \<equiv> wait_move p (goto p (Ret (-1) None) (w_conc st)) st"
  shows "wait_inv bytes False n scripts st'"
    and "wait_work st' p < wait_work st p"
    and "q \<noteq> p \<Longrightarrow> wait_work st' q = wait_work st q"
proof -
  note D = wait_invD [OF inv]
  have "conc_inv bytes (goto p (Ret (-1) None) (w_conc st))"
    by (rule inv_stay [OF D(1), of "Ret (-1) None" p]) (use at conc_invD(6,7) [OF D(1)] in \<open>auto simp: waits_for_flag_def\<close>)
  then show "wait_inv bytes False n scripts st'"
    by (intro wait_inv_step [OF inv p])
      (use at in \<open>auto simp: st'_def net_def push_total_def pop_total_def waits_for_flag_def\<close>)
  show "wait_work st' p < wait_work st p"
    using at by (auto simp: st'_def wait_work_def waits_for_flag_def)
  show "q \<noteq> p \<Longrightarrow> wait_work st' q = wait_work st q"
    by (simp add: st'_def wait_work_def)
qed


section \<open>Runs keep the ledger, and get to their end\<close>

lemma wait_run_inv:
  assumes "wait_run bytes tf n scripts cells k st" and "0 \<le> bytes" and "bytes \<le> int (length cells)" and "bytes \<le> semvmx"
    and "enough_room sure bytes n scripts" and "sure \<Longrightarrow> tf = 0"
  shows "wait_inv bytes sure n scripts st \<and> k + (\<Sum>p<n. wait_work st p) \<le> (\<Sum>p<n. 7 * length (scripts p))"
  using assms(1)
proof induction
  case start
  from assms(2-4) show ?case
    by (simp add: wait_inv_def wait_start_def conc_start_def conc_inv_def net_def push_total_def pop_total_def wait_work_def)
next
  case (call k st p a as)
  then have inv: "wait_inv bytes sure n scripts st" by blast
  note C = wait_inv_call [OF inv call.hyps(2-4)]
  from sum_decreases [of p n "wait_work (wait_call p a as st)" "wait_work st", OF call.hyps(2) C(2,3)] C(1) call.IH
  show ?case by simp
next
  case (move k st p c)
  then have inv: "wait_inv bytes sure n scripts st" by blast
  note C = wait_inv_move [OF inv move.hyps(2,3) assms(5)]
  from sum_decreases [of p n "wait_work (wait_move p c st)" "wait_work st", OF move.hyps(2) C(2,3)] C(1) move.IH
  show ?case by simp
next
  case (give_up k st p)
  let ?st = "wait_move p (goto p (Ret (-1) None) (w_conc st)) st"
  have "\<not> sure" using give_up.hyps(5) assms(6) by auto
  with give_up.IH have inv: "wait_inv bytes False n scripts st" by simp
  note C = wait_inv_give_up [OF inv give_up.hyps(2,3)]
  from sum_decreases [of p n "wait_work ?st" "wait_work st", OF give_up.hyps(2) C(2,3)] C(1) give_up.IH \<open>\<not> sure\<close>
  show ?case by simp
qed

definition through :: "nat \<Rightarrow> wait_state \<Rightarrow> bool" where
  "through n st \<longleftrightarrow> (\<forall>p<n. w_todo st p = [] \<and> at_call (c_pc (w_conc st) p))"

lemma wait_run_next:
  assumes inv: "wait_inv bytes sure n scripts st" and "\<not> through n st"
  shows "can_move bytes n (w_conc st) (w_todo st)"
proof -
  note D = wait_invD [OF inv]
  from assms(2) obtain p where p: "p < n" "w_todo st p \<noteq> [] \<or> \<not> at_call (c_pc (w_conc st) p)"
    by (auto simp: through_def)
  consider (held) q where "in_cs (c_pc (w_conc st) q)" | (calls) "at_call (c_pc (w_conc st) p)" "w_todo st p \<noteq> []"
    | (free) "c_flag (w_conc st) = 1" "\<not> in_cs (c_pc (w_conc st) p)" "\<not> at_call (c_pc (w_conc st) p)"
    using p(2) conc_invD(3) [OF D(1)] by blast
  then show ?thesis
  proof cases
    case held
    then have "q < n" using D(3) [of q] by (cases "q < n") auto
    with holder_moves [OF D(1) held] show ?thesis unfolding can_move_def by blast
  next
    case calls
    with p(1) show ?thesis unfolding can_move_def by blast
  next
    case free
    have "\<exists>c. pstep bytes p (w_conc st) = Some c"
      by (cases "c_pc (w_conc st) p") (use free D(2) [of p] in \<open>simp_all add: pstep_def flag_op_def\<close>)
    with p(1) show ?thesis unfolding can_move_def by blast
  qed
qed

text \<open>What a run looks like after \<open>k\<close> steps.\<close>

definition wait_fine ::
  "bool \<Rightarrow> int \<Rightarrow> int \<Rightarrow> nat \<Rightarrow> (nat \<Rightarrow> 64 word stack_op list) \<Rightarrow> 64 word list \<Rightarrow> nat \<Rightarrow> wait_state \<Rightarrow> bool" where
  "wait_fine sure bytes tf n scripts cells k st \<longleftrightarrow>
     k \<le> (\<Sum>p<n. 7 * length (scripts p)) \<and> 0 \<le> c_count (w_conc st) \<and> c_count (w_conc st) \<le> bytes \<and>
     (\<not> through n st \<longrightarrow> can_move bytes n (w_conc st) (w_todo st)) \<and>
     (through n st \<longrightarrow> c_flag (w_conc st) = 1 \<and>
       c_count (w_conc st) = (\<Sum>p<n. int (w_pushed st p)) - (\<Sum>p<n. int (w_popped st p)) \<and>
       (\<forall>p<n. w_pushed st p \<le> pushes_in (scripts p) \<and> w_popped st p \<le> pops_in (scripts p) \<and>
         (sure \<longrightarrow> w_pushed st p = pushes_in (scripts p))))"

lemma wait_run_fine:
  assumes run: "wait_run bytes tf n scripts cells k st" and "0 \<le> bytes" and "bytes \<le> int (length cells)"
    and "bytes \<le> semvmx" and "enough_room sure bytes n scripts" and "sure \<Longrightarrow> tf = 0"
  shows "wait_fine sure bytes tf n scripts cells k st"
proof -
  from wait_run_inv [OF assms] have inv: "wait_inv bytes sure n scripts st"
    and k: "k + (\<Sum>p<n. wait_work st p) \<le> (\<Sum>p<n. 7 * length (scripts p))" by blast+
  note D = wait_invD [OF inv]
  have thru: "c_flag (w_conc st) = 1 \<and>
       c_count (w_conc st) = (\<Sum>p<n. int (w_pushed st p)) - (\<Sum>p<n. int (w_popped st p)) \<and>
       (\<forall>p<n. w_pushed st p \<le> pushes_in (scripts p) \<and> w_popped st p \<le> pops_in (scripts p) \<and>
         (sure \<longrightarrow> w_pushed st p = pushes_in (scripts p)))" if t: "through n st"
  proof (intro conjI allI impI)
    have at: "at_call (c_pc (w_conc st) p)" for p
      using t D(3) [of p] by (cases "p < n") (simp_all add: through_def)
    then have "\<not> in_cs (c_pc (w_conc st) p)" for p using at_call_cs by blast
    with conc_invD(3) [OF D(1)] show "c_flag (w_conc st) = 1" by blast
    note L = at_call_ledger [OF at] at_call_pending [OF at]
    have "net st p = int (w_pushed st p) - int (w_popped st p)" for p by (simp add: net_def L)
    with D(7) show "c_count (w_conc st) = (\<Sum>p<n. int (w_pushed st p)) - (\<Sum>p<n. int (w_popped st p))"
      by (simp add: sum_subtractf)
    fix p assume p: "p < n"
    have "push_total st p = w_pushed st p" "pop_total st p = w_popped st p"
      using t p by (simp_all add: push_total_def pop_total_def L through_def)
    with D(4-6) [OF p] show "w_pushed st p \<le> pushes_in (scripts p)" "w_popped st p \<le> pops_in (scripts p)"
      "sure \<Longrightarrow> w_pushed st p = pushes_in (scripts p)" by simp_all
  qed
  have "k \<le> (\<Sum>p<n. 7 * length (scripts p))" using k by simp
  with conc_invD(6,7) [OF D(1)] thru wait_run_next [OF inv] show ?thesis
    unfolding wait_fine_def by blast
qed


section \<open>The programs\<close>

text \<open>\<open>prog_setwait-1.c\<close>: each of two processes pushes 1 to 30 and pops 30 times, and never waits.\<close>

definition setwait1_size :: int where "setwait1_size = 30"

definition setwait1_script :: "64 word stack_op list" where
  "setwait1_script =
     map (\<lambda>i. Push (null_plus (int i + 1))) [0..<nat setwait1_size] @ map (\<lambda>i. Pop) [0..<nat setwait1_size]"

text \<open>\<open>sw1.c\<close>: the same with ten, and two seconds for every wait.\<close>

definition sw1_size :: int where "sw1_size = 10"

definition sw1_script :: "64 word stack_op list" where
  "sw1_script = map (\<lambda>i. Push (null_plus (int i + 1))) [0..<nat sw1_size] @ map (\<lambda>i. Pop) [0..<nat sw1_size]"

text \<open>\<open>fork.c\<close>: the parent, process 0, pushes from \<open>NULL + pid\<close> on, the child pops; both wait.\<close>

definition fork_size :: int where "fork_size = 20"

definition fork_script :: "int \<Rightarrow> nat \<Rightarrow> 64 word stack_op list" where
  "fork_script pid p =
     (if p = 0 then map (\<lambda>i. Push (null_plus (pid + int i))) [0..<nat fork_size]
      else map (\<lambda>i. Pop) [0..<nat fork_size])"

lemma in_append [simp]:
  "pushes_in (as @ bs) = pushes_in as + pushes_in bs" "pops_in (as @ bs) = pops_in as + pops_in bs"
  by (induction as rule: pushes_in.induct) simp_all

lemma in_map [simp]:
  "pushes_in (map (\<lambda>i. Push (f i)) xs) = length xs" "pops_in (map (\<lambda>i. Push (f i)) xs) = 0"
  "pushes_in (map (\<lambda>i. Pop) xs) = 0" "pops_in (map (\<lambda>i. Pop) xs) = length xs"
  by (induction xs) simp_all

lemma fork_run_fine:
  assumes "wait_run fork_size 0 2 (fork_script pid) (replicate (seg_cells fork_size) 0) k st"
  shows "wait_fine True fork_size 0 2 (fork_script pid) (replicate (seg_cells fork_size) 0) k st"
    and "through 2 st \<Longrightarrow> c_count (w_conc st) = 20 - int (w_popped st 1)"
proof -
  have two: "{..<2} = {0, 1 :: nat}" by auto
  have "enough_room True fork_size 2 (fork_script pid)"
    by (simp add: enough_room_def two fork_script_def fork_size_def del: upt_Suc)
  then show fine: "wait_fine True fork_size 0 2 (fork_script pid) (replicate (seg_cells fork_size) 0) k st"
    by (intro wait_run_fine [OF assms]) (simp_all add: fork_size_def semvmx_def seg_cells_def)
  assume thru: "through 2 st"
  have all: "w_pushed st p = pushes_in (fork_script pid p)" "w_popped st p \<le> pops_in (fork_script pid p)" if "p < 2" for p
    using fine thru that unfolding wait_fine_def by blast+
  have "w_pushed st 0 = 20" "w_pushed st 1 = 0" "w_popped st 0 = 0"
    using all [of 0] all [of 1] by (simp_all add: fork_script_def fork_size_def del: upt_Suc)
  with thru show "c_count (w_conc st) = 20 - int (w_popped st 1)"
    using fine unfolding wait_fine_def by (simp add: two)
qed

section \<open>The property\<close>

text \<open>
  C20: the loops of \<open>prog_setwait-1.c\<close> and \<open>sw1.c\<close>, where a call may give up, and of \<open>fork.c\<close>, from the moment when both
  processes have attached the same, empty stack, and for as long as the parent has not destroyed it (it does so after
  its \<open>sleep\<close>, and waits for nobody; \<open>fork.c\<close> neither clears the key nor looks at what \<open>attach_stack\<close>
  returned, and with \<open>NULL\<close> every call returns -1): however the processes
  interleave, the stack never holds more than its size, seven steps for each call are enough, some
  process can take its next step until all are through, and then the flag is up and the count is the number of pushes that
  returned 0 less the number of pops. In \<open>fork.c\<close> every push succeeds then, so the count is 20 less
  the pops of the child.
\<close>

theorem waiting_programs_account:
  "(wait_run setwait1_size (-1) 2 (\<lambda>p. setwait1_script) (replicate (seg_cells setwait1_size) 0) k st \<longrightarrow>
      wait_fine False setwait1_size (-1) 2 (\<lambda>p. setwait1_script) (replicate (seg_cells setwait1_size) 0) k st) \<and>
   (wait_run sw1_size 1 2 (\<lambda>p. sw1_script) (replicate (seg_cells sw1_size) 0) k st \<longrightarrow>
      wait_fine False sw1_size 1 2 (\<lambda>p. sw1_script) (replicate (seg_cells sw1_size) 0) k st) \<and>
   (wait_run fork_size 0 2 (fork_script pid) (replicate (seg_cells fork_size) 0) k st \<longrightarrow>
      wait_fine True fork_size 0 2 (fork_script pid) (replicate (seg_cells fork_size) 0) k st \<and>
      (through 2 st \<longrightarrow> c_count (w_conc st) = 20 - int (w_popped st 1)))"
proof (intro conjI impI)
  assume "wait_run setwait1_size (-1) 2 (\<lambda>p. setwait1_script) (replicate (seg_cells setwait1_size) 0) k st"
  then show "wait_fine False setwait1_size (-1) 2 (\<lambda>p. setwait1_script) (replicate (seg_cells setwait1_size) 0) k st"
    by (rule wait_run_fine) (simp_all add: enough_room_def setwait1_size_def semvmx_def seg_cells_def)
next
  assume "wait_run sw1_size 1 2 (\<lambda>p. sw1_script) (replicate (seg_cells sw1_size) 0) k st"
  then show "wait_fine False sw1_size 1 2 (\<lambda>p. sw1_script) (replicate (seg_cells sw1_size) 0) k st"
    by (rule wait_run_fine) (simp_all add: enough_room_def sw1_size_def semvmx_def seg_cells_def)
qed (rule fork_run_fine; assumption)+

text \<open>The second process gives up its first push while the first is in the critical section.\<close>

theorem waiting_programs_account_witness:
  "\<exists>st. c_pc (w_conc st) 1 = Ret (-1) None \<and> c_flag (w_conc st) = 0 \<and>
    wait_fine False sw1_size 1 2 (\<lambda>p. sw1_script) (replicate (seg_cells sw1_size) 0) 4 st"
proof -
  define cells where "cells = replicate (seg_cells sw1_size) (0 :: 64 word)"
  let ?run = "wait_run sw1_size 1 2 (\<lambda>p. sw1_script) cells"
  obtain as where as: "sw1_script = Push 1 # as"
    by (simp add: sw1_script_def sw1_size_def null_plus_def upt_rec [of 0] del: upt_Suc)
  define s1 where "s1 = wait_call 0 (Push 1) as (wait_start cells (\<lambda>p. sw1_script))"
  define s2 where "s2 = wait_call 1 (Push 1) as s1"
  define c where "c = goto 0 (PushTest 1) ((w_conc s2)\<lparr>c_flag := 0, c_adj := (c_adj (w_conc s2))(0 := 1)\<rparr>)"
  define s3 where "s3 = wait_move 0 c s2"
  define s4 where "s4 = wait_move 1 (goto 1 (Ret (-1) None) c) s3"
  have "?run 1 s1" unfolding s1_def One_nat_def
    by (rule wait_run.call [OF wait_run.start]) (simp_all add: wait_start_def conc_start_def as)
  then have "?run (Suc 1) s2" unfolding s2_def
    by (rule wait_run.call) (simp_all add: s1_def wait_start_def conc_start_def as call_pc_def)
  then have "?run (Suc (Suc 1)) s3" unfolding s3_def
    by (rule wait_run.move)
      (simp_all add: c_def s2_def s1_def wait_start_def conc_start_def call_pc_def pstep_def flag_op_def)
  moreover have s3: "w_conc s3 = c" "c_pc c 1 = PushLock 1" "c_flag c = 0"
    by (simp_all add: s3_def c_def s2_def s1_def call_pc_def)
  ultimately have "?run (Suc (Suc (Suc 1))) s4" unfolding s4_def s3(1) [symmetric]
    by (intro wait_run.give_up) (simp_all add: waits_for_flag_def)
  then have "wait_fine False sw1_size 1 2 (\<lambda>p. sw1_script) cells 4 s4"
    using waiting_programs_account [of 4 s4] by (simp add: cells_def eval_nat_numeral)
  moreover have "c_pc (w_conc s4) 1 = Ret (-1) None" "c_flag (w_conc s4) = 0"
    by (simp_all add: s4_def s3)
  ultimately show ?thesis unfolding cells_def by blast
qed

end
