(* ===== verification/Stack_Life.thy ===== *)
theory Stack_Life
  imports Attach_Conc Stack_Waits
begin

text \<open>
  The test programs of the stack from their \<open>fork\<close> on: every process calls \<open>attach_stack\<close>, fails its
  \<open>assert\<close> or goes on to its pushes and pops, while others may still be attaching. \<open>Attach_Conc\<close> and
  \<open>Stack_Tests\<close> run side by side; they meet in the flag, which is down until the process
  that made the semaphores raises it.
\<close>

section \<open>Both systems as one\<close>

text \<open>
  The tables of the kernel and the calls of \<open>attach_stack\<close> are in \<open>l_att\<close>; the values of the
  semaphores, the cells and the calls of \<open>push\<close> and \<open>pop\<close> in \<open>l_test\<close>.
\<close>

record life =
  l_att :: attach_sys
  l_test :: test_state

fun got_stack :: "attach_pc \<Rightarrow> bool" where
  "got_stack (A_ret (Some h)) = True"
| "got_stack _ = False"

fun raises_flag :: "attach_pc \<Rightarrow> bool" where
  "raises_flag (A_flag i m s) = True"
| "raises_flag _ = False"

definition life_start ::
  "stack_world \<Rightarrow> (nat \<Rightarrow> errno) \<Rightarrow> 64 word list \<Rightarrow> (nat \<Rightarrow> 64 word stack_op list) \<Rightarrow> life" where
  "life_start w errs cells scripts =
     \<lparr>l_att = attach_start w errs, l_test = \<lparr>t_conc = (conc_start cells)\<lparr>c_flag := 0\<rparr>, t_todo = scripts\<rparr>\<rparr>"

definition life_attach :: "nat \<Rightarrow> attach_sys \<Rightarrow> life \<Rightarrow> life" where
  "life_attach p att st =
     (let c = t_conc (l_test st) in
      st\<lparr>l_att := att,
        l_test := (l_test st)\<lparr>t_conc := (if raises_flag (as_pc (l_att st) p) then c\<lparr>c_flag := c_flag c + 1\<rparr> else c)\<rparr>\<rparr>)"

text \<open>A process without a stack has failed \<open>assert(stack != NULL)\<close> and makes no call.\<close>

inductive life_run ::
  "int \<Rightarrow> int \<Rightarrow> nat \<Rightarrow> (nat \<Rightarrow> 64 word stack_op list) \<Rightarrow> 64 word list \<Rightarrow> stack_world \<Rightarrow> (nat \<Rightarrow> errno) \<Rightarrow>
   nat \<Rightarrow> life \<Rightarrow> bool"
  for key bytes n scripts cells w errs where
  start: "life_run key bytes n scripts cells w errs 0 (life_start w errs cells scripts)"
| attach: "life_run key bytes n scripts cells w errs k st \<Longrightarrow> p < n \<Longrightarrow>
    attach_move key bytes p (l_att st) = Some att \<Longrightarrow>
    life_run key bytes n scripts cells w errs (Suc k) (life_attach p att st)"
| call: "life_run key bytes n scripts cells w errs k st \<Longrightarrow> p < n \<Longrightarrow> got_stack (as_pc (l_att st) p) \<Longrightarrow>
    at_call (c_pc (t_conc (l_test st)) p) \<Longrightarrow> t_todo (l_test st) p = a # as \<Longrightarrow>
    life_run key bytes n scripts cells w errs (Suc k) (st\<lparr>l_test := begin_call p a as (l_test st)\<rparr>)"
| move: "life_run key bytes n scripts cells w errs k st \<Longrightarrow> p < n \<Longrightarrow>
    pstep bytes p (t_conc (l_test st)) = Some c \<Longrightarrow>
    life_run key bytes n scripts cells w errs (Suc k) (st\<lparr>l_test := (l_test st)\<lparr>t_conc := c\<rparr>\<rparr>)"

section \<open>What the parts see\<close>

text \<open>The calls as a run of \<open>Stack_Tests\<close>: there the flag is up from the start.\<close>

definition opened :: "int \<Rightarrow> life \<Rightarrow> test_state" where
  "opened key st =
     (if flag_up key (as_world (l_att st)) then l_test st
      else (l_test st)\<lparr>t_conc := (t_conc (l_test st))\<lparr>c_flag := 1\<rparr>\<rparr>)"

fun at_lock :: "stack_pc \<Rightarrow> bool" where
  "at_lock Idle = True"
| "at_lock (PushLock v) = True"
| "at_lock PopLock = True"
| "at_lock _ = False"

definition life_inv ::
  "int \<Rightarrow> int \<Rightarrow> nat \<Rightarrow> (nat \<Rightarrow> 64 word stack_op list) \<Rightarrow> 64 word list \<Rightarrow> stack_world \<Rightarrow> (nat \<Rightarrow> errno) \<Rightarrow>
   nat \<Rightarrow> life \<Rightarrow> bool" where
  "life_inv key bytes n scripts cells w errs k st \<longleftrightarrow>
     (\<exists>i j. k = i + j \<and> attach_run key bytes n (attach_start w errs) i (l_att st) \<and>
       test_run bytes n scripts cells j (opened key st)) \<and>
     (\<not> flag_up key (as_world (l_att st)) \<longrightarrow>
       c_flag (t_conc (l_test st)) = 0 \<and> (\<forall>p. at_lock (c_pc (t_conc (l_test st)) p))) \<and>
     (\<forall>p. \<not> got_stack (as_pc (l_att st) p) \<longrightarrow>
       c_pc (t_conc (l_test st)) p = Idle \<and> t_todo (l_test st) p = scripts p)"

lemma life_invI:
  assumes "attach_run key bytes n (attach_start w errs) i (l_att st)" and "test_run bytes n scripts cells j (opened key st)"
    and "k = i + j" and "\<And>p. \<not> flag_up key (as_world (l_att st)) \<Longrightarrow>
      c_flag (t_conc (l_test st)) = 0 \<and> at_lock (c_pc (t_conc (l_test st)) p)"
    and "\<And>p. \<not> got_stack (as_pc (l_att st) p) \<Longrightarrow>
      c_pc (t_conc (l_test st)) p = Idle \<and> t_todo (l_test st) p = scripts p"
  shows "life_inv key bytes n scripts cells w errs k st"
  using assms unfolding life_inv_def by blast

lemma life_invE:
  assumes "life_inv key bytes n scripts cells w errs k st"
  obtains i j where "k = i + j" and "attach_run key bytes n (attach_start w errs) i (l_att st)"
    and "test_run bytes n scripts cells j (opened key st)"
  using assms unfolding life_inv_def by blast

lemma life_invD:
  assumes "life_inv key bytes n scripts cells w errs k st"
  shows "\<not> flag_up key (as_world (l_att st)) \<Longrightarrow> c_flag (t_conc (l_test st)) = 0"
    and "\<not> flag_up key (as_world (l_att st)) \<Longrightarrow> at_lock (c_pc (t_conc (l_test st)) p)"
    and "\<not> got_stack (as_pc (l_att st) p) \<Longrightarrow> c_pc (t_conc (l_test st)) p = Idle \<and> t_todo (l_test st) p = scripts p"
  using assms unfolding life_inv_def by blast+

lemma opened_pcs [simp]:
  "c_pc (t_conc (opened key st)) = c_pc (t_conc (l_test st))" "t_todo (opened key st) = t_todo (l_test st)"
  "c_count (t_conc (opened key st)) = c_count (t_conc (l_test st))"
  by (simp_all add: opened_def)

lemma no_step_at_lock: "at_lock (c_pc c p) \<Longrightarrow> c_flag c = 0 \<Longrightarrow> pstep bytes p c = None"
  by (cases "c_pc c p") (simp_all add: pstep_def flag_op_def)

lemma made_by_raising:
  "attach_step key bytes pc w = Some (A_ret (Some h), w') \<Longrightarrow> making pc \<Longrightarrow> raises_flag pc"
  by (cases pc) (auto simp: attach_step_def split: prod.splits if_splits)

text \<open>The flag of \<open>l_test\<close> goes up when the tables say that the stack is ready.\<close>

lemma raising_is_ready:
  assumes inv: "attach_inv key bytes n st" and "size_ok bytes" and "attach_move key bytes p st = Some st'"
  shows "flag_up key (as_world st') \<longleftrightarrow> flag_up key (as_world st) \<or> raises_flag (as_pc st p)"
    and "raises_flag (as_pc st p) \<Longrightarrow> \<not> flag_up key (as_world st)"
    and "\<not> got_stack (as_pc st p)" and "q \<noteq> p \<Longrightarrow> as_pc st' q = as_pc st q"
proof -
  note D = attach_invD [OF inv]
  obtain pc w where st': "st' = \<lparr>as_world = w, as_pc = (as_pc st)(p := pc), as_errno = (as_errno st)(p := errno w)\<rparr>"
    and step: "attach_step key bytes (as_pc st p) (as_world st\<lparr>errno := as_errno st p\<rparr>) = Some (pc, w)"
    and ok: "step_ok key bytes (as_world st) (as_pc st p) w pc"
    by (rule attach_moveE [OF assms])
  have raises: "making pc" if "raises_flag pc" for pc using that by (cases pc) auto
  have ends: "\<not> making pc" if "raises_flag (as_pc st p)"
    using that step by (cases "as_pc st p") (auto simp: attach_step_def split: outcome.splits)
  show down: "raises_flag (as_pc st p) \<Longrightarrow> \<not> flag_up key (as_world st)"
    using raises D(4) by blast
  have "shm_keys (as_world st) key = None \<Longrightarrow> \<not> flag_up key (as_world st)"
    using key_okD(5) [OF D(1)] by (auto simp: flag_up_def)
  then have "flag_up key w \<longleftrightarrow> flag_up key (as_world st) \<or> raises_flag (as_pc st p)"
    using ok ends raises D(4) flag_up_same made_by_raising [of key bytes "as_pc st p"] step
    unfolding step_ok_def by (metis flag_up_def option.distinct(1))
  then show "flag_up key (as_world st') \<longleftrightarrow> flag_up key (as_world st) \<or> raises_flag (as_pc st p)"
    by (simp add: st')
  show "\<not> got_stack (as_pc st p)"
    using step by (cases "as_pc st p" rule: got_stack.cases) (auto simp: attach_step_def)
  show "q \<noteq> p \<Longrightarrow> as_pc st' q = as_pc st q" by (simp add: st')
qed


lemma life_inv_start:
  assumes "free_key key w"
  shows "life_inv key bytes n scripts cells w errs 0 (life_start w errs cells scripts)"
proof -
  have "\<not> flag_up key w" using assms by (simp add: free_key_def flag_up_def)
  then have "opened key (life_start w errs cells scripts) = test_start cells scripts"
    by (simp add: opened_def life_start_def attach_start_def test_start_def conc_start_def)
  with attach_run.start test_run.start show ?thesis
    unfolding life_inv_def by (auto simp: life_start_def attach_start_def conc_start_def)
qed

lemma life_inv_attach:
  assumes inv: "life_inv key bytes n scripts cells w errs k st" and "free_key key w" and "size_ok bytes"
    and p: "p < n" and move: "attach_move key bytes p (l_att st) = Some att"
  shows "life_inv key bytes n scripts cells w errs (Suc k) (life_attach p att st)"
proof -
  obtain i j where ij: "k = i + j" "attach_run key bytes n (attach_start w errs) i (l_att st)"
      "test_run bytes n scripts cells j (opened key st)"
    by (rule life_invE [OF inv])
  note R = raising_is_ready [OF attach_run_inv [OF ij(2) attach_start_inv [OF assms(2)] assms(3)] assms(3) move]
  let ?st = "life_attach p att st"
  have same: "l_att ?st = att" "t_todo (l_test ?st) = t_todo (l_test st)"
      "c_pc (t_conc (l_test ?st)) = c_pc (t_conc (l_test st))"
    by (simp_all add: life_attach_def Let_def)
  have flag: "c_flag (t_conc (l_test ?st)) = c_flag (t_conc (l_test st)) + (if raises_flag (as_pc (l_att st) p) then 1 else 0)"
    by (simp add: life_attach_def Let_def)
  have "opened key ?st = opened key st"
    using R(1,2) life_invD(1) [OF inv] by (auto simp: opened_def life_attach_def Let_def)
  moreover have "attach_run key bytes n (attach_start w errs) (Suc i) att"
    by (rule attach_run.step [OF ij(2) p move])
  moreover have "got_stack (as_pc (l_att st) q) \<longrightarrow> got_stack (as_pc att q)" for q
    using R(3) R(4) [of q] by (cases "q = p") auto
  ultimately show ?thesis
    using ij(1,3) R(1) life_invD [OF inv] by (intro life_invI [of _ _ _ _ _ "Suc i" _ _ _ j]) (auto simp: same flag)
qed

lemma life_inv_call:
  assumes inv: "life_inv key bytes n scripts cells w errs k st" and p: "p < n" and got: "got_stack (as_pc (l_att st) p)"
    and at: "at_call (c_pc (t_conc (l_test st)) p)" and todo: "t_todo (l_test st) p = a # as"
  shows "life_inv key bytes n scripts cells w errs (Suc k) (st\<lparr>l_test := begin_call p a as (l_test st)\<rparr>)"
proof -
  obtain i j where ij: "k = i + j" "attach_run key bytes n (attach_start w errs) i (l_att st)"
      "test_run bytes n scripts cells j (opened key st)"
    by (rule life_invE [OF inv])
  have "opened key (st\<lparr>l_test := begin_call p a as (l_test st)\<rparr>) = begin_call p a as (opened key st)"
    by (simp add: opened_def begin_call_def goto_def)
  moreover have "test_run bytes n scripts cells (Suc j) (begin_call p a as (opened key st))"
    by (rule test_run.call [OF ij(3) p]) (use at todo in simp_all)
  moreover have "at_lock (call_pc a)" by (cases a) (simp_all add: call_pc_def)
  ultimately show ?thesis
    using ij(1,2) life_invD [OF inv] got
    by (intro life_invI [of _ _ _ _ _ i _ _ _ "Suc j"]) (auto simp: begin_call_def goto_def)
qed

lemma life_inv_move:
  assumes inv: "life_inv key bytes n scripts cells w errs k st" and p: "p < n"
    and move: "pstep bytes p (t_conc (l_test st)) = Some c"
  shows "life_inv key bytes n scripts cells w errs (Suc k) (st\<lparr>l_test := (l_test st)\<lparr>t_conc := c\<rparr>\<rparr>)"
proof -
  obtain i j where ij: "k = i + j" "attach_run key bytes n (attach_start w errs) i (l_att st)"
      "test_run bytes n scripts cells j (opened key st)"
    by (rule life_invE [OF inv])
  have up: "flag_up key (as_world (l_att st))"
    using no_step_at_lock [of "t_conc (l_test st)" p bytes] life_invD(1,2) [OF inv] move by force
  then have "test_run bytes n scripts cells (Suc j) ((l_test st)\<lparr>t_conc := c\<rparr>)"
    using test_run.move [OF ij(3) p, of c] move by (simp add: opened_def)
  moreover have "got_stack (as_pc (l_att st) p)"
    using life_invD(3) [OF inv, of p] move by (cases "got_stack (as_pc (l_att st) p)") (simp_all add: pstep_def)
  then have "c_pc c q = c_pc (t_conc (l_test st)) q" if "\<not> got_stack (as_pc (l_att st) q)" for q
    using pstep_others [OF move, of q] that by (cases "q = p") auto
  ultimately show ?thesis
    using ij(1,2) life_invD(3) [OF inv] up
    by (intro life_invI [of _ _ _ _ _ i _ _ _ "Suc j"]) (auto simp: opened_def)
qed

lemma life_run_inv:
  assumes "life_run key bytes n scripts cells w errs k st" and "free_key key w" and "size_ok bytes"
  shows "life_inv key bytes n scripts cells w errs k st"
  using assms(1)
proof induction
  case start
  show ?case by (rule life_inv_start [OF assms(2)])
next
  case (attach k st p att)
  from life_inv_attach [OF attach.IH assms(2,3) attach.hyps(2,3)] show ?case .
next
  case (call k st p a as)
  from life_inv_call [OF call.IH call.hyps(2-5)] show ?case .
next
  case (move k st p c)
  from life_inv_move [OF move.IH move.hyps(2,3)] show ?case .
qed

section \<open>To the end\<close>

definition life_done :: "nat \<Rightarrow> life \<Rightarrow> bool" where
  "life_done n st \<longleftrightarrow> (\<forall>p<n. attach_left (as_pc (l_att st) p) = 0 \<and>
     (got_stack (as_pc (l_att st) p) \<longrightarrow> t_todo (l_test st) p = [] \<and> at_call (c_pc (t_conc (l_test st)) p)))"

definition life_moves :: "int \<Rightarrow> int \<Rightarrow> nat \<Rightarrow> life \<Rightarrow> bool" where
  "life_moves key bytes n st \<longleftrightarrow>
     (\<exists>p<n. attach_move key bytes p (l_att st) \<noteq> None \<or>
       got_stack (as_pc (l_att st) p) \<and> at_call (c_pc (t_conc (l_test st)) p) \<and> t_todo (l_test st) p \<noteq> [] \<or>
       pstep bytes p (t_conc (l_test st)) \<noteq> None)"

definition life_fine ::
  "int \<Rightarrow> int \<Rightarrow> nat \<Rightarrow> (nat \<Rightarrow> 64 word stack_op list) \<Rightarrow> 64 word list \<Rightarrow> stack_world \<Rightarrow> (nat \<Rightarrow> errno) \<Rightarrow>
   nat \<Rightarrow> life \<Rightarrow> bool" where
  "life_fine key bytes n scripts cells w errs k st \<longleftrightarrow>
     (\<forall>p. no_failure (c_pc (t_conc (l_test st)) p)) \<and> k \<le> 5 * n + (\<Sum>p<n. 7 * length (scripts p)) \<and>
     (\<not> life_done n st \<longrightarrow> life_moves key bytes n st) \<and>
     (life_done n st \<longrightarrow> 0 < n \<longrightarrow> (\<exists>p<n. got_stack (as_pc (l_att st) p)) \<and> c_flag (t_conc (l_test st)) = 1 \<and>
       c_count (t_conc (l_test st)) =
         (\<Sum>p<n. if got_stack (as_pc (l_att st) p) then script_net (scripts p) else 0))"

text \<open>Somebody can move: one who attaches, the holder of the flag, or anyone who is not through.\<close>

lemma life_next:
  assumes run: "life_run key bytes n scripts cells w errs k st" and "free_key key w" and "size_ok bytes"
    and tinv: "test_inv n cap scripts (opened key st)" and "\<not> life_done n st"
  shows "life_moves key bytes n st"
proof -
  note inv = life_run_inv [OF assms(1-3)]
  obtain i j where ij: "attach_run key bytes n (attach_start w errs) i (l_att st)"
    by (rule life_invE [OF inv])
  note ainv = attach_run_inv [OF ij attach_start_inv [OF assms(2)] assms(3)]
  show ?thesis
  proof (cases "\<exists>p<n. attach_left (as_pc (l_att st) p) \<noteq> 0")
    case True
    then show ?thesis using attach_can_move [OF ainv] unfolding life_moves_def by blast
  next
    case False
    with assms(5) obtain p where p: "p < n" "got_stack (as_pc (l_att st) p)"
      "t_todo (l_test st) p \<noteq> [] \<or> \<not> at_call (c_pc (t_conc (l_test st)) p)" by (auto simp: life_done_def)
    from False p(1) have up: "flag_up key (as_world (l_att st))"
      by (intro attach_ended(1) [OF ainv]) auto
    then have open_st: "opened key st = l_test st" by (simp add: opened_def)
    have "0 < work (l_test st) p"
      using p(3) work_0(1,2) [OF tinv p(1)] open_st by (cases "work (l_test st) p = 0") auto
    from test_progress [OF tinv [unfolded open_st] p(1) this, of bytes] p show ?thesis
      unfolding life_moves_def by blast
  qed
qed

lemma life_moves_run:
  assumes run: "life_run key bytes n scripts cells w errs k st" and "life_moves key bytes n st"
  shows "\<exists>st'. life_run key bytes n scripts cells w errs (Suc k) st'"
proof -
  from assms(2) consider p att where "p < n" "attach_move key bytes p (l_att st) = Some att"
    | p where "p < n" "got_stack (as_pc (l_att st) p)" "at_call (c_pc (t_conc (l_test st)) p)" "t_todo (l_test st) p \<noteq> []"
    | p c where "p < n" "pstep bytes p (t_conc (l_test st)) = Some c" unfolding life_moves_def by blast
  then show ?thesis
  proof cases
    case 1
    from life_run.attach [OF run this] show ?thesis by blast
  next
    case 2
    then obtain a as where "t_todo (l_test st) p = a # as" by (cases "t_todo (l_test st) p") auto
    with life_run.call [OF run 2(1-3)] show ?thesis by blast
  next
    case 3
    from life_run.move [OF run this] show ?thesis by blast
  qed
qed

lemma life_run_fine:
  assumes run: "life_run key bytes n scripts cells w errs k st" and "free_key key w" and "size_ok bytes"
    and ok: "\<forall>p<n. script_ok (cap p) 0 (scripts p)" and "(\<Sum>p<n. int (cap p)) \<le> bytes"
    and "(\<Sum>p<n. int (cap p)) \<le> int (length cells)" and "(\<Sum>p<n. int (cap p)) \<le> semvmx"
  shows "life_fine key bytes n scripts cells w errs k st"
proof -
  note inv = life_run_inv [OF assms(1-3)]
  obtain i j where ij: "k = i + j" "attach_run key bytes n (attach_start w errs) i (l_att st)"
      "test_run bytes n scripts cells j (opened key st)"
    by (rule life_invE [OF inv])
  note ainv = attach_run_inv [OF ij(2) attach_start_inv [OF assms(2)] assms(3)]
  from test_run_inv [OF ij(3) assms(4-7)] have tinv: "test_inv n cap scripts (opened key st)"
    and j: "j + (\<Sum>p<n. work (opened key st) p) = (\<Sum>p<n. 7 * length (scripts p))" by blast+
  note D = test_invD [OF tinv]
  have "no_failure (c_pc (t_conc (l_test st)) p)" for p
    using D(3) [of p] D(5) [of p] by (cases "p < n") simp_all
  moreover have "i \<le> 5 * n"
    using attach_run_steps [OF ij(2) attach_start_inv [OF assms(2)] assms(3)] by (simp add: attach_start_def)
  moreover have "(\<exists>p<n. got_stack (as_pc (l_att st) p)) \<and> c_flag (t_conc (l_test st)) = 1 \<and>
      c_count (t_conc (l_test st)) =
        (\<Sum>p<n. if got_stack (as_pc (l_att st) p) then script_net (scripts p) else 0)"
    if fin: "life_done n st" "0 < n"
  proof -
    have ended: "\<forall>p<n. attach_left (as_pc (l_att st) p) = 0" using fin(1) by (simp add: life_done_def)
    note E = attach_ended [OF ainv fin(2) ended]
    from E(1) have open_st: "opened key st = l_test st" by (simp add: opened_def)
    have at: "at_call (c_pc (t_conc (l_test st)) p)" for p
      using fin(1) life_invD(3) [OF inv, of p] D(5) [of p] open_st
      by (cases "p < n"; cases "got_stack (as_pc (l_att st) p)") (auto simp: life_done_def)
    then have "c_flag (t_conc (l_test st)) = 1"
      using conc_invD(3) [OF D(1)] at_call_cs open_st by simp
    moreover have "own scripts (l_test st) p = (if got_stack (as_pc (l_att st) p) then script_net (scripts p) else 0)"
      if "p < n" for p
      using that fin(1) life_invD(3) [OF inv, of p] at_call_pending [OF at]
      by (auto simp: own_def life_done_def)
    ultimately show ?thesis using E(2) D(6) open_st by (auto intro: sum.cong)
  qed
  ultimately show ?thesis
    using ij(1) j life_next [OF run assms(2,3) tinv] unfolding life_fine_def by auto
qed


section \<open>One process alone gets a stack\<close>

text \<open>For any size that the kernel takes, not only for those that fit the cells.\<close>

definition alone_path :: "int \<Rightarrow> stack_world \<Rightarrow> attach_pc \<Rightarrow> bool" where
  "alone_path key w pc \<longleftrightarrow> (pc = A_find \<or> pc = A_make) \<and> shm_keys w key = None \<or> making pc \<or> got_stack pc"

lemma alone_step:
  assumes "key_ok key bytes w" and "size_ok bytes" and "pc_fits key bytes w (errno w) pc" and "alone_path key w pc"
    and "attach_step key bytes pc w = Some (pc', w')"
  shows "alone_path key w' pc'"
proof -
  note size = size_okD [OF assms(2)]
  have ok: "step_ok key bytes w pc w' pc'"
    by (rule attach_step_ok [OF assms(1) _ _ _ assms(3,5)]) (use size in simp_all)
  from assms(4) consider (search) "pc = A_find" "shm_keys w key = None" | (creates) "pc = A_make" "shm_keys w key = None"
    | (makes) "making pc" | (got) "got_stack pc" unfolding alone_path_def by metis
  then show ?thesis
  proof cases
    case search
    with find_nothing [of w key bytes] key_okD(3) [OF assms(1)] assms(5) show ?thesis
      by (auto simp: alone_path_def)
  next
    case creates
    have "key \<noteq> IPC_PRIVATE" "0 < next_shm w" using key_okD(2,3) [OF assms(1)] by (simp_all add: counters_ok_def)
    from make_first [OF creates(2) this(1) assms(2) this(2)] obtain w1 where
      "attach_step key bytes A_make w = Some (A_map_new (next_shm w), w1)" by blast
    with creates assms(5) have "pc' = A_map_new (next_shm w)" by simp
    then show ?thesis by (simp add: alone_path_def)
  next
    case makes
    with ok show ?thesis unfolding step_ok_def alone_path_def by (metis got_stack.simps(1))
  next
    case got
    with assms(5) show ?thesis by (cases pc rule: got_stack.cases) (simp_all add: attach_step_def)
  qed
qed

lemma alone_steps:
  assumes "key_ok key bytes w" and "size_ok bytes" and "pc_fits key bytes w (errno w) pc" and "alone_path key w pc"
    and "attach_steps m key bytes (pc, w) = (pc', w')"
  shows "key_ok key bytes w' \<and> pc_fits key bytes w' (errno w') pc' \<and> alone_path key w' pc' \<and>
    attach_left pc' \<le> attach_left pc - m"
  using assms
proof (induction m arbitrary: pc w)
  case (Suc m)
  show ?case
  proof (cases "attach_left pc = 0")
    case True
    then have "attach_step key bytes pc w = None" by (cases pc) (simp_all add: attach_step_def)
    with Suc.prems True show ?thesis by simp
  next
    case False
    from attach_step_some [OF Suc.prems(3) False] obtain pc1 w1 where
      1: "attach_step key bytes pc w = Some (pc1, w1)" by auto
    have ok: "step_ok key bytes w pc w1 pc1"
      by (rule attach_step_ok [OF Suc.prems(1) _ _ _ Suc.prems(3) 1]) (use size_okD [OF assms(2)] in simp_all)
    from alone_step [OF Suc.prems(1-4) 1] have "alone_path key w1 pc1" .
    from Suc.IH [OF _ assms(2) _ this] ok 1 Suc.prems(5) show ?thesis by (auto simp: step_ok_def)
  qed
qed simp

lemma attach_alone:
  assumes "free_key key w" and "size_ok bytes"
  shows "\<exists>h w'. attach_stack key bytes w = Returns (Some h) w' \<and> named_by key h w' \<and> ipc_ok w' \<and> counters_ok w'"
proof -
  obtain pc w' where s: "attach_steps 5 key bytes (A_find, w) = (pc, w')" by fastforce
  have "key_ok key bytes w" "alone_path key w A_find"
    using assms(1) by (simp_all add: free_key_def key_ok_def alone_path_def)
  from alone_steps [OF this(1) assms(2) _ this(2) s] have
    1: "key_ok key bytes w'" "pc_fits key bytes w' (errno w') pc" "alone_path key w' pc" "attach_left pc = 0" by simp_all
  then obtain h where h: "pc = A_ret (Some h)"
    by (cases pc rule: got_stack.cases) (auto simp: alone_path_def)
  with s have "attach_stack key bytes w = Returns (Some h) w'"
    unfolding attach_steps_call by (simp split: outcome.splits)
  with 1 h key_okD(1,2) [OF 1(1)] show ?thesis by auto
qed

lemma clear_alone:
  assumes "free_key key w" and "size_ok bytes"
  shows "\<exists>w'. clear_key key bytes w = Returns None w' \<and> free_key key w'"
proof -
  have "key \<noteq> IPC_PRIVATE" using assms(1) by (simp add: free_key_def)
  with attach_alone [OF assms] clear_named show ?thesis by blast
qed


section \<open>fork1.c and fork2.c from their start\<close>

text \<open>
  Up to the end of the loops: \<open>main\<close> clears the key, forks, and every process attaches and makes its
  calls. The result is the relation of the states that are reached after so many steps. The
  cells of a new segment are 0.
\<close>

definition fork1_prog ::
  "int \<Rightarrow> (nat \<Rightarrow> int) \<Rightarrow> stack_world \<Rightarrow> ((nat \<Rightarrow> errno) \<Rightarrow> nat \<Rightarrow> life \<Rightarrow> bool, stack_world) outcome" where
  "fork1_prog key pid w =
     bind_outcome (clear_key key fork1_size w) (\<lambda>_ w.
     Returns (life_run key fork1_size 2 (\<lambda>p. fork1_script (pid p)) (replicate (seg_cells fork1_size) 0) w) w)"

definition fork2_prog ::
  "int \<Rightarrow> (nat \<Rightarrow> int) \<Rightarrow> stack_world \<Rightarrow> ((nat \<Rightarrow> errno) \<Rightarrow> nat \<Rightarrow> life \<Rightarrow> bool, stack_world) outcome" where
  "fork2_prog key pid w =
     bind_outcome (clear_key key fork2_size w) (\<lambda>_ w.
     Returns (life_run key fork2_size (2 ^ fork2_fork_count) (\<lambda>p. fork2_script (pid p))
       (replicate (seg_cells fork2_size) 0) w) w)"

text \<open>
  What follows in \<open>fork1.c\<close>: the first process, after its \<open>sleep\<close>, prints the count and destroys the
  stack.
\<close>

definition fork1_end :: "bool \<Rightarrow> stack_t option \<Rightarrow> stack_world \<Rightarrow> (int option, stack_world) outcome" where
  "fork1_end parent stack w =
     (if parent then
        bind_outcome (get_count stack w) (\<lambda>count w.
        bind_outcome (detach_stack stack w) (\<lambda>_ w.
        bind_outcome (mark_destruct stack w) (\<lambda>_ w.
        Returns (Some count) w)))
      else bind_outcome (detach_stack stack w) (\<lambda>_ w. Returns None w))"

text \<open>The other programs end with the same lines; \<open>free\<close> of the handle behind them changes nothing of this.\<close>

definition fork2_end :: "bool \<Rightarrow> stack_t option \<Rightarrow> stack_world \<Rightarrow> (int option, stack_world) outcome" where
  "fork2_end is_main stack w = fork1_end is_main stack w"

definition main_end :: "bool \<Rightarrow> stack_t option \<Rightarrow> stack_world \<Rightarrow> (int option, stack_world) outcome" where
  "main_end is_main stack w = fork1_end is_main stack w"

definition fork_end :: "bool \<Rightarrow> stack_t option \<Rightarrow> stack_world \<Rightarrow> (int option, stack_world) outcome" where
  "fork_end is_main stack w = fork1_end is_main stack w"

definition sw1_end :: "bool \<Rightarrow> stack_t option \<Rightarrow> stack_world \<Rightarrow> (int option, stack_world) outcome" where
  "sw1_end parent stack w = fork1_end parent stack w"

definition setwait1_end :: "bool \<Rightarrow> stack_t option \<Rightarrow> stack_world \<Rightarrow> (int option, stack_world) outcome" where
  "setwait1_end parent stack w = fork1_end parent stack w"

text \<open>What is printed is the count, and the key is free behind it, whatever is left on the stack.\<close>

lemma fork1_end_result:
  assumes "named_by key h w" and "get_count (Some h) w = Returns n w"
  shows "\<exists>w'. fork1_end True (Some h) w = Returns (Some n) w' \<and> shm_keys w' key = None \<and> sem_keys w' key = None"
proof -
  from detach_named [OF assms(1)] obtain w1 where
    1: "detach_stack (Some h) w = Returns None w1" "shm_keys w1 key = Some (st_shmem_id h)"
      "sem_keys w1 key = Some (st_sem_id h)" "\<exists>sg. shms w1 (st_shmem_id h) = Some sg" "st_sem_id h \<in> dom (sems w1)" by blast
  from mark_destruct_named [OF 1(2-5)] obtain w2 where
    "mark_destruct (Some h) w1 = Returns 0 w2" "shm_keys w2 key = None" "sem_keys w2 key = None" by blast
  with assms(2) 1(1) show ?thesis by (simp add: fork1_end_def)
qed

text \<open>
  What process \<open>p\<close> finds there: the tables of \<open>l_att\<close>, with the semaphores and the cells as the calls
  in \<open>l_test\<close> have left them.
\<close>

definition life_world :: "int \<Rightarrow> nat \<Rightarrow> life \<Rightarrow> stack_world" where
  "life_world key p st =
     (let w = as_world (l_att st); c = t_conc (l_test st) in
      w\<lparr>sems := (\<lambda>i. if sem_keys w key = Some i
          then map_option (\<lambda>s. s\<lparr>ss_vals := [c_count c, c_flag c]\<rparr>) (sems w i) else sems w i),
        shms := (\<lambda>i. if shm_keys w key = Some i
          then map_option (\<lambda>sg. sg\<lparr>sg_cells := c_cells c\<rparr>) (shms w i) else shms w i),
        errno := as_errno (l_att st) p\<rparr>)"

lemma life_world_ends:
  assumes "named_by key h (as_world (l_att st))" and "as_errno (l_att st) p \<noteq> EIDRM"
  shows "\<exists>w'. fork1_end True (Some h) (life_world key p st) = Returns (Some (c_count (t_conc (l_test st)))) w' \<and>
    shm_keys w' key = None \<and> sem_keys w' key = None"
proof (rule fork1_end_result)
  show "named_by key h (life_world key p st)"
    using assms(1) by (auto simp: named_by_def life_world_def Let_def)
  from assms(1) obtain s where "sems (as_world (l_att st)) (st_sem_id h) = Some s" "sem_keys (as_world (l_att st)) key = Some (st_sem_id h)"
    by (auto simp: named_by_def)
  with assms(2) show "get_count (Some h) (life_world key p st) = Returns (c_count (t_conc (l_test st))) (life_world key p st)"
    by (simp add: get_count_def sem_getval_def life_world_def Let_def SEM_COUNT_def)
qed

lemma attach_errno:
  assumes "attach_step key bytes pc w = Some (pc', w')" and "pc_fits key bytes w e pc" and "errno w \<noteq> EIDRM"
  shows "errno w' \<noteq> EIDRM"
proof (cases pc)
  case (A_flag i m s)
  with assms show ?thesis
    by (auto simp: attach_step_def sem_change_def semop_def SEM_FLAG_def SEM_COUNT_def fresh_sems_def semvmx_def NOT_NEED_def NEED_def
      split: outcome.splits if_splits)
qed (use assms in \<open>auto simp: attach_step_def shmget_def new_shm_def shmat_def semget_def Let_def
      split: prod.splits option.splits if_splits\<close>)

lemma attach_run_errno:
  assumes "attach_run key bytes n (attach_start w errs) k st" and "free_key key w" and "size_ok bytes" and "\<forall>p. errs p \<noteq> EIDRM"
  shows "as_errno st p \<noteq> EIDRM"
  using assms(1)
proof (induction arbitrary: p)
  case start
  with assms(4) show ?case by (simp add: attach_start_def)
next
  case (step k st q st')
  note inv = attach_run_inv [OF step.hyps(1) attach_start_inv [OF assms(2)] assms(3)]
  obtain pc w where st': "st' = \<lparr>as_world = w, as_pc = (as_pc st)(q := pc), as_errno = (as_errno st)(q := errno w)\<rparr>"
    and move: "attach_step key bytes (as_pc st q) (as_world st\<lparr>errno := as_errno st q\<rparr>) = Some (pc, w)"
    by (rule attach_moveE [OF inv assms(3) step.hyps(3)])
  have "errno w \<noteq> EIDRM"
    by (rule attach_errno [OF move, of "as_errno st q"]) (use attach_invD(2) [OF inv] step.IH in simp_all)
  with step.IH st' show ?case by simp
qed

lemma life_end:
  assumes run: "life_run key bytes n scripts cells w errs k st" and "free_key key w" and "size_ok bytes"
    and "\<forall>p. errs p \<noteq> EIDRM" and h: "as_pc (l_att st) p = A_ret (Some h)"
  shows "\<exists>w'. fork1_end True (Some h) (life_world key p st) = Returns (Some (c_count (t_conc (l_test st)))) w' \<and>
    shm_keys w' key = None \<and> sem_keys w' key = None"
proof -
  obtain i where i: "attach_run key bytes n (attach_start w errs) i (l_att st)"
    by (rule life_invE [OF life_run_inv [OF assms(1-3)]])
  note inv = attach_run_inv [OF i attach_start_inv [OF assms(2)] assms(3)]
  have named: "named_by key h (as_world (l_att st))" using attach_invD(2) [OF inv, of p] h by simp
  have "as_errno (l_att st) p \<noteq> EIDRM" by (rule attach_run_errno [OF i assms(2-4)])
  with named show ?thesis by (rule life_world_ends)
qed

text \<open>At any time the count is what the processes that are not through have there.\<close>

lemma life_count:
  assumes run: "life_run key bytes n scripts cells w errs k st" and "free_key key w" and "size_ok bytes"
    and ok: "\<forall>p<n. script_ok (cap p) 0 (scripts p)" and "(\<Sum>p<n. int (cap p)) \<le> bytes"
    and "(\<Sum>p<n. int (cap p)) \<le> int (length cells)" and "(\<Sum>p<n. int (cap p)) \<le> semvmx"
  shows "0 \<le> c_count (t_conc (l_test st))"
    and "c_count (t_conc (l_test st)) \<le>
      (\<Sum>p<n. if t_todo (l_test st) p = [] \<and> at_call (c_pc (t_conc (l_test st)) p)
        then script_net (scripts p) else int (cap p))"
proof -
  obtain j where "test_run bytes n scripts cells j (opened key st)"
    by (rule life_invE [OF life_run_inv [OF assms(1-3)]])
  from test_run_inv [OF this assms(4-7)] have tinv: "test_inv n cap scripts (opened key st)" by blast
  note D = test_invD [OF tinv]
  have count: "c_count (t_conc (l_test st)) = (\<Sum>p<n. own scripts (opened key st) p)" using D(6) by simp
  have "own scripts (opened key st) p = script_net (scripts p)"
    if "t_todo (l_test st) p = [] \<and> at_call (c_pc (t_conc (l_test st)) p)" for p
    using that at_call_pending [of "c_pc (t_conc (l_test st)) p"] by (auto simp: own_def)
  moreover have "0 \<le> own scripts (opened key st) p" "own scripts (opened key st) p \<le> int (cap p)" if "p < n" for p
    using D(2) own_le_cap [OF tinv] that by blast+
  ultimately show "0 \<le> c_count (t_conc (l_test st))" "c_count (t_conc (l_test st)) \<le>
      (\<Sum>p<n. if t_todo (l_test st) p = [] \<and> at_call (c_pc (t_conc (l_test st)) p) then script_net (scripts p) else int (cap p))"
    unfolding count by (auto intro!: sum_mono sum_nonneg)
qed

definition fork1_ends :: "int \<Rightarrow> nat \<Rightarrow> life \<Rightarrow> bool" where
  "fork1_ends key p st \<longleftrightarrow>
     (\<forall>h. as_pc (l_att st) p = A_ret (Some h) \<longrightarrow>
       (\<exists>n w1. fork1_end True (Some h) (life_world key p st) = Returns (Some n) w1 \<and> n = c_count (t_conc (l_test st)) \<and>
         (t_todo (l_test st) p = [] \<and> at_call (c_pc (t_conc (l_test st)) p) \<longrightarrow> 0 \<le> n \<and> n \<le> 50) \<and>
         shm_keys w1 key = None \<and> sem_keys w1 key = None))"

lemma fork1_prog_run:
  assumes "free_key key w"
  shows "\<exists>run w0. fork1_prog key pid w = Returns run w0 \<and>
      (\<forall>errs k st. run errs k st \<longrightarrow>
        life_fine key fork1_size 2 (\<lambda>p. fork1_script (pid p)) (replicate (seg_cells fork1_size) 0) w0 errs k st \<and>
        ((\<forall>p. errs p \<noteq> EIDRM) \<longrightarrow> (\<forall>p<2. fork1_ends key p st)) \<and>
        (life_done 2 st \<longrightarrow> c_count (t_conc (l_test st)) = 0))"
proof -
  have size: "size_ok fork1_size" by (simp add: size_ok_def fork1_size_def shmmax_def)
  obtain w0 where w0: "clear_key key fork1_size w = Returns None w0" "free_key key w0"
    using clear_alone [OF assms size] by blast
  have ok: "\<forall>p<2. script_ok 50 0 (fork1_script (pid p))" by (simp add: fork1_ok)
  have caps: "(\<Sum>p<(2 :: nat). int 50) \<le> fork1_size"
    "(\<Sum>p<(2 :: nat). int 50) \<le> int (length (replicate (seg_cells fork1_size) (0 :: 64 word)))" "(\<Sum>p<(2 :: nat). int 50) \<le> semvmx"
    by (simp_all add: fork1_size_def seg_cells_512 semvmx_def)
  {
    fix errs k st
    assume run: "life_run key fork1_size 2 (\<lambda>p. fork1_script (pid p)) (replicate (seg_cells fork1_size) 0) w0 errs k st"
    have fine: "life_fine key fork1_size 2 (\<lambda>p. fork1_script (pid p)) (replicate (seg_cells fork1_size) 0) w0 errs k st"
      by (rule life_run_fine [OF run w0(2) size ok caps])
    then have "c_count (t_conc (l_test st)) = 0" if "life_done 2 st"
      using that by (simp add: life_fine_def fork1_ok(2) cong: if_cong)
    moreover have "fork1_ends key p st" if "\<forall>p. errs p \<noteq> EIDRM" "p < 2" for p
    proof -
      note C = life_count [OF run w0(2) size ok caps]
      have "c_count (t_conc (l_test st)) \<le> 50" if "t_todo (l_test st) p = [] \<and> at_call (c_pc (t_conc (l_test st)) p)"
      proof -
        from \<open>p < 2\<close> consider "p = 0" | "p = 1" by linarith
        then show ?thesis using C(2) that by cases (auto simp: eval_nat_numeral fork1_ok(2) split: if_splits)
      qed
      with C(1) life_end [OF run w0(2) size \<open>\<forall>p. errs p \<noteq> EIDRM\<close>] show ?thesis unfolding fork1_ends_def by blast
    qed
    ultimately have "life_fine key fork1_size 2 (\<lambda>p. fork1_script (pid p)) (replicate (seg_cells fork1_size) 0) w0 errs k st \<and>
        ((\<forall>p. errs p \<noteq> EIDRM) \<longrightarrow> (\<forall>p<2. fork1_ends key p st)) \<and> (life_done 2 st \<longrightarrow> c_count (t_conc (l_test st)) = 0)"
      using fine by blast
  }
  with w0(1) show ?thesis by (simp add: fork1_prog_def)
qed

text \<open>
  \<open>fork2.c\<close> as long as its first process has not reached \<open>killpg\<close> (\<open>Stack_Kill\<close> goes on from there).
\<close>

lemma fork2_prog_run:
  assumes "free_key key w"
  shows "\<exists>run w0. fork2_prog key pid w = Returns run w0 \<and>
      (\<forall>errs k st. run errs k st \<longrightarrow>
        life_fine key fork2_size 2048 (\<lambda>p. fork2_script (pid p)) (replicate (seg_cells fork2_size) 0) w0 errs k st \<and>
        (life_done 2048 st \<longrightarrow> c_count (t_conc (l_test st)) = 0))"
proof -
  have size: "size_ok fork2_size" by (simp add: size_ok_def fork2_size_def shmmax_def)
  obtain w0 where w0: "clear_key key fork2_size w = Returns None w0" "free_key key w0"
    using clear_alone [OF assms size] by blast
  have n: "(2 :: nat) ^ fork2_fork_count = 2048" by (simp add: fork2_fork_count_def)
  have fine: "life_fine key fork2_size 2048 (\<lambda>p. fork2_script (pid p)) (replicate (seg_cells fork2_size) 0) w0 errs k st"
    if "life_run key fork2_size 2048 (\<lambda>p. fork2_script (pid p)) (replicate (seg_cells fork2_size) 0) w0 errs k st" for errs k st
    by (rule life_run_fine [OF that w0(2) size, where cap = "\<lambda>_. 10"])
      (simp_all only: caps fork2_ok fork2_size_def length_replicate semvmx_def seg_cells_def, simp_all)
  have "c_count (t_conc (l_test st)) = 0"
    if "life_run key fork2_size 2048 (\<lambda>p. fork2_script (pid p)) (replicate (seg_cells fork2_size) 0) w0 errs k st" "life_done 2048 st" for errs k st
    using fine [OF that(1)] that(2) by (simp add: life_fine_def fork2_ok(2) cong: if_cong)
  with w0 fine show ?thesis by (simp add: fork2_prog_def n)
qed

text \<open>
  The start of the programs whose calls may give up, in a process that nobody disturbs: \<open>set_wait\<close> is a
  setting of the process, made when it has its stack. \<open>fork.c\<close> does not clear the key and does not look at the
  answer.
\<close>

definition sw1_start :: "int \<Rightarrow> stack_world \<Rightarrow> (stack_t option, stack_world) outcome" where
  "sw1_start key w =
     bind_outcome (clear_key key sw1_size w) (\<lambda>_ w.
     bind_outcome (attach_stack key sw1_size w) (\<lambda>stack w.
     bind_outcome (c_assert (stack \<noteq> None) w) (\<lambda>_ w.
     bind_outcome (set_wait 1 (Some (2, 0)) w) (\<lambda>_ w. Returns stack w))))"

definition setwait1_start :: "int \<Rightarrow> stack_world \<Rightarrow> (stack_t option, stack_world) outcome" where
  "setwait1_start key w =
     bind_outcome (clear_key key setwait1_size w) (\<lambda>_ w.
     bind_outcome (attach_stack key setwait1_size w) (\<lambda>stack w.
     bind_outcome (c_assert (stack \<noteq> None) w) (\<lambda>_ w.
     bind_outcome (set_wait (-1) None w) (\<lambda>_ w. Returns stack w))))"

definition fork_start :: "int \<Rightarrow> stack_world \<Rightarrow> (stack_t option, stack_world) outcome" where
  "fork_start key w = attach_stack key fork_size w"

lemma waits_start:
  assumes "free_key key w"
  shows "\<exists>h w'. sw1_start key w = Returns (Some h) w' \<and> named_by key h w' \<and> timeout_flag w' = 1 \<and> timeout_time w' = (2, 0)"
    and "\<exists>h w'. setwait1_start key w = Returns (Some h) w' \<and> named_by key h w' \<and> timeout_flag w' = -1"
    and "\<exists>h w'. fork_start key w = Returns (Some h) w' \<and> named_by key h w'"
proof -
  have ok: "size_ok sw1_size" "size_ok setwait1_size" "size_ok fork_size"
    by (simp_all add: size_ok_def shmmax_def sw1_size_def setwait1_size_def fork_size_def)
  have named: "named_by key h (w\<lparr>timeout_flag := f\<rparr>) = named_by key h w"
    "named_by key h (w\<lparr>timeout_flag := f, timeout_time := t\<rparr>) = named_by key h w" for h w f t
    by (simp_all add: named_by_def)
  obtain w1 h w2 where "clear_key key sw1_size w = Returns None w1" "attach_stack key sw1_size w1 = Returns (Some h) w2"
    "named_by key h w2"
    using clear_alone [OF assms ok(1)] attach_alone [OF _ ok(1)] by blast
  then show "\<exists>h w'. sw1_start key w = Returns (Some h) w' \<and> named_by key h w' \<and> timeout_flag w' = 1 \<and> timeout_time w' = (2, 0)"
    by (simp add: sw1_start_def set_wait_def named)
  obtain w1 h w2 where "clear_key key setwait1_size w = Returns None w1" "attach_stack key setwait1_size w1 = Returns (Some h) w2"
    "named_by key h w2"
    using clear_alone [OF assms ok(2)] attach_alone [OF _ ok(2)] by blast
  then show "\<exists>h w'. setwait1_start key w = Returns (Some h) w' \<and> named_by key h w' \<and> timeout_flag w' = -1"
    by (simp add: setwait1_start_def set_wait_def named)
  show "\<exists>h w'. fork_start key w = Returns (Some h) w' \<and> named_by key h w'"
    using attach_alone [OF assms ok(3)] by (auto simp: fork_start_def)
qed

section \<open>The property\<close>



end
