(* ===== verification/Stack_Kill.thy ===== *)
theory Stack_Kill
  imports Destroy_Conc
begin

text \<open>
  The end of \<open>fork2.c\<close>. When the first process is through its loops it calls \<open>killpg(main_pid, SIGKILL)\<close>.
  \<open>setgid\<close> has changed no process group: when the first process leads its group, as a program that a
  shell has started does, all the processes are in it and the first one is killed with the others. The
  kernel gives back the flag of a process that held it (\<open>SEM_UNDO\<close>); the count and the cells stay as they
  are. When it does not lead its group, there is no group of that number, the call fails and nobody is
  killed: the first process goes on, prints the count, and destroys the stack while the others may still be in
  their loops; from there on the steps are those of \<open>Destroy_Conc\<close>.
\<close>

section \<open>Processes that are killed\<close>

text \<open>
  A dead process takes no step. The second field is bookkeeping: a call that has not yet changed the
  count goes back to what the process had left to do.
\<close>

definition kill_one :: "nat \<Rightarrow> test_state \<Rightarrow> test_state" where
  "kill_one p st =
     st\<lparr>t_conc := die p (t_conc st), t_todo := (t_todo st)(p := pending (c_pc (t_conc st) p) (t_todo st p))\<rparr>"

text \<open>\<open>tail\<close> is what the first process has to do behind \<open>killpg\<close>, \<open>leads\<close> whether it leads its group.\<close>

definition at_killpg :: "64 word stack_op list \<Rightarrow> test_state \<Rightarrow> bool" where
  "at_killpg tail st \<longleftrightarrow> at_call (c_pc (t_conc st) 0) \<and> t_todo st 0 = tail"

text \<open>
  Whoever has not yet met its signal goes on for a while; the first process takes no step behind
  \<open>killpg\<close> when the signal is for itself, too.
\<close>

inductive kill_step :: "bool \<Rightarrow> int \<Rightarrow> nat \<Rightarrow> 64 word stack_op list \<Rightarrow> test_state \<Rightarrow> test_state \<Rightarrow> bool"
  for leads bytes n tail where
  call: "p < n \<Longrightarrow> at_call (c_pc (t_conc st) p) \<Longrightarrow> t_todo st p = a # as \<Longrightarrow>
    \<not> (leads \<and> p = 0 \<and> at_killpg tail st) \<Longrightarrow> kill_step leads bytes n tail st (begin_call p a as st)"
| move: "p < n \<Longrightarrow> pstep bytes p (t_conc st) = Some c \<Longrightarrow> kill_step leads bytes n tail st (st\<lparr>t_conc := c\<rparr>)"
| kill: "leads \<Longrightarrow> at_killpg tail st \<or> c_pc (t_conc st) 0 = Dead \<Longrightarrow> p < n \<Longrightarrow> c_pc (t_conc st) p \<noteq> Dead \<Longrightarrow>
    kill_step leads bytes n tail st (kill_one p st)"

text \<open>
  The first process behind its last call: it prints the count and removes the semaphores (the
  segment stays until the last process is gone). After that every step may meet a kernel that says \<open>EIDRM\<close> or
  \<open>EINVAL\<close>, whatever an earlier step has met.
\<close>

datatype end_phase = Looping | Printed int | Destroyed int

record end_state =
  e_test :: test_state
  e_phase :: end_phase

definition proc_through :: "test_state \<Rightarrow> nat \<Rightarrow> bool" where
  "proc_through st p \<longleftrightarrow> t_todo st p = [] \<and> at_call (c_pc (t_conc st) p)"

fun printed :: "end_phase \<Rightarrow> int option" where
  "printed Looping = None"
| "printed (Printed m) = Some m"
| "printed (Destroyed m) = Some m"

fun stack_gone :: "end_phase \<Rightarrow> bool" where
  "stack_gone (Destroyed m) = True"
| "stack_gone _ = False"

inductive finish_step :: "bool \<Rightarrow> int \<Rightarrow> nat \<Rightarrow> 64 word stack_op list \<Rightarrow> end_state \<Rightarrow> end_state \<Rightarrow> bool"
  for leads bytes n tail where
  run: "\<not> stack_gone (e_phase st) \<Longrightarrow> kill_step leads bytes n tail (e_test st) t \<Longrightarrow>
    finish_step leads bytes n tail st (st\<lparr>e_test := t\<rparr>)"
| print: "e_phase st = Looping \<Longrightarrow> proc_through (e_test st) 0 \<Longrightarrow>
    finish_step leads bytes n tail st (st\<lparr>e_phase := Printed (c_count (t_conc (e_test st)))\<rparr>)"
| destroy: "e_phase st = Printed m \<Longrightarrow> finish_step leads bytes n tail st (st\<lparr>e_phase := Destroyed m\<rparr>)"
| gone_call: "e_phase st = Destroyed m \<Longrightarrow> p < n \<Longrightarrow> at_call (c_pc (t_conc (e_test st)) p) \<Longrightarrow>
    t_todo (e_test st) p = a # as \<Longrightarrow> finish_step leads bytes n tail st (st\<lparr>e_test := begin_call p a as (e_test st)\<rparr>)"
| gone_move: "e_phase st = Destroyed m \<Longrightarrow> p < n \<Longrightarrow> gone_step idrm bytes p (t_conc (e_test st)) = Some c \<Longrightarrow>
    finish_step leads bytes n tail st (st\<lparr>e_test := (e_test st)\<lparr>t_conc := c\<rparr>\<rparr>)"

definition finish_start :: "64 word list \<Rightarrow> (nat \<Rightarrow> 64 word stack_op list) \<Rightarrow> end_state" where
  "finish_start cells scripts = \<lparr>e_test = test_start cells scripts, e_phase = Looping\<rparr>"

inductive finish_run ::
  "bool \<Rightarrow> int \<Rightarrow> nat \<Rightarrow> 64 word stack_op list \<Rightarrow> (nat \<Rightarrow> 64 word stack_op list) \<Rightarrow> 64 word list \<Rightarrow>
   nat \<Rightarrow> end_state \<Rightarrow> bool"
  for leads bytes n tail scripts cells where
  start: "finish_run leads bytes n tail scripts cells 0 (finish_start cells scripts)"
| step: "finish_run leads bytes n tail scripts cells k st \<Longrightarrow> finish_step leads bytes n tail st st' \<Longrightarrow>
    finish_run leads bytes n tail scripts cells (Suc k) st'"

section \<open>The dead as processes that never call again\<close>

definition revive :: "conc \<Rightarrow> conc" where
  "revive c = c\<lparr>c_pc := (\<lambda>p. if c_pc c p = Dead then Idle else c_pc c p)\<rparr>"

definition revived :: "test_state \<Rightarrow> test_state" where
  "revived st = st\<lparr>t_conc := revive (t_conc st)\<rparr>"

lemma revive_simps [simp]:
  "c_pc (revive c) p = (if c_pc c p = Dead then Idle else c_pc c p)" "c_adj (revive c) = c_adj c"
  "c_count (revive c) = c_count c" "c_flag (revive c) = c_flag c" "c_cells (revive c) = c_cells c"
  by (simp_all add: revive_def)

lemma revived_simps [simp]: "t_conc (revived st) = revive (t_conc st)" "t_todo (revived st) = t_todo st"
  by (simp_all add: revived_def)

text \<open>A step looks at no other process's place.\<close>

lemma pstep_pcs:
  assumes "f p = c_pc c p"
  shows "pstep bytes p (c\<lparr>c_pc := f\<rparr>) = map_option (\<lambda>c'. c'\<lparr>c_pc := f(p := c_pc c' p)\<rparr>) (pstep bytes p c)"
  using assms by (cases "c_pc c p") (auto simp: pstep_def flag_op_def count_op_def goto_def die_def)

lemma pstep_revive:
  assumes "pstep bytes p c = Some c'"
  shows "pstep bytes p (revive c) = Some (c'\<lparr>c_pc := (c_pc (revive c))(p := c_pc c' p)\<rparr>)"
proof -
  have "c_pc (revive c) p = c_pc c p" using assms by (auto simp: pstep_def)
  from pstep_pcs [of "c_pc (revive c)" p c bytes, OF this] assms show ?thesis by (simp add: revive_def)
qed

lemma revive_step:
  assumes "pstep bytes p c = Some c'" and "c_pc c' p \<noteq> Dead"
  shows "pstep bytes p (revive c) = Some (revive c')"
proof -
  have "c_pc (revive c') = (c_pc (revive c))(p := c_pc c' p)"
    using pstep_others [OF assms(1)] assms(2) by (auto simp: fun_eq_iff)
  then have "c'\<lparr>c_pc := (c_pc (revive c))(p := c_pc c' p)\<rparr> = revive c'" by (simp add: revive_def)
  with pstep_revive [OF assms(1)] show ?thesis by simp
qed

lemma step_of_revived:
  assumes "pstep bytes p (revive c) = Some c1"
  shows "\<exists>c'. pstep bytes p c = Some c'"
proof -
  have "c_pc (revive c) p = c_pc c p" using assms by (auto simp: pstep_def)
  from pstep_pcs [of "c_pc (revive c)" p c bytes, OF this] assms show ?thesis by (auto simp: revive_def)
qed

lemma revive_die: "revive (die p c) = goto p Idle (die p (revive c))"
  by (simp add: revive_def die_def goto_def fun_eq_iff)

section \<open>The invariant\<close>

definition kill_inv :: "nat \<Rightarrow> (nat \<Rightarrow> nat) \<Rightarrow> (nat \<Rightarrow> 64 word stack_op list) \<Rightarrow> test_state \<Rightarrow> bool" where
  "kill_inv n cap scripts st \<longleftrightarrow> test_inv n cap scripts (revived st)"

definition kill_work :: "test_state \<Rightarrow> nat \<Rightarrow> nat" where
  "kill_work st p = (if c_pc (t_conc st) p = Dead then 0 else Suc (work st p))"

lemma work_revived: "c_pc (t_conc st) p \<noteq> Dead \<Longrightarrow> work (revived st) p = work st p"
  by (simp add: work_def)

lemma kill_inv_call:
  assumes inv: "kill_inv n cap scripts st" and p: "p < n" and at: "at_call (c_pc (t_conc st) p)"
    and todo: "t_todo st p = a # as"
  shows "kill_inv n cap scripts (begin_call p a as st)"
    and "Suc (kill_work (begin_call p a as st) p) = kill_work st p"
    and "q \<noteq> p \<Longrightarrow> kill_work (begin_call p a as st) q = kill_work st q"
proof -
  have live: "c_pc (t_conc st) p \<noteq> Dead" "call_pc a \<noteq> Dead" using at by (auto simp: call_pc_def split: stack_op.splits)
  have eq: "revived (begin_call p a as st) = begin_call p a as (revived st)"
    using live(2) by (simp add: revived_def begin_call_def revive_def goto_def fun_eq_iff)
  have tinv: "test_inv n cap scripts (revived st)" using inv by (simp add: kill_inv_def)
  note C = test_inv_call [OF tinv p, of a as]
  have at': "at_call (c_pc (t_conc (revived st)) p)" "t_todo (revived st) p = a # as" using at todo by simp_all
  show "kill_inv n cap scripts (begin_call p a as st)"
    using C(1) [OF at'] unfolding kill_inv_def eq .
  show "Suc (kill_work (begin_call p a as st) p) = kill_work st p"
    using todo live by (simp add: kill_work_def work_def begin_call_def at_call_left [OF at])
  show "q \<noteq> p \<Longrightarrow> kill_work (begin_call p a as st) q = kill_work st q"
    by (simp add: kill_work_def work_def begin_call_def)
qed

lemma kill_inv_move:
  assumes inv: "kill_inv n cap scripts st" and p: "p < n" and step: "pstep bytes p (t_conc st) = Some c"
    and "(\<Sum>p<n. int (cap p)) \<le> bytes"
  shows "kill_inv n cap scripts (st\<lparr>t_conc := c\<rparr>)"
    and "Suc (kill_work (st\<lparr>t_conc := c\<rparr>) p) = kill_work st p"
    and "q \<noteq> p \<Longrightarrow> kill_work (st\<lparr>t_conc := c\<rparr>) q = kill_work st q"
    and "c_pc c p \<noteq> Dead"
proof -
  have tinv: "test_inv n cap scripts (revived st)" using inv by (simp add: kill_inv_def)
  have live: "c_pc (t_conc st) p \<noteq> Dead" using step by (auto simp: pstep_def)
  define c1 where "c1 = c\<lparr>c_pc := (c_pc (revive (t_conc st)))(p := c_pc c p)\<rparr>"
  have step1: "pstep bytes p (t_conc (revived st)) = Some c1" using pstep_revive [OF step] by (simp add: c1_def)
  note M = test_inv_move [OF tinv p step1 assms(4)]
  have not_dead: "c_pc c p \<noteq> Dead"
    using test_invD(3) [OF M(1) p] by (auto simp: c1_def)
  from revive_step [OF step this] step1 have c1: "c1 = revive c" by simp
  have eq: "revived (st\<lparr>t_conc := c\<rparr>) = (revived st)\<lparr>t_conc := c1\<rparr>" by (simp add: revived_def c1)
  have others: "c_pc c q = c_pc (t_conc st) q" if "q \<noteq> p" for q using pstep_others [OF step that] .
  show "kill_inv n cap scripts (st\<lparr>t_conc := c\<rparr>)"
    using M(1) unfolding kill_inv_def eq .
  have "Suc (work (st\<lparr>t_conc := c\<rparr>) p) = work st p"
    using M(2) work_revived [of "st\<lparr>t_conc := c\<rparr>" p] work_revived [OF live] not_dead unfolding eq by simp
  with live not_dead show "Suc (kill_work (st\<lparr>t_conc := c\<rparr>) p) = kill_work st p" by (simp add: kill_work_def)
  show "q \<noteq> p \<Longrightarrow> kill_work (st\<lparr>t_conc := c\<rparr>) q = kill_work st q"
    using others by (simp add: kill_work_def work_def)
  show "c_pc c p \<noteq> Dead" by (rule not_dead)
qed

lemma kill_inv_kill:
  assumes inv: "kill_inv n cap scripts st" and p: "p < n" and live: "c_pc (t_conc st) p \<noteq> Dead"
  shows "kill_inv n cap scripts (kill_one p st)"
    and "kill_work (kill_one p st) p < kill_work st p"
    and "q \<noteq> p \<Longrightarrow> kill_work (kill_one p st) q = kill_work st q"
proof -
  have tinv: "test_inv n cap scripts (revived st)" using inv by (simp add: kill_inv_def)
  note D = test_invD [OF tinv]
  let ?c = "t_conc st" and ?st = "revived (kill_one p st)"
  have conc: "t_conc ?st = goto p Idle (die p (revive ?c))" by (simp add: kill_one_def revive_die)
  have dead: "conc_inv (\<Sum>p<n. int (cap p)) (die p (revive ?c))" using inv_die [OF D(1)] by simp
  have "conc_inv (\<Sum>p<n. int (cap p)) (t_conc ?st)"
    unfolding conc by (rule inv_stay [OF dead, of Idle p])
      (use conc_invD(6,7) [OF dead] in \<open>simp_all add: die_def goto_def\<close>)
  moreover have own: "own scripts ?st q = own scripts (revived st) q" for q
    using live by (simp add: own_def kill_one_def die_def)
  moreover have "no_failure (c_pc (t_conc ?st) q) \<and>
      script_ok (cap q) (nat (own scripts (revived st) q)) (pending (c_pc (t_conc ?st) q) (t_todo ?st q))" if "q < n" for q
    using D(3,4) [OF that] live by (cases "q = p"; cases "c_pc ?c q = Dead") (simp_all add: kill_one_def die_def)
  moreover have "c_pc (t_conc ?st) q = Idle" if "n \<le> q" for q
    using D(5) [OF that] p that by (auto simp: kill_one_def die_def split: if_splits)
  moreover have "c_count (t_conc ?st) = c_count (t_conc (revived st))" by (simp add: kill_one_def)
  ultimately have "test_inv n cap scripts ?st" using D(2,6) unfolding test_inv_def own by simp
  then show "kill_inv n cap scripts (kill_one p st)"
    by (simp add: kill_inv_def)
  show "kill_work (kill_one p st) p < kill_work st p"
    using live by (simp add: kill_work_def kill_one_def die_def)
  show "q \<noteq> p \<Longrightarrow> kill_work (kill_one p st) q = kill_work st q"
    by (simp add: kill_work_def work_def kill_one_def die_def)
qed

lemma kill_inv_start:
  assumes "\<forall>p<n. script_ok (cap p) 0 (scripts p)"
    and "(\<Sum>p<n. int (cap p)) \<le> int (length cells)" and "(\<Sum>p<n. int (cap p)) \<le> semvmx"
  shows "kill_inv n cap scripts (test_start cells scripts)"
proof -
  have "revived (test_start cells scripts) = test_start cells scripts"
    by (simp add: revived_def revive_def test_start_def conc_start_def)
  with test_inv_start [OF assms] show ?thesis by (simp add: kill_inv_def)
qed

lemma kill_step_inv:
  assumes "kill_step leads bytes n tail st st'" and inv: "kill_inv n cap scripts st" and "(\<Sum>p<n. int (cap p)) \<le> bytes"
  shows "kill_inv n cap scripts st'" and "(\<Sum>p<n. kill_work st' p) < (\<Sum>p<n. kill_work st p)"
    and "\<not> leads \<Longrightarrow> \<forall>p. c_pc (t_conc st) p \<noteq> Dead \<Longrightarrow> c_pc (t_conc st') q \<noteq> Dead"
proof -
  have "kill_inv n cap scripts st' \<and> (\<Sum>p<n. kill_work st' p) < (\<Sum>p<n. kill_work st p) \<and>
    (\<not> leads \<longrightarrow> (\<forall>p. c_pc (t_conc st) p \<noteq> Dead) \<longrightarrow> c_pc (t_conc st') q \<noteq> Dead)"
    using assms(1)
  proof cases
    case (call p a as)
    note C = kill_inv_call [OF inv call(2-4)]
    from C(2) have "kill_work (begin_call p a as st) p < kill_work st p" by simp
    from sum_decreases [of p n "kill_work (begin_call p a as st)" "kill_work st", OF call(2) this C(3)] C(1) call(1)
    show ?thesis by (simp add: begin_call_def call_pc_def split: stack_op.split)
  next
    case (move p c)
    note C = kill_inv_move [OF inv move(2,3) assms(3)]
    from C(2) have "kill_work (st\<lparr>t_conc := c\<rparr>) p < kill_work st p" by simp
    from sum_decreases [of p n "kill_work (st\<lparr>t_conc := c\<rparr>)" "kill_work st", OF move(2) this C(3)] C(1,4) move(1)
      pstep_others [OF move(3), of q]
    show ?thesis by (cases "q = p") simp_all
  next
    case (kill p)
    note C = kill_inv_kill [OF inv kill(4,5)]
    from sum_decreases [of p n "kill_work (kill_one p st)" "kill_work st", OF kill(4) C(2,3)] C(1) kill(1,2)
    show ?thesis by simp
  qed
  then show "kill_inv n cap scripts st'" "(\<Sum>p<n. kill_work st' p) < (\<Sum>p<n. kill_work st p)"
    "\<not> leads \<Longrightarrow> \<forall>p. c_pc (t_conc st) p \<noteq> Dead \<Longrightarrow> c_pc (t_conc st') q \<noteq> Dead" by blast+
qed

text \<open>A leader gets no further than \<open>killpg\<close>.\<close>

lemma leader_keeps_tail:
  assumes "kill_step True bytes n tail st st'" and "\<exists>ys. t_todo st 0 = ys @ tail"
  shows "\<exists>ys. t_todo st' 0 = ys @ tail"
  using assms
proof cases
  case (call p a as)
  from assms(2) obtain ys where ys: "t_todo st 0 = ys @ tail" by blast
  show ?thesis
  proof (cases "p = 0")
    case True
    with call(3,5) ys have "ys \<noteq> []" by (auto simp: at_killpg_def)
    with ys call(4) True have "as = tl ys @ tail" by (cases ys) auto
    then show ?thesis using True call(1) by (auto simp: begin_call_def)
  qed (use ys call(1) in \<open>simp add: begin_call_def\<close>)
next
  case (kill p)
  from assms(2) obtain ys where "t_todo st 0 = ys @ tail" by blast
  then have "\<exists>zs. pending pc (t_todo st 0) = zs @ tail" for pc
    by (cases pc) (auto intro: exI [of _ "_ # ys"] exI [of _ ys])
  then show ?thesis using assms(2) kill(1) by (auto simp: kill_one_def)
qed simp

section \<open>Before the stack is destroyed\<close>

definition survivors_through :: "nat \<Rightarrow> test_state \<Rightarrow> bool" where
  "survivors_through n st \<longleftrightarrow> (\<forall>p<n. c_pc (t_conc st) p = Dead \<or> proc_through st p)"

lemma kill_step_moves:
  assumes "kill_inv n cap scripts st" and busy: "\<not> survivors_through n st"
  shows "\<exists>st'. kill_step leads bytes n tail st st'"
proof -
  have inv: "test_inv n cap scripts (revived st)" using assms(1) by (simp add: kill_inv_def)
  from busy obtain p where p: "p < n" "c_pc (t_conc st) p \<noteq> Dead"
    "t_todo st p \<noteq> [] \<or> \<not> at_call (c_pc (t_conc st) p)" by (auto simp: survivors_through_def proc_through_def)
  then have "0 < work (revived st) p"
    using work_0(1,2) [OF inv p(1)] by (cases "work (revived st) p = 0") auto
  from test_progress [OF inv p(1) this, of bytes] consider
    q c where "q < n" "pstep bytes q (t_conc st) = Some c"
  | a as where "at_call (c_pc (t_conc st) p)" "t_todo st p = a # as"
    using step_of_revived p(2) by (fastforce simp: neq_Nil_conv)
  then show ?thesis
  proof cases
    case 1
    then show ?thesis using kill_step.move by blast
  next
    case 2
    show ?thesis
    proof (cases "leads \<and> p = 0 \<and> at_killpg tail st")
      case True
      then show ?thesis using kill_step.kill [OF _ _ p(1,2)] by blast
    next
      case False
      then show ?thesis using kill_step.call [OF p(1) 2] by blast
    qed
  qed
qed

lemma kill_inv_live:
  assumes "kill_inv n cap scripts st"
  shows "c_pc (t_conc st) p \<noteq> Dead \<Longrightarrow> no_failure (c_pc (t_conc st) p)"
    and "n \<le> p \<Longrightarrow> at_call (c_pc (t_conc st) p) \<or> c_pc (t_conc st) p = Dead"
    and "in_cs (c_pc (t_conc st) p) \<Longrightarrow> in_cs (c_pc (t_conc st) q) \<Longrightarrow> p = q"
    and "survivors_through n st \<Longrightarrow> c_flag (t_conc st) = 1"
proof -
  from assms have tinv: "test_inv n cap scripts (revived st)" by (simp add: kill_inv_def)
  note D = test_invD [OF tinv]
  show "c_pc (t_conc st) p \<noteq> Dead \<Longrightarrow> no_failure (c_pc (t_conc st) p)"
    using D(3) [of p] D(5) [of p] by (cases "p < n") (auto split: if_splits)
  show outside: "n \<le> p \<Longrightarrow> at_call (c_pc (t_conc st) p) \<or> c_pc (t_conc st) p = Dead" for p
    using D(5) [of p] by (auto split: if_splits)
  have cs: "in_cs (c_pc (revive (t_conc st)) p) = in_cs (c_pc (t_conc st) p)" for p by simp
  show "in_cs (c_pc (t_conc st) p) \<Longrightarrow> in_cs (c_pc (t_conc st) q) \<Longrightarrow> p = q"
    using conc_invD(4) [OF D(1)] cs by simp
  assume thru: "survivors_through n st"
  have "\<not> in_cs (c_pc (t_conc st) p)" for p
    using thru outside [of p] at_call_cs by (cases "p < n") (auto simp: survivors_through_def proc_through_def)
  with conc_invD(3) [OF D(1)] cs show "c_flag (t_conc st) = 1" by simp
qed

text \<open>The count: a process that is through has what its script leaves, any other at most its share.\<close>

lemma kill_inv_count:
  assumes "kill_inv n cap scripts st"
  shows "0 \<le> c_count (t_conc st)"
    and "c_count (t_conc st) \<le> (\<Sum>p<n. if proc_through st p then script_net (scripts p) else int (cap p))"
    and "q < n \<Longrightarrow> proc_through st q \<Longrightarrow>
      c_count (t_conc st) \<le> (\<Sum>p<n. if p = q then script_net (scripts p) else int (cap p))"
proof -
  from assms have tinv: "test_inv n cap scripts (revived st)" by (simp add: kill_inv_def)
  note D = test_invD [OF tinv]
  have count: "c_count (t_conc st) = (\<Sum>p<n. own scripts (revived st) p)" using D(6) by simp
  have through: "own scripts (revived st) p = script_net (scripts p)" if "proc_through st p" for p
    using that at_call_pending [of "c_pc (t_conc st) p"] by (auto simp: own_def proc_through_def)
  have "0 \<le> own scripts (revived st) p" "own scripts (revived st) p \<le> int (cap p)" if "p < n" for p
    using D(2) own_le_cap [OF tinv] that by blast+
  with through show "0 \<le> c_count (t_conc st)"
    "c_count (t_conc st) \<le> (\<Sum>p<n. if proc_through st p then script_net (scripts p) else int (cap p))"
    "q < n \<Longrightarrow> proc_through st q \<Longrightarrow> c_count (t_conc st) \<le> (\<Sum>p<n. if p = q then script_net (scripts p) else int (cap p))"
    unfolding count by (auto intro!: sum_mono sum_nonneg)
qed

section \<open>After the stack is destroyed\<close>

text \<open>A process that ends there was past the flag when the stack was destroyed.\<close>

definition lost :: "stack_pc \<Rightarrow> bool" where
  "lost pc \<longleftrightarrow> in_cs pc \<or> pc = Dead"

fun gone_place :: "stack_pc \<Rightarrow> bool" where
  "gone_place PushFull = False"
| "gone_place PopEmpty = False"
| "gone_place (Ret r x) = (r = 0 \<or> r = -1)"
| "gone_place _ = True"

definition gone_ok :: "test_state \<Rightarrow> bool" where
  "gone_ok st \<longleftrightarrow> (\<forall>p. gone_place (c_pc (t_conc st) p)) \<and>
     (\<forall>p q. lost (c_pc (t_conc st) p) \<longrightarrow> lost (c_pc (t_conc st) q) \<longrightarrow> p = q)"

lemma gone_pc_place:
  assumes "gone_pc idrm bytes cells pc = Some pc'" and "0 \<le> bytes" and "gone_place pc"
  shows "gone_place pc'" and "lost pc' \<Longrightarrow> in_cs pc" and "pc' = Dead \<or> steps_left pc' < steps_left pc" and "pc \<noteq> Dead"
  by (cases pc; use assms in \<open>auto simp: gone_count_def lost_def split: if_splits\<close>)+

lemma gone_ok_call:
  assumes "gone_ok st" and "at_call (c_pc (t_conc st) p)" and "t_todo st p = a # as"
  shows "gone_ok (begin_call p a as st)"
    and "kill_work (begin_call p a as st) p < kill_work st p"
    and "q \<noteq> p \<Longrightarrow> kill_work (begin_call p a as st) q = kill_work st q"
proof -
  have "gone_place (call_pc a)" "\<not> lost (call_pc a)" by (cases a; simp add: call_pc_def lost_def)+
  with assms(1) show "gone_ok (begin_call p a as st)" by (auto simp: gone_ok_def begin_call_def)
  show "kill_work (begin_call p a as st) p < kill_work st p"
    using assms(2,3) by (auto simp: kill_work_def work_def begin_call_def at_call_left)
  show "q \<noteq> p \<Longrightarrow> kill_work (begin_call p a as st) q = kill_work st q"
    by (simp add: kill_work_def work_def begin_call_def)
qed

lemma gone_ok_move:
  assumes ok: "gone_ok st" and "gone_step idrm bytes p (t_conc st) = Some c" and "0 \<le> bytes"
  shows "gone_ok (st\<lparr>t_conc := c\<rparr>)"
    and "kill_work (st\<lparr>t_conc := c\<rparr>) p < kill_work st p"
    and "q \<noteq> p \<Longrightarrow> kill_work (st\<lparr>t_conc := c\<rparr>) q = kill_work st q"
proof -
  from assms(2) obtain pc where pc: "gone_pc idrm bytes (c_cells (t_conc st)) (c_pc (t_conc st) p) = Some pc"
      "c_pc c = (c_pc (t_conc st))(p := pc)"
    by (auto simp: gone_step_def goto_def)
  have "gone_place (c_pc (t_conc st) p)" using ok by (simp add: gone_ok_def)
  note G = gone_pc_place [OF pc(1) assms(3) this]
  have was: "lost (c_pc (t_conc st) q)" if "lost (c_pc c q)" for q
    using that G(2) pc(2) by (cases "q = p") (auto simp: lost_def)
  have "gone_place (c_pc c q)" for q using ok G(1) pc(2) by (simp add: gone_ok_def)
  with was ok show "gone_ok (st\<lparr>t_conc := c\<rparr>)" by (auto simp: gone_ok_def)
  show "kill_work (st\<lparr>t_conc := c\<rparr>) p < kill_work st p"
    using G(3,4) pc(2) by (auto simp: kill_work_def work_def)
  show "q \<noteq> p \<Longrightarrow> kill_work (st\<lparr>t_conc := c\<rparr>) q = kill_work st q"
    using pc(2) by (simp add: kill_work_def work_def)
qed

lemma gone_moves:
  assumes "\<not> survivors_through n (e_test st)" and "e_phase st = Destroyed m"
  shows "\<exists>st'. finish_step leads bytes n tail st st'"
proof -
  from assms(1) obtain p where p: "p < n" "c_pc (t_conc (e_test st)) p \<noteq> Dead"
    "t_todo (e_test st) p \<noteq> [] \<or> \<not> at_call (c_pc (t_conc (e_test st)) p)"
    by (auto simp: survivors_through_def proc_through_def)
  show ?thesis
  proof (cases "at_call (c_pc (t_conc (e_test st)) p)")
    case True
    with p(3) obtain a as where "t_todo (e_test st) p = a # as" by (auto simp: neq_Nil_conv)
    with finish_step.gone_call [OF assms(2) p(1) True] show ?thesis by blast
  next
    case False
    with p(2) have "\<exists>c. gone_step True bytes p (t_conc (e_test st)) = Some c"
      by (cases "c_pc (t_conc (e_test st)) p") (simp_all add: gone_step_def)
    with finish_step.gone_move [OF assms(2) p(1)] show ?thesis by blast
  qed
qed

section \<open>The whole end\<close>

fun phase_left :: "end_phase \<Rightarrow> nat" where
  "phase_left Looping = 2"
| "phase_left (Printed m) = 1"
| "phase_left (Destroyed m) = 0"

definition finish_inv ::
  "bool \<Rightarrow> nat \<Rightarrow> (nat \<Rightarrow> nat) \<Rightarrow> 64 word stack_op list \<Rightarrow> (nat \<Rightarrow> 64 word stack_op list) \<Rightarrow> end_state \<Rightarrow> bool" where
  "finish_inv leads n cap tail scripts st \<longleftrightarrow>
     (\<not> stack_gone (e_phase st) \<longrightarrow> kill_inv n cap scripts (e_test st)) \<and>
     (stack_gone (e_phase st) \<longrightarrow> gone_ok (e_test st)) \<and>
     (leads \<longrightarrow> e_phase st = Looping \<and> (\<exists>ys. t_todo (e_test st) 0 = ys @ tail)) \<and>
     (\<not> leads \<longrightarrow> \<not> stack_gone (e_phase st) \<longrightarrow> (\<forall>p. c_pc (t_conc (e_test st)) p \<noteq> Dead)) \<and>
     (\<forall>m. printed (e_phase st) = Some m \<longrightarrow> 0 \<le> m \<and> m \<le> (\<Sum>p<n. if p = 0 then script_net (scripts p) else int (cap p)))"

lemma finish_invI:
  assumes "\<not> stack_gone (e_phase st) \<Longrightarrow> kill_inv n cap scripts (e_test st)"
    and "stack_gone (e_phase st) \<Longrightarrow> gone_ok (e_test st)"
    and "leads \<Longrightarrow> e_phase st = Looping" and "leads \<Longrightarrow> \<exists>ys. t_todo (e_test st) 0 = ys @ tail"
    and "\<And>p. \<not> leads \<Longrightarrow> \<not> stack_gone (e_phase st) \<Longrightarrow> c_pc (t_conc (e_test st)) p \<noteq> Dead"
    and "\<And>m. printed (e_phase st) = Some m \<Longrightarrow>
      0 \<le> m \<and> m \<le> (\<Sum>p<n. if p = 0 then script_net (scripts p) else int (cap p))"
  shows "finish_inv leads n cap tail scripts st"
  using assms unfolding finish_inv_def by blast

lemma finish_invD:
  assumes "finish_inv leads n cap tail scripts st"
  shows "\<not> stack_gone (e_phase st) \<Longrightarrow> kill_inv n cap scripts (e_test st)"
    and "stack_gone (e_phase st) \<Longrightarrow> gone_ok (e_test st)"
    and "leads \<Longrightarrow> e_phase st = Looping" and "leads \<Longrightarrow> \<exists>ys. t_todo (e_test st) 0 = ys @ tail"
    and "\<not> leads \<Longrightarrow> \<not> stack_gone (e_phase st) \<Longrightarrow> c_pc (t_conc (e_test st)) p \<noteq> Dead"
    and "printed (e_phase st) = Some m \<Longrightarrow>
      0 \<le> m \<and> m \<le> (\<Sum>p<n. if p = 0 then script_net (scripts p) else int (cap p))"
  using assms unfolding finish_inv_def by blast+

lemma finish_step_inv:
  assumes "finish_step leads bytes n tail st st'" and inv: "finish_inv leads n cap tail scripts st"
    and sum: "(\<Sum>p<n. int (cap p)) \<le> bytes" and "0 < n" and "tail \<noteq> []"
  shows "finish_inv leads n cap tail scripts st' \<and>
    (\<Sum>p<n. kill_work (e_test st') p) + phase_left (e_phase st') < (\<Sum>p<n. kill_work (e_test st) p) + phase_left (e_phase st)"
  using assms(1)
proof cases
  note D = finish_invD [OF inv]
  have "(0 :: int) \<le> (\<Sum>p<n. int (cap p))" by (simp add: sum_nonneg)
  with sum have bytes: "0 \<le> bytes" by simp
  {
    case (run t)
    note K = kill_step_inv [OF run(3) D(1) [OF run(2)] sum]
    have "\<exists>ys. t_todo t 0 = ys @ tail" if leads
      using leader_keeps_tail [of bytes n tail "e_test st" t] run(3) D(4) that by simp
    then show ?thesis using K D run(1,2) by (auto intro!: finish_invI)
  next
    case print
    then have thru: "proc_through (e_test st) 0" and inv: "kill_inv n cap scripts (e_test st)" using D(1) by simp_all
    from thru assms(5) D(4) have "\<not> leads" by (auto simp: proc_through_def)
    with print(1,2) kill_inv_count(1) [OF inv] kill_inv_count(3) [OF inv assms(4) thru] inv D(5) show ?thesis
      by (auto intro!: finish_invI)
  next
    case (destroy m)
    then have inv: "kill_inv n cap scripts (e_test st)" and nl: "\<not> leads" using D(1,3) by auto
    have live: "c_pc (t_conc (e_test st)) p \<noteq> Dead" for p using D(5) [OF nl] destroy(2) by simp
    have place: "gone_place pc" if "no_failure pc" for pc using that by (cases pc) auto
    have "gone_ok (e_test st)"
      using live kill_inv_live(1,3) [OF inv] place unfolding gone_ok_def lost_def by blast
    with destroy nl D(6) show ?thesis by (auto intro!: finish_invI)
  next
    case (gone_call m p a as)
    then have "gone_ok (e_test st)" and nl: "\<not> leads" using D(2,3) by auto
    note G = gone_ok_call [OF this(1) gone_call(4,5)]
    from sum_decreases [of p n "kill_work (begin_call p a as (e_test st))" "kill_work (e_test st)", OF gone_call(3) G(2,3)]
    show ?thesis using G(1) gone_call(1,2) nl D(6) by (auto intro!: finish_invI)
  next
    case (gone_move m p idrm c)
    then have "gone_ok (e_test st)" and nl: "\<not> leads" using D(2,3) by auto
    note G = gone_ok_move [OF this(1) gone_move(4) bytes]
    from sum_decreases [of p n "kill_work ((e_test st)\<lparr>t_conc := c\<rparr>)" "kill_work (e_test st)", OF gone_move(3) G(2,3)]
    show ?thesis using G(1) gone_move(1,2) nl D(6) by (auto intro!: finish_invI)
  }
qed

lemma finish_run_inv:
  assumes "finish_run leads bytes n tail scripts cells k st" and "\<forall>p<n. script_ok (cap p) 0 (scripts p)"
    and "(\<Sum>p<n. int (cap p)) \<le> bytes"
    and "(\<Sum>p<n. int (cap p)) \<le> int (length cells)" and "(\<Sum>p<n. int (cap p)) \<le> semvmx"
    and "0 < n" and "tail \<noteq> []" and "scripts 0 = front @ tail"
  shows "finish_inv leads n cap tail scripts st \<and>
    k + (\<Sum>p<n. kill_work (e_test st) p) + phase_left (e_phase st) \<le> (\<Sum>p<n. Suc (7 * length (scripts p))) + 2"
  using assms(1)
proof induction
  case start
  have "finish_inv leads n cap tail scripts (finish_start cells scripts)"
    by (rule finish_invI)
      (use kill_inv_start [OF assms(2,4,5)] assms(8) in \<open>simp_all add: finish_start_def test_start_def conc_start_def\<close>)
  then show ?case by (simp add: finish_start_def kill_work_def work_def test_start_def conc_start_def)
next
  case (step k st st')
  then have inv: "finish_inv leads n cap tail scripts st" by blast
  from finish_step_inv [OF step.hyps(2) inv assms(3,6,7)] step.IH show ?case by simp
qed

text \<open>The end of a run: all are through or dead, and the stack is destroyed unless the first process is dead.\<close>

definition finished :: "bool \<Rightarrow> nat \<Rightarrow> end_state \<Rightarrow> bool" where
  "finished leads n st \<longleftrightarrow> survivors_through n (e_test st) \<and> (leads \<or> stack_gone (e_phase st))"

lemma finish_moves:
  assumes inv: "finish_inv leads n cap tail scripts st" and "0 < n" and "\<not> finished leads n st"
  shows "\<exists>st'. finish_step leads bytes n tail st st'"
proof (cases "survivors_through n (e_test st)")
  case True
  with assms(3) have nl: "\<not> leads" and ng: "\<not> stack_gone (e_phase st)" by (auto simp: finished_def)
  with True assms(2) finish_invD(5) [OF inv, of 0] have "proc_through (e_test st) 0"
    by (auto simp: survivors_through_def)
  with ng show ?thesis by (cases "e_phase st") (blast intro: finish_step.print, blast intro: finish_step.destroy, simp)
next
  case False
  show ?thesis
  proof (cases "stack_gone (e_phase st)")
    case True
    then obtain m where "e_phase st = Destroyed m" by (cases "e_phase st") auto
    with False gone_moves show ?thesis by blast
  next
    case ng: False
    from kill_step_moves [OF finish_invD(1) [OF inv ng] False] finish_step.run [OF ng] show ?thesis by blast
  qed
qed

section \<open>fork2.c\<close>

text \<open>The calls of the first process behind its \<open>killpg\<close>.\<close>

definition fork2_tail :: "64 word stack_op list" where
  "fork2_tail = [Push (null_plus 0), Push (null_plus 0), Pop, Pop]"

definition fork2_all :: "(nat \<Rightarrow> int) \<Rightarrow> nat \<Rightarrow> 64 word stack_op list" where
  "fork2_all pid p = fork2_script (pid p) @ (if p = 0 then fork2_tail else [])"

text \<open>2048 processes that have attached the stack, with the cells of a new segment.\<close>

definition fork2_step :: "bool \<Rightarrow> end_state \<Rightarrow> end_state \<Rightarrow> bool" where
  "fork2_step leads = finish_step leads fork2_size (2 ^ fork2_fork_count) fork2_tail"

definition fork2_run :: "bool \<Rightarrow> (nat \<Rightarrow> int) \<Rightarrow> nat \<Rightarrow> end_state \<Rightarrow> bool" where
  "fork2_run leads pid = finish_run leads fork2_size (2 ^ fork2_fork_count) fork2_tail (fork2_all pid)
     (replicate (seg_cells fork2_size) 0)"

abbreviation fork2_finished :: "bool \<Rightarrow> end_state \<Rightarrow> bool" where
  "fork2_finished leads \<equiv> finished leads (2 ^ fork2_fork_count)"

text \<open>The processes among the 2048 for which \<open>P\<close> holds.\<close>

definition fork2_procs :: "(nat \<Rightarrow> bool) \<Rightarrow> int" where
  "fork2_procs P = int (card {p. p < 2 ^ fork2_fork_count \<and> P p})"

lemma fork2_all_ok: "script_ok 10 0 (fork2_all pid p)" "script_net (fork2_all pid p) = 0"
  using script_ok_append [of 10 0 "fork2_script (pid p)" fork2_tail] fork2_ok
  by (auto simp: fork2_all_def fork2_tail_def)

lemma fork2_run_inv:
  assumes "fork2_run leads pid k st"
  shows "finish_inv leads (2 ^ fork2_fork_count) (\<lambda>_. 10) fork2_tail (fork2_all pid) st"
    and "k \<le> (\<Sum>p<2 ^ fork2_fork_count. Suc (7 * length (fork2_all pid p))) + 2"
proof -
  let ?n = "2 ^ fork2_fork_count :: nat"
  have ten: "(\<Sum>p<?n. int 10) = 20480" by (simp add: fork2_fork_count_def)
  have "0 < ?n" "fork2_tail \<noteq> []" "fork2_all pid 0 = fork2_script (pid 0) @ fork2_tail"
    by (simp_all add: fork2_tail_def fork2_all_def)
  moreover have "\<forall>p<?n. script_ok 10 0 (fork2_all pid p)" by (simp add: fork2_all_ok)
  moreover have "(\<Sum>p<?n. int 10) \<le> fork2_size" "(\<Sum>p<?n. int 10) \<le> int (length (replicate (seg_cells fork2_size) (0 :: 64 word)))"
    "(\<Sum>p<?n. int 10) \<le> semvmx"
    unfolding ten by (simp_all add: fork2_size_def seg_cells_def semvmx_def)
  ultimately have "finish_inv leads ?n (\<lambda>_. 10) fork2_tail (fork2_all pid) st \<and>
    k + (\<Sum>p<?n. kill_work (e_test st) p) + phase_left (e_phase st) \<le> (\<Sum>p<?n. Suc (7 * length (fork2_all pid p))) + 2"
    using finish_run_inv [OF assms [unfolded fork2_run_def], of "\<lambda>_. 10" "fork2_script (pid 0)"] by blast
  then show "finish_inv leads ?n (\<lambda>_. 10) fork2_tail (fork2_all pid) st"
    "k \<le> (\<Sum>p<?n. Suc (7 * length (fork2_all pid p))) + 2" by simp_all
qed

lemma fork2_count:
  assumes "kill_inv (2 ^ fork2_fork_count) (\<lambda>_. 10) (fork2_all pid) st"
  shows "0 \<le> c_count (t_conc st)" and "c_count (t_conc st) \<le> 10 * fork2_procs (\<lambda>p. \<not> proc_through st p)"
proof -
  show "0 \<le> c_count (t_conc st)" by (rule kill_inv_count(1) [OF assms])
  have "(\<Sum>p<2 ^ fork2_fork_count. if proc_through st p then script_net (fork2_all pid p) else int 10) =
    10 * fork2_procs (\<lambda>p. \<not> proc_through st p)"
    by (simp add: fork2_all_ok(2) sum.If_cases Int_def fork2_procs_def)
  with kill_inv_count(2) [OF assms] show "c_count (t_conc st) \<le> 10 * fork2_procs (\<lambda>p. \<not> proc_through st p)" by simp
qed

text \<open>
  C21: \<open>fork2.c\<close> from the loops to the end, with 2048 processes that have all attached the empty stack. Every run
  can go on until it is at its end, within seven steps for each call, one kill for each process and two steps for
  the count and the destruction. If the first process leads its process group, its \<open>killpg\<close> ends it as
  well as those of the others that are not through in time: no surviving process has a call
  fail, the stack is never destroyed and nothing printed; at the end the first process is dead, the flag is up
  whoever held it and at most ten elements are left for each process killed. If it does not lead
  its group, no process is killed and every call succeeds until the first process, through its last pushes and pops, destroys
  the stack; it prints at most ten for each process that is not through, so 0 only if all are; and after that nobody
  waits, a call that begins returns -1, and at most one process, the one past the flag, can end in
  the middle of its call.
\<close>

theorem fork2_killpg:
  assumes "fork2_run leads pid k st"
  shows "k \<le> (\<Sum>p<2 ^ fork2_fork_count. Suc (7 * length (fork2_all pid p))) + 2 \<and>
    (\<not> fork2_finished leads st \<longrightarrow> (\<exists>st'. fork2_step leads st st')) \<and>
    (leads \<longrightarrow> e_phase st = Looping \<and>
      (\<forall>p. c_pc (t_conc (e_test st)) p \<noteq> Dead \<longrightarrow> no_failure (c_pc (t_conc (e_test st)) p)) \<and>
      (fork2_finished leads st \<longrightarrow> c_pc (t_conc (e_test st)) 0 = Dead \<and> c_flag (t_conc (e_test st)) = 1 \<and>
        0 \<le> c_count (t_conc (e_test st)) \<and>
        c_count (t_conc (e_test st)) \<le> 10 * fork2_procs (\<lambda>p. c_pc (t_conc (e_test st)) p = Dead))) \<and>
    (\<not> leads \<longrightarrow> \<not> stack_gone (e_phase st) \<longrightarrow>
      (\<forall>p. no_failure (c_pc (t_conc (e_test st)) p)) \<and> 0 \<le> c_count (t_conc (e_test st)) \<and>
      c_count (t_conc (e_test st)) \<le> 10 * fork2_procs (\<lambda>p. \<not> proc_through (e_test st) p)) \<and>
    (\<forall>m. printed (e_phase st) = Some m \<longrightarrow> 0 \<le> m \<and> m \<le> 20470) \<and>
    (stack_gone (e_phase st) \<longrightarrow>
      (\<forall>p q. lost (c_pc (t_conc (e_test st)) p) \<longrightarrow> lost (c_pc (t_conc (e_test st)) q) \<longrightarrow> p = q) \<and>
      (\<forall>p r x. c_pc (t_conc (e_test st)) p = Ret r x \<longrightarrow> r = 0 \<or> r = -1) \<and>
      (\<forall>p v. c_pc (t_conc (e_test st)) p = PushLock v \<or> c_pc (t_conc (e_test st)) p = PopLock \<longrightarrow>
        (\<forall>idrm. gone_step idrm fork2_size p (t_conc (e_test st)) = Some (goto p (Ret (-1) None) (t_conc (e_test st))))))"
proof (intro conjI impI allI)
  let ?n = "2 ^ fork2_fork_count :: nat" and ?c = "t_conc (e_test st)"
  have n: "0 < ?n" by simp
  note inv = fork2_run_inv(1) [OF assms] and D = finish_invD [OF fork2_run_inv(1) [OF assms]]
  show "k \<le> (\<Sum>p<?n. Suc (7 * length (fork2_all pid p))) + 2" by (rule fork2_run_inv(2) [OF assms])
  show "\<exists>st'. fork2_step leads st st'" if "\<not> fork2_finished leads st"
    using finish_moves [OF inv n that] by (simp add: fork2_step_def)
  show "0 \<le> m" "m \<le> 20470" if "printed (e_phase st) = Some m" for m
  proof -
    have "(\<Sum>p<?n. if p = 0 then script_net (fork2_all pid p) else int 10) = (\<Sum>p<?n. int 10) - 10"
      by (subst sum.remove [of _ 0]) (simp_all add: fork2_all_ok(2) sum.remove [of "{..<?n}" 0 "\<lambda>_. 10"])
    with D(6) [OF that] show "0 \<le> m" "m \<le> 20470" by (simp_all add: fork2_fork_count_def)
  qed
  {
    assume leads
    then show phase: "e_phase st = Looping" by (rule D(3))
    then have kinv: "kill_inv ?n (\<lambda>_. 10) (fork2_all pid) (e_test st)" using D(1) by simp
    show "no_failure (c_pc ?c p)" if "c_pc ?c p \<noteq> Dead" for p by (rule kill_inv_live(1) [OF kinv that])
    assume fin: "fork2_finished leads st"
    then have thru: "survivors_through ?n (e_test st)" by (simp add: finished_def)
    from D(4) [OF \<open>leads\<close>] have "\<not> proc_through (e_test st) 0" by (auto simp: proc_through_def fork2_tail_def)
    with thru [unfolded survivors_through_def, rule_format, OF n] show "c_pc ?c 0 = Dead" by blast
    show "c_flag ?c = 1" by (rule kill_inv_live(4) [OF kinv thru])
    show "0 \<le> c_count ?c" by (rule fork2_count(1) [OF kinv])
    have "p < ?n \<and> \<not> proc_through (e_test st) p \<longleftrightarrow> p < ?n \<and> c_pc ?c p = Dead" for p
      using thru by (auto simp: survivors_through_def proc_through_def)
    with fork2_count(2) [OF kinv] show "c_count ?c \<le> 10 * fork2_procs (\<lambda>p. c_pc ?c p = Dead)"
      by (simp add: fork2_procs_def)
  }
  {
    assume "\<not> leads" and "\<not> stack_gone (e_phase st)"
    then have kinv: "kill_inv ?n (\<lambda>_. 10) (fork2_all pid) (e_test st)" using D(1) by simp
    show "no_failure (c_pc ?c p)" for p
      by (rule kill_inv_live(1) [OF kinv]) (rule D(5) [OF \<open>\<not> leads\<close> \<open>\<not> stack_gone (e_phase st)\<close>])
    show "0 \<le> c_count ?c" "c_count ?c \<le> 10 * fork2_procs (\<lambda>p. \<not> proc_through (e_test st) p)"
      by (rule fork2_count [OF kinv])+
  }
  {
    assume "stack_gone (e_phase st)"
    then have ok: "gone_ok (e_test st)" by (rule D(2))
    show "p = q" if "lost (c_pc ?c p)" "lost (c_pc ?c q)" for p q using ok that by (simp add: gone_ok_def)
    show "r = 0 \<or> r = -1" if "c_pc ?c p = Ret r x" for p r x
      using ok that unfolding gone_ok_def by (metis gone_place.simps(3))
    show "gone_step idrm fork2_size p ?c = Some (goto p (Ret (-1) None) ?c)"
      if "c_pc ?c p = PushLock v \<or> c_pc ?c p = PopLock" for p v idrm
      using that by (auto simp: gone_step_def)
  }
qed

text \<open>Both ends are reached: the first process killed by itself, and the stack destroyed.\<close>

theorem fork2_killpg_witness:
  "(\<exists>k st. fork2_run True (\<lambda>_. 0) k st \<and> fork2_finished True st \<and> c_pc (t_conc (e_test st)) 0 = Dead) \<and>
   (\<exists>k st m. fork2_run False (\<lambda>_. 0) k st \<and> fork2_finished False st \<and> e_phase st = Destroyed m \<and> m \<le> 20470)"
proof -
  have ends: "\<exists>k st. fork2_run leads (\<lambda>_. 0) k st \<and> fork2_finished leads st" for leads
  proof (rule bounded_run_ends)
    show "fork2_run leads (\<lambda>_. 0) 0 (finish_start (replicate (seg_cells fork2_size) 0) (fork2_all (\<lambda>_. 0)))"
      unfolding fork2_run_def by (rule finish_run.start)
    fix k st
    assume run: "fork2_run leads (\<lambda>_. 0) k st"
    from fork2_killpg [OF run] have "k \<le> (\<Sum>p<2 ^ fork2_fork_count. Suc (7 * length (fork2_all (\<lambda>_. 0) p))) + 2"
      and "\<not> fork2_finished leads st \<longrightarrow> (\<exists>st'. fork2_step leads st st')" by blast+
    then show "k \<le> (\<Sum>p<2 ^ fork2_fork_count. Suc (7 * length (fork2_all (\<lambda>_. 0) p))) + 2 \<and>
      (\<not> fork2_finished leads st \<longrightarrow> (\<exists>st'. fork2_run leads (\<lambda>_. 0) (Suc k) st'))"
      using run finish_run.step unfolding fork2_run_def fork2_step_def by blast
  qed
  from ends [of True] obtain k st where "fork2_run True (\<lambda>_. 0) k st" "fork2_finished True st" by blast
  moreover from this fork2_killpg have "c_pc (t_conc (e_test st)) 0 = Dead" by blast
  moreover from ends [of False] obtain k' st' where 2: "fork2_run False (\<lambda>_. 0) k' st'" "fork2_finished False st'" by blast
  then obtain m where "e_phase st' = Destroyed m" by (cases "e_phase st'") (auto simp: finished_def)
  moreover from this fork2_killpg [OF 2(1)] have "m \<le> 20470" by simp
  ultimately show ?thesis using 2 by blast
qed

end
