(* ===== verification/Posix_Stack.thy ===== *)
theory Posix_Stack
  imports SysV_Ipc Stack_Spec
begin

text \<open>
  \<open>Stack/stack_old.c\<close>: the first version of the stack, with the same shared memory but two
  named POSIX semaphores, whose names are made from the key and kept in two global pointers.
  One process runs its operations to the end. A successful call leaves \<open>errno\<close> as it was.
\<close>

section \<open>State\<close>

record posix_world = ipc +
  psem_names :: "byte list \<rightharpoonup> int"
  psems :: "int \<rightharpoonup> int"
  next_psem :: int
  ptimeout_flag :: int
  ptimeout_time :: "int \<times> int"
  key_count :: "byte list option"
  key_flag :: "byte list option"

record old_stack_t =
  old_size :: int
  old_memory :: int
  old_shmem_id :: int
  old_count :: "int option"
  old_flag :: "int option"

section \<open>Named semaphores\<close>

definition sem_value_max :: int where
  "sem_value_max = 2147483647"

text \<open>\<open>sem_open\<close>; \<open>None\<close> is \<open>SEM_FAILED\<close>, which is \<open>NULL\<close>.\<close>

definition sem_open :: "byte list \<Rightarrow> bool \<Rightarrow> bool \<Rightarrow> int \<Rightarrow> posix_world \<Rightarrow> int option \<times> posix_world" where
  "sem_open name creat excl v w =
     (case psem_names w name of
        Some i \<Rightarrow> if creat \<and> excl then (None, w\<lparr>errno := EEXIST\<rparr>) else (Some i, w)
      | None \<Rightarrow>
          if \<not> creat then (None, w\<lparr>errno := ENOENT\<rparr>)
          else (Some (next_psem w),
                w\<lparr>psem_names := (psem_names w)(name \<mapsto> next_psem w),
                  psems := (psems w)(next_psem w \<mapsto> v), next_psem := next_psem w + 1\<rparr>))"

definition sem_unlink :: "byte list \<Rightarrow> posix_world \<Rightarrow> int \<times> posix_world" where
  "sem_unlink name w =
     (if psem_names w name = None then (-1, w\<lparr>errno := ENOENT\<rparr>)
      else (0, w\<lparr>psem_names := (psem_names w)(name := None)\<rparr>))"

text \<open>The operations on a \<open>sem_t *\<close>; through \<open>NULL\<close> they fault.\<close>

definition with_psem ::
  "int option \<Rightarrow> posix_world \<Rightarrow> (int \<Rightarrow> int \<Rightarrow> ('a, posix_world) outcome) \<Rightarrow> ('a, posix_world) outcome" where
  "with_psem sem w f =
     (case sem of
        None \<Rightarrow> Faults w
      | Some i \<Rightarrow> (case psems w i of None \<Rightarrow> Faults w | Some v \<Rightarrow> f i v))"

definition sem_getvalue :: "int option \<Rightarrow> posix_world \<Rightarrow> (int \<times> int, posix_world) outcome" where
  "sem_getvalue sem w = with_psem sem w (\<lambda>i v. Returns (0, v) w)"

definition sem_post :: "int option \<Rightarrow> posix_world \<Rightarrow> (int, posix_world) outcome" where
  "sem_post sem w = with_psem sem w (\<lambda>i v.
     if v = sem_value_max then Returns (-1) (w\<lparr>errno := EOVERFLOW\<rparr>)
     else Returns 0 (w\<lparr>psems := (psems w)(i \<mapsto> v + 1)\<rparr>))"

definition sem_wait :: "int option \<Rightarrow> posix_world \<Rightarrow> (int, posix_world) outcome" where
  "sem_wait sem w = with_psem sem w (\<lambda>i v.
     if v \<le> 0 then Blocks w else Returns 0 (w\<lparr>psems := (psems w)(i \<mapsto> v - 1)\<rparr>))"

definition sem_trywait :: "int option \<Rightarrow> posix_world \<Rightarrow> (int, posix_world) outcome" where
  "sem_trywait sem w = with_psem sem w (\<lambda>i v.
     if v \<le> 0 then Returns (-1) (w\<lparr>errno := EAGAIN\<rparr>)
     else Returns 0 (w\<lparr>psems := (psems w)(i \<mapsto> v - 1)\<rparr>))"

definition sem_timedwait :: "int option \<Rightarrow> posix_world \<Rightarrow> (int, posix_world) outcome" where
  "sem_timedwait sem w = with_psem sem w (\<lambda>i v.
     if v \<le> 0 then Returns (-1) (w\<lparr>errno := ETIMEDOUT\<rparr>)
     else Returns 0 (w\<lparr>psems := (psems w)(i \<mapsto> v - 1)\<rparr>))"

definition sem_close :: "int option \<Rightarrow> posix_world \<Rightarrow> int \<times> posix_world" where
  "sem_close sem w = (if sem = None then (-1, w\<lparr>errno := EINVAL\<rparr>) else (0, w))"

section \<open>Operations\<close>

definition sem_name :: "string \<Rightarrow> int \<Rightarrow> byte list" where
  "sem_name s key = cstr s @ dec_of_int key"

definition old_print_sem :: "byte list \<Rightarrow> int option \<Rightarrow> posix_world \<Rightarrow> (byte list, posix_world) outcome" where
  "old_print_sem name sem w =
     bind_outcome (sem_getvalue sem w) (\<lambda>(r, val) w.
     Returns (cstr ''semaphore '' @ name @ cstr '' = '' @ dec_of_int val @ [10]) w)"

definition old_attach_stack :: "int \<Rightarrow> int \<Rightarrow> posix_world \<Rightarrow> (old_stack_t option, posix_world) outcome" where
  "old_attach_stack key bytes w =
     (let name_count = sem_name ''count'' key; name_flag = sem_name ''flag'' key;
          w = w\<lparr>key_count := Some name_count, key_flag := Some name_flag\<rparr>;
          (shm, w) = shmget key bytes False True w;
          my_errno = errno w in
      if 0 < shm then
        (let (memory, w) = shmat shm w in
         bind_outcome (c_assert (memory \<noteq> 0) w) (\<lambda>_ w.
         let (count, w) = sem_open name_count False False 0 w in
         if errno w = ENOENT \<and> count = None then Returns None w
         else
           (let (flag, w) = sem_open name_flag False True 0 w in
            if errno w = ENOENT \<and> flag = None then Returns None w
            else Returns (Some \<lparr>old_size = bytes, old_memory = memory, old_shmem_id = shm,
                                old_count = count, old_flag = flag\<rparr>) w)))
      else if my_errno = EINVAL then Returns None w
      else
        (let (shm, w) = shmget key bytes True False w in
         bind_outcome (c_assert (0 < shm) w) (\<lambda>_ w.
         let (memory, w) = shmat shm w in
         bind_outcome (c_assert (memory \<noteq> 0) w) (\<lambda>_ w.
         let (count, w) = sem_open name_count True False 0 w in
         if errno w = EEXIST then Returns None w
         else
           (let (flag, w) = sem_open name_flag True True 0 w in
            if errno w = EEXIST then Returns None w
            else
              bind_outcome (c_assert (flag \<noteq> None \<and> count \<noteq> None) w) (\<lambda>_ w.
              bind_outcome (sem_post flag w) (\<lambda>_ w.
              Returns (Some \<lparr>old_size = bytes, old_memory = memory, old_shmem_id = shm,
                             old_count = count, old_flag = flag\<rparr>) w)))))))"

definition old_detach_stack :: "old_stack_t option \<Rightarrow> posix_world \<Rightarrow> (int option, posix_world) outcome" where
  "old_detach_stack stack w =
     (case stack of
        None \<Rightarrow> Returns (Some (-1)) w
      | Some s \<Rightarrow>
          (let (check, w) = shmdt (old_memory s) w in
           bind_outcome (c_assert (0 \<le> check) w) (\<lambda>_ w.
           let (check, w) = sem_close (old_count s) w in
           bind_outcome (c_assert (0 \<le> check) w) (\<lambda>_ w.
           let (check, w) = sem_close (old_flag s) w in
           bind_outcome (c_assert (0 \<le> check) w) (\<lambda>_ w. Returns None w)))))"

text \<open>\<open>mark_destruct\<close> unlinks the names in the globals and frees them; freed names fault.\<close>

definition old_mark_destruct :: "old_stack_t option \<Rightarrow> posix_world \<Rightarrow> (int, posix_world) outcome" where
  "old_mark_destruct stack w =
     (case stack of
        None \<Rightarrow> Returns (-1) w
      | Some s \<Rightarrow>
          (let (check, w) = shm_rmid (old_shmem_id s) w in
           bind_outcome (c_assert (check = 0) w) (\<lambda>_ w.
           case (key_count w, key_flag w) of
             (Some name_count, Some name_flag) \<Rightarrow>
               (let (check, w) = sem_unlink name_count w in
                bind_outcome (c_assert (check = 0) w) (\<lambda>_ w.
                let (check, w) = sem_unlink name_flag w in
                bind_outcome (c_assert (check = 0) w) (\<lambda>_ w.
                Returns 0 (w\<lparr>key_count := None, key_flag := None\<rparr>))))
           | _ \<Rightarrow> Faults w)))"

definition old_get_size :: "old_stack_t option \<Rightarrow> int" where
  "old_get_size stack = (case stack of None \<Rightarrow> -1 | Some s \<Rightarrow> old_size s)"

definition old_get_count :: "old_stack_t option \<Rightarrow> posix_world \<Rightarrow> (int, posix_world) outcome" where
  "old_get_count stack w =
     (case stack of
        None \<Rightarrow> Returns (-1) w
      | Some s \<Rightarrow>
          bind_outcome (sem_getvalue (old_count s) w) (\<lambda>(check, cur_count) w.
          bind_outcome (c_assert (0 \<le> check) w) (\<lambda>_ w. Returns cur_count w)))"

text \<open>
  The start of \<open>push\<close> and \<open>pop\<close>: \<open>False\<close> is the early return with -1. The third condition
  repeats the second one.
\<close>

definition old_lock :: "old_stack_t \<Rightarrow> posix_world \<Rightarrow> (bool, posix_world) outcome" where
  "old_lock s w =
     (if ptimeout_flag w = 0 then bind_outcome (sem_wait (old_flag s) w) (\<lambda>_ w. Returns True w)
      else if ptimeout_flag w = -1 then
        bind_outcome (sem_trywait (old_flag s) w) (\<lambda>_ w. Returns (errno w \<noteq> EAGAIN) w)
      else if ptimeout_flag w = -1 then
        bind_outcome (sem_timedwait (old_flag s) w) (\<lambda>_ w. Returns (errno w \<noteq> ETIMEDOUT) w)
      else Returns True w)"

definition old_push :: "old_stack_t option \<Rightarrow> 64 word \<Rightarrow> posix_world \<Rightarrow> (int, posix_world) outcome" where
  "old_push stack val w =
     (case stack of
        None \<Rightarrow> Returns (-1) w
      | Some s \<Rightarrow>
          bind_outcome (old_lock s w) (\<lambda>go w.
          if \<not> go then Returns (-1) w
          else
            bind_outcome (old_get_count stack w) (\<lambda>count w.
            if old_get_size stack \<le> count then
              bind_outcome (sem_post (old_flag s) w) (\<lambda>_ w. Returns (-1) w)
            else
              bind_outcome (old_get_count stack w) (\<lambda>count w.
              case store_cell (old_memory s) count val w of
                None \<Rightarrow> Faults w
              | Some w \<Rightarrow>
                  bind_outcome (sem_post (old_count s) w) (\<lambda>_ w.
                  bind_outcome (sem_post (old_flag s) w) (\<lambda>_ w. Returns 0 w))))))"

definition old_pop :: "old_stack_t option \<Rightarrow> posix_world \<Rightarrow> (int \<times> 64 word option, posix_world) outcome" where
  "old_pop stack w =
     (case stack of
        None \<Rightarrow> Returns (-1, None) w
      | Some s \<Rightarrow>
          bind_outcome (old_lock s w) (\<lambda>go w.
          if \<not> go then Returns (-1, None) w
          else
            bind_outcome (old_get_count stack w) (\<lambda>count w.
            if count = 0 then
              bind_outcome (sem_post (old_flag s) w) (\<lambda>_ w. Returns (-1, None) w)
            else
              bind_outcome (sem_wait (old_count s) w) (\<lambda>_ w.
              bind_outcome (old_get_count stack w) (\<lambda>count w.
              case load_cell (old_memory s) count w of
                None \<Rightarrow> Faults w
              | Some val \<Rightarrow>
                  bind_outcome (sem_post (old_flag s) w) (\<lambda>_ w. Returns (0, Some val) w))))))"

definition old_set_wait :: "int \<Rightarrow> (int \<times> int) option \<Rightarrow> posix_world \<Rightarrow> (int option, posix_world) outcome" where
  "old_set_wait val timeout w =
     Returns None
       (case timeout of
          None \<Rightarrow> w\<lparr>ptimeout_flag := val\<rparr>
        | Some t \<Rightarrow> w\<lparr>ptimeout_flag := val, ptimeout_time := t\<rparr>)"

definition old_clear_key :: "int \<Rightarrow> int \<Rightarrow> posix_world \<Rightarrow> (int option, posix_world) outcome" where
  "old_clear_key key bytes w =
     bind_outcome (old_attach_stack key bytes w) (\<lambda>stack w.
     bind_outcome (c_assert (stack \<noteq> None) w) (\<lambda>_ w.
     bind_outcome (old_mark_destruct stack w) (\<lambda>_ w. Returns None w)))"

definition old_rand_key_gen :: "int \<Rightarrow> byte list list \<Rightarrow> (int, unit) outcome" where
  "old_rand_key_gen rnd argv =
     (if length argv = 1 then Returns rnd ()
      else if 1 < length argv then Returns (atoi (argv ! 1)) ()
      else Faults ())"

section \<open>The view of one stack\<close>

definition old_view :: "old_stack_t \<Rightarrow> posix_world \<Rightarrow> int \<Rightarrow> int \<Rightarrow> 64 word list \<Rightarrow> bool" where
  "old_view s w c f cells \<longleftrightarrow>
     (\<exists>i j. old_count s = Some i \<and> old_flag s = Some j \<and> i \<noteq> j \<and> psems w i = Some c \<and> psems w j = Some f) \<and>
     cells_at (old_memory s) w = cells"

definition old_waits_ok :: "posix_world \<Rightarrow> bool" where
  "old_waits_ok w \<longleftrightarrow> ptimeout_flag w = 0 \<or> ptimeout_flag w = -1 \<and> errno w \<noteq> EAGAIN"

text \<open>What the semaphore calls leave alone.\<close>

definition same_mode :: "posix_world \<Rightarrow> posix_world \<Rightarrow> bool" where
  "same_mode w w' \<longleftrightarrow> ptimeout_flag w' = ptimeout_flag w \<and> errno w' = errno w"

lemma same_mode_trans: "same_mode a b \<Longrightarrow> same_mode b c \<Longrightarrow> same_mode a c"
  by (simp add: same_mode_def)

lemma old_waits_ok_mode: "same_mode w w' \<Longrightarrow> old_waits_ok w' = old_waits_ok w"
  by (simp add: same_mode_def old_waits_ok_def)

lemma cells_at_psems: "cells_at a (w\<lparr>psems := m\<rparr>) = cells_at a w"
  by (auto simp: cells_at_def split: option.splits)

lemma set_count_view:
  "old_view s w c f cells \<Longrightarrow> old_count s = Some i \<Longrightarrow> old_view s (w\<lparr>psems := (psems w)(i \<mapsto> c')\<rparr>) c' f cells"
  by (auto simp: old_view_def cells_at_psems)

lemma set_flag_view:
  "old_view s w c f cells \<Longrightarrow> old_flag s = Some j \<Longrightarrow> old_view s (w\<lparr>psems := (psems w)(j \<mapsto> f')\<rparr>) c f' cells"
  by (auto simp: old_view_def cells_at_psems)

lemma old_viewE:
  assumes "old_view s w c f cells"
  obtains i j where "old_count s = Some i" and "old_flag s = Some j" and "psems w i = Some c"
    and "psems w j = Some f" and "cells_at (old_memory s) w = cells"
  using assms by (auto simp: old_view_def)

lemma post_flag:
  assumes "old_view s w c f cells" and "f < sem_value_max"
  shows "\<exists>w'. sem_post (old_flag s) w = Returns 0 w' \<and> old_view s w' c (f + 1) cells \<and> same_mode w w'"
proof (rule old_viewE [OF assms(1)])
  fix i j
  assume ids: "old_count s = Some i" "old_flag s = Some j" "psems w i = Some c" "psems w j = Some f"
  from set_flag_view [OF assms(1)] ids assms(2-) show ?thesis
    by (auto simp: sem_post_def with_psem_def same_mode_def)
qed

lemma post_count:
  assumes "old_view s w c f cells" and "c < sem_value_max"
  shows "\<exists>w'. sem_post (old_count s) w = Returns 0 w' \<and> old_view s w' (c + 1) f cells \<and> same_mode w w'"
proof (rule old_viewE [OF assms(1)])
  fix i j
  assume ids: "old_count s = Some i" "old_flag s = Some j" "psems w i = Some c" "psems w j = Some f"
  from set_count_view [OF assms(1)] ids assms(2-) show ?thesis
    by (auto simp: sem_post_def with_psem_def same_mode_def)
qed

lemma wait_count:
  assumes "old_view s w c f cells" and "0 < c"
  shows "\<exists>w'. sem_wait (old_count s) w = Returns 0 w' \<and> old_view s w' (c - 1) f cells \<and> same_mode w w'"
proof (rule old_viewE [OF assms(1)])
  fix i j
  assume ids: "old_count s = Some i" "old_flag s = Some j" "psems w i = Some c" "psems w j = Some f"
  from set_count_view [OF assms(1)] ids assms(2-) show ?thesis
    by (auto simp: sem_wait_def with_psem_def same_mode_def)
qed

lemma old_get_count_view:
  "old_view s w c f cells \<Longrightarrow> old_get_count (Some s) w = Returns c w"
  by (erule old_viewE) (simp add: old_get_count_def sem_getvalue_def with_psem_def)

lemma old_lock_view:
  assumes "old_view s w c f cells" and "0 < f" and "old_waits_ok w"
  shows "\<exists>w'. old_lock s w = Returns True w' \<and> old_view s w' c (f - 1) cells \<and> same_mode w w'"
proof (rule old_viewE [OF assms(1)])
  fix i j
  assume ids: "old_count s = Some i" "old_flag s = Some j" "psems w i = Some c" "psems w j = Some f"
  from set_flag_view [OF assms(1)] ids assms(2-) show ?thesis
    by (auto simp: old_lock_def sem_wait_def sem_trywait_def old_waits_ok_def with_psem_def same_mode_def)
qed

lemma old_store_view:
  assumes "old_view s w c f cells" and "n < length cells"
  shows "\<exists>w'. store_cell (old_memory s) (int n) v w = Some w' \<and>
    old_view s w' c f (cells[n := v]) \<and> same_mode w w'"
proof -
  from assms have cells: "cells_at (old_memory s) w = cells" by (simp add: old_view_def)
  from store_cell_at [of n "old_memory s" w v] assms(2) cells obtain m where
    m: "store_cell (old_memory s) (int n) v w = Some (w\<lparr>shms := m\<rparr>)"
      "cells_at (old_memory s) (w\<lparr>shms := m\<rparr>) = cells[n := v]"
    by auto
  with assms(1) have "old_view s (w\<lparr>shms := m\<rparr>) c f (cells[n := v])"
    by (auto simp: old_view_def)
  with m(1) show ?thesis by (auto simp: same_mode_def)
qed

lemma old_load_view:
  assumes "old_view s w c f cells" and "n < length cells"
  shows "load_cell (old_memory s) (int n) w = Some (cells ! n)"
  using load_cell_at [of n "old_memory s" w] assms by (simp add: old_view_def)

section \<open>What push and pop do\<close>

text \<open>The part of \<open>push\<close> after the lock, wherever the flag stands.\<close>

lemma old_push_view:
  assumes "old_lock s w0 = Returns True w" and "old_view s w (int n) f cells" and "int n < old_size s"
    and "n < length cells" and "int n < sem_value_max" and "f < sem_value_max"
  shows "\<exists>w'. old_push (Some s) v w0 = Returns 0 w' \<and> old_view s w' (int (Suc n)) (f + 1) (cells[n := v]) \<and>
    same_mode w w'"
proof -
  from old_store_view [OF assms(2,4), of v] obtain w1 where
    1: "store_cell (old_memory s) (int n) v w = Some w1" "old_view s w1 (int n) f (cells[n := v])"
      "same_mode w w1" by blast
  from post_count [OF 1(2) assms(5)] obtain w2 where
    2: "sem_post (old_count s) w1 = Returns 0 w2" "old_view s w2 (int n + 1) f (cells[n := v])"
      "same_mode w1 w2" by blast
  from post_flag [OF 2(2) assms(6)] obtain w3 where
    3: "sem_post (old_flag s) w2 = Returns 0 w3" "old_view s w3 (int n + 1) (f + 1) (cells[n := v])"
      "same_mode w2 w3" by blast
  have "old_push (Some s) v w0 = Returns 0 w3"
    using assms(1,3) 1(1) 2(1) 3(1) old_get_count_view [OF assms(2)]
    by (simp add: old_push_def old_get_size_def)
  moreover have "same_mode w w3" using 1(3) 2(3) 3(3) same_mode_trans by blast
  ultimately show ?thesis using 3(2) by (auto simp: add.commute)
qed

lemma old_push_full_view:
  assumes "old_lock s w0 = Returns True w" and "old_view s w (int n) f cells" and "old_size s \<le> int n"
    and "f < sem_value_max"
  shows "\<exists>w'. old_push (Some s) v w0 = Returns (-1) w' \<and> old_view s w' (int n) (f + 1) cells \<and>
    same_mode w w'"
  using post_flag [OF assms(2,4)] assms(1,3) old_get_count_view [OF assms(2)]
  by (auto simp: old_push_def old_get_size_def)

lemma old_pop_view:
  assumes "old_lock s w0 = Returns True w" and "old_view s w (int (Suc n)) f cells" and "n < length cells"
    and "f < sem_value_max"
  shows "\<exists>w'. old_pop (Some s) w0 = Returns (0, Some (cells ! n)) w' \<and> old_view s w' (int n) (f + 1) cells \<and>
    same_mode w w'"
proof -
  from wait_count [OF assms(2)] obtain w1 where
    1: "sem_wait (old_count s) w = Returns 0 w1" "old_view s w1 (int n) f cells" "same_mode w w1"
    by auto
  from post_flag [OF 1(2) assms(4)] obtain w2 where
    2: "sem_post (old_flag s) w1 = Returns 0 w2" "old_view s w2 (int n) (f + 1) cells" "same_mode w1 w2"
    by blast
  have "old_pop (Some s) w0 = Returns (0, Some (cells ! n)) w2"
    using assms(1) 1(1) 2(1) old_get_count_view [OF assms(2)] old_get_count_view [OF 1(2)]
      old_load_view [OF 1(2) assms(3)]
    by (simp add: old_pop_def)
  with 2(2) same_mode_trans [OF 1(3) 2(3)] show ?thesis by blast
qed

lemma old_pop_empty_view:
  assumes "old_lock s w0 = Returns True w" and "old_view s w 0 f cells" and "f < sem_value_max"
  shows "\<exists>w'. old_pop (Some s) w0 = Returns (-1, None) w' \<and> old_view s w' 0 (f + 1) cells \<and> same_mode w w'"
  using post_flag [OF assms(2,3)] assms(1) old_get_count_view [OF assms(2)]
  by (auto simp: old_pop_def)

section \<open>The bounded stack of a good handle\<close>

definition old_abs :: "old_stack_t \<Rightarrow> posix_world \<Rightarrow> 64 word list" where
  "old_abs s w =
     (case old_count s of
        None \<Rightarrow> []
      | Some i \<Rightarrow> rev (take (nat (the (psems w i))) (cells_at (old_memory s) w)))"

definition old_inv :: "old_stack_t \<Rightarrow> posix_world \<Rightarrow> bool" where
  "old_inv s w \<longleftrightarrow>
     (\<exists>n cells. old_view s w (int n) 1 cells \<and> n \<le> length cells \<and> old_waits_ok w \<and>
        0 \<le> old_size s \<and> old_size s \<le> int (length cells) \<and> old_size s \<le> sem_value_max)"

lemma old_abs_view: "old_view s w (int n) f cells \<Longrightarrow> old_abs s w = rev (take n cells)"
  by (auto simp: old_view_def old_abs_def)

lemma old_invE:
  assumes "old_inv s w"
  obtains n cells w1 where "old_lock s w = Returns True w1" and "same_mode w w1"
    and "old_view s w1 (int n) 0 cells" and "n \<le> length cells" and "old_waits_ok w"
    and "0 \<le> old_size s" and "old_size s \<le> int (length cells)" and "old_size s \<le> sem_value_max"
    and "old_abs s w = rev (take n cells)"
proof -
  from assms obtain n cells where g: "old_view s w (int n) 1 cells" "n \<le> length cells" "old_waits_ok w"
      "0 \<le> old_size s" "old_size s \<le> int (length cells)" "old_size s \<le> sem_value_max"
    unfolding old_inv_def by blast
  from old_lock_view [OF g(1) _ g(3)] obtain w1 where
    "old_lock s w = Returns True w1" "old_view s w1 (int n) 0 cells" "same_mode w w1" by auto
  with g old_abs_view [OF g(1)] that show thesis by blast
qed

lemma old_invI:
  assumes "old_view s w' (int n) (0 + 1) cells" and "same_mode w w1" and "same_mode w1 w'"
    and "old_waits_ok w" and "n \<le> length cells"
    and "0 \<le> old_size s" and "old_size s \<le> int (length cells)" and "old_size s \<le> sem_value_max"
  shows "old_inv s w'" and "old_abs s w' = rev (take n cells)"
proof -
  from assms(2-4) have "old_waits_ok w'" using same_mode_trans old_waits_ok_mode by blast
  with assms show "old_inv s w'" unfolding old_inv_def by auto
  from old_abs_view [OF assms(1)] show "old_abs s w' = rev (take n cells)" .
qed

interpretation posix: bounded_stack "old_inv s" "old_abs s" "nat (old_size s)"
    "old_push (Some s)" "old_pop (Some s)" for s :: old_stack_t
proof unfold_locales
  fix w v
  assume "old_inv s w" and room: "length (old_abs s w) < nat (old_size s)"
  from this(1) obtain n cells w1 where g: "old_lock s w = Returns True w1" "same_mode w w1"
      "old_view s w1 (int n) 0 cells" "n \<le> length cells" "old_waits_ok w" "0 \<le> old_size s"
      "old_size s \<le> int (length cells)" "old_size s \<le> sem_value_max" "old_abs s w = rev (take n cells)"
    by (rule old_invE)
  from room g have n: "int n < old_size s" "n < length cells" "int n < sem_value_max" by auto
  from old_push_view [OF g(1,3) n, of v] obtain w2 where
    2: "old_push (Some s) v w = Returns 0 w2" "old_view s w2 (int (Suc n)) (0 + 1) (cells[n := v])"
      "same_mode w1 w2"
    by (auto simp: sem_value_max_def)
  from old_invI [OF 2(2) g(2) 2(3) g(5)] n g have "old_inv s w2" "old_abs s w2 = v # old_abs s w"
    by (simp_all add: take_Suc_conv_app_nth)
  with 2(1) show "\<exists>w'. old_push (Some s) v w = Returns 0 w' \<and> old_inv s w' \<and> old_abs s w' = v # old_abs s w"
    by blast
next
  fix w v
  assume "old_inv s w" and full: "nat (old_size s) \<le> length (old_abs s w)"
  from this(1) obtain n cells w1 where g: "old_lock s w = Returns True w1" "same_mode w w1"
      "old_view s w1 (int n) 0 cells" "n \<le> length cells" "old_waits_ok w" "0 \<le> old_size s"
      "old_size s \<le> int (length cells)" "old_size s \<le> sem_value_max" "old_abs s w = rev (take n cells)"
    by (rule old_invE)
  from full g have "old_size s \<le> int n" by auto
  from old_push_full_view [OF g(1,3) this, of v] obtain w2 where
    2: "old_push (Some s) v w = Returns (-1) w2" "old_view s w2 (int n) (0 + 1) cells" "same_mode w1 w2"
    by (auto simp: sem_value_max_def)
  from old_invI [OF 2(2) g(2) 2(3) g(5,4,6-8)] 2(1) g(9) show
    "\<exists>w'. old_push (Some s) v w = Returns (-1) w' \<and> old_inv s w' \<and> old_abs s w' = old_abs s w"
    by auto
next
  fix w x xs
  assume "old_inv s w" and top: "old_abs s w = x # xs"
  from this(1) obtain n cells w1 where g: "old_lock s w = Returns True w1" "same_mode w w1"
      "old_view s w1 (int n) 0 cells" "n \<le> length cells" "old_waits_ok w" "0 \<le> old_size s"
      "old_size s \<le> int (length cells)" "old_size s \<le> sem_value_max" "old_abs s w = rev (take n cells)"
    by (rule old_invE)
  from top g(9) obtain k where k: "n = Suc k" by (cases n) auto
  with g(4) have len: "k < length cells" by simp
  with top g(9) k have x: "x = cells ! k" "xs = rev (take k cells)"
    by (auto simp: take_Suc_conv_app_nth)
  from g(3) k have "old_view s w1 (int (Suc k)) 0 cells" by simp
  from old_pop_view [OF g(1) this len] obtain w2 where
    2: "old_pop (Some s) w = Returns (0, Some x) w2" "old_view s w2 (int k) (0 + 1) cells" "same_mode w1 w2"
    by (auto simp: sem_value_max_def x)
  from old_invI [OF 2(2) g(2) 2(3) g(5) _ g(6-8)] 2(1) len x(2) show
    "\<exists>w'. old_pop (Some s) w = Returns (0, Some x) w' \<and> old_inv s w' \<and> old_abs s w' = xs"
    by auto
next
  fix w
  assume "old_inv s w" and empty: "old_abs s w = []"
  from this(1) obtain n cells w1 where g: "old_lock s w = Returns True w1" "same_mode w w1"
      "old_view s w1 (int n) 0 cells" "n \<le> length cells" "old_waits_ok w" "0 \<le> old_size s"
      "old_size s \<le> int (length cells)" "old_size s \<le> sem_value_max" "old_abs s w = rev (take n cells)"
    by (rule old_invE)
  from empty g have n: "n = 0" by (cases cells) auto
  with g(3) have "old_view s w1 0 0 cells" by simp
  from old_pop_empty_view [OF g(1) this] obtain w2 where
    2: "old_pop (Some s) w = Returns (-1, None) w2" "old_view s w2 (int 0) (0 + 1) cells" "same_mode w1 w2"
    by (auto simp: sem_value_max_def)
  from old_invI [OF 2(2) g(2) 2(3) g(5) _ g(6-8)] 2(1) show
    "\<exists>w'. old_pop (Some s) w = Returns (-1, None) w' \<and> old_inv s w' \<and> old_abs s w' = []"
    by auto
qed

section \<open>Properties\<close>

text \<open>A handle with a stack of \<open>n\<close> cells in the state \<open>c\<close>, \<open>f\<close>, for the witnesses.\<close>

definition old_example :: old_stack_t where
  "old_example = \<lparr>old_size = 2, old_memory = 1, old_shmem_id = 1, old_count = Some 1, old_flag = Some 2\<rparr>"

definition old_example_world :: "int \<Rightarrow> int \<Rightarrow> int \<Rightarrow> errno \<Rightarrow> posix_world" where
  "old_example_world c f mode e = \<lparr>shm_keys = [7 \<mapsto> 1],
     shms = [1 \<mapsto> \<lparr>sg_size = 2, sg_cells = replicate 512 0, sg_nattch = 1, sg_dest = False\<rparr>],
     next_shm = 2, sem_keys = Map.empty, sems = Map.empty, next_sem = 1, maps = [1 \<mapsto> 1], next_addr = 2,
     errno = e, psem_names = [sem_name ''count'' 7 \<mapsto> 1, sem_name ''flag'' 7 \<mapsto> 2],
     psems = [1 \<mapsto> c, 2 \<mapsto> f], next_psem = 3, ptimeout_flag = mode, ptimeout_time = (0, 0),
     key_count = Some (sem_name ''count'' 7), key_flag = Some (sem_name ''flag'' 7)\<rparr>"

lemma old_example_view:
  "old_view old_example (old_example_world c f mode e) c f (replicate 512 0)"
  by (simp add: old_view_def old_example_def old_example_world_def cells_at_def)

text \<open>
  C35: the older version keeps the same contract: through a good handle, waiting for ever or
  trying at once with an \<open>errno\<close> other than \<open>EAGAIN\<close>, any sequence of \<open>push\<close> and \<open>pop\<close> answers
  as the bounded stack does, with -1 at once when it is full or empty. Here, too, the header (\<open>stack_old.h:48\<close>) says
  that \<open>set_wait\<close> decides whether a call waits on a full or an empty stack; with 0, for ever, no such call waits.
\<close>

theorem old_stack_refines:
  assumes "old_inv s w"
  shows "\<exists>w'. do_run (old_push (Some s)) (old_pop (Some s)) ops w =
      Returns (fst (spec_run (nat (old_size s)) ops (old_abs s w))) w' \<and>
    old_inv s w' \<and> old_abs s w' = snd (spec_run (nat (old_size s)) ops (old_abs s w))"
  by (rule posix.run_refines [OF assms])

theorem old_stack_refines_witness:
  "\<exists>w'. do_run (old_push (Some old_example)) (old_pop (Some old_example))
      [Push 5, Push 6, Push 8, Pop, Pop, Pop] (old_example_world 0 1 0 E_NONE) =
    Returns [(0, None), (0, None), (-1, None), (0, Some 6), (0, Some 5), (-1, None)] w'"
proof -
  let ?w = "old_example_world 0 1 0 E_NONE"
  have "old_waits_ok ?w" "old_size old_example = 2"
    by (simp_all add: old_waits_ok_def old_example_world_def old_example_def)
  then have "old_inv old_example ?w"
    using old_example_view [of 0 1 0 E_NONE] unfolding old_inv_def
    by (intro exI [of _ "0 :: nat"] exI [of _ "replicate 512 0"]) (simp add: sem_value_max_def)
  moreover have "old_abs old_example ?w = []"
    using old_abs_view [of old_example ?w 0 1 "replicate 512 0"] old_example_view [of 0 1 0 E_NONE] by simp
  ultimately show ?thesis
    using old_stack_refines [of old_example ?w "[Push 5, Push 6, Push 8, Pop, Pop, Pop]"]
      \<open>old_size old_example = 2\<close>
    by (auto simp: numeral_2_eq_2)
qed

text \<open>
  After \<open>set_wait (1)\<close> the older \<open>push\<close> takes no lock at all, because the test for the timed
  wait repeats the one for -1. It stores its element while another process holds the flag, and
  releases that flag.
\<close>

theorem old_timed_push_takes_no_lock:
  assumes "old_view s w (int n) 0 cells" and "ptimeout_flag w = 1" and "int n < old_size s"
    and "n < length cells" and "int n < sem_value_max"
  shows "\<exists>w'. old_push (Some s) v w = Returns 0 w' \<and> old_view s w' (int (Suc n)) 1 (cells[n := v])"
proof -
  have "old_lock s w = Returns True w" using assms(2) by (simp add: old_lock_def)
  from old_push_view [OF this assms(1,3-5), of v] show ?thesis by (auto simp: sem_value_max_def)
qed

theorem old_timed_push_takes_no_lock_witness:
  "\<exists>w'. old_push (Some old_example) 5 (old_example_world 1 0 1 E_NONE) = Returns 0 w' \<and>
    old_view old_example w' 2 1 ((replicate 512 0)[1 := 5])"
  using old_timed_push_takes_no_lock [of old_example "old_example_world 1 0 1 E_NONE" 1 "replicate 512 0" 5]
    old_example_view [of 1 0 1 E_NONE]
  by (simp add: sem_value_max_def) (simp add: old_example_world_def old_example_def)

text \<open>
  After \<open>set_wait (-1)\<close> a \<open>push\<close> or \<open>pop\<close> that gets the flag still looks at \<open>errno\<close>, which a
  success does not clear. After one \<open>EAGAIN\<close> the next call takes the flag, answers -1 and
  keeps the flag, so that all later calls of all processes fail as well.
\<close>

theorem old_stale_errno_keeps_flag:
  assumes "old_view s w c 1 cells" and "ptimeout_flag w = -1" and "errno w = EAGAIN"
  shows "\<exists>w'. old_push (Some s) v w = Returns (-1) w' \<and> old_view s w' c 0 cells \<and>
    old_pop (Some s) w = Returns (-1, None) w' \<and>
    old_push (Some s) v w' = Returns (-1) w' \<and> old_pop (Some s) w' = Returns (-1, None) w'"
proof (rule old_viewE [OF assms(1)])
  fix i j
  assume ids: "old_count s = Some i" "old_flag s = Some j" "psems w i = Some c" "psems w j = Some 1"
  define w' where "w' = w\<lparr>psems := (psems w)(j \<mapsto> 0)\<rparr>"
  have view: "old_view s w' c 0 cells"
    using set_flag_view [OF assms(1) ids(2)] by (simp add: w'_def)
  have lock: "old_lock s w = Returns False w'"
    using ids assms(2,3) by (simp add: old_lock_def sem_trywait_def with_psem_def w'_def)
  have w': "ptimeout_flag w' = -1" "errno w' = EAGAIN" "psems w' j = Some 0"
    using assms(2,3) by (simp_all add: w'_def)
  then have "w'\<lparr>errno := EAGAIN\<rparr> = w'" by simp
  then have "old_lock s w' = Returns False w'"
    using ids(2) w' by (simp add: old_lock_def sem_trywait_def with_psem_def)
  with lock view show ?thesis by (simp add: old_push_def old_pop_def)
qed

theorem old_stale_errno_keeps_flag_witness:
  "\<exists>w'. old_push (Some old_example) 5 (old_example_world 0 1 (-1) EAGAIN) = Returns (-1) w' \<and>
    old_push (Some old_example) 5 w' = Returns (-1) w'"
  using old_stale_errno_keeps_flag [OF old_example_view [of 0 1 "-1" EAGAIN], of 5]
  by (auto simp: old_example_world_def)

text \<open>
  The names of the semaphores are globals, so after a process has attached a second stack,
  \<open>mark_destruct\<close> of the first one removes the names of the second one's semaphores and leaves
  its own.
\<close>

theorem old_mark_destruct_wrong_names:
  assumes "shms w (old_shmem_id s1) \<noteq> None" and "key_count w = Some c2" and "key_flag w = Some f2"
    and "psem_names w c2 \<noteq> None" and "psem_names w f2 \<noteq> None" and "c2 \<noteq> f2"
    and "c1 \<noteq> c2" and "c1 \<noteq> f2"
  shows "\<exists>w'. old_mark_destruct (Some s1) w = Returns 0 w' \<and> psem_names w' c2 = None \<and>
    psem_names w' f2 = None \<and> psem_names w' c1 = psem_names w c1"
  using assms
  by (auto simp: old_mark_destruct_def shm_rmid_def sem_unlink_def Let_def)

theorem old_mark_destruct_wrong_names_witness:
  "\<exists>w w'. psem_names w (sem_name ''count'' 7) = Some 1 \<and> key_count w = Some (sem_name ''count'' 8) \<and>
    old_mark_destruct (Some old_example) w = Returns 0 w' \<and>
    psem_names w' (sem_name ''count'' 8) = None \<and> psem_names w' (sem_name ''count'' 7) = Some 1"
proof -
  have names: "sem_name ''count'' 7 \<noteq> sem_name ''count'' 8" "sem_name ''count'' 7 \<noteq> sem_name ''flag'' 8"
    "sem_name ''count'' 8 \<noteq> sem_name ''flag'' 8"
    by (simp_all add: sem_name_def cstr_def dec_of_int_def dec_digits.simps)
  define w where "w = (old_example_world 0 1 0 E_NONE)\<lparr>
    psem_names := [sem_name ''count'' 7 \<mapsto> 1, sem_name ''count'' 8 \<mapsto> 3, sem_name ''flag'' 8 \<mapsto> 4],
    key_count := Some (sem_name ''count'' 8), key_flag := Some (sem_name ''flag'' 8)\<rparr>"
  have "shms w (old_shmem_id old_example) \<noteq> None"
    by (simp add: w_def old_example_world_def old_example_def)
  moreover have "key_count w = Some (sem_name ''count'' 8)" "key_flag w = Some (sem_name ''flag'' 8)"
    "psem_names w (sem_name ''count'' 8) \<noteq> None" "psem_names w (sem_name ''flag'' 8) \<noteq> None"
    "psem_names w (sem_name ''count'' 7) = Some 1"
    using names by (simp_all add: w_def)
  ultimately show ?thesis
    using old_mark_destruct_wrong_names [of w old_example "sem_name ''count'' 8" "sem_name ''flag'' 8"
        "sem_name ''count'' 7"] names
    by auto
qed

end
