(* ===== verification/Sock_Lib.thy ===== *)
theory Sock_Lib
  imports C_Prelude
begin

text \<open>
  \<open>Socket/lib.h\<close> and \<open>Socket/lib.c\<close>: buffers, addresses, the cipher, the commands and the
  layout of a request, as client and server share them. The two loops that move more than one
  buffer, \<open>send_data\<close> and \<open>receive_data\<close>, are in \<open>Sock_Net\<close> with the transports they call.
\<close>

section \<open>Constants, commands, records\<close>

definition BUFSZ :: nat where "BUFSZ = 256"
definition IDSZ :: nat where "IDSZ = 10"
definition MAX_CLIENTS_COUNT :: nat where "MAX_CLIENTS_COUNT = 10"
definition CR_MASK :: byte where "CR_MASK = 0xAA"
definition port_number :: "16 word" where "port_number = 23456"

datatype command =
    cmd_error | cmd_unknown | cmd_print | cmd_exit | cmd_cd | cmd_ls | cmd_findall | cmd_shell | cmd_quit

fun command_code :: "command \<Rightarrow> int" where
  "command_code cmd_error = -1"
| "command_code cmd_unknown = 0"
| "command_code cmd_print = 1"
| "command_code cmd_exit = 2"
| "command_code cmd_cd = 3"
| "command_code cmd_ls = 4"
| "command_code cmd_findall = 5"
| "command_code cmd_shell = 6"
| "command_code cmd_quit = 7"

lemma command_code_inject [simp]: "command_code a = command_code b \<longleftrightarrow> a = b"
  by (cases a; cases b) auto

record sockaddr_in =
  sin_family :: nat
  sin_port :: "16 word"
  sin_addr :: "32 word"

definition AF_INET :: nat where "AF_INET = 2"

text \<open>\<open>htons\<close> on a little-endian machine swaps the two bytes.\<close>

definition htons :: "16 word \<Rightarrow> 16 word" where
  "htons p = push_bit 8 p OR drop_bit 8 p"

section \<open>Buffers and addresses\<close>

definition clear_buf :: "byte list \<Rightarrow> nat \<Rightarrow> byte list" where
  "clear_buf buffer n = memset buffer 0 n"

definition create_sock_name :: "32 word \<Rightarrow> sockaddr_in \<Rightarrow> sockaddr_in" where
  "create_sock_name addr name = name\<lparr>sin_family := AF_INET, sin_port := htons port_number, sin_addr := addr\<rparr>"

text \<open>\<open>inet_aton\<close> is an argument: the address of a dotted string, if it is one.\<close>

definition convert_address ::
  "(byte list \<Rightarrow> 32 word option) \<Rightarrow> byte list \<Rightarrow> 32 word \<Rightarrow> int \<times> 32 word" where
  "convert_address inet_aton ip addr =
     (case inet_aton (c_str ip) of None \<Rightarrow> (-1, addr) | Some a \<Rightarrow> (1, a))"

text \<open>
  \<open>bind_socket\<close> with what \<open>bind\<close> answers, the error \<open>EINVAL\<close> apart; the second component says
  whether the socket is closed.
\<close>

datatype bind_result = Bound int | Bind_EINVAL | Bind_fails

definition bind_socket :: "bind_result \<Rightarrow> int \<times> bool" where
  "bind_socket r =
     (case r of
        Bound ret \<Rightarrow> (ret, False)
      | Bind_EINVAL \<Rightarrow> (-1, False)
      | Bind_fails \<Rightarrow> (-1, True))"

definition starts_with :: "byte list \<Rightarrow> byte list \<Rightarrow> bool" where
  "starts_with str substr \<longleftrightarrow> strncmp str substr (strlen substr) = 0"

lemma starts_with_prefix:
  "0 \<notin> set t \<Longrightarrow> starts_with s t \<longleftrightarrow> prefix t (c_str s)"
  by (simp add: starts_with_def strlen_def strncmp_eq_0 c_str_no_nul_id)

section \<open>Protocols\<close>

text \<open>
  \<open>choose_protocol\<close> and \<open>get_functions\<close>: \<open>dlopen\<close> gives a library, \<open>dlsym\<close> its functions; both
  can fail.
\<close>

datatype protocol = Udp | Tcp

definition choose_protocol :: "byte list \<Rightarrow> protocol option" where
  "choose_protocol type =
     (if starts_with type (cstr ''udp'') then Some Udp
      else if starts_with type (cstr ''tcp'') then Some Tcp
      else None)"

definition function_names :: "string list" where
  "function_names = [''create_socket'', ''listen_socket'', ''master'', ''receive_buf'', ''send_buf'',
     ''connect_socket'']"

definition get_functions ::
  "(protocol \<Rightarrow> 'lib option) \<Rightarrow> ('lib \<Rightarrow> string \<Rightarrow> 'fn option) \<Rightarrow> byte list \<Rightarrow> (string \<Rightarrow> 'fn option) option" where
  "get_functions dlopen dlsym type =
     (case choose_protocol type of
        None \<Rightarrow> None
      | Some p \<Rightarrow>
          (case dlopen p of
             None \<Rightarrow> None
           | Some sl \<Rightarrow>
               if list_all (\<lambda>n. dlsym sl n \<noteq> None) function_names then Some (dlsym sl) else None))"

section \<open>Requests\<close>

text \<open>\<open>strncpy (dst, src, n)\<close>: not terminated when \<open>src\<close> has \<open>n\<close> bytes or more.\<close>

definition strncpy :: "nat \<Rightarrow> byte list \<Rightarrow> byte list" where
  "strncpy n src = take n (c_str src @ replicate n 0)"

definition strcpy :: "byte list \<Rightarrow> byte list \<Rightarrow> byte list" where
  "strcpy dst src = store_at 0 (c_str src @ [0]) dst"

text \<open>\<open>beyond\<close> is the stack behind \<open>client_id_str\<close>, which ten digits leave without a NUL.\<close>

definition separate_buffer :: "byte list \<Rightarrow> byte list \<Rightarrow> byte list \<Rightarrow> int \<times> byte list" where
  "separate_buffer beyond buffer data =
     (let client_id_str = strncpy IDSZ buffer;
          client_id = atoi (client_id_str @ beyond)
      in (client_id, strcpy data (drop IDSZ buffer)))"

definition get_command :: "byte list \<Rightarrow> command" where
  "get_command buffer =
     (if starts_with buffer (cstr ''print'') then cmd_print
      else if starts_with buffer (cstr ''exit'') then cmd_exit
      else if starts_with buffer (cstr ''cd'') then cmd_cd
      else if starts_with buffer (cstr ''ls'') then cmd_ls
      else if starts_with buffer (cstr ''findall'') then cmd_findall
      else if starts_with buffer (cstr ''shell'') then cmd_shell
      else if starts_with buffer (cstr ''quit'') then cmd_quit
      else cmd_unknown)"

section \<open>The cipher\<close>

text \<open>The first \<open>n\<close> rounds of the loop in \<open>encode\<close>.\<close>

primrec encode_loop :: "nat \<Rightarrow> byte list \<Rightarrow> byte list" where
  "encode_loop 0 buffer = buffer"
| "encode_loop (Suc i) buffer = (let b = encode_loop i buffer in b[i := b ! i XOR CR_MASK])"

definition encode :: "byte list \<Rightarrow> byte list" where
  "encode buffer = encode_loop (strlen buffer) buffer"

definition decode :: "byte list \<Rightarrow> byte list" where
  "decode buffer = encode buffer"

definition xor_mask :: "byte list \<Rightarrow> byte list" where
  "xor_mask bs = map (\<lambda>b. b XOR CR_MASK) bs"

lemma length_encode_loop [simp]: "length (encode_loop n buffer) = length buffer"
  by (induction n) (auto simp: Let_def)

lemma encode_loop_map:
  "n \<le> length buffer \<Longrightarrow> encode_loop n buffer = xor_mask (take n buffer) @ drop n buffer"
proof (induction n)
  case 0
  then show ?case by (simp add: xor_mask_def)
next
  case (Suc n)
  then have IH: "encode_loop n buffer = xor_mask (take n buffer) @ drop n buffer" and n: "n < length buffer"
    by simp_all
  have "drop n buffer = buffer ! n # drop (Suc n) buffer"
    using n by (rule Cons_nth_drop_Suc [symmetric])
  with IH n show ?case
    by (simp add: xor_mask_def Let_def nth_append list_update_append take_Suc_conv_app_nth)
qed

lemma encode_eq: "encode buffer = xor_mask (c_str buffer) @ drop (strlen buffer) buffer"
  using encode_loop_map [OF strlen_le] by (simp add: encode_def take_strlen)

lemma length_encode [simp]: "length (encode buffer) = length buffer"
  by (simp add: encode_def)

lemma length_xor_mask [simp]: "length (xor_mask bs) = length bs"
  by (simp add: xor_mask_def)

lemma xor_mask_xor_mask [simp]: "xor_mask (xor_mask bs) = bs"
  by (simp add: xor_mask_def o_def xor.assoc)

lemma take_xor_mask: "take n (xor_mask bs) = xor_mask (take n bs)"
  by (simp add: xor_mask_def take_map)

lemma xor_mask_nul: "b XOR CR_MASK = 0 \<longleftrightarrow> b = CR_MASK"
  by (metis xor.commute xor.left_neutral xor.assoc xor_self_eq)

lemma nul_xor_mask: "0 \<in> set (xor_mask bs) \<longleftrightarrow> CR_MASK \<in> set bs"
proof -
  have "0 \<in> set (xor_mask bs) \<longleftrightarrow> (\<exists>b \<in> set bs. b XOR CR_MASK = 0)"
    unfolding xor_mask_def set_map image_iff by (simp add: eq_commute [of 0])
  also have "\<dots> \<longleftrightarrow> CR_MASK \<in> set bs" by (simp add: xor_mask_nul)
  finally show ?thesis .
qed

text \<open>Texts that survive the cipher: no NUL and no byte that it turns into a NUL.\<close>

definition text_ok :: "byte list \<Rightarrow> bool" where
  "text_ok m \<longleftrightarrow> 0 \<notin> set m \<and> CR_MASK \<notin> set m"

lemma text_ok_take: "text_ok m \<Longrightarrow> text_ok (take k m)"
  by (meson in_set_takeD text_ok_def)

lemma encode_text: "0 \<notin> set m \<Longrightarrow> encode (m @ 0 # rest) = xor_mask m @ 0 # rest"
  by (simp add: encode_eq c_str_append_nul strlen_def)

lemma decode_text: "text_ok m \<Longrightarrow> decode (xor_mask m @ 0 # rest) = m @ 0 # rest"
  by (simp add: decode_def encode_eq c_str_append_nul strlen_def text_ok_def nul_xor_mask)

text \<open>
  What the transports need of a cipher: it works byte by byte on the text before the NUL, and
  leaves the NUL and what follows.
\<close>

locale cipher =
  fixes enc :: "byte list \<Rightarrow> byte list"
    and dec :: "byte list \<Rightarrow> byte list"
    and ciph :: "byte list \<Rightarrow> byte list"
    and ok :: "byte list \<Rightarrow> bool"
  assumes enc_text: "ok m \<Longrightarrow> enc (m @ 0 # rest) = ciph m @ 0 # rest"
    and dec_text: "ok m \<Longrightarrow> dec (ciph m @ 0 # rest) = m @ 0 # rest"
    and ciph_take: "ciph (take k m) = take k (ciph m)"
    and ciph_length: "length (ciph m) = length m"
    and ok_take: "ok m \<Longrightarrow> ok (take k m)"
    and ok_nul: "ok m \<Longrightarrow> 0 \<notin> set m"
begin

lemma roundtrip: "ok m \<Longrightarrow> dec (enc (m @ 0 # rest)) = m @ 0 # rest"
  by (simp add: enc_text dec_text)

text \<open>
  A frame of \<open>sz\<close> bytes of an encoded buffer, received into a cleared buffer one byte shorter:
  the text arrives up to that length.
\<close>

lemma frame_text:
  assumes "ok m" and "0 < sz"
  shows "c_str (dec (take (sz - 1) (take sz (enc (m @ 0 # rest))) @ 0 # pad)) = take (sz - 1) m"
proof -
  let ?k = "sz - 1"
  have plain: "c_str (dec (ciph t @ 0 # z)) = t" if "ok t" for t z
    using dec_text [OF that] c_str_append_nul [OF ok_nul [OF that]] by metis
  have taken: "take ?k (take sz (enc (m @ 0 # rest))) = take ?k (ciph m @ 0 # rest)"
    using assms by (simp add: enc_text min_def)
  show ?thesis
  proof (cases "length m < ?k")
    case True
    then obtain j where j: "?k - length m = Suc j" by (cases "?k - length m") auto
    then have "take ?k (ciph m @ 0 # rest) = ciph m @ 0 # take j rest"
      using True by (simp add: ciph_length)
    with True show ?thesis
      unfolding taken by (simp add: plain [OF assms(1)])
  next
    case False
    then have "take ?k (ciph m @ 0 # rest) = ciph (take ?k m)"
      by (simp add: ciph_length ciph_take)
    then show ?thesis
      unfolding taken by (simp add: plain [OF ok_take [OF assms(1)]])
  qed
qed

end

interpretation xor_cipher: cipher encode decode xor_mask text_ok
  by unfold_locales
    (auto simp: encode_text decode_text take_xor_mask text_ok_take text_ok_def
      dest: in_set_takeD)

section \<open>A request and its parts\<close>

lemma separate_request:
  assumes "list_all is_digit ds" and "length ds = IDSZ" and "dec_value ds < 2 ^ 31"
    and "beyond = [] \<or> \<not> is_digit (hd beyond)" and "0 \<notin> set m"
  shows "separate_buffer beyond (ds @ m @ 0 # rest) data = (dec_value ds, store_at 0 (m @ [0]) data)"
proof -
  have nz: "0 \<notin> set ds" using assms(1) digit_nonzero by (auto simp: list_all_iff)
  then have "strncpy IDSZ (ds @ m @ 0 # rest) = ds"
    using assms(2,5) by (simp add: strncpy_def c_str_append c_str_append_nul)
  moreover have "ds \<noteq> []" using assms(2) by (auto simp: IDSZ_def)
  moreover have "atoi (ds @ beyond) = dec_value ds" if "ds \<noteq> []"
    using atoi_digits [OF assms(1) that assms(4) dec_value_nonneg [OF assms(1)] assms(3)] .
  moreover have "drop IDSZ (ds @ m @ 0 # rest) = m @ 0 # rest" using assms(2) by simp
  ultimately show ?thesis
    using assms(5) by (simp add: separate_buffer_def strcpy_def c_str_append_nul)
qed

lemma c_str_stored_text: "0 \<notin> set m \<Longrightarrow> c_str (store_at 0 (m @ [0]) data) = m"
  by (simp add: store_at_def c_str_append_nul)

text \<open>\<open>get_command\<close> sees only the text before the NUL.\<close>

lemma starts_with_c_str:
  "0 \<notin> set t \<Longrightarrow> c_str a = c_str b \<Longrightarrow> starts_with a t = starts_with b t"
  by (simp add: starts_with_prefix)

lemma get_command_c_str:
  assumes "c_str a = c_str b"
  shows "get_command a = get_command b"
proof -
  note sw = starts_with_c_str [OF _ assms]
  show ?thesis unfolding get_command_def by (simp add: sw)
qed

end
