(* ===== verification/Sock_Net.thy ===== *)
theory Sock_Net
  imports Sock_Lib
begin

text \<open>
  How buffers cross the network: \<open>send_buf\<close> and \<open>receive_buf\<close> of \<open>Socket/UDP.c\<close> and
  \<open>Socket/TCP.c\<close>, and the loops \<open>send_data\<close> and \<open>receive_data\<close> of \<open>Socket/lib.c\<close> over them. A
  datagram socket is the queue of what arrived, a stream socket the bytes that arrived.
\<close>

section \<open>Sending\<close>

text \<open>
  \<open>ret\<close> is what \<open>sendto\<close> or \<open>send\<close> answers. \<open>data\<close> is the memory from the buffer on: \<open>encode\<close>
  changes it in place, up to its first NUL, and \<open>BUFSZ\<close> bytes of it go out.
\<close>

definition udp_send_buf :: "int \<Rightarrow> byte list \<Rightarrow> int \<times> byte list \<times> byte list option" where
  "udp_send_buf ret data =
     (let data = encode data in
      if ret < 0 then (-1, data, None) else (ret, data, Some (take BUFSZ data)))"

definition tcp_send_buf :: "int \<Rightarrow> byte list \<Rightarrow> int \<times> byte list \<times> byte list option" where
  "tcp_send_buf ret data =
     (let data = encode data in
      if ret < 0 then (-1, data, None) else (ret, data, Some (take (nat ret) (take BUFSZ data))))"

text \<open>
  \<open>send_data\<close>: as long as \<open>poll\<close> finds something in \<open>fd\<close>, read it into the cleared buffer and
  send the buffer. \<open>reads\<close> is what the successive \<open>read\<close>s return, \<open>None\<close> for an error; the
  loop ends with the first \<open>poll\<close> that times out.
\<close>

primrec send_data ::
  "(byte list \<Rightarrow> int \<times> byte list \<times> byte list option) \<Rightarrow> byte list \<Rightarrow> byte list option list \<Rightarrow>
   byte list \<times> byte list list" where
  "send_data send_buf data [] = (data, [])"
| "send_data send_buf data (r # reads) =
     (let data = clear_buf data BUFSZ in
      case r of
        None \<Rightarrow> send_data send_buf data reads
      | Some bs \<Rightarrow>
          (let (ret, data, frame) = send_buf (store_at 0 (take BUFSZ bs) data);
               (data, frames) = send_data send_buf data reads
           in (data, (case frame of None \<Rightarrow> frames | Some f \<Rightarrow> f # frames))))"

text \<open>What \<open>read\<close> finds in a pipe that holds \<open>out\<close> and gets nothing more: blocks of the size asked for.\<close>

fun chunks :: "nat \<Rightarrow> 'a list \<Rightarrow> 'a list list" where
  "chunks n xs = (if n = 0 \<or> xs = [] then [] else take n xs # chunks n (drop n xs))"

declare chunks.simps [simp del]

definition pipe_reads :: "byte list \<Rightarrow> byte list option list" where
  "pipe_reads out = map Some (chunks BUFSZ out)"

lemma chunks_Nil [simp]: "chunks n [] = []"
  by (simp add: chunks.simps)

lemma concat_chunks: "0 < n \<Longrightarrow> concat (chunks n xs) = xs"
  by (induction n xs rule: chunks.induct) (subst chunks.simps, simp)

lemma chunks_sizes: "list_all (\<lambda>c. c \<noteq> [] \<and> length c \<le> n \<and> set c \<subseteq> set xs) (chunks n xs)"
proof (induction n xs rule: chunks.induct)
  case (1 n xs)
  show ?case
  proof (cases "n = 0 \<or> xs = []")
    case False
    then have "list_all (\<lambda>c. c \<noteq> [] \<and> length c \<le> n \<and> set c \<subseteq> set xs) (chunks n (drop n xs))"
      using 1 set_drop_subset [of n xs] by (fastforce elim!: list.pred_mono_strong)
    with False show ?thesis
      by (subst chunks.simps) (simp add: set_take_subset)
  qed (auto simp: chunks.simps)
qed

lemma chunks_text:
  assumes "text_ok out"
  shows "list_all (\<lambda>c. text_ok c \<and> c \<noteq> [] \<and> length c \<le> BUFSZ) (chunks BUFSZ out)"
  using chunks_sizes [of BUFSZ out] assms by (auto simp: text_ok_def elim!: list.pred_mono_strong)

lemma chunks_single: "xs \<noteq> [] \<Longrightarrow> length xs \<le> n \<Longrightarrow> chunks n xs = [xs]"
  by (subst chunks.simps) (cases xs; simp)

section \<open>Receiving\<close>

text \<open>\<open>recvfrom\<close> on a datagram socket: the next datagram, cut to the length asked for.\<close>

definition udp_receive_buf :: "byte list option list \<Rightarrow> byte list \<Rightarrow> ((int \<times> byte list) \<times> byte list option list) option" where
  "udp_receive_buf sk buffer =
     (case sk of
        [] \<Rightarrow> None
      | d # sk \<Rightarrow>
          (let buffer = clear_buf buffer BUFSZ in
           case d of
             None \<Rightarrow> Some ((-1, buffer), sk)
           | Some bs \<Rightarrow>
               (let bs = take (BUFSZ - 1) bs; len = int (length bs); buffer = store_at 0 bs buffer in
                if len < 0 \<or> int (BUFSZ - 1) < len then Some ((-1, buffer), sk)
                else (let buffer = decode buffer in Some ((int (strlen buffer), buffer), sk)))))"

text \<open>
  \<open>recv\<close> on a stream: what has arrived, up to the length asked for; nothing but zero once
  the other side has closed.
\<close>

record stream =
  str_bytes :: "byte list"
  str_closed :: bool

definition tcp_receive_buf :: "stream \<Rightarrow> byte list \<Rightarrow> ((int \<times> byte list) \<times> stream) option" where
  "tcp_receive_buf sk buffer =
     (if str_bytes sk = [] \<and> \<not> str_closed sk then None
      else
        (let buffer = clear_buf buffer BUFSZ;
             bs = take (BUFSZ - 1) (str_bytes sk); len = int (length bs);
             sk = sk\<lparr>str_bytes := drop (BUFSZ - 1) (str_bytes sk)\<rparr>;
             buffer = store_at 0 bs buffer in
         if len < 0 \<or> int BUFSZ \<le> len then Some ((-1, buffer), sk)
         else (let buffer = decode buffer in Some ((int (strlen buffer), buffer), sk))))"

text \<open>
  \<open>receive_data\<close>: \<open>None\<close> when the loop does not come to an end with what has arrived. What it
  writes to the terminal is collected in \<open>out\<close>.
\<close>

partial_function (option) receive_data ::
  "('s \<Rightarrow> byte list \<Rightarrow> ((int \<times> byte list) \<times> 's) option) \<Rightarrow> 's \<Rightarrow> byte list \<Rightarrow> byte list \<Rightarrow>
   (byte list \<times> byte list \<times> 's) option" where
  "receive_data receive_buf sk buffer out =
     Option.bind (receive_buf sk (clear_buf buffer BUFSZ)) (\<lambda>r.
       let n = fst (fst r); buffer = snd (fst r); sk = snd r;
           out = (if 0 < n then out @ take (nat n) buffer else out) in
       if n = 0 then Some (out, buffer, sk) else receive_data receive_buf sk buffer out)"

section \<open>One frame\<close>

lemma length_clear_buf [simp]: "length (clear_buf buffer n) = length buffer"
  by (simp add: clear_buf_def)

lemma clear_buf_256: "length buffer = BUFSZ \<Longrightarrow> clear_buf buffer BUFSZ = replicate BUFSZ 0"
  by (simp add: clear_buf_def memset_all)

lemma store_cleared:
  assumes "length bs < n"
  shows "store_at 0 bs (replicate n (0 :: byte)) = bs @ 0 # replicate (n - 1 - length bs) 0"
proof -
  from assms have "n - length bs = Suc (n - 1 - length bs)" by simp
  then have "replicate (n - length bs) (0 :: byte) = 0 # replicate (n - 1 - length bs) 0"
    by (metis replicate_Suc)
  then show ?thesis by (simp add: store_at_def)
qed

text \<open>The buffer after a \<open>recv\<close> of a frame into a cleared buffer.\<close>

lemma received_buffer:
  assumes "length buffer = BUFSZ"
  shows "store_at 0 (take (BUFSZ - 1) f) (clear_buf buffer BUFSZ) =
    take (BUFSZ - 1) f @ 0 # replicate (BUFSZ - 1 - length (take (BUFSZ - 1) f)) 0"
  unfolding clear_buf_256 [OF assms] by (rule store_cleared) (simp add: BUFSZ_def)

definition text_frame :: "byte list \<Rightarrow> byte list \<Rightarrow> byte list" where
  "text_frame m rest = take BUFSZ (encode (m @ 0 # rest))"

lemma udp_send_text: "0 \<le> ret \<Longrightarrow> udp_send_buf ret (m @ 0 # rest) = (ret, encode (m @ 0 # rest), Some (text_frame m rest))"
  by (simp add: udp_send_buf_def text_frame_def Let_def)

lemma tcp_send_text: "tcp_send_buf (int BUFSZ) (m @ 0 # rest) = (int BUFSZ, encode (m @ 0 # rest), Some (text_frame m rest))"
  by (simp add: tcp_send_buf_def text_frame_def Let_def)

lemma udp_receive_frame:
  assumes "text_ok m" and "length buffer = BUFSZ"
  shows "\<exists>b. udp_receive_buf (Some (text_frame m rest) # sk) buffer =
      Some ((int (min (length m) (BUFSZ - 1)), b), sk) \<and>
    c_str b = take (BUFSZ - 1) m \<and> length b = BUFSZ"
proof -
  let ?f = "text_frame m rest"
  define b where "b = decode (store_at 0 (take (BUFSZ - 1) ?f) (clear_buf buffer BUFSZ))"
  have c: "c_str b = take (BUFSZ - 1) m"
    unfolding b_def received_buffer [OF assms(2)] text_frame_def
    by (rule xor_cipher.frame_text [OF assms(1)]) (simp add: BUFSZ_def)
  then have "strlen b = min (length m) (BUFSZ - 1)" by (simp add: strlen_def)
  moreover have "length b = BUFSZ"
    using assms(2) by (simp add: b_def decode_def length_store_at BUFSZ_def)
  ultimately show ?thesis
    using c by (simp add: udp_receive_buf_def Let_def b_def)
qed

section \<open>Whole responses\<close>

text \<open>The buffer of \<open>slave\<close>, with a NUL somewhere behind it so that \<open>encode\<close> stops.\<close>

definition nul_behind :: "byte list \<Rightarrow> bool" where
  "nul_behind data \<longleftrightarrow> (\<exists>beyond. drop BUFSZ data = 0 # beyond)"

lemma stored_text:
  assumes "nul_behind data" and "length m \<le> BUFSZ"
  shows "\<exists>rest. store_at 0 m (clear_buf data BUFSZ) = m @ 0 # rest \<and>
    drop BUFSZ (m @ 0 # rest) = drop BUFSZ data"
proof -
  from assms(1) obtain beyond where beyond: "drop BUFSZ data = 0 # beyond" by (auto simp: nul_behind_def)
  then have "\<not> length data \<le> BUFSZ" by (metis drop_all list.distinct(1))
  then have "clear_buf data BUFSZ = replicate BUFSZ 0 @ 0 # beyond"
    by (simp add: clear_buf_def memset_def beyond)
  then have st: "store_at 0 m (clear_buf data BUFSZ) = m @ replicate (BUFSZ - length m) 0 @ 0 # beyond"
    using assms(2) by (simp add: store_at_def)
  show ?thesis
  proof (cases "BUFSZ - length m")
    case 0
    with st assms(2) beyond show ?thesis by simp
  next
    case (Suc k)
    then have "BUFSZ = length m + Suc k" using assms(2) by simp
    with st Suc beyond show ?thesis
      by (intro exI [of _ "replicate k 0 @ 0 # beyond"]) simp
  qed
qed

lemma encode_keeps_behind:
  assumes "0 \<notin> set m" and "length m \<le> BUFSZ" and "nul_behind (m @ 0 # rest)"
  shows "nul_behind (encode (m @ 0 # rest))"
proof (cases "length m < BUFSZ")
  case True
  then obtain k where "BUFSZ - length m = Suc k" by (cases "BUFSZ - length m") auto
  with True assms show ?thesis
    by (auto simp: nul_behind_def encode_text drop_append)
next
  case False
  with assms show ?thesis by (auto simp: nul_behind_def encode_text)
qed

lemma send_data_texts:
  assumes "list_all (\<lambda>m. text_ok m \<and> length m \<le> BUFSZ) ms" and "nul_behind data"
    and "\<And>m rest. text_ok m \<Longrightarrow> length m \<le> BUFSZ \<Longrightarrow>
      send (m @ 0 # rest) = (int BUFSZ, encode (m @ 0 # rest), Some (text_frame m rest))"
  shows "\<exists>rests data'. send_data send data (map Some ms) = (data', map2 text_frame ms rests) \<and>
    length rests = length ms \<and> nul_behind data'"
  using assms(1,2)
proof (induction ms arbitrary: data)
  case Nil
  then show ?case by simp
next
  case (Cons m ms)
  then have m: "text_ok m" "length m \<le> BUFSZ" and ms: "list_all (\<lambda>m. text_ok m \<and> length m \<le> BUFSZ) ms"
    by simp_all
  from stored_text [OF Cons.prems(2) m(2)] obtain rest where
    rest: "store_at 0 m (clear_buf data BUFSZ) = m @ 0 # rest" "drop BUFSZ (m @ 0 # rest) = drop BUFSZ data"
    by blast
  then have "nul_behind (m @ 0 # rest)" using Cons.prems(2) unfolding nul_behind_def by simp
  then have "nul_behind (encode (m @ 0 # rest))"
    using m by (intro encode_keeps_behind) (auto simp: text_ok_def)
  from Cons.IH [OF ms this] obtain rests data' where
    "send_data send (encode (m @ 0 # rest)) (map Some ms) = (data', map2 text_frame ms rests)"
    "length rests = length ms" "nul_behind data'"
    by blast
  with m rest assms(3) [OF m] show ?case
    by (intro exI [of _ "rest # rests"] exI [of _ data']) (simp add: Let_def)
qed

lemma receive_data_udp_frame:
  assumes "text_ok m" and "m \<noteq> []" and "length buffer = BUFSZ"
  shows "\<exists>b. length b = BUFSZ \<and>
    receive_data udp_receive_buf (Some (text_frame m rest) # sk) buffer out =
    receive_data udp_receive_buf sk b (out @ take (BUFSZ - 1) m)"
proof -
  from assms(3) have len: "length (clear_buf buffer BUFSZ) = BUFSZ" by simp
  from udp_receive_frame [OF assms(1) len, of rest sk] obtain b where
    b: "udp_receive_buf (Some (text_frame m rest) # sk) (clear_buf buffer BUFSZ) =
        Some ((int (min (length m) (BUFSZ - 1)), b), sk)"
      "c_str b = take (BUFSZ - 1) m" "length b = BUFSZ" by blast
  define k where "k = min (length m) (BUFSZ - 1)"
  have pos: "0 < k" using assms(2) by (simp add: BUFSZ_def k_def)
  have "k = strlen b" by (simp add: strlen_def b(2) k_def)
  then have "take k b = take (BUFSZ - 1) m"
    using take_strlen [of b] b(2) by simp
  then have "receive_data udp_receive_buf (Some (text_frame m rest) # sk) buffer out =
      receive_data udp_receive_buf sk b (out @ take (BUFSZ - 1) m)"
    using pos by (subst receive_data.simps) (simp add: b(1) [folded k_def] Let_def)
  with b(3) show ?thesis by blast
qed

lemma receive_data_udp_end:
  assumes "length buffer = BUFSZ"
  shows "\<exists>b. receive_data udp_receive_buf (Some (text_frame [] rest) # sk) buffer out = Some (out, b, sk)"
proof -
  from assms have len: "length (clear_buf buffer BUFSZ) = BUFSZ" by simp
  have "text_ok []" by (simp add: text_ok_def)
  from udp_receive_frame [OF this len, of rest sk] obtain b where
    "udp_receive_buf (Some (text_frame [] rest) # sk) (clear_buf buffer BUFSZ) = Some ((0, b), sk)"
    by auto
  then show ?thesis by (subst receive_data.simps) (simp add: Let_def)
qed

lemma receive_data_udp:
  assumes "list_all (\<lambda>m. text_ok m \<and> m \<noteq> []) ms" and "length rests = length ms" and "length buffer = BUFSZ"
  shows "\<exists>b. receive_data udp_receive_buf (map Some (map2 text_frame ms rests) @ Some (text_frame [] lit) # sk)
      buffer out = Some (out @ concat (map (take (BUFSZ - 1)) ms), b, sk)"
  using assms
proof (induction ms arbitrary: rests buffer out)
  case Nil
  then show ?case using receive_data_udp_end by simp
next
  case (Cons m ms)
  then obtain r rs where rests: "rests = r # rs" "length rs = length ms" by (cases rests) auto
  from Cons.prems have m: "text_ok m" "m \<noteq> []" and ms: "list_all (\<lambda>m. text_ok m \<and> m \<noteq> []) ms"
    by simp_all
  from receive_data_udp_frame [OF m Cons.prems(3), of r
      "map Some (map2 text_frame ms rs) @ Some (text_frame [] lit) # sk" out] obtain b where
    b: "length b = BUFSZ" "receive_data udp_receive_buf
         (Some (text_frame m r) # map Some (map2 text_frame ms rs) @ Some (text_frame [] lit) # sk) buffer out =
       receive_data udp_receive_buf (map Some (map2 text_frame ms rs) @ Some (text_frame [] lit) # sk) b
         (out @ take (BUFSZ - 1) m)"
    by blast
  from Cons.IH [OF ms rests(2) b(1), of "out @ take (BUFSZ - 1) m"] b(2) rests(1) show ?case
    by simp
qed

section \<open>The stream\<close>

text \<open>The frame of a text, as \<open>send_data\<close> makes it.\<close>

definition padded_frame :: "byte list \<Rightarrow> byte list" where
  "padded_frame m = xor_mask m @ replicate (BUFSZ - length m) 0"

lemma stored_padded:
  assumes "nul_behind data" and "length m \<le> BUFSZ" and "0 \<notin> set m"
  shows "\<exists>data'. tcp_send_buf (int BUFSZ) (store_at 0 m (clear_buf data BUFSZ)) =
    (int BUFSZ, data', Some (padded_frame m)) \<and> nul_behind data'"
proof -
  from assms(1) obtain beyond where beyond: "drop BUFSZ data = 0 # beyond" by (auto simp: nul_behind_def)
  then have "\<not> length data \<le> BUFSZ" by (metis drop_all list.distinct(1))
  then have "clear_buf data BUFSZ = replicate BUFSZ 0 @ 0 # beyond"
    by (simp add: clear_buf_def memset_def beyond)
  then have st: "store_at 0 m (clear_buf data BUFSZ) = m @ replicate (BUFSZ - length m) 0 @ 0 # beyond"
    using assms(2) by (simp add: store_at_def)
  have enc: "encode (m @ replicate (BUFSZ - length m) 0 @ 0 # beyond) =
      xor_mask m @ replicate (BUFSZ - length m) 0 @ 0 # beyond"
  proof (cases "BUFSZ - length m")
    case 0
    then show ?thesis by (simp add: encode_text [OF assms(3)])
  next
    case (Suc k)
    then show ?thesis using encode_text [OF assms(3), of "replicate k 0 @ 0 # beyond"] by simp
  qed
  then have "tcp_send_buf (int BUFSZ) (store_at 0 m (clear_buf data BUFSZ)) =
      (int BUFSZ, padded_frame m @ 0 # beyond, Some (padded_frame m))"
    using assms(2) by (simp add: st tcp_send_buf_def padded_frame_def Let_def)
  moreover have "nul_behind (padded_frame m @ 0 # beyond)"
    using assms(2) by (simp add: nul_behind_def padded_frame_def)
  ultimately show ?thesis by blast
qed

lemma send_data_padded:
  assumes "list_all (\<lambda>m. 0 \<notin> set m \<and> length m \<le> BUFSZ) ms" and "nul_behind data"
  shows "\<exists>data'. send_data (tcp_send_buf (int BUFSZ)) data (map Some ms) = (data', map padded_frame ms)"
  using assms
proof (induction ms arbitrary: data)
  case Nil
  then show ?case by simp
next
  case (Cons m ms)
  then have m: "0 \<notin> set m" "length m \<le> BUFSZ" and ms: "list_all (\<lambda>m. 0 \<notin> set m \<and> length m \<le> BUFSZ) ms"
    by simp_all
  from stored_padded [OF Cons.prems(2) m(2,1)] obtain data1 where
    1: "tcp_send_buf (int BUFSZ) (store_at 0 m (clear_buf data BUFSZ)) = (int BUFSZ, data1, Some (padded_frame m))"
      "nul_behind data1" by blast
  from Cons.IH [OF ms 1(2)] 1(1) m(2) show ?case by (auto simp: Let_def)
qed

text \<open>The frames of an output are its bytes and the padding of the last frame.\<close>

lemma padded_chunks:
  "concat (map padded_frame (chunks BUFSZ out)) = xor_mask out @ replicate ((256 - length out mod 256) mod 256) 0"
proof (induction BUFSZ out rule: chunks.induct)
  case (1 out)
  show ?case
  proof (cases "length out \<le> BUFSZ")
    case True
    then show ?thesis
      by (cases "out = []"; cases "length out = 256") (simp_all add: chunks_single padded_frame_def BUFSZ_def xor_mask_def)
  next
    case False
    then have ne: "\<not> (BUFSZ = 0 \<or> out = [])" by (auto simp: BUFSZ_def)
    have "length (drop BUFSZ out) mod 256 = length out mod 256"
      using False by (simp add: BUFSZ_def mod_if [of "length out"])
    moreover have "padded_frame (take BUFSZ out) = xor_mask (take BUFSZ out)"
      using False by (simp add: padded_frame_def)
    moreover have "xor_mask (take BUFSZ out) @ xor_mask (drop BUFSZ out) = xor_mask out"
      by (simp add: xor_mask_def flip: map_append)
    ultimately show ?thesis
      using ne 1 [OF ne] by (subst chunks.simps) (simp flip: append_assoc)
  qed
qed

text \<open>\<open>recv\<close> takes the frame but for its last byte, a NUL.\<close>

lemma tcp_receive_padded:
  assumes "text_ok m" and "length m < BUFSZ" and "length buffer = BUFSZ" and "str_bytes sk = padded_frame m @ ys"
  shows "\<exists>b. tcp_receive_buf sk buffer = Some ((int (length m), b), sk\<lparr>str_bytes := 0 # ys\<rparr>) \<and>
    take (length m) b = m \<and> length b = BUFSZ"
proof -
  define k where "k = BUFSZ - 1 - length m"
  have k: "BUFSZ - length m = Suc k" "BUFSZ - 1 = length m + k" using assms(2) by (simp_all add: k_def)
  have frame: "padded_frame m = xor_mask m @ replicate k 0 @ [0]"
    by (simp add: padded_frame_def k(1) replicate_append_same)
  then have bytes: "take (BUFSZ - 1) (str_bytes sk) = xor_mask m @ replicate k 0"
      "drop (BUFSZ - 1) (str_bytes sk) = 0 # ys"
    unfolding assms(4) k(2) frame by simp_all
  define b where "b = decode (store_at 0 (xor_mask m @ replicate k 0) (clear_buf buffer BUFSZ))"
  have "store_at 0 (xor_mask m @ replicate k 0) (clear_buf buffer BUFSZ) = xor_mask m @ replicate k 0 @ [0]"
    unfolding clear_buf_256 [OF assms(3)]
    using store_cleared [of "xor_mask m @ replicate k 0" BUFSZ] k(2)
    by (simp add: BUFSZ_def)
  also have "\<dots> = xor_mask m @ 0 # replicate k 0" by (simp add: replicate_append_same)
  finally have b: "b = m @ 0 # replicate k 0"
    by (simp add: b_def decode_text [OF assms(1)])
  have "str_bytes sk \<noteq> []" by (simp add: assms(4) padded_frame_def k(1))
  moreover have "\<not> int BUFSZ \<le> int (length (xor_mask m @ replicate k (0 :: byte)))"
    using k(2) by (simp add: BUFSZ_def)
  ultimately have "tcp_receive_buf sk buffer = Some ((int (strlen b), b), sk\<lparr>str_bytes := 0 # ys\<rparr>)"
    unfolding tcp_receive_buf_def bytes Let_def b_def by simp
  moreover have "strlen b = length m" "take (length m) b = m" "length b = BUFSZ"
    using assms(1) k(2) by (simp_all add: b strlen_def c_str_append_nul text_ok_def BUFSZ_def)
  ultimately show ?thesis by auto
qed

text \<open>A stream that begins with a NUL gives an empty text.\<close>

lemma tcp_receive_nul:
  assumes "length buffer = BUFSZ" and "str_bytes sk = 0 # ys"
  shows "\<exists>b. tcp_receive_buf sk buffer = Some ((0, b), sk\<lparr>str_bytes := drop (BUFSZ - 2) ys\<rparr>)"
proof -
  have "decode (0 # bs) = 0 # bs" "strlen (0 # bs) = 0" for bs
    by (simp_all add: decode_def encode_eq strlen_def xor_mask_def)
  moreover have "take (BUFSZ - 1) (str_bytes sk) = 0 # take (BUFSZ - 2) ys"
    "drop (BUFSZ - 1) (str_bytes sk) = drop (BUFSZ - 2) ys"
    by (simp_all add: assms(2) BUFSZ_def)
  moreover have "length (take (BUFSZ - 2) ys) + 1 < BUFSZ" by (simp add: BUFSZ_def)
  ultimately show ?thesis
    using assms by (simp add: tcp_receive_buf_def Let_def store_at_def)
qed

lemma receive_data_tcp:
  assumes "text_ok m" and "m \<noteq> []" and "length m < BUFSZ" and "length buffer = BUFSZ"
    and "str_bytes sk = padded_frame m @ ys"
  shows "\<exists>b. receive_data tcp_receive_buf sk buffer out = Some (out @ m, b, sk\<lparr>str_bytes := drop (BUFSZ - 2) ys\<rparr>)"
proof -
  from assms(4) have len: "length (clear_buf buffer BUFSZ) = BUFSZ" by simp
  from tcp_receive_padded [OF assms(1,3) len assms(5)] obtain b where
    b: "tcp_receive_buf sk (clear_buf buffer BUFSZ) = Some ((int (length m), b), sk\<lparr>str_bytes := 0 # ys\<rparr>)"
      "take (length m) b = m" "length b = BUFSZ" by blast
  then have 1: "receive_data tcp_receive_buf sk buffer out =
      receive_data tcp_receive_buf (sk\<lparr>str_bytes := 0 # ys\<rparr>) b (out @ m)"
    using assms(2) by (subst receive_data.simps) (simp add: Let_def)
  from b(3) have "length (clear_buf b BUFSZ) = BUFSZ" by simp
  from tcp_receive_nul [OF this, of "sk\<lparr>str_bytes := 0 # ys\<rparr>" ys] obtain b2 where
    "tcp_receive_buf (sk\<lparr>str_bytes := 0 # ys\<rparr>) (clear_buf b BUFSZ) =
      Some ((0, b2), sk\<lparr>str_bytes := drop (BUFSZ - 2) ys\<rparr>)" by auto
  then have "receive_data tcp_receive_buf (sk\<lparr>str_bytes := 0 # ys\<rparr>) b (out @ m) =
      Some (out @ m, b2, sk\<lparr>str_bytes := drop (BUFSZ - 2) ys\<rparr>)"
    by (subst receive_data.simps) (simp add: Let_def)
  with 1 show ?thesis by auto
qed

lemma tcp_receive_closed:
  assumes "length buffer = BUFSZ"
  shows "\<exists>b. tcp_receive_buf \<lparr>str_bytes = [], str_closed = True\<rparr> buffer =
    Some ((0, b), \<lparr>str_bytes = [], str_closed = True\<rparr>)"
proof -
  have "decode (0 # bs) = 0 # bs" "strlen (0 # bs) = 0" for bs
    by (simp_all add: decode_def encode_eq strlen_def xor_mask_def)
  moreover have "store_at 0 [] (clear_buf buffer BUFSZ) = 0 # replicate (BUFSZ - 1) 0"
    unfolding clear_buf_256 [OF assms] using store_cleared [of "[]" BUFSZ] by (simp add: BUFSZ_def)
  ultimately show ?thesis by (simp add: tcp_receive_buf_def Let_def BUFSZ_def)
qed

text \<open>A stream of text and NULs: \<open>recv\<close> takes 255 bytes of it, if there are so many.\<close>

lemma tcp_receive_text:
  assumes "text_ok m" and "m \<noteq> []" and "length buffer = BUFSZ"
  shows "\<exists>b. tcp_receive_buf \<lparr>str_bytes = xor_mask m @ replicate z 0, str_closed = c\<rparr> buffer =
      Some ((int (min 255 (length m)), b),
        \<lparr>str_bytes = xor_mask (drop 255 m) @ replicate (z - (255 - length m)) 0, str_closed = c\<rparr>) \<and>
    take (min 255 (length m)) b = take 255 m \<and> length b = BUFSZ"
proof -
  let ?t = "take 255 m" and ?n = "min (255 - length m) z"
  have ok: "text_ok ?t" using assms(1) by (rule text_ok_take)
  have got: "take (BUFSZ - 1) (xor_mask m @ replicate z 0) = xor_mask ?t @ replicate ?n 0"
    "drop (BUFSZ - 1) (xor_mask m @ replicate z 0) = xor_mask (drop 255 m) @ replicate (z - (255 - length m)) 0"
    by (simp add: BUFSZ_def take_xor_mask, simp add: BUFSZ_def xor_mask_def drop_map)
  define b where "b = decode (store_at 0 (xor_mask ?t @ replicate ?n 0) (clear_buf buffer BUFSZ))"
  have len: "length (xor_mask ?t @ replicate ?n (0 :: byte)) < BUFSZ" by (simp add: BUFSZ_def)
  have "\<exists>rest. xor_mask ?t @ replicate ?n 0 @ 0 # replicate k 0 = xor_mask ?t @ 0 # rest" for k
    by (cases ?n) auto
  then obtain rest where
    "store_at 0 (xor_mask ?t @ replicate ?n 0) (clear_buf buffer BUFSZ) = xor_mask ?t @ 0 # rest"
    unfolding clear_buf_256 [OF assms(3)] store_cleared [OF len] by (metis append_assoc)
  then have b: "b = ?t @ 0 # rest" by (simp add: b_def decode_text [OF ok])
  have "length b = BUFSZ" using assms(3) len by (simp add: b_def decode_def length_store_at)
  moreover have "strlen b = min 255 (length m)"
    using ok by (simp add: b strlen_def c_str_append_nul text_ok_def min.commute)
  moreover have "take (min 255 (length m)) b = ?t" by (simp add: b min_def)
  moreover have "xor_mask m \<noteq> []" using assms(2) by (simp add: xor_mask_def)
  ultimately show ?thesis
    using len unfolding tcp_receive_buf_def stream.simps got b_def Let_def by (intro exI [of _ b]) (simp add: b_def)
qed

lemma pad_step:
  fixes l z :: nat
  assumes "0 < l"
  shows "z - (255 - l) - (255 - (l - 255) mod 255) mod 255 = z - (255 - l mod 255) mod 255"
    and "(255 - (l - 255) mod 255) mod 255 < z - (255 - l) \<longleftrightarrow> (255 - l mod 255) mod 255 < z"
proof -
  consider "255 \<le> l" | "l < 255" by linarith
  then have "z - (255 - l) - (255 - (l - 255) mod 255) mod 255 = z - (255 - l mod 255) mod 255 \<and>
    ((255 - (l - 255) mod 255) mod 255 < z - (255 - l) \<longleftrightarrow> (255 - l mod 255) mod 255 < z)"
  proof cases
    case 1
    then have "(l - 255) mod 255 = l mod 255" by (rule le_mod_geq [symmetric])
    with 1 show ?thesis by simp
  next
    case 2
    then have "l - 255 = 0" "l mod 255 = l" "(255 - l) mod 255 = 255 - l" using assms by simp_all
    moreover have "(255 - 0 mod 255) mod 255 = (0 :: nat)" by simp
    ultimately show ?thesis by (simp only: minus_nat.diff_0) arith
  qed
  then show "z - (255 - l) - (255 - (l - 255) mod 255) mod 255 = z - (255 - l mod 255) mod 255"
    and "(255 - (l - 255) mod 255) mod 255 < z - (255 - l) \<longleftrightarrow> (255 - l mod 255) mod 255 < z" by simp_all
qed

text \<open>
  What \<open>receive_data\<close> makes of it: it stops at the first multiple of 255 behind the text that is a NUL, or at the end
  of a closed stream.
\<close>

lemma receive_data_stream:
  assumes "text_ok m" and "length buffer = BUFSZ"
  shows "\<exists>b. receive_data tcp_receive_buf \<lparr>str_bytes = xor_mask m @ replicate z 0, str_closed = c\<rparr> buffer out =
    (if c \<or> (255 - length m mod 255) mod 255 < z
     then Some (out @ m, b, \<lparr>str_bytes = replicate (z - (255 - length m mod 255) mod 255 - 255) 0, str_closed = c\<rparr>)
     else None)"
  using assms
proof (induction "length m" arbitrary: m z buffer out rule: less_induct)
  case less
  have cleared: "length (clear_buf buffer BUFSZ) = BUFSZ" using less.prems(2) by simp
  show ?case
  proof (cases "m = []")
    case True
    show ?thesis
    proof (cases z)
      case 0
      from tcp_receive_closed [OF cleared] obtain b where
        b: "tcp_receive_buf \<lparr>str_bytes = [], str_closed = True\<rparr> (clear_buf buffer BUFSZ) =
          Some ((0, b), \<lparr>str_bytes = [], str_closed = True\<rparr>)" by blast
      have "receive_data tcp_receive_buf \<lparr>str_bytes = [], str_closed = c\<rparr> buffer out =
          (if c then Some (out, b, \<lparr>str_bytes = [], str_closed = c\<rparr>) else None)"
        by (cases c; subst receive_data.simps) (simp_all add: b Let_def, simp add: tcp_receive_buf_def)
      with True 0 show ?thesis by (auto simp: xor_mask_def)
    next
      case (Suc n)
      from tcp_receive_nul [OF cleared, of "\<lparr>str_bytes = replicate z 0, str_closed = c\<rparr>" "replicate n 0"] Suc
      obtain b where "tcp_receive_buf \<lparr>str_bytes = replicate z 0, str_closed = c\<rparr> (clear_buf buffer BUFSZ) =
          Some ((0, b), \<lparr>str_bytes = replicate (z - 255) 0, str_closed = c\<rparr>)"
        by (auto simp: BUFSZ_def)
      with True Suc show ?thesis
        by (subst receive_data.simps) (auto simp: Let_def xor_mask_def)
    qed
  next
    case False
    from tcp_receive_text [OF less.prems(1) False cleared, of z c] obtain b where
      b: "tcp_receive_buf \<lparr>str_bytes = xor_mask m @ replicate z 0, str_closed = c\<rparr> (clear_buf buffer BUFSZ) =
          Some ((int (min 255 (length m)), b),
            \<lparr>str_bytes = xor_mask (drop 255 m) @ replicate (z - (255 - length m)) 0, str_closed = c\<rparr>)"
        "take (min 255 (length m)) b = take 255 m" "length b = BUFSZ" by blast
    define k where "k = min 255 (length m)"
    have k: "k \<noteq> 0" using False by (simp add: k_def)
    have step: "receive_data tcp_receive_buf \<lparr>str_bytes = xor_mask m @ replicate z 0, str_closed = c\<rparr> buffer out =
        receive_data tcp_receive_buf \<lparr>str_bytes = xor_mask (drop 255 m) @ replicate (z - (255 - length m)) 0, str_closed = c\<rparr>
          b (out @ take 255 m)"
      using k by (subst receive_data.simps) (simp add: b(1,2) [folded k_def] Let_def)
    have ok: "text_ok (drop 255 m)" using less.prems(1) set_drop_subset [of 255 m] by (auto simp: text_ok_def)
    have shorter: "length (drop 255 m) < length m" using False by simp
    note ih = less.hyps [OF shorter ok b(3), of "z - (255 - length m)" "out @ take 255 m", unfolded length_drop]
    obtain b' where
      IH: "receive_data tcp_receive_buf
          \<lparr>str_bytes = xor_mask (drop 255 m) @ replicate (z - (255 - length m)) 0, str_closed = c\<rparr> b (out @ take 255 m) =
        (if c \<or> (255 - (length m - 255) mod 255) mod 255 < z - (255 - length m)
         then Some ((out @ take 255 m) @ drop 255 m, b', \<lparr>str_bytes = replicate (z - (255 - length m)
           - (255 - (length m - 255) mod 255) mod 255 - 255) 0, str_closed = c\<rparr>)
         else None)"
      by (rule exE [OF ih])
    have pos: "0 < length m" using False by simp
    show ?thesis
      by (rule exI [of _ b']) (simp only: step IH pad_step [OF pos] append_assoc append_take_drop_id)
  qed
qed

lemma round_up:
  fixes k l :: nat
  assumes "0 < k"
  shows "l + (k - l mod k) mod k = k * ((l + (k - 1)) div k)"
proof (cases "l mod k")
  case 0
  then have "l = k * (l div k)" using mult_div_mod_eq [of k l] by simp
  moreover from this have "(l + (k - 1)) div k = l div k" using assms by (metis div_mult_self4 diff_less zero_less_one div_less add.right_neutral less_imp_neq add.commute)
  ultimately show ?thesis using 0 by simp
next
  case (Suc r)
  then have "r < k" using mod_less_divisor [OF assms, of l] by simp
  have l: "l = k * (l div k) + Suc r" using mult_div_mod_eq [of k l] Suc by simp
  then have "l + (k - 1) = (l div k + 1) * k + r" using assms by (simp add: mult.commute)
  then have "(l + (k - 1)) div k = l div k + 1" using \<open>r < k\<close> assms by (simp only: div_mult_self3) simp
  then show ?thesis using l Suc mod_less_divisor [OF assms, of l] by simp
qed

text \<open>Up to 255 frames the text ends before that byte exactly when each frame leaves one.\<close>

lemma frames_leave_nul:
  fixes l n :: nat
  assumes "0 < l" and "n = (l + 255) div 256" and "n \<le> 255"
  shows "(255 - l mod 255) mod 255 < (256 - l mod 256) mod 256 \<longleftrightarrow> l \<le> 255 * n"
proof -
  have k: "l + (255 - l mod 255) mod 255 = 255 * ((l + 254) div 255)"
    using round_up [of 255 l] by simp
  have z: "l + (256 - l mod 256) mod 256 = 256 * n"
    unfolding assms(2) using round_up [of 256 l] by simp
  have "(255 - l mod 255) mod 255 < (256 - l mod 256) mod 256 \<longleftrightarrow> 255 * ((l + 254) div 255) < 256 * n"
    using k z by linarith
  also have "\<dots> \<longleftrightarrow> l \<le> 255 * n"
  proof
    assume less: "255 * ((l + 254) div 255) < 256 * n"
    show "l \<le> 255 * n"
    proof (rule ccontr)
      assume "\<not> l \<le> 255 * n"
      then have "n + 1 \<le> (l + 254) div 255" by (simp add: less_eq_div_iff_mult_less_eq)
      with less assms(3) show False by simp
    qed
  next
    assume "l \<le> 255 * n"
    then have "(l + 254) div 255 < n + 1" by (simp add: div_less_iff_less_mult)
    moreover have "0 < n" using assms(1,2) by (cases n) auto
    ultimately show "255 * ((l + 254) div 255) < 256 * n" by linarith
  qed
  finally show ?thesis .
qed

section \<open>Properties\<close>

text \<open>
  \<open>decode\<close> takes back what \<open>encode\<close> did to a NUL-terminated buffer exactly when no byte of
  its text is the mask, which \<open>encode\<close> turns into a NUL.
\<close>

theorem decode_encode:
  assumes "0 \<notin> set m"
  shows "decode (encode (m @ 0 # rest)) = m @ 0 # rest \<longleftrightarrow> CR_MASK \<notin> set m"
proof
  assume "CR_MASK \<notin> set m"
  then show "decode (encode (m @ 0 # rest)) = m @ 0 # rest"
    using xor_cipher.roundtrip [of m rest] assms by (simp add: text_ok_def)
next
  assume eq: "decode (encode (m @ 0 # rest)) = m @ 0 # rest"
  show "CR_MASK \<notin> set m"
  proof
    assume "CR_MASK \<in> set m"
    then obtain us vs where m: "m = us @ CR_MASK # vs" "CR_MASK \<notin> set us"
      by (meson split_list_first)
    with assms have us: "0 \<notin> set us" by simp
    have enc: "encode (m @ 0 # rest) = xor_mask us @ 0 # xor_mask vs @ 0 # rest"
      using encode_text [OF assms] by (simp add: m(1) xor_mask_def)
    then have "decode (encode (m @ 0 # rest)) = us @ 0 # xor_mask vs @ 0 # rest"
      using decode_text [of us "xor_mask vs @ 0 # rest"] us m(2) by (simp add: text_ok_def)
    with eq m(1) show False by (simp add: CR_MASK_def)
  qed
qed

theorem decode_encode_witness:
  "0 \<notin> set (cstr ''hello'') \<and> CR_MASK \<notin> set (cstr ''hello'') \<and>
   decode (encode (cstr ''hello'' @ 0 # [1])) = cstr ''hello'' @ 0 # [1]"
proof -
  have "0 \<notin> set (cstr ''hello'')" "CR_MASK \<notin> set (cstr ''hello'')" by (simp_all add: CR_MASK_def)
  with decode_encode [of "cstr ''hello''" "[1]"] show ?thesis by blast
qed

text \<open>
  A UDP response. The slave reads the texts \<open>ms\<close> from its pipe, sends each in a frame and
  ends with an empty buffer; the client writes the first 255 bytes of each text, in order, and
  returns with exactly these datagrams taken. A text of less than 256 bytes arrives whole, and
  of a read that fills the buffer the last byte is lost.
\<close>

theorem udp_response:
  assumes "list_all (\<lambda>m. text_ok m \<and> m \<noteq> [] \<and> length m \<le> BUFSZ) ms" and "nul_behind data"
    and "length buffer = BUFSZ"
  shows "\<exists>data' frames last b.
    send_data (udp_send_buf (int BUFSZ)) data (map Some ms) = (data', frames) \<and>
    udp_send_buf (int BUFSZ) (0 # literal) = (int BUFSZ, 0 # literal, Some last) \<and>
    receive_data udp_receive_buf (map Some frames @ Some last # sk) buffer [] =
      Some (concat (map (take 255) ms), b, sk)"
proof -
  have 1: "list_all (\<lambda>m. text_ok m \<and> length m \<le> BUFSZ) ms" "list_all (\<lambda>m. text_ok m \<and> m \<noteq> []) ms"
    using assms(1) by (auto simp: list_all_iff)
  from send_data_texts [OF 1(1) assms(2), of "udp_send_buf (int BUFSZ)"] obtain rests data' where
    2: "send_data (udp_send_buf (int BUFSZ)) data (map Some ms) = (data', map2 text_frame ms rests)"
      "length rests = length ms"
    by (auto simp: udp_send_text)
  have "udp_send_buf (int BUFSZ) (0 # literal) = (int BUFSZ, 0 # literal, Some (text_frame [] literal))"
    using udp_send_text [of "int BUFSZ" "[]" literal] encode_text [of "[]" literal]
    by (simp add: xor_mask_def)
  with 2 receive_data_udp [OF 1(2) 2(2) assms(3), of literal sk "[]"] show ?thesis
    by (auto simp: BUFSZ_def)
qed

theorem udp_response_witness:
  "\<exists>data' frames last b.
    send_data (udp_send_buf (int BUFSZ)) (replicate 257 0) [Some (cstr ''ab''), Some (cstr ''c'')] = (data', frames) \<and>
    udp_send_buf (int BUFSZ) (0 # []) = (int BUFSZ, 0 # [], Some last) \<and>
    receive_data udp_receive_buf (map Some frames @ Some last # []) (replicate 256 0) [] =
      Some (cstr ''abc'', b, [])"
proof -
  have "list_all (\<lambda>m. text_ok m \<and> m \<noteq> [] \<and> length m \<le> BUFSZ) [cstr ''ab'', cstr ''c'']"
    by (simp add: text_ok_def CR_MASK_def BUFSZ_def)
  moreover have "nul_behind (replicate 257 0)" by (simp add: nul_behind_def BUFSZ_def)
  ultimately show ?thesis
    using udp_response [of "[cstr ''ab'', cstr ''c'']" "replicate 257 0" "replicate 256 0" "[]" "[]"]
    by (simp add: BUFSZ_def)
qed

text \<open>
  A TCP response of one frame. The output of a command that the slave gets in one read of at
  most 255 bytes arrives whole, and client and server are in step afterwards: the byte that
  \<open>recv\<close> leaves of each frame is the NUL that ends the loop of the client.
\<close>

theorem tcp_response:
  assumes "text_ok m" and "m \<noteq> []" and "length m \<le> 255" and "nul_behind data"
    and "length buffer = BUFSZ"
  shows "\<exists>data' f b. send_data (tcp_send_buf (int BUFSZ)) data [Some m] = (data', [f]) \<and>
    receive_data tcp_receive_buf \<lparr>str_bytes = f, str_closed = False\<rparr> buffer [] =
      Some (m, b, \<lparr>str_bytes = [], str_closed = False\<rparr>)"
proof -
  have len: "length m < BUFSZ" using assms(3) by (simp add: BUFSZ_def)
  moreover have "0 \<notin> set m" using assms(1) by (simp add: text_ok_def)
  ultimately obtain data' where
    "tcp_send_buf (int BUFSZ) (store_at 0 m (clear_buf data BUFSZ)) = (int BUFSZ, data', Some (padded_frame m))"
    using stored_padded [OF assms(4) less_imp_le] by blast
  then have "send_data (tcp_send_buf (int BUFSZ)) data [Some m] = (data', [padded_frame m])"
    using len by (simp add: Let_def)
  with receive_data_tcp [OF assms(1,2) len assms(5), of "\<lparr>str_bytes = padded_frame m, str_closed = False\<rparr>" "[]" "[]"]
  show ?thesis by auto
qed

theorem tcp_response_witness:
  "\<exists>data' f b. send_data (tcp_send_buf (int BUFSZ)) (replicate 257 0) [Some (cstr ''ok'')] = (data', [f]) \<and>
    receive_data tcp_receive_buf \<lparr>str_bytes = f, str_closed = False\<rparr> (replicate BUFSZ 0) [] =
      Some (cstr ''ok'', b, \<lparr>str_bytes = [], str_closed = False\<rparr>)"
  by (rule tcp_response) (simp_all add: text_ok_def CR_MASK_def BUFSZ_def nul_behind_def)



text \<open>
  Of two frames that come from reads of less than 256 bytes, so that the command printed in parts, the second one is lost:
  the NUL left of the first frame makes the client stop, the text of the second one is taken from the stream
  and thrown away, and two bytes of it stay behind for the next response.
\<close>

theorem tcp_second_frame_lost:
  assumes "text_ok m1" and "m1 \<noteq> []" and "length m1 \<le> 255" and "text_ok m2" and "length m2 \<le> 254"
    and "nul_behind data" and "length buffer = BUFSZ"
  shows "\<exists>data' frames b. send_data (tcp_send_buf (int BUFSZ)) data [Some m1, Some m2] = (data', frames) \<and>
    receive_data tcp_receive_buf \<lparr>str_bytes = concat frames, str_closed = False\<rparr> buffer [] =
      Some (m1, b, \<lparr>str_bytes = [0, 0], str_closed = False\<rparr>)"
proof -
  have len: "length m1 < BUFSZ" "length m2 < BUFSZ" using assms(3,5) by (simp_all add: BUFSZ_def)
  have nul: "0 \<notin> set m1" "0 \<notin> set m2" using assms(1,4) by (simp_all add: text_ok_def)
  from stored_padded [OF assms(6) less_imp_le [OF len(1)] nul(1)] obtain d1 where
    1: "tcp_send_buf (int BUFSZ) (store_at 0 m1 (clear_buf data BUFSZ)) = (int BUFSZ, d1, Some (padded_frame m1))"
      "nul_behind d1" by blast
  from stored_padded [OF 1(2) less_imp_le [OF len(2)] nul(2)] obtain d2 where
    2: "tcp_send_buf (int BUFSZ) (store_at 0 m2 (clear_buf d1 BUFSZ)) = (int BUFSZ, d2, Some (padded_frame m2))"
    by blast
  have send: "send_data (tcp_send_buf (int BUFSZ)) data [Some m1, Some m2] = (d2, [padded_frame m1, padded_frame m2])"
    using 1(1) 2 len by (simp add: Let_def)
  have "drop (BUFSZ - 2) (padded_frame m2) = [0, 0]"
    using assms(5) by (simp add: padded_frame_def BUFSZ_def drop_append numeral_2_eq_2)
  with receive_data_tcp [OF assms(1,2) len(1) assms(7),
      of "\<lparr>str_bytes = padded_frame m1 @ padded_frame m2, str_closed = False\<rparr>" "padded_frame m2" "[]"] send
  show ?thesis by auto
qed

theorem tcp_second_frame_lost_witness:
  "\<exists>data' frames b. send_data (tcp_send_buf (int BUFSZ)) (replicate 257 0) [Some (cstr ''ab''), Some (cstr ''cd'')] =
      (data', frames) \<and>
    receive_data tcp_receive_buf \<lparr>str_bytes = concat frames, str_closed = False\<rparr> (replicate BUFSZ 0) [] =
      Some (cstr ''ab'', b, \<lparr>str_bytes = [0, 0], str_closed = False\<rparr>)"
  by (rule tcp_second_frame_lost) (simp_all add: text_ok_def CR_MASK_def BUFSZ_def nul_behind_def)

end
