(* ===== verification/Sock_Server.thy ===== *)
theory Sock_Server
  imports Sock_Net
begin

text \<open>
  \<open>Socket/server.c\<close>: what the subprocess of a client does with a command, in its two modes, and
  the start of the server; and the loops of \<open>slave\<close> in \<open>Socket/UDP.c\<close> and \<open>Socket/TCP.c\<close>. What
  a handler does to the world is a list of effects, what the kernel answers is an argument.
  Output goes to the pipe behind standard output, where \<open>send_data\<close> reads it.
\<close>

section \<open>Effects and answers\<close>

datatype server_effect =
    Print "byte list"
  | Run_ls
  | Chdir "byte list"
  | Shell_write "byte list"

text \<open>How the calls of \<open>start_shell\<close> end: a negative descriptor or \<open>False\<close> or \<open>None\<close> is a failure.\<close>

record pty_answers =
  pty_open :: int
  pty_grant :: bool
  pty_unlock :: bool
  pty_name :: "byte list option"
  pty_res :: int

record answers =
  ls_output :: "byte list"
  chdir_error :: "byte list \<Rightarrow> byte list option"
  shell_write_ok :: bool
  shell_reads :: "byte list option list"
  shell_pty :: pty_answers

text \<open>What an effect writes to the pipe behind standard output and error.\<close>

definition effect_output :: "answers \<Rightarrow> server_effect \<Rightarrow> byte list" where
  "effect_output a e = (case e of Print bs \<Rightarrow> bs | Run_ls \<Rightarrow> ls_output a | _ \<Rightarrow> [])"

section \<open>start_shell\<close>

text \<open>The parent: what it returns, and \<open>*shellfd\<close>.\<close>

definition start_shell :: "pty_answers \<Rightarrow> int \<Rightarrow> int \<times> int" where
  "start_shell p shellfd =
     (if pty_open p < 0 then (-1, shellfd)
      else
        (let shellfd = pty_open p in
         if \<not> pty_grant p then (-1, shellfd)
         else if \<not> pty_unlock p then (-1, shellfd)
         else if pty_name p = None then (-1, shellfd)
         else if pty_res p < 0 then (-1, shellfd)
         else (1, shellfd)))"

text \<open>
  The child: \<open>None\<close> when \<open>execl\<close> replaces it. A failed \<open>dup2\<close> or \<open>setsid\<close> returns from
  \<open>start_shell\<close> in the child.
\<close>

definition start_shell_child :: "bool \<Rightarrow> bool \<Rightarrow> bool \<Rightarrow> bool \<Rightarrow> bool \<Rightarrow> (int, unit) outcome option" where
  "start_shell_child dup_in dup_out dup_err setsid execl =
     (if \<not> dup_in then Some (Returns (-1) ())
      else if \<not> dup_out then Some (Returns (-1) ())
      else if \<not> dup_err then Some (Returns (-1) ())
      else if \<not> setsid then Some (Returns (-1) ())
      else if execl then None
      else Some (Exits 1 ()))"

section \<open>Handlers\<close>

text \<open>The loop that copies what the shell prints, through the buffer and \<open>printf\<close>.\<close>

primrec shell_output :: "byte list option list \<Rightarrow> byte list \<Rightarrow> server_effect list \<times> byte list" where
  "shell_output [] buffer = ([], buffer)"
| "shell_output (r # reads) buffer =
     (let buffer = clear_buf buffer BUFSZ;
          buffer = (case r of None \<Rightarrow> buffer | Some bs \<Rightarrow> store_at 0 (take BUFSZ bs) buffer);
          (effects, buffer') = shell_output reads buffer
      in (Print (c_str buffer) # effects, buffer'))"

definition bash_handler ::
  "answers \<Rightarrow> byte list \<Rightarrow> int \<Rightarrow> command \<Rightarrow> int \<times> server_effect list \<times> byte list \<times> int" where
  "bash_handler a buffer shellfd command =
     (if command = cmd_quit then
        (if shell_write_ok a
         then (0, [Shell_write (cstr ''exit'' @ [10]), Print (cstr ''Quit from slave process'' @ [10])], buffer, shellfd)
         else (-1, [], buffer, shellfd))
      else if shell_write_ok a then
        (let (effects, buffer') = shell_output (shell_reads a) buffer
         in (1, Shell_write (c_str buffer) # effects, buffer', shellfd))
      else (-1, [], buffer, shellfd))"

definition usual_handler ::
  "answers \<Rightarrow> byte list \<Rightarrow> int \<Rightarrow> command \<Rightarrow> int \<times> server_effect list \<times> byte list \<times> int" where
  "usual_handler a buffer shellfd command =
     (case command of
        cmd_print \<Rightarrow> (1, [Print (c_str (drop 6 buffer) @ [10])], buffer, shellfd)
      | cmd_ls \<Rightarrow> (1, [Run_ls], buffer, shellfd)
      | cmd_cd \<Rightarrow>
          (let path = c_str (drop 3 buffer) in
           (1, [Chdir path,
                Print (case chdir_error a path of
                         Some e \<Rightarrow> cstr ''Cant change directory: '' @ e @ [10]
                       | None \<Rightarrow> cstr ''New directory: ('' @ path @ cstr '')'' @ [10])], buffer, shellfd))
      | cmd_shell \<Rightarrow>
          (let (ret, shellfd) = start_shell (shell_pty a) shellfd in
           if 0 < shellfd \<and> 0 < ret then (1, [Print (cstr ''Shell started'' @ [10])], buffer, shellfd)
           else (1, [Print (cstr ''Error with starting shell'' @ [10])], buffer, -1))
      | cmd_quit \<Rightarrow> (0, [Print (cstr ''Quit from slave process'' @ [10])], buffer, shellfd)
      | _ \<Rightarrow> (1, [Print (cstr ''UNKNOWN COMMAND: ('' @ c_str buffer @ cstr '')'' @ [10])], buffer, shellfd))"

definition handler :: "answers \<Rightarrow> byte list \<Rightarrow> int \<Rightarrow> int \<times> server_effect list \<times> byte list \<times> int" where
  "handler a buffer shellfd =
     (let command = get_command buffer in
      if 0 < shellfd then bash_handler a buffer shellfd command
      else usual_handler a buffer shellfd command)"

section \<open>Slaves\<close>

text \<open>The signal handlers of the subprocess.\<close>

definition sigchld_slave :: "int \<Rightarrow> int" where
  "sigchld_slave shellfd = (if 0 < shellfd then -1 else shellfd)"

definition slave_end :: "unit \<Rightarrow> (unit, unit) outcome" where
  "slave_end w = Exits 0 w"

record slave =
  sl_flag :: int
  sl_shellfd :: int

text \<open>
  A round of \<open>slave\<close> in \<open>UDP.c\<close>: \<open>r\<close> is the read from the master's pipe, \<open>beyond\<close> the memory behind
  \<open>data\<close> and \<open>literal\<close> the bytes behind the empty string literal. \<open>send_data\<close> reads what the handler has
  left in the output pipe. The result has the frames that go to the client.
\<close>

definition udp_slave_step ::
  "answers \<Rightarrow> byte list \<Rightarrow> byte list \<Rightarrow> byte list option \<Rightarrow> slave \<Rightarrow>
   server_effect list \<times> byte list list \<times> slave" where
  "udp_slave_step a beyond literal r s =
     (case r of
        None \<Rightarrow> ([], [], s)
      | Some bs \<Rightarrow>
          (let data = store_at 0 (take BUFSZ bs) (replicate BUFSZ 0 @ beyond);
               (flag, effects, data, shellfd) = handler a data (sl_shellfd s);
               out = concat (map (effect_output a) effects);
               (data, frames) = send_data (udp_send_buf (int BUFSZ)) data (pipe_reads out);
               (ret, lit, last) = udp_send_buf (int BUFSZ) (0 # literal)
           in (effects, frames @ [the last], s\<lparr>sl_flag := flag, sl_shellfd := shellfd\<rparr>)))"

text \<open>
  A round of \<open>slave\<close> in \<open>TCP.c\<close>; \<open>None\<close> while \<open>recv\<close> waits. \<open>beyond_id\<close> is the stack behind
  the id, \<open>beyond\<close> the memory behind \<open>data\<close>.
\<close>

definition tcp_slave_step ::
  "answers \<Rightarrow> byte list \<Rightarrow> byte list \<Rightarrow> slave \<times> stream \<Rightarrow>
   (server_effect list \<times> byte list list \<times> slave \<times> stream) option" where
  "tcp_slave_step a beyond_id beyond s =
     (case tcp_receive_buf (snd s) (replicate BUFSZ 0) of
        None \<Rightarrow> None
      | Some ((ret, buffer), sk) \<Rightarrow>
          if ret \<le> 0 then Some ([], [], fst s, sk)
          else
            (let (client_id, data) = separate_buffer beyond_id buffer (replicate BUFSZ 0 @ beyond) in
             if get_command data = cmd_findall then
               (let data = snprintf_at 0 BUFSZ (cstr ''server'') data;
                    (ret, data, frame) = tcp_send_buf (int BUFSZ) data
                in Some ([], [the frame], fst s, sk))
             else
               (let (flag, effects, data, shellfd) = handler a data (sl_shellfd (fst s));
                    out = concat (map (effect_output a) effects);
                    (data, frames) = send_data (tcp_send_buf (int BUFSZ)) data (pipe_reads out)
                in Some (effects, frames, (fst s)\<lparr>sl_flag := flag, sl_shellfd := shellfd\<rparr>, sk))))"

text \<open>
  \<open>master\<close> in \<open>TCP.c\<close>: an accepted connection gets a subprocess of its own; \<open>accept_socket\<close> turns
  a failure into -1 and the loop goes on.
\<close>

definition accept_socket :: "int \<Rightarrow> int" where
  "accept_socket ret = (if ret < 0 then -1 else ret)"

datatype tcp_master = Parent | Child int

definition tcp_master_step :: "int \<Rightarrow> int \<Rightarrow> tcp_master" where
  "tcp_master_step accepted pid =
     (let client_sk = accept_socket accepted in
      if 0 < client_sk \<and> pid = 0 then Child client_sk else Parent)"

section \<open>main\<close>

datatype server_run = Ends int "int list" | Serves int

text \<open>
  \<open>main\<close> up to the call of \<open>master\<close>, with what the calls of the chosen library answer; a run
  that ends has its status and the descriptors closed.
\<close>

definition server_main ::
  "(protocol \<Rightarrow> 'lib option) \<Rightarrow> ('lib \<Rightarrow> string \<Rightarrow> 'fn option) \<Rightarrow> byte list list \<Rightarrow> int \<Rightarrow> bind_result \<Rightarrow> int \<Rightarrow>
   server_run" where
  "server_main dlopen dlsym argv sk bound listened =
     (if length argv < 2 then Ends (-1) []
      else if get_functions dlopen dlsym (argv ! 1) = None then Ends (-1) []
      else if sk < 0 then Ends (-1) []
      else
        (let (ret, closed) = bind_socket bound in
         if ret < 0 then Ends (-1) ((if closed then [sk] else []) @ [sk])
         else if listened < 0 then Ends (-1) [sk]
         else Serves sk))"

section \<open>Properties\<close>

lemma shell_output_prints: "set (fst (shell_output reads buffer)) \<subseteq> range Print"
  by (induction reads arbitrary: buffer) (auto simp: Let_def case_prod_beta)

text \<open>
  C14: a subprocess leaves its loop exactly on a \<open>quit\<close> that it can carry out. While it has a
  shell, every other command goes to the shell word for word and only output follows; nothing
  is run or changed in the subprocess itself, and the shell stays. Without a shell only
  \<open>shell\<close> changes the mode, and never to the descriptor 0.
\<close>

theorem handler_modes:
  fixes a buffer shellfd
  defines "result \<equiv> handler a buffer shellfd"
  shows "(fst result = 0 \<longleftrightarrow> get_command buffer = cmd_quit \<and> (0 < shellfd \<longrightarrow> shell_write_ok a)) \<and>
    (0 < shellfd \<longrightarrow> snd (snd (snd result)) = shellfd \<and>
      (get_command buffer \<noteq> cmd_quit \<and> shell_write_ok a \<longrightarrow>
        (\<exists>prints. fst (snd result) = Shell_write (c_str buffer) # prints \<and> set prints \<subseteq> range Print))) \<and>
    (\<not> 0 < shellfd \<longrightarrow>
      snd (snd (snd result)) = shellfd \<or> get_command buffer = cmd_shell \<and> snd (snd (snd result)) \<noteq> 0)"
proof (cases "0 < shellfd")
  case True
  then show ?thesis
    using shell_output_prints [of "shell_reads a" buffer]
    by (auto simp: result_def handler_def bash_handler_def Let_def case_prod_beta)
next
  case False
  then show ?thesis
    by (cases "get_command buffer")
      (auto simp: result_def handler_def usual_handler_def Let_def case_prod_beta)
qed

theorem handler_modes_witness:
  "\<exists>a prints. fst (snd (handler a (cstr ''ls'' @ [0]) 3)) = Shell_write (cstr ''ls'') # prints \<and>
     snd (snd (snd (handler a (cstr ''ls'' @ [0]) 3))) = 3"
proof -
  define a where "a = \<lparr>ls_output = [], chdir_error = (\<lambda>_. None), shell_write_ok = True, shell_reads = [Some (cstr ''x'')],
    shell_pty = \<lparr>pty_open = 3, pty_grant = True, pty_unlock = True, pty_name = None, pty_res = 4\<rparr>\<rparr>"
  have "get_command (cstr ''ls'' @ [0]) \<noteq> cmd_quit" by (simp add: get_command_def starts_with_prefix)
  moreover have "shell_write_ok a" by (simp add: a_def)
  moreover have "c_str (cstr ''ls'' @ [0]) = cstr ''ls''" by simp
  ultimately show ?thesis
    using handler_modes [of a "cstr ''ls'' @ [0]" 3] by auto
qed

end
