(* ===== verification/Sock_Udp.thy ===== *)
theory Sock_Udp
  imports Sock_Net
begin

text \<open>
  The server's side of \<open>Socket/UDP.c\<close>: the table of clients and \<open>master\<close>, which hands each
  request to the subprocess of its client. What \<open>master\<close> does to the world is a list of
  effects; what the kernel answers is an argument.
\<close>

section \<open>The table of clients\<close>

record client_info =
  ci_pid :: int
  ci_id :: int
  ci_pipes :: "int \<times> int"

record table =
  clients :: "client_info list"
  clients_count :: nat

primrec find_client_from :: "client_info list \<Rightarrow> int \<Rightarrow> nat \<Rightarrow> nat \<Rightarrow> int" where
  "find_client_from cs client_id i 0 = -1"
| "find_client_from cs client_id i (Suc n) =
     (if ci_id (cs ! i) = client_id then int i else find_client_from cs client_id (Suc i) n)"

definition find_client :: "int \<Rightarrow> table \<Rightarrow> int" where
  "find_client client_id t = find_client_from (clients t) client_id 0 (clients_count t)"

text \<open>\<open>fds\<close> is what \<open>pipe\<close> gives; the caller counts the new client.\<close>

definition add_client :: "int \<Rightarrow> (int \<times> int) option \<Rightarrow> table \<Rightarrow> int \<times> table" where
  "add_client client_id fds t =
     (if MAX_CLIENTS_COUNT \<le> clients_count t then (-1, t)
      else
        (let n = clients_count t;
             t = t\<lparr>clients := (clients t)[n := (clients t ! n)\<lparr>ci_id := client_id\<rparr>]\<rparr> in
         case fds of
           None \<Rightarrow> (-1, t)
         | Some p \<Rightarrow> (int n, t\<lparr>clients := (clients t)[n := (clients t ! n)\<lparr>ci_pipes := p\<rparr>]\<rparr>)))"

text \<open>The descriptors closed, and the table with the last client moved to the free place.\<close>

definition client_disconnect :: "nat \<Rightarrow> table \<Rightarrow> int list \<times> table" where
  "client_disconnect position t =
     (let cs = (clients t)[position := (clients t ! position)\<lparr>ci_id := 0\<rparr>];
          closed = [fst (ci_pipes (cs ! position)), snd (ci_pipes (cs ! position))];
          n = clients_count t - 1;
          cs = (if n \<noteq> position
                then (let cs = cs[position := cs ! n] in cs[n := (cs ! n)\<lparr>ci_id := 0\<rparr>])
                else cs)
      in (closed, t\<lparr>clients := cs, clients_count := n\<rparr>))"

section \<open>master\<close>

datatype effect =
    Fork int int int      \<comment> \<open>a slave for a client: id, pid, descriptor it reads\<close>
  | Pipe_write int "byte list"
  | Reply "byte list"
  | Close int

record udp_master =
  um_table :: table
  um_data :: "byte list"

definition set_pid :: "nat \<Rightarrow> int \<Rightarrow> table \<Rightarrow> table" where
  "set_pid position pid t = t\<lparr>clients := (clients t)[position := (clients t ! position)\<lparr>ci_pid := pid\<rparr>]\<rparr>"

text \<open>A new client: its place, and the effect of the \<open>fork\<close>.\<close>

definition connect :: "int \<Rightarrow> (int \<times> int) option \<Rightarrow> int \<Rightarrow> table \<Rightarrow> (nat \<times> effect list \<times> table) option \<times> table" where
  "connect client_id fds pid t =
     (let (ret, t) = add_client client_id fds t in
      if ret < 0 then (None, t)
      else
        (let position = clients_count t; t = t\<lparr>clients_count := clients_count t + 1\<rparr>;
             pipe_from_master = fst (ci_pipes (clients t ! position))
         in (Some (position, [Fork client_id pid pipe_from_master], set_pid position pid t), t)))"

text \<open>
  One round of the loop of \<open>master\<close> after \<open>receive_buf\<close> has filled \<open>buffer\<close>: \<open>beyond\<close> is the
  stack behind the id, \<open>fds\<close>, \<open>pid\<close>, \<open>written\<close> what \<open>pipe\<close>, \<open>fork\<close> and \<open>write\<close> answer.
\<close>

definition master_step ::
  "byte list \<Rightarrow> (int \<times> int) option \<Rightarrow> int \<Rightarrow> bool \<Rightarrow> byte list \<Rightarrow> udp_master \<Rightarrow> effect list \<times> udp_master" where
  "master_step beyond fds pid written buffer s =
     (let (client_id, data) = separate_buffer beyond buffer (um_data s);
          t = um_table s; position = find_client client_id t in
      case (if position < 0 then connect client_id fds pid t else (Some (nat position, [], t), t)) of
        (None, t) \<Rightarrow> ([], s\<lparr>um_table := t, um_data := data\<rparr>)
      | (Some (position, forked, t), _) \<Rightarrow>
          if get_command data = cmd_findall then
            (let data = snprintf_at 0 BUFSZ (cstr ''server'') data;
                 (ret, data, frame) = udp_send_buf (int BUFSZ) data
             in (forked @ [Reply (the frame)], s\<lparr>um_table := t, um_data := data\<rparr>))
          else
            (let sent = forked @ [Pipe_write (snd (ci_pipes (clients t ! position))) (c_str data)] in
             if written \<and> get_command data = cmd_quit then
               (let (closed, t) = client_disconnect position t
                in (sent @ map Close closed, s\<lparr>um_table := t, um_data := data\<rparr>))
             else (sent, s\<lparr>um_table := t, um_data := data\<rparr>)))"

section \<open>The table as a map\<close>

definition table_inv :: "table \<Rightarrow> bool" where
  "table_inv t \<longleftrightarrow> length (clients t) = MAX_CLIENTS_COUNT \<and> clients_count t \<le> MAX_CLIENTS_COUNT \<and>
     distinct (map ci_id (take (clients_count t) (clients t)))"

definition table_abs :: "table \<Rightarrow> (int \<rightharpoonup> client_info)" where
  "table_abs t = map_of (map (\<lambda>c. (ci_id c, c)) (take (clients_count t) (clients t)))"

lemma find_client_from_spec:
  "find_client_from cs x i n = -1 \<and> (\<forall>j. i \<le> j \<and> j < i + n \<longrightarrow> ci_id (cs ! j) \<noteq> x) \<or>
   (\<exists>j. i \<le> j \<and> j < i + n \<and> find_client_from cs x i n = int j \<and> ci_id (cs ! j) = x)"
proof (induction n arbitrary: i)
  case 0
  then show ?case by simp
next
  case (Suc n)
  show ?case
  proof (cases "ci_id (cs ! i) = x")
    case True
    then show ?thesis by (intro disjI2 exI [of _ i]) simp
  next
    case False
    from Suc.IH [of "Suc i"] show ?thesis
    proof (elim disjE conjE exE)
      assume a: "find_client_from cs x (Suc i) n = -1" "\<forall>j. Suc i \<le> j \<and> j < Suc i + n \<longrightarrow> ci_id (cs ! j) \<noteq> x"
      with False have "\<forall>j. i \<le> j \<and> j < i + Suc n \<longrightarrow> ci_id (cs ! j) \<noteq> x"
        by (metis Suc_leI add_Suc_right add_Suc le_neq_implies_less)
      with a(1) False show ?thesis by simp
    next
      fix j
      assume "Suc i \<le> j" "j < Suc i + n" "find_client_from cs x (Suc i) n = int j" "ci_id (cs ! j) = x"
      with False show ?thesis by (intro disjI2 exI [of _ j]) auto
    qed
  qed
qed

lemma map_of_nth:
  assumes "distinct (map ci_id cs)" and "j < length cs"
  shows "map_of (map (\<lambda>c. (ci_id c, c)) cs) (ci_id (cs ! j)) = Some (cs ! j)"
  using assms by (intro map_of_is_SomeI) (auto simp: o_def)

lemma find_client_None:
  assumes "table_inv t"
  shows "find_client x t < 0 \<longleftrightarrow> table_abs t x = None"
proof -
  let ?n = "clients_count t"
  have n: "?n \<le> length (clients t)" using assms by (simp add: table_inv_def)
  have "table_abs t x = None \<longleftrightarrow> (\<forall>j < ?n. ci_id (clients t ! j) \<noteq> x)"
  proof -
    have "table_abs t x = None \<longleftrightarrow> x \<notin> ci_id ` set (take ?n (clients t))"
      by (simp add: table_abs_def map_of_eq_None_iff image_image)
    also have "set (take ?n (clients t)) = (\<lambda>j. clients t ! j) ` {0..<?n}"
      using n by (rule nth_image [symmetric])
    finally show ?thesis by (auto simp: image_iff)
  qed
  then show ?thesis
    using find_client_from_spec [of "clients t" x 0 ?n] unfolding find_client_def by fastforce
qed

lemma find_client_Some:
  assumes "table_inv t" and "0 \<le> find_client x t"
  shows "nat (find_client x t) < clients_count t" and "ci_id (clients t ! nat (find_client x t)) = x"
    and "table_abs t x = Some (clients t ! nat (find_client x t))"
proof -
  let ?n = "clients_count t"
  from assms have n: "?n \<le> length (clients t)" "distinct (map ci_id (take ?n (clients t)))"
    by (simp_all add: table_inv_def)
  from find_client_from_spec [of "clients t" x 0 ?n] assms(2) obtain j where
    j: "j < ?n" "find_client x t = int j" "ci_id (clients t ! j) = x"
    by (auto simp: find_client_def)
  then show "nat (find_client x t) < ?n" "ci_id (clients t ! nat (find_client x t)) = x" by simp_all
  have "table_abs t x = Some (clients t ! j)"
    using map_of_nth [OF n(2), of j] j n(1) by (simp add: table_abs_def)
  with j show "table_abs t x = Some (clients t ! nat (find_client x t))" by simp
qed

definition active :: "table \<Rightarrow> client_info list" where
  "active t = take (clients_count t) (clients t)"

lemma table_inv_active:
  "table_inv t \<longleftrightarrow> length (clients t) = MAX_CLIENTS_COUNT \<and> clients_count t \<le> MAX_CLIENTS_COUNT \<and>
     distinct (map ci_id (active t))"
  by (simp add: table_inv_def active_def)

lemma table_abs_active: "table_abs t = map_of (map (\<lambda>c. (ci_id c, c)) (active t))"
  by (simp add: table_abs_def active_def)

lemma table_abs_Some:
  "table_inv t \<Longrightarrow> table_abs t x = Some c \<longleftrightarrow> c \<in> set (active t) \<and> ci_id c = x"
  by (auto simp: table_abs_active table_inv_active map_of_eq_Some_iff o_def image_iff)

lemma dom_table_abs: "dom (table_abs t) = ci_id ` set (active t)"
  by (simp add: table_abs_active dom_map_of_conv_image_fst image_image)

lemma card_dom_table_abs:
  assumes "table_inv t"
  shows "card (dom (table_abs t)) = clients_count t"
proof -
  have "card (dom (table_abs t)) = card (set (map ci_id (active t)))" by (simp add: dom_table_abs)
  also have "\<dots> = length (active t)"
    using assms distinct_card [of "map ci_id (active t)"] by (simp add: table_inv_active)
  also have "\<dots> = clients_count t" using assms by (simp add: table_inv_def active_def)
  finally show ?thesis .
qed

lemma table_absI:
  assumes "table_inv t" and "\<And>c. c \<in> set (active t) \<longleftrightarrow> m (ci_id c) = Some c"
    and "\<And>x c. m x = Some c \<Longrightarrow> ci_id c = x"
  shows "table_abs t = m"
proof
  fix x
  show "table_abs t x = m x"
    by (rule option.expand; (cases "m x"; cases "table_abs t x")?)
      (use assms table_abs_Some [OF assms(1)] in \<open>metis option.simps(3) not_None_eq\<close>)+
qed

section \<open>Connecting and disconnecting\<close>

definition new_client :: "int \<Rightarrow> int \<times> int \<Rightarrow> int \<Rightarrow> client_info" where
  "new_client x p pid = \<lparr>ci_pid = pid, ci_id = x, ci_pipes = p\<rparr>"

lemma connect_full:
  "MAX_CLIENTS_COUNT \<le> clients_count t \<Longrightarrow> connect x fds pid t = (None, t)"
  by (simp add: connect_def add_client_def)

lemma connect_no_pipe:
  assumes "table_inv t"
  shows "\<exists>t'. connect x None pid t = (None, t') \<and> table_inv t' \<and> active t' = active t"
  using assms by (auto simp: connect_def add_client_def Let_def table_inv_def active_def)

lemma connect_room:
  assumes "table_inv t" and "clients_count t < MAX_CLIENTS_COUNT" and "table_abs t x = None"
  shows "\<exists>t' t''. connect x (Some p) pid t = (Some (clients_count t, [Fork x pid (fst p)], t'), t'') \<and>
    table_inv t' \<and> clients t' ! clients_count t = new_client x p pid \<and>
    table_abs t' = (table_abs t)(x \<mapsto> new_client x p pid)"
proof -
  let ?n = "clients_count t"
  have n: "?n < length (clients t)" using assms(1,2) by (simp add: table_inv_def)
  define t' where "t' = t\<lparr>clients := (clients t)[?n := new_client x p pid], clients_count := ?n + 1\<rparr>"
  have cell: "(clients t ! ?n)\<lparr>ci_id := x, ci_pipes := p, ci_pid := pid\<rparr> = new_client x p pid"
    by (simp add: new_client_def)
  have run: "\<exists>t''. connect x (Some p) pid t = (Some (?n, [Fork x pid (fst p)], t'), t'')"
    using assms(2) n cell by (simp add: connect_def add_client_def set_pid_def Let_def t'_def)
  have act: "active t' = active t @ [new_client x p pid]"
    using n by (simp add: active_def t'_def take_Suc_conv_app_nth)
  have fresh: "x \<notin> ci_id ` set (active t)"
    using assms(3) dom_table_abs by (metis domIff)
  then have inv: "table_inv t'"
    using assms(1,2) act by (simp add: table_inv_active t'_def new_client_def)
  moreover have "table_abs t' = (table_abs t)(x \<mapsto> new_client x p pid)"
    using fresh unfolding table_abs_active act
    by (auto simp: new_client_def map_add_def fun_eq_iff image_iff split: option.splits
        dest!: map_of_SomeD)
  moreover have "clients t' ! ?n = new_client x p pid" using n by (simp add: t'_def)
  ultimately show ?thesis using run by blast
qed

lemma swap_remove:
  assumes "distinct (map f xs)" and "length xs = Suc n" and "p \<le> n"
    and "ys = (if p = n then take n xs else (take n xs)[p := xs ! n])"
  shows "distinct (map f ys)" and "set ys = set xs - {xs ! p}"
proof -
  from assms(2) obtain us a where xs: "xs = us @ [a]" "length us = n"
    by (cases xs rule: rev_cases) auto
  with assms(1) have d: "distinct (map f us)" "f a \<notin> f ` set us" by auto
  then have "a \<notin> set us" "distinct us" by (auto simp: distinct_map)
  show "distinct (map f ys)"
    using assms(4) xs d by (auto simp: map_update intro!: distinct_list_update)
  show "set ys = set xs - {xs ! p}"
  proof (cases "p = n")
    case True
    then show ?thesis using assms(4) xs \<open>a \<notin> set us\<close> by auto
  next
    case False
    then have "p < length us" using assms(3) xs(2) by simp
    then have "set (us[p := a]) = insert a (set us - {us ! p})" "us ! p \<in> set us"
      using \<open>distinct us\<close> by (simp_all add: set_update_distinct)
    then show ?thesis
      using False assms(4) xs \<open>p < length us\<close> \<open>a \<notin> set us\<close> by (auto simp: nth_append)
  qed
qed

lemma disconnect_active:
  assumes "table_inv t" and "p < clients_count t"
  shows "active (snd (client_disconnect p t)) =
    (if p = clients_count t - 1 then take (clients_count t - 1) (active t)
     else (take (clients_count t - 1) (active t))[p := active t ! (clients_count t - 1)])"
proof -
  obtain n where n: "clients_count t = Suc n" using assms(2) by (cases "clients_count t") auto
  with assms have "p \<le> n" "n < length (clients t)" by (simp_all add: table_inv_def)
  with n show ?thesis
    by (auto simp: client_disconnect_def active_def Let_def take_update_swap list_update_beyond)
qed

lemma disconnect_spec:
  assumes inv: "table_inv t" and p: "p < clients_count t"
  shows "table_inv (snd (client_disconnect p t))"
    and "table_abs (snd (client_disconnect p t)) = (table_abs t)(ci_id (clients t ! p) := None)"
    and "fst (client_disconnect p t) = [fst (ci_pipes (clients t ! p)), snd (ci_pipes (clients t ! p))]"
proof -
  let ?t = "snd (client_disconnect p t)" and ?L = "active t"
  obtain n where n: "clients_count t = Suc n" using p by (cases "clients_count t") auto
  have len: "length ?L = Suc n" and ids: "distinct (map ci_id ?L)"
    using inv n by (simp_all add: table_inv_active active_def)
  have act: "active ?t = (if p = n then take n ?L else (take n ?L)[p := ?L ! n])"
    using disconnect_active [OF inv p] n by simp
  have "p \<le> n" using p n by simp
  note sr = swap_remove [OF ids len this act]
  have nth: "?L ! p = clients t ! p" using p by (simp add: active_def)
  show t: "table_inv ?t"
    using inv sr(1) n unfolding table_inv_active
    by (simp add: client_disconnect_def Let_def)
  show "table_abs ?t = (table_abs t)(ci_id (clients t ! p) := None)"
  proof (rule table_absI [OF t])
    fix c
    have "clients t ! p \<in> set ?L" using len \<open>p \<le> n\<close> nth nth_mem [of p ?L] by simp
    moreover from this have "c = clients t ! p" if "c \<in> set ?L" "ci_id c = ci_id (clients t ! p)"
      using that table_abs_Some [OF inv] by (metis option.inject)
    ultimately show "c \<in> set (active ?t) \<longleftrightarrow>
        ((table_abs t)(ci_id (clients t ! p) := None)) (ci_id c) = Some c"
      using sr(2) nth table_abs_Some [OF inv] by auto
  next
    fix x c
    assume "((table_abs t)(ci_id (clients t ! p) := None)) x = Some c"
    then show "ci_id c = x" using table_abs_Some [OF inv] by (auto split: if_splits)
  qed
  have "p < length (clients t)" using p inv by (simp add: table_inv_def)
  then show "fst (client_disconnect p t) = [fst (ci_pipes (clients t ! p)), snd (ci_pipes (clients t ! p))]"
    by (simp add: client_disconnect_def Let_def)
qed

section \<open>The contract of a table of clients\<close>

text \<open>
  What \<open>master\<close> needs of its table: finding a client, a place for a new one while there is
  room, and taking one out, as updates of a finite map.
\<close>

locale client_table =
  fixes inv :: "'s \<Rightarrow> bool"
    and abs :: "'s \<Rightarrow> (int \<rightharpoonup> 'c)"
    and get :: "nat \<Rightarrow> 's \<Rightarrow> 'c"
    and find :: "int \<Rightarrow> 's \<Rightarrow> int"
    and ins :: "int \<Rightarrow> 'a \<Rightarrow> 's \<Rightarrow> (nat \<times> 's) option"
    and mk :: "int \<Rightarrow> 'a \<Rightarrow> 'c"
    and del :: "nat \<Rightarrow> 's \<Rightarrow> 's"
    and room :: nat
  assumes find_none: "inv s \<Longrightarrow> find x s < 0 \<longleftrightarrow> abs s x = None"
    and find_some: "inv s \<Longrightarrow> 0 \<le> find x s \<Longrightarrow> abs s x = Some (get (nat (find x s)) s)"
    and ins_room: "inv s \<Longrightarrow> abs s x = None \<Longrightarrow> card (dom (abs s)) < room \<Longrightarrow>
      \<exists>p s'. ins x a s = Some (p, s') \<and> inv s' \<and> get p s' = mk x a \<and> abs s' = (abs s)(x \<mapsto> mk x a)"
    and ins_full: "inv s \<Longrightarrow> abs s x = None \<Longrightarrow> room \<le> card (dom (abs s)) \<Longrightarrow> ins x a s = None"
    and del_found: "inv s \<Longrightarrow> 0 \<le> find x s \<Longrightarrow>
      inv (del (nat (find x s)) s) \<and> abs (del (nat (find x s)) s) = (abs s)(x := None)"
begin

text \<open>A client that connects is found with its own entry, and its leaving restores the table.\<close>

lemma session:
  assumes "inv s" and "abs s x = None" and "card (dom (abs s)) < room"
  shows "\<exists>p s'. ins x a s = Some (p, s') \<and> inv s' \<and> 0 \<le> find x s' \<and>
    get (nat (find x s')) s' = mk x a \<and> (\<forall>y. y \<noteq> x \<longrightarrow> abs s' y = abs s y) \<and>
    inv (del (nat (find x s')) s') \<and> abs (del (nat (find x s')) s') = abs s"
proof -
  from ins_room [OF assms] obtain p s' where
    1: "ins x a s = Some (p, s')" "inv s'" "abs s' = (abs s)(x \<mapsto> mk x a)" by blast
  then have found: "0 \<le> find x s'" using find_none [OF 1(2), of x] by simp
  from del_found [OF 1(2) found] 1(3) assms(2) have
    "inv (del (nat (find x s')) s')" "abs (del (nat (find x s')) s') = abs s" by auto
  moreover have "get (nat (find x s')) s' = mk x a"
    using find_some [OF 1(2) found] 1(3) by simp
  ultimately show ?thesis using 1 found by auto
qed

end

definition table_ins :: "int \<Rightarrow> (int \<times> int) \<times> int \<Rightarrow> table \<Rightarrow> (nat \<times> table) option" where
  "table_ins x a t = (case fst (connect x (Some (fst a)) (snd a) t) of
     None \<Rightarrow> None | Some (position, forked, t') \<Rightarrow> Some (position, t'))"

interpretation udp_clients: client_table table_inv table_abs "\<lambda>p t. clients t ! p" find_client
  table_ins "\<lambda>x a. new_client x (fst a) (snd a)" "\<lambda>p t. snd (client_disconnect p t)" MAX_CLIENTS_COUNT
proof unfold_locales
  fix t x a
  show "table_inv t \<Longrightarrow> (find_client x t < 0) = (table_abs t x = None)" by (rule find_client_None)
  show "table_inv t \<Longrightarrow> 0 \<le> find_client x t \<Longrightarrow> table_abs t x = Some (clients t ! nat (find_client x t))"
    by (rule find_client_Some(3))
  show "table_inv t \<Longrightarrow> 0 \<le> find_client x t \<Longrightarrow>
      table_inv (snd (client_disconnect (nat (find_client x t)) t)) \<and>
      table_abs (snd (client_disconnect (nat (find_client x t)) t)) = (table_abs t)(x := None)"
    using disconnect_spec(1,2) [of t "nat (find_client x t)"] find_client_Some(1,2) [of t x] by simp
  assume inv: "table_inv t" and none: "table_abs t x = None"
  show "\<exists>p t'. table_ins x a t = Some (p, t') \<and> table_inv t' \<and>
      clients t' ! p = new_client x (fst a) (snd a) \<and>
      table_abs t' = (table_abs t)(x \<mapsto> new_client x (fst a) (snd a))"
    if "card (dom (table_abs t)) < MAX_CLIENTS_COUNT"
    using connect_room [OF inv _ none, of "fst a" "snd a"] that card_dom_table_abs [OF inv]
    by (auto simp: table_ins_def)
  show "table_ins x a t = None" if "MAX_CLIENTS_COUNT \<le> card (dom (table_abs t))"
    using connect_full [of t x "Some (fst a)" "snd a"] that card_dom_table_abs [OF inv]
    by (simp add: table_ins_def)
qed

section \<open>What master does with a request\<close>

text \<open>
  The request \<open>data\<close> of client \<open>x\<close> over the map \<open>m\<close> of the clients: the effects and the new map.
\<close>

definition route ::
  "int \<Rightarrow> byte list \<Rightarrow> (int \<times> int) option \<Rightarrow> int \<Rightarrow> bool \<Rightarrow> byte list \<Rightarrow> (int \<rightharpoonup> client_info) \<Rightarrow>
   effect list \<times> (int \<rightharpoonup> client_info)" where
  "route x data fds pid written reply m =
     (case (case m x of
              Some c \<Rightarrow> Some ([], c)
            | None \<Rightarrow>
                (case fds of
                   None \<Rightarrow> None
                 | Some p \<Rightarrow> if card (dom m) < MAX_CLIENTS_COUNT
                             then Some ([Fork x pid (fst p)], new_client x p pid) else None)) of
        None \<Rightarrow> ([], m)
      | Some (forked, c) \<Rightarrow>
          if get_command data = cmd_findall then (forked @ [Reply reply], m(x \<mapsto> c))
          else if written \<and> get_command data = cmd_quit
          then (forked @ [Pipe_write (snd (ci_pipes c)) (c_str data), Close (fst (ci_pipes c)),
                          Close (snd (ci_pipes c))], m(x := None))
          else (forked @ [Pipe_write (snd (ci_pipes c)) (c_str data)], m(x \<mapsto> c)))"

definition reply_frame :: "byte list \<Rightarrow> byte list" where
  "reply_frame data = take BUFSZ (encode (snprintf_at 0 BUFSZ (cstr ''server'') data))"

lemma findall_send:
  "udp_send_buf (int BUFSZ) (snprintf_at 0 BUFSZ (cstr ''server'') data) =
     (int BUFSZ, encode (snprintf_at 0 BUFSZ (cstr ''server'') data), Some (reply_frame data))"
  by (simp add: udp_send_buf_def reply_frame_def Let_def)

lemma route_map:
  assumes "m x = Some c" shows "m(x \<mapsto> c) = m"
  using assms by auto

lemma master_step_serve:
  assumes inv: "table_inv t" and c: "clients t ! position = c" "position < clients_count t"
    and x: "ci_id c = x" and abs: "table_abs t = m(x \<mapsto> c)"
  shows "\<exists>s'. (if get_command data = cmd_findall then
            (let data = snprintf_at 0 BUFSZ (cstr ''server'') data;
                 (ret, data, frame) = udp_send_buf (int BUFSZ) data
             in (forked @ [Reply (the frame)], s\<lparr>um_table := t, um_data := data\<rparr>))
          else
            (let sent = forked @ [Pipe_write (snd (ci_pipes (clients t ! position))) (c_str data)] in
             if written \<and> get_command data = cmd_quit then
               (let (closed, t) = client_disconnect position t
                in (sent @ map Close closed, s\<lparr>um_table := t, um_data := data\<rparr>))
             else (sent, s\<lparr>um_table := t, um_data := data\<rparr>))) =
      ((if get_command data = cmd_findall then forked @ [Reply (reply_frame data)]
        else if written \<and> get_command data = cmd_quit
        then forked @ [Pipe_write (snd (ci_pipes c)) (c_str data), Close (fst (ci_pipes c)),
                          Close (snd (ci_pipes c))]
        else forked @ [Pipe_write (snd (ci_pipes c)) (c_str data)]), s') \<and>
    table_inv (um_table s') \<and>
    table_abs (um_table s') =
      (if get_command data \<noteq> cmd_findall \<and> written \<and> get_command data = cmd_quit then m(x := None)
       else m(x \<mapsto> c))"
proof -
  from disconnect_spec [OF inv c(2)] have
    "table_inv (snd (client_disconnect position t))"
    "table_abs (snd (client_disconnect position t)) = m(x := None)"
    "fst (client_disconnect position t) = [fst (ci_pipes c), snd (ci_pipes c)]"
    by (simp_all add: c x abs)
  then show ?thesis
    using inv abs by (auto simp: findall_send c Let_def case_prod_beta simp del: cstr_simps)
qed

lemma master_step_route:
  assumes inv: "table_inv (um_table s)"
    and sep: "separate_buffer beyond buffer (um_data s) = (x, data)"
  shows "\<exists>s'. master_step beyond fds pid written buffer s =
      (fst (route x data fds pid written (reply_frame data) (table_abs (um_table s))), s') \<and>
    table_inv (um_table s') \<and>
    table_abs (um_table s') = snd (route x data fds pid written (reply_frame data) (table_abs (um_table s)))"
proof -
  let ?t = "um_table s" and ?m = "table_abs (um_table s)"
  show ?thesis
  proof (cases "?m x")
    case (Some c)
    then have pos: "\<not> find_client x ?t < 0" using find_client_None [OF inv, of x] by simp
    then have "0 \<le> find_client x ?t" by simp
    note found = find_client_Some [OF inv this]
    with Some have c: "clients ?t ! nat (find_client x ?t) = c" "ci_id c = x" by auto
    from master_step_serve [OF inv c(1) found(1) c(2), of ?m data "[]" s written] route_map [of ?m x c] Some
    show ?thesis
      using pos by (auto simp: master_step_def sep route_def)
  next
    case None
    then have pos: "find_client x ?t < 0" using find_client_None [OF inv, of x] by simp
    show ?thesis
    proof (cases fds)
      case None
      from connect_no_pipe [OF inv, of x pid] obtain t' where
        "connect x None pid ?t = (None, t')" "table_inv t'" "active t' = active ?t" by blast
      then show ?thesis
        using pos None \<open>?m x = None\<close> by (simp add: master_step_def sep route_def table_abs_active)
    next
      case (Some p)
      show ?thesis
      proof (cases "clients_count ?t < MAX_CLIENTS_COUNT")
        case False
        then show ?thesis
          using connect_full [of ?t x fds pid] pos inv \<open>?m x = None\<close> Some card_dom_table_abs [OF inv]
          by (simp add: master_step_def sep route_def)
      next
        case True
        from connect_room [OF inv True \<open>?m x = None\<close>, of p pid] obtain t' t'' where
          t': "connect x (Some p) pid ?t = (Some (clients_count ?t, [Fork x pid (fst p)], t'), t'')"
            "table_inv t'" "clients t' ! clients_count ?t = new_client x p pid"
            "table_abs t' = ?m(x \<mapsto> new_client x p pid)" by blast
        have "finite (dom ?m)" by (simp add: dom_table_abs)
        then have "card (dom (table_abs t')) = Suc (card (dom ?m))"
          unfolding t'(4) using \<open>?m x = None\<close> by (simp add: domIff card_insert_if)
        then have "card (dom (table_abs t')) = Suc (clients_count ?t)"
          using card_dom_table_abs [OF inv] by simp
        then have "clients_count ?t < clients_count t'" using card_dom_table_abs [OF t'(2)] by simp
        from master_step_serve [OF t'(2,3) this _ t'(4), of data "[Fork x pid (fst p)]" s written] t'(1)
        show ?thesis
          using pos True Some \<open>?m x = None\<close> card_dom_table_abs [OF inv]
          by (auto simp: master_step_def sep route_def new_client_def)
      qed
    qed
  qed
qed

section \<open>Properties\<close>

text \<open>The state \<open>master\<close> starts with.\<close>

definition master_start :: udp_master where
  "master_start = \<lparr>um_table = \<lparr>clients = replicate MAX_CLIENTS_COUNT \<lparr>ci_pid = 0, ci_id = 0, ci_pipes = (0, 0)\<rparr>,
     clients_count = 0\<rparr>, um_data = replicate BUFSZ 0\<rparr>"

lemma master_start_inv: "table_inv (um_table master_start)" "table_abs (um_table master_start) = Map.empty"
  by (simp_all add: table_inv_def table_abs_def master_start_def MAX_CLIENTS_COUNT_def)

text \<open>The digits of client 7 in front of a text, and what \<open>separate_buffer\<close> makes of them.\<close>

definition digits_7 :: "byte list" where
  "digits_7 = [48, 48, 48, 48, 48, 48, 48, 48, 48, 55]"

lemma request_7:
  assumes "0 \<notin> set t"
  shows "separate_buffer [] (digits_7 @ t @ 0 # rest) data = (7, store_at 0 (t @ [0]) data)"
    and "c_str (store_at 0 (t @ [0]) data) = t"
    and "get_command (store_at 0 (t @ [0]) data) = get_command t"
proof -
  have "dec_value digits_7 = 7" by (simp add: digits_7_def dec_value_def digit_val_def)
  moreover have "list_all is_digit digits_7" by (simp add: digits_7_def is_digit_def)
  ultimately show "separate_buffer [] (digits_7 @ t @ 0 # rest) data = (7, store_at 0 (t @ [0]) data)"
    using separate_request [of digits_7 "[]" t rest data] assms by (simp add: digits_7_def IDSZ_def)
  show plain: "c_str (store_at 0 (t @ [0]) data) = t" by (rule c_str_stored_text [OF assms])
  show "get_command (store_at 0 (t @ [0]) data) = get_command t"
    by (rule get_command_c_str) (simp add: plain c_str_no_nul_id assms)
qed

lemma get_command_ls: "get_command (cstr ''ls'') = cmd_ls"
  and get_command_quit: "get_command (cstr ''quit'') = cmd_quit"
  and get_command_lsquit: "get_command (cstr ''ls'' @ cstr ''quit'') = cmd_ls"
  by (simp_all add: get_command_def starts_with_prefix)

lemma route_ls_7:
  "get_command data = cmd_ls \<Longrightarrow> c_str data = cstr ''ls'' \<Longrightarrow>
   route 7 data (Some (5, 6)) 99 True reply Map.empty =
      ([Fork 7 99 5, Pipe_write 6 (cstr ''ls'')], [7 \<mapsto> new_client 7 (5, 6) 99])"
  by (simp add: route_def MAX_CLIENTS_COUNT_def new_client_def)

text \<open>
  C8: one round of \<open>master\<close> is one step on the finite map from client ids to subprocesses. The
  request goes down the pipe of the subprocess with that id and no other; an unknown id gets a
  subprocess first, or, with ten clients or without a pipe, no reaction at all; \<open>findall\<close> is
  answered with a frame; \<open>quit\<close> is handed on and then frees the place and closes the pipe. The
  table keeps distinct ids and at most ten entries.
\<close>

theorem master_routes:
  assumes "table_inv (um_table s)" and "separate_buffer beyond buffer (um_data s) = (x, data)"
  shows "\<exists>s'. master_step beyond fds pid written buffer s =
      (fst (route x data fds pid written (reply_frame data) (table_abs (um_table s))), s') \<and>
    table_inv (um_table s') \<and>
    table_abs (um_table s') = snd (route x data fds pid written (reply_frame data) (table_abs (um_table s)))"
  by (rule master_step_route [OF assms])

theorem master_routes_witness:
  "\<exists>s'. master_step [] (Some (5, 6)) 99 True (digits_7 @ cstr ''ls'' @ 0 # replicate 243 0) master_start =
      ([Fork 7 99 5, Pipe_write 6 (cstr ''ls'')], s') \<and>
    table_abs (um_table s') = [7 \<mapsto> new_client 7 (5, 6) 99]"
proof -
  have "0 \<notin> set (cstr ''ls'')" by simp
  note req = request_7(1) [OF this, where rest = "replicate 243 0"] request_7(2,3) [OF this]
  from master_routes [OF master_start_inv(1) req(1), of "Some (5, 6)" 99 True]
    route_ls_7 [OF _ req(2)] req(3) get_command_ls master_start_inv(2)
  show ?thesis by auto
qed

text \<open>
  While there is room, a new client is entered with its own pipe and found under its id, no
  other entry changes, and when it disconnects the table is the map it was before, whatever
  place it had.
\<close>

theorem client_session:
  assumes "table_inv t" and "table_abs t x = None" and "card (dom (table_abs t)) < MAX_CLIENTS_COUNT"
  shows "\<exists>p t' t''. connect x (Some fds) pid t = (Some (p, [Fork x pid (fst fds)], t'), t'') \<and> table_inv t' \<and>
    0 \<le> find_client x t' \<and> clients t' ! nat (find_client x t') = new_client x fds pid \<and>
    (\<forall>y. y \<noteq> x \<longrightarrow> table_abs t' y = table_abs t y) \<and>
    table_inv (snd (client_disconnect (nat (find_client x t')) t')) \<and>
    table_abs (snd (client_disconnect (nat (find_client x t')) t')) = table_abs t"
proof -
  from udp_clients.session [OF assms, of "(fds, pid)"] obtain p t' where
    1: "table_ins x (fds, pid) t = Some (p, t')" "table_inv t'" "0 \<le> find_client x t'"
      "clients t' ! nat (find_client x t') = new_client x fds pid"
      "\<forall>y. y \<noteq> x \<longrightarrow> table_abs t' y = table_abs t y"
      "table_inv (snd (client_disconnect (nat (find_client x t')) t'))"
      "table_abs (snd (client_disconnect (nat (find_client x t')) t')) = table_abs t"
    by auto
  have "clients_count t < MAX_CLIENTS_COUNT" using assms(3) card_dom_table_abs [OF assms(1)] by simp
  from connect_room [OF assms(1) this assms(2), of fds pid] 1(1) have
    "\<exists>t''. connect x (Some fds) pid t = (Some (p, [Fork x pid (fst fds)], t'), t'')"
    by (auto simp: table_ins_def)
  with 1(2-7) show ?thesis by blast
qed

theorem client_session_witness:
  "\<exists>p t' t''. connect 7 (Some (5, 6)) 99 (um_table master_start) = (Some (p, [Fork 7 99 5], t'), t'') \<and>
    table_abs (snd (client_disconnect (nat (find_client 7 t')) t')) = Map.empty"
proof -
  have "table_abs (um_table master_start) 7 = None"
    "card (dom (table_abs (um_table master_start))) < MAX_CLIENTS_COUNT"
    by (simp_all add: master_start_inv(2) MAX_CLIENTS_COUNT_def)
  from client_session [OF master_start_inv(1) this, of "(5, 6)" 99] show ?thesis
    by (auto simp: master_start_inv(2))
qed

end
