(* ===== verification/Sock_Client.thy ===== *)
theory Sock_Client
  imports Sock_Server Sock_Udp
begin

text \<open>
  \<open>Socket/client.c\<close>: the id, the reading of a request from standard input, the broadcast, and
  the loop of \<open>main\<close>. The socket is an argument \<open>recv\<close> for what arrives; what goes out and
  what is printed is collected in the state.
\<close>

section \<open>The id\<close>

text \<open>
  \<open>get_id\<close>: \<open>rnd\<close> is what \<open>rand\<close> gives, \<open>mem\<close> the global \<open>client_id\<close> and what lies behind it.
  \<open>snprintf\<close> leaves at most nine digits of the number.
\<close>

definition get_id :: "int \<Rightarrow> byte list \<Rightarrow> byte list" where
  "get_id rnd mem =
     (let tmp_id = snprintf_at 0 IDSZ (dec_of_int rnd) (replicate IDSZ 0);
          mem = memset mem 48 IDSZ
      in snprintf_at (IDSZ - strlen tmp_id) IDSZ (c_str tmp_id) mem)"

section \<open>Standard input\<close>

text \<open>\<open>fgets\<close> with room for \<open>n\<close> bytes: up to \<open>n - 1\<close> bytes, to the end of a line at most.\<close>

definition take_line :: "byte list \<Rightarrow> byte list" where
  "take_line s =
     takeWhile (\<lambda>b. b \<noteq> 10) s @ (if dropWhile (\<lambda>b. b \<noteq> 10) s = [] then [] else [10])"

definition fgets :: "nat \<Rightarrow> byte list \<Rightarrow> (byte list \<times> byte list) option" where
  "fgets n input =
     (if input = [] then None
      else (let l = take (n - 1) (take_line input) in Some (l, drop (length l) input)))"

text \<open>
  \<open>get_str\<close>: the command, the buffer with id and line, and the input left. \<open>client_id\<close> is the
  global and what lies behind it.
\<close>

definition get_str :: "byte list \<Rightarrow> byte list \<Rightarrow> byte list \<Rightarrow> command \<times> byte list \<times> byte list" where
  "get_str client_id input buffer =
     (case fgets (BUFSZ - IDSZ) input of
        None \<Rightarrow> (cmd_error, buffer, input)
      | Some (l, input) \<Rightarrow>
          (let tmp_buf = store_at 0 (l @ [0]) (replicate (BUFSZ - IDSZ) 0);
               buffer = snprintf_at 0 BUFSZ (c_str client_id @ c_str tmp_buf) buffer
           in (get_command tmp_buf, buffer, input)))"

section \<open>The loop\<close>

text \<open>
  Where the client stands: its input, the buffer, the socket, what it sent to whom (the
  broadcast address or the server) and what it printed.
\<close>

datatype receiver_addr = To_server | Broadcast

record 's client =
  cl_input :: "byte list"
  cl_buffer :: "byte list"
  cl_sock :: 's
  cl_sent :: "(receiver_addr \<times> byte list) list"
  cl_out :: "byte list list"
  cl_flag :: bool

text \<open>
  \<open>findall_handler\<close>: \<open>broadcast_ok\<close> is whether \<open>setsockopt\<close> works, \<open>ip\<close> what \<open>inet_ntoa\<close> prints
  of the answer's sender. \<open>None\<close> while no answer comes.
\<close>

definition findall_handler ::
  "(byte list \<Rightarrow> int \<times> byte list \<times> byte list option) \<Rightarrow> ('s \<Rightarrow> byte list \<Rightarrow> ((int \<times> byte list) \<times> 's) option) \<Rightarrow>
   bool \<Rightarrow> byte list \<Rightarrow> 's client \<Rightarrow> 's client option" where
  "findall_handler send_buf receive_buf broadcast_ok ip c =
     (if \<not> broadcast_ok then Some c
      else
        (let (ret, buffer, frame) = send_buf (cl_buffer c);
             sent = (case frame of None \<Rightarrow> cl_sent c | Some f \<Rightarrow> cl_sent c @ [(Broadcast, f)]) in
         case receive_buf (cl_sock c) buffer of
           None \<Rightarrow> None
         | Some ((ret, buffer), sk) \<Rightarrow>
             Some (c\<lparr>cl_buffer := buffer, cl_sock := sk, cl_sent := sent,
                     cl_out := cl_out c @ [cstr ''find server, buf: ('' @ c_str buffer @ cstr ''), ip: '' @ ip @ [10]]\<rparr>)))"

text \<open>One round of the loop of \<open>main\<close>; \<open>None\<close> when it waits for the server for ever.\<close>

definition client_step ::
  "(byte list \<Rightarrow> int \<times> byte list \<times> byte list option) \<Rightarrow> ('s \<Rightarrow> byte list \<Rightarrow> ((int \<times> byte list) \<times> 's) option) \<Rightarrow>
   bool \<Rightarrow> byte list \<Rightarrow> byte list \<Rightarrow> 's client \<Rightarrow> 's client option" where
  "client_step send_buf receive_buf broadcast_ok ip client_id c =
     (let (command, buffer, input) = get_str client_id (cl_input c) (cl_buffer c);
          c = c\<lparr>cl_input := input, cl_buffer := buffer, cl_out := cl_out c @ [cstr ''type in your request: '']\<rparr> in
      case command of
        cmd_error \<Rightarrow> Some c
      | cmd_findall \<Rightarrow> findall_handler send_buf receive_buf broadcast_ok ip c
      | _ \<Rightarrow>
          (let (ret, buffer, frame) = send_buf (cl_buffer c);
               sent = (case frame of None \<Rightarrow> cl_sent c | Some f \<Rightarrow> cl_sent c @ [(To_server, f)]) in
           case receive_data receive_buf (cl_sock c) buffer [] of
             None \<Rightarrow> None
           | Some (out, buffer, sk) \<Rightarrow>
               Some (c\<lparr>cl_buffer := buffer, cl_sock := sk, cl_sent := sent,
                       cl_out := cl_out c @ [cstr ''response on request:'' @ [10], out],
                       cl_flag := (command \<noteq> cmd_quit)\<rparr>)))"

text \<open>At most \<open>n\<close> rounds, ended by \<open>flag\<close>.\<close>

primrec client_run ::
  "(byte list \<Rightarrow> int \<times> byte list \<times> byte list option) \<Rightarrow> ('s \<Rightarrow> byte list \<Rightarrow> ((int \<times> byte list) \<times> 's) option) \<Rightarrow>
   bool \<Rightarrow> byte list \<Rightarrow> byte list \<Rightarrow> nat \<Rightarrow> 's client \<Rightarrow> 's client option" where
  "client_run send_buf receive_buf broadcast_ok ip client_id 0 c = Some c"
| "client_run send_buf receive_buf broadcast_ok ip client_id (Suc n) c =
     (if cl_flag c
      then Option.bind (client_step send_buf receive_buf broadcast_ok ip client_id c)
             (client_run send_buf receive_buf broadcast_ok ip client_id n)
      else Some c)"

section \<open>main\<close>

datatype client_start = Stops int | Loops

text \<open>
  \<open>main\<close> up to its loop. The answer of \<open>convert_address\<close> is not looked at, so a wrong address
  is 0.0.0.0.
\<close>

definition client_main ::
  "(protocol \<Rightarrow> 'lib option) \<Rightarrow> ('lib \<Rightarrow> string \<Rightarrow> 'fn option) \<Rightarrow> (byte list \<Rightarrow> 32 word option) \<Rightarrow>
   byte list list \<Rightarrow> int \<Rightarrow> int \<Rightarrow> bind_result \<Rightarrow> client_start \<times> sockaddr_in" where
  "client_main dlopen dlsym inet_aton argv sk connected bound =
     (let name = \<lparr>sin_family = 0, sin_port = 0, sin_addr = 0\<rparr> in
      if length argv < 3 then (Stops (-1), name)
      else if get_functions dlopen dlsym (argv ! 1) = None then (Stops (-1), name)
      else
        (let (ret, addr) = convert_address inet_aton (argv ! 2) 0;
             name = create_sock_name addr name in
         if sk < 0 then (Stops (-1), name)
         else if connected < 0 then (Stops (-1), name)
         else if starts_with (argv ! 1) (cstr ''udp'') \<and> fst (bind_socket bound) < 0
         then (Stops (-1), name\<lparr>sin_addr := 0, sin_port := 0\<rparr>)
         else (Loops, create_sock_name addr name)))"

section \<open>The request that leaves the client\<close>

lemma c_str_tmp_id:
  assumes "0 \<le> rnd"
  shows "c_str (snprintf_at 0 IDSZ (dec_of_int rnd) (replicate IDSZ 0)) = take 9 (dec_of_int rnd)"
proof -
  have "0 \<notin> set (dec_of_int rnd)"
    using dec_digits_all_digit [of "nat rnd"] assms digit_nonzero
    by (auto simp: dec_of_int_def list_all_iff)
  moreover have "c_str (replicate IDSZ (0 :: byte)) = []"
    using c_str_replicate_nul [of "[]" IDSZ] by simp
  moreover from this have "strlen (replicate IDSZ (0 :: byte)) = 0" by (simp add: strlen_def)
  ultimately show ?thesis
    using c_str_snprintf_at [of "dec_of_int rnd" IDSZ 0 "replicate IDSZ 0"] by (simp add: IDSZ_def)
qed

text \<open>The ten digits of the id.\<close>

definition id_digits :: "int \<Rightarrow> byte list" where
  "id_digits rnd = replicate (IDSZ - length (take 9 (dec_of_int rnd))) 48 @ take 9 (dec_of_int rnd)"

lemma get_id_eq:
  assumes "0 \<le> rnd" and "IDSZ \<le> length mem"
  shows "get_id rnd mem = id_digits rnd @ 0 # drop (IDSZ + 1) mem"
proof -
  define ds where "ds = take 9 (dec_of_int rnd)"
  have len: "length ds \<le> 9" by (simp add: ds_def)
  have "strlen (snprintf_at 0 IDSZ (dec_of_int rnd) (replicate IDSZ 0)) = length ds"
    by (simp add: strlen_def c_str_tmp_id [OF assms(1)] ds_def)
  then have "get_id rnd mem = snprintf_at (IDSZ - length ds) IDSZ ds (memset mem 48 IDSZ)"
    using c_str_tmp_id [OF assms(1)] by (simp add: get_id_def ds_def)
  also have "\<dots> = take (IDSZ - length ds) (memset mem 48 IDSZ) @ ds @ 0 # drop (IDSZ + 1) (memset mem 48 IDSZ)"
    using len by (simp add: snprintf_at_def store_at_def IDSZ_def)
  also have "take (IDSZ - length ds) (memset mem 48 IDSZ) = replicate (IDSZ - length ds) 48"
    using assms(2) by (simp add: memset_def min_def)
  also have "drop (IDSZ + 1) (memset mem 48 IDSZ) = drop (IDSZ + 1) mem"
    using assms(2) by (simp add: memset_def min_def)
  finally show ?thesis by (simp add: id_digits_def ds_def)
qed

lemma length_id_digits [simp]: "length (id_digits rnd) = IDSZ"
  by (simp add: id_digits_def IDSZ_def)

lemma id_digits_digit: "0 \<le> rnd \<Longrightarrow> list_all is_digit (id_digits rnd)"
  using dec_digits_all_digit [of "nat rnd"]
  by (auto simp: id_digits_def dec_of_int_def list_all_iff is_digit_def dest!: in_set_takeD)

lemma length_dec_digits_ge: "10 ^ k \<le> n \<Longrightarrow> k < length (dec_digits n)"
proof (induction k arbitrary: n)
  case 0
  then show ?case by simp
next
  case (Suc k)
  then have "10 ^ k \<le> n div 10" by simp
  moreover have "10 \<le> n" 
  proof -
    have "(10 :: nat) ^ 1 \<le> 10 ^ Suc k" by (rule power_increasing) simp_all
    from le_trans [OF this Suc.prems] show ?thesis by simp
  qed
  ultimately show ?case
    using Suc.IH [of "n div 10"] by (subst dec_digits.simps) auto
qed

lemma dec_value_zeros: "dec_value (replicate k 48 @ ds) = dec_value ds"
proof -
  have "foldl (\<lambda>v d. 10 * v + digit_val d) 0 (replicate k 48) = 0"
    by (induction k) (auto simp: digit_val_def)
  then show ?thesis by (simp add: dec_value_def)
qed

text \<open>A number of ten digits loses its last one.\<close>

lemma id_value:
  assumes "0 \<le> rnd" and "rnd < 2 ^ 31"
  shows "dec_value (id_digits rnd) = (if rnd < 10 ^ 9 then rnd else rnd div 10)"
proof -
  define n where "n = nat rnd"
  have digits: "dec_of_int rnd = dec_digits n" using assms(1) by (simp add: dec_of_int_def n_def)
  show ?thesis
  proof (cases "rnd < 10 ^ 9")
    case True
    then have "n < 10 ^ Suc 8" using assms(1) by (simp add: n_def)
    then have "length (dec_digits n) \<le> 9" using length_dec_digits [of n 8] by simp
    then show ?thesis
      using True assms(1) by (simp add: id_digits_def digits dec_value_zeros dec_value_digits n_def)
  next
    case False
    then have n: "10 ^ 9 \<le> n" "n div 10 < 10 ^ Suc 8" "10 ^ 8 \<le> n div 10" "\<not> n < 10"
      using assms by (simp_all add: n_def nat_less_iff div_less_iff_less_mult)
    then have "length (dec_digits (n div 10)) = 9"
      using length_dec_digits [OF n(2)] length_dec_digits_ge [OF n(3)] by simp
    moreover have "dec_digits n = dec_digits (n div 10) @ [of_nat (48 + n mod 10)]"
      using n(4) by (subst dec_digits.simps) simp
    ultimately have "take 9 (dec_of_int rnd) = dec_digits (n div 10)" by (simp add: digits)
    then show ?thesis
      using False assms(1) by (simp add: id_digits_def dec_value_zeros dec_value_digits n_def zdiv_int)
  qed
qed

lemma take_line_nl: "10 \<notin> set m \<Longrightarrow> take_line (m @ 10 # rest) = m @ [10]"
  by (induction m) (auto simp: take_line_def)

lemma fgets_line:
  assumes "10 \<notin> set m" and "length m + 1 < n"
  shows "fgets n (m @ 10 # rest) = Some (m @ [10], rest)"
  using assms by (simp add: fgets_def take_line_nl)

lemma get_str_line:
  assumes "0 \<le> rnd" and "IDSZ \<le> length mem" and "10 \<notin> set m" and "0 \<notin> set m" and "length m \<le> 244"
    and "length buffer = BUFSZ"
  shows "get_str (get_id rnd mem) (m @ 10 # rest) buffer =
    (get_command (m @ [10]), id_digits rnd @ m @ 10 # 0 # drop (length m + 12) buffer, rest)"
proof -
  have nul: "0 \<notin> set (m @ [10])" using assms(4) by simp
  have idnz: "0 \<notin> set (id_digits rnd)"
    using id_digits_digit [OF assms(1)] digit_nonzero by (auto simp: list_all_iff)
  define tmp where "tmp = store_at 0 ((m @ [10]) @ [0]) (replicate (BUFSZ - IDSZ) 0)"
  have tmp: "c_str tmp = m @ [10]" unfolding tmp_def by (rule c_str_stored_text [OF nul])
  have id: "c_str (get_id rnd mem) = id_digits rnd"
    using get_id_eq [OF assms(1,2)] c_str_append_nul [OF idnz] by simp
  have "snprintf_at 0 BUFSZ (c_str (get_id rnd mem) @ c_str tmp) buffer =
      id_digits rnd @ m @ 10 # 0 # drop (length m + 12) buffer"
    using assms(5,6) by (simp add: id tmp snprintf_at_def store_at_def BUFSZ_def IDSZ_def add.commute)
  moreover have "get_command tmp = get_command (m @ [10])"
    by (rule get_command_c_str) (use tmp c_str_no_nul_id [OF nul] in simp)
  moreover have "fgets (BUFSZ - IDSZ) (m @ 10 # rest) = Some (m @ [10], rest)"
    by (rule fgets_line [OF assms(3)]) (use assms(5) in \<open>simp add: BUFSZ_def IDSZ_def\<close>)
  ultimately show ?thesis
    by (simp add: get_str_def tmp_def)
qed

section \<open>Properties\<close>

text \<open>
  A line typed at the client reaches the UDP server as it was typed, its newline included,
  under the number that the client drew, or under that number without its last digit when it
  has ten: the request that \<open>get_id\<close> and \<open>get_str\<close> build, sent, received and separated.
\<close>

theorem request_reaches_server:
  assumes "0 \<le> rnd" and "rnd < 2 ^ 31" and "IDSZ \<le> length mem" and "text_ok m" and "10 \<notin> set m"
    and "length m \<le> 244" and "length buffer = BUFSZ" and "length sbuffer = BUFSZ"
    and "beyond = [] \<or> \<not> is_digit (hd beyond)"
  shows "\<exists>buffer' sent f b data'.
    get_str (get_id rnd mem) (m @ 10 # rest) buffer = (get_command (m @ [10]), buffer', rest) \<and>
    udp_send_buf (int BUFSZ) buffer' = (int BUFSZ, sent, Some f) \<and>
    udp_receive_buf (Some f # sk) sbuffer = Some ((int (length m) + 11, b), sk) \<and>
    separate_buffer beyond b data = (if rnd < 10 ^ 9 then rnd else rnd div 10, data') \<and>
    c_str data' = m @ [10]"
proof -
  let ?t = "id_digits rnd @ m @ [10]"
  have nul: "0 \<notin> set m" using assms(4) by (simp add: text_ok_def)
  from get_str_line [OF assms(1,3,5) nul assms(6,7), of rest] obtain tail where
    1: "get_str (get_id rnd mem) (m @ 10 # rest) buffer = (get_command (m @ [10]), ?t @ 0 # tail, rest)"
    by auto
  have "CR_MASK \<notin> set (id_digits rnd)" "0 \<notin> set (id_digits rnd)"
    using id_digits_digit [OF assms(1)] by (auto simp: list_all_iff is_digit_def CR_MASK_def)
  then have ok: "text_ok ?t" using assms(4) by (auto simp: text_ok_def CR_MASK_def)
  from udp_receive_frame [OF ok assms(8), of tail sk] obtain b where
    b: "udp_receive_buf (Some (text_frame ?t tail) # sk) sbuffer = Some ((int (min (length ?t) (BUFSZ - 1)), b), sk)"
      "c_str b = take (BUFSZ - 1) ?t" "length b = BUFSZ" by blast
  have short: "length ?t \<le> BUFSZ - 1" using assms(6) by (simp add: BUFSZ_def IDSZ_def)
  then have plain: "c_str b = ?t" using b(2) by simp
  have "0 \<in> set b"
  proof (rule ccontr)
    assume "0 \<notin> set b"
    then have "b = ?t" using plain c_str_no_nul_id by metis
    then show False using b(3) short by (simp add: BUFSZ_def)
  qed
  from mem_split_at_nul [OF this] plain obtain z where z: "b = id_digits rnd @ (m @ [10]) @ 0 # z" by auto
  have small: "dec_value (id_digits rnd) < 2 ^ 31"
    using id_value [OF assms(1,2)] assms(1,2) by auto
  have "separate_buffer beyond b data = (dec_value (id_digits rnd), store_at 0 ((m @ [10]) @ [0]) data)"
    unfolding z by (rule separate_request) (use id_digits_digit [OF assms(1)] small assms(9) nul in simp_all)
  moreover have "c_str (store_at 0 ((m @ [10]) @ [0]) data) = m @ [10]"
    by (rule c_str_stored_text) (use nul in simp)
  moreover have "int (min (length ?t) (BUFSZ - 1)) = int (length m) + 11"
    using short by (simp add: IDSZ_def min_def)
  ultimately show ?thesis
    using 1 b(1) udp_send_text [of "int BUFSZ" ?t tail] id_value [OF assms(1,2)]
    by (auto simp: BUFSZ_def)
qed

theorem request_reaches_server_witness:
  "\<exists>buffer' sent f b data'.
    get_str (get_id 2147483647 (replicate 12 0)) (cstr ''ls'' @ 10 # []) (replicate BUFSZ 0) =
      (get_command (cstr ''ls'' @ [10]), buffer', []) \<and>
    udp_send_buf (int BUFSZ) buffer' = (int BUFSZ, sent, Some f) \<and>
    udp_receive_buf (Some f # []) (replicate BUFSZ 0) = Some ((13, b), []) \<and>
    separate_buffer [] b (replicate BUFSZ 0) = (214748364, data') \<and> c_str data' = cstr ''ls'' @ [10]"
  using request_reaches_server [of 2147483647 "replicate 12 0" "cstr ''ls''" "replicate BUFSZ 0"
      "replicate BUFSZ 0" "[]" "[]" "[]" "replicate BUFSZ 0"]
  by (simp add: text_ok_def CR_MASK_def IDSZ_def)

text \<open>
  The newline that \<open>fgets\<close> keeps is part of the argument: after the line \<open>cd p\<close> the server
  asks for the directory whose name is \<open>p\<close> with a newline at the end.
\<close>

theorem typed_cd_keeps_newline:
  assumes "0 \<notin> set p" and "c_str data = cstr ''cd '' @ p @ [10]" and "\<not> 0 < shellfd"
  shows "\<exists>m. handler a data shellfd = (1, [Chdir (p @ [10]), Print m], data, shellfd)"
proof -
  have nul: "0 \<notin> set (cstr ''cd '' @ p @ [10])" using assms(1) by simp
  have "get_command data = get_command (cstr ''cd '' @ p @ [10])"
    by (rule get_command_c_str) (use assms(2) c_str_no_nul_id [OF nul] in simp)
  also have "\<dots> = cmd_cd"
    using assms(1) by (simp add: get_command_def starts_with_prefix c_str_no_nul_id)
  finally have cmd: "get_command data = cmd_cd" .
  obtain rest where rest: "data = c_str data @ rest" "c_str rest = []" by (rule c_str_split)
  have "drop 3 data = drop 3 ((cstr ''cd '' @ p @ [10]) @ rest)" using rest(1) assms(2) by simp
  also have "\<dots> = (p @ [10]) @ rest" by simp
  finally have "c_str (drop 3 data) = (p @ [10]) @ c_str rest"
    using c_str_append [of "p @ [10]" rest] assms(1) by simp
  then have "c_str (drop 3 data) = p @ [10]" by (simp add: rest(2))
  with cmd assms(3) show ?thesis
    by (simp add: handler_def usual_handler_def Let_def)
qed

theorem typed_cd_keeps_newline_witness:
  "\<exists>a m. handler a (cstr ''cd x'' @ [10, 0]) (-1) = (1, [Chdir (cstr ''x'' @ [10]), Print m], cstr ''cd x'' @ [10, 0], -1)"
  using typed_cd_keeps_newline [of "cstr ''x''" "cstr ''cd x'' @ [10, 0]" "-1"] by simp

text \<open>
  At the end of standard input the loop of the client never ends: it goes on asking and
  sends nothing more.
\<close>

theorem client_spins_at_eof:
  assumes "cl_input c = []" and "cl_flag c"
  shows "\<exists>c'. client_run send_buf receive_buf broadcast_ok ip client_id n c = Some c' \<and> cl_flag c' \<and>
    cl_sent c' = cl_sent c \<and> length (cl_out c') = length (cl_out c) + n"
  using assms
proof (induction n arbitrary: c)
  case 0
  then show ?case by simp
next
  case (Suc n)
  define c1 where "c1 = c\<lparr>cl_out := cl_out c @ [cstr ''type in your request: '']\<rparr>"
  have "client_step send_buf receive_buf broadcast_ok ip client_id c = Some c1"
    using Suc.prems(1) by (simp add: client_step_def get_str_def fgets_def c1_def)
  moreover have "cl_input c1 = []" "cl_flag c1" using Suc.prems by (simp_all add: c1_def)
  from Suc.IH [OF this] obtain c' where
    "client_run send_buf receive_buf broadcast_ok ip client_id n c1 = Some c'" "cl_flag c'"
    "cl_sent c' = cl_sent c1" "length (cl_out c') = length (cl_out c1) + n" by blast
  ultimately show ?case using Suc.prems(2) by (simp add: c1_def)
qed

theorem client_spins_at_eof_witness:
  "\<exists>c c'. cl_input c = [] \<and> client_run (udp_send_buf 256) udp_receive_buf True [] [] 1000 c = Some c' \<and> cl_flag c'"
proof -
  define c :: "byte list option list client" where
    "c = \<lparr>cl_input = [], cl_buffer = replicate BUFSZ 0, cl_sock = [], cl_sent = [], cl_out = [], cl_flag = True\<rparr>"
  have "cl_input c = []" "cl_flag c" by (simp_all add: c_def)
  with client_spins_at_eof [OF this, of "udp_send_buf 256" udp_receive_buf True "[]" "[]" 1000] show ?thesis
    by blast
qed

end
