(* ===== verification/Sock_System.thy ===== *)
theory Sock_System
  imports Sock_Server Sock_Udp
begin

text \<open>
  The UDP server as a whole: \<open>master\<close> of \<open>Socket/UDP.c\<close>, its pipes, and the \<open>slave\<close> processes it
  forks, each of them moving on its own. A pipe is a byte stream; the two ends that \<open>pipe\<close> returns
  are numbers that the kernel gives out again after \<open>close\<close>, so what they lead to is kept apart
  from them. A slave has copies of the ends and of \<open>name\<close> as they were at its \<open>fork\<close>.
\<close>

section \<open>State\<close>

type_synonym address = "int \<times> int"
type_synonym request = "int \<times> address \<times> byte list"

record slave_proc =
  sp_pipe :: nat
  sp_name :: address
  sp_state :: slave

text \<open>
  \<open>us_fds\<close> are the descriptors of \<open>master\<close> and the pipes they lead to; \<open>us_out\<close> are the frames
  sent, with the pipe of the slave that sent them. The last four fields are history: for whom
  a pipe was made, the requests \<open>master\<close> received, what it wrote to each pipe and on whose
  behalf, what was read from it.
\<close>

record udp_system =
  us_master :: udp_master
  us_fds :: "int \<rightharpoonup> nat"
  us_pipes :: "nat \<Rightarrow> byte list"
  us_next :: nat
  us_slaves :: "int \<rightharpoonup> slave_proc"
  us_out :: "(nat option \<times> address \<times> byte list) list"
  us_owner :: "nat \<Rightarrow> int \<times> address"
  us_requests :: "request list"
  us_sent :: "nat \<Rightarrow> request list"
  us_reads :: "nat \<Rightarrow> byte list list"

definition system_start :: udp_system where
  "system_start = \<lparr>us_master = master_start, us_fds = Map.empty, us_pipes = (\<lambda>_. []), us_next = 0,
     us_slaves = Map.empty, us_out = [], us_owner = (\<lambda>_. (0, (0, 0))), us_requests = [],
     us_sent = (\<lambda>_. []), us_reads = (\<lambda>_. [])\<rparr>"

section \<open>Steps\<close>

text \<open>
  An effect of \<open>master\<close> while it serves a request of client \<open>x\<close> from \<open>addr\<close>. A \<open>fork\<close> that
  fails gives the pid -1 and no process, and \<open>master\<close> goes on.
\<close>

fun do_effect :: "(int \<times> int) option \<Rightarrow> bool \<Rightarrow> int \<Rightarrow> address \<Rightarrow> effect \<Rightarrow> udp_system \<Rightarrow> udp_system" where
  "do_effect fds written x addr (Fork y pid r) st =
     (case fds of
        None \<Rightarrow> st
      | Some (pr, pw) \<Rightarrow>
          (let k = us_next st; fds' = (us_fds st)(pr \<mapsto> k, pw \<mapsto> k) in
           st\<lparr>us_fds := fds', us_next := k + 1, us_owner := (us_owner st)(k := (y, addr)),
              us_slaves :=
                (if 0 < pid
                 then (us_slaves st)(pid \<mapsto> \<lparr>sp_pipe = the (fds' r), sp_name = addr,
                        sp_state = \<lparr>sl_flag = 1, sl_shellfd = -1\<rparr>\<rparr>)
                 else us_slaves st)\<rparr>))"
| "do_effect fds written x addr (Pipe_write d bs) st =
     (case us_fds st d of
        None \<Rightarrow> st
      | Some k \<Rightarrow>
          if written
          then st\<lparr>us_pipes := (us_pipes st)(k := us_pipes st k @ bs),
                  us_sent := (us_sent st)(k := us_sent st k @ [(x, addr, bs)])\<rparr>
          else st)"
| "do_effect fds written x addr (Reply frame) st = st\<lparr>us_out := us_out st @ [(None, addr, frame)]\<rparr>"
| "do_effect fds written x addr (Close d) st = st\<lparr>us_fds := (us_fds st)(d := None)\<rparr>"

text \<open>New descriptors and new processes have numbers that are not in use.\<close>

definition kernel_ok :: "(int \<times> int) option \<Rightarrow> int \<Rightarrow> udp_system \<Rightarrow> bool" where
  "kernel_ok fds pid st \<longleftrightarrow>
     (case fds of None \<Rightarrow> True | Some (pr, pw) \<Rightarrow> pr \<noteq> pw \<and> us_fds st pr = None \<and> us_fds st pw = None) \<and>
     (pid = -1 \<or> 0 < pid \<and> us_slaves st pid = None)"

definition log_request :: "udp_master \<Rightarrow> request \<Rightarrow> udp_system \<Rightarrow> udp_system" where
  "log_request m r st = st\<lparr>us_master := m, us_requests := us_requests st @ [r]\<rparr>"

definition set_slave :: "int \<Rightarrow> slave_proc \<Rightarrow> slave \<Rightarrow> udp_system \<Rightarrow> udp_system" where
  "set_slave pid sp s st = st\<lparr>us_slaves := (us_slaves st)(pid \<mapsto> sp\<lparr>sp_state := s\<rparr>)\<rparr>"

definition take_read :: "nat \<Rightarrow> address \<Rightarrow> byte list list \<Rightarrow> udp_system \<Rightarrow> udp_system" where
  "take_read k name frames st =
     st\<lparr>us_pipes := (us_pipes st)(k := drop BUFSZ (us_pipes st k)),
        us_reads := (us_reads st)(k := us_reads st k @ [take BUFSZ (us_pipes st k)]),
        us_out := us_out st @ map (\<lambda>f. (Some k, name, f)) frames\<rparr>"

text \<open>
  A round of \<open>master\<close>; a round of a slave, which waits while its pipe is empty (it holds both ends
  itself, so there is no end of file) and takes at most 256 bytes; its \<open>SIGCHLD\<close>; its end.
\<close>

inductive sys_step :: "udp_system \<Rightarrow> udp_system \<Rightarrow> bool" where
  request: "separate_buffer beyond buffer (um_data (us_master st)) = (x, data) \<Longrightarrow> kernel_ok fds pid st \<Longrightarrow>
    master_step beyond fds pid written buffer (us_master st) = (effs, m) \<Longrightarrow>
    sys_step st (fold (do_effect fds written x addr) effs (log_request m (x, addr, c_str data) st))"
| slave_round: "us_slaves st pid = Some sp \<Longrightarrow> sl_flag (sp_state sp) \<noteq> 0 \<Longrightarrow> us_pipes st (sp_pipe sp) \<noteq> [] \<Longrightarrow>
    udp_slave_step a beyond literal (Some (take BUFSZ (us_pipes st (sp_pipe sp)))) (sp_state sp) =
      (effects, frames, s) \<Longrightarrow>
    sys_step st (set_slave pid sp s (take_read (sp_pipe sp) (sp_name sp) frames st))"
| slave_sigchld: "us_slaves st pid = Some sp \<Longrightarrow>
    sys_step st (set_slave pid sp ((sp_state sp)\<lparr>sl_shellfd := sigchld_slave (sl_shellfd (sp_state sp))\<rparr>) st)"
| slave_ends: "us_slaves st pid = Some sp \<Longrightarrow> sys_step st (st\<lparr>us_slaves := (us_slaves st)(pid := None)\<rparr>)"

inductive sys_reach :: "udp_system \<Rightarrow> bool" where
  start: "sys_reach system_start"
| step: "sys_reach st \<Longrightarrow> sys_step st st' \<Longrightarrow> sys_reach st'"

inductive_cases sys_stepE: "sys_step st st'"

section \<open>The invariant\<close>

text \<open>
  What the rest of the system has to do with the map \<open>m\<close> of the clients and the requests
  \<open>rs\<close> before the current one.
\<close>

definition fds_ok :: "(int \<rightharpoonup> client_info) \<Rightarrow> (int \<rightharpoonup> nat) \<Rightarrow> (nat \<Rightarrow> int) \<Rightarrow> nat \<Rightarrow> bool" where
  "fds_ok m fds owner n \<longleftrightarrow>
     (\<forall>x c. m x = Some c \<longrightarrow> (\<exists>k < n. fds (fst (ci_pipes c)) = Some k \<and> fds (snd (ci_pipes c)) = Some k \<and> owner k = x)) \<and>
     (\<forall>d k. fds d = Some k \<longrightarrow> k < n \<and> (\<exists>c. m (owner k) = Some c \<and> d \<in> {fst (ci_pipes c), snd (ci_pipes c)}))"

definition pipe_ok :: "udp_system \<Rightarrow> request list \<Rightarrow> nat \<Rightarrow> bool" where
  "pipe_ok st rs k \<longleftrightarrow>
     concat (us_reads st k) @ us_pipes st k = concat (map (\<lambda>(x, a, d). d) (us_sent st k)) \<and>
     (\<forall>(x, a, d) \<in> set (us_sent st k). x = fst (us_owner st k)) \<and>
     subseq (us_sent st k) rs \<and>
     (us_next st \<le> k \<longrightarrow> us_sent st k = [])"

definition slaves_ok :: "udp_system \<Rightarrow> bool" where
  "slaves_ok st \<longleftrightarrow>
     (\<forall>p sp. us_slaves st p = Some sp \<longrightarrow> sp_pipe sp < us_next st \<and> sp_name sp = snd (us_owner st (sp_pipe sp))) \<and>
     (\<forall>p q sp sq. us_slaves st p = Some sp \<longrightarrow> us_slaves st q = Some sq \<longrightarrow> sp_pipe sp = sp_pipe sq \<longrightarrow> p = q) \<and>
     (\<forall>(k, a, f) \<in> set (us_out st). \<forall>j. k = Some j \<longrightarrow> j < us_next st \<and> a = snd (us_owner st j)) \<and>
     (\<forall>k < us_next st. \<exists>d. (fst (us_owner st k), snd (us_owner st k), d) \<in> set (us_requests st))"

definition sys_inv :: "(int \<rightharpoonup> client_info) \<Rightarrow> request list \<Rightarrow> udp_system \<Rightarrow> bool" where
  "sys_inv m rs st \<longleftrightarrow> fds_ok m (us_fds st) (fst \<circ> us_owner st) (us_next st) \<and> (\<forall>k. pipe_ok st rs k) \<and> slaves_ok st"

lemma fds_okD:
  assumes "fds_ok m fds owner n"
  shows "m x = Some c \<Longrightarrow> \<exists>k < n. fds (fst (ci_pipes c)) = Some k \<and> fds (snd (ci_pipes c)) = Some k \<and> owner k = x"
    and "fds d = Some k \<Longrightarrow> k < n"
    and "fds d = Some k \<Longrightarrow> \<exists>c. m (owner k) = Some c \<and> d \<in> {fst (ci_pipes c), snd (ci_pipes c)}"
  using assms unfolding fds_ok_def by blast+

lemma fds_ok_fork:
  assumes ok: "fds_ok m fds owner n" and "m x = None" and "fds pr = None" and "fds pw = None"
  shows "fds_ok (m(x \<mapsto> new_client x (pr, pw) pid)) (fds(pr \<mapsto> n, pw \<mapsto> n)) (owner(n := x)) (n + 1)"
proof -
  let ?m = "m(x \<mapsto> new_client x (pr, pw) pid)" and ?fds = "fds(pr \<mapsto> n, pw \<mapsto> n)" and ?owner = "owner(n := x)"
  have "\<exists>k < n + 1. ?fds (fst (ci_pipes c)) = Some k \<and> ?fds (snd (ci_pipes c)) = Some k \<and> ?owner k = y"
    if "?m y = Some c" for y c
  proof (cases "y = x")
    case True
    with that show ?thesis by (auto simp: new_client_def)
  next
    case False
    with that have "m y = Some c" by simp
    from fds_okD(1) [OF ok this] obtain k where
      k: "k < n" "fds (fst (ci_pipes c)) = Some k" "fds (snd (ci_pipes c)) = Some k" "owner k = y" by blast
    with assms(3,4) have "fst (ci_pipes c) \<notin> {pr, pw}" "snd (ci_pipes c) \<notin> {pr, pw}" by auto
    with k show ?thesis by (intro exI [of _ k]) simp
  qed
  moreover have "k < n + 1 \<and> (\<exists>c. ?m (?owner k) = Some c \<and> d \<in> {fst (ci_pipes c), snd (ci_pipes c)})"
    if d: "?fds d = Some k" for d k
  proof (cases "d \<in> {pr, pw}")
    case True
    with d have "k = n" by (auto split: if_splits)
    with True show ?thesis by (auto simp: new_client_def)
  next
    case False
    with d have "fds d = Some k" by auto
    from fds_okD(2,3) [OF ok this] obtain c where
      "k < n" "m (owner k) = Some c" "d \<in> {fst (ci_pipes c), snd (ci_pipes c)}" by blast
    with assms(2) show ?thesis by (auto split: if_splits)
  qed
  ultimately show ?thesis unfolding fds_ok_def by blast
qed

lemma fds_ok_close:
  assumes ok: "fds_ok m fds owner n" and "m x = Some c"
  shows "fds_ok (m(x := None)) (fds(fst (ci_pipes c) := None, snd (ci_pipes c) := None)) owner n"
proof -
  let ?fds = "fds(fst (ci_pipes c) := None, snd (ci_pipes c) := None)"
  from fds_okD(1) [OF ok assms(2)] obtain j where
    j: "fds (fst (ci_pipes c)) = Some j" "fds (snd (ci_pipes c)) = Some j" "owner j = x" by blast
  have "\<exists>k < n. ?fds (fst (ci_pipes c')) = Some k \<and> ?fds (snd (ci_pipes c')) = Some k \<and> owner k = y"
    if "y \<noteq> x" "m y = Some c'" for y c'
  proof -
    from fds_okD(1) [OF ok that(2)] obtain k where
      k: "k < n" "fds (fst (ci_pipes c')) = Some k" "fds (snd (ci_pipes c')) = Some k" "owner k = y" by blast
    with that(1) j have "k \<noteq> j" by auto
    with k j have "fst (ci_pipes c') \<notin> {fst (ci_pipes c), snd (ci_pipes c)}"
      "snd (ci_pipes c') \<notin> {fst (ci_pipes c), snd (ci_pipes c)}" by auto
    with k show ?thesis by (intro exI [of _ k]) simp
  qed
  moreover have "k < n \<and> (\<exists>c'. (m(x := None)) (owner k) = Some c' \<and> d \<in> {fst (ci_pipes c'), snd (ci_pipes c')})"
    if d: "?fds d = Some k" for d k
  proof -
    from d have fd: "fds d = Some k" "d \<notin> {fst (ci_pipes c), snd (ci_pipes c)}" by (auto split: if_splits)
    from fds_okD(2,3) [OF ok fd(1)] obtain c' where
      c': "k < n" "m (owner k) = Some c'" "d \<in> {fst (ci_pipes c'), snd (ci_pipes c')}" by blast
    with fd(2) assms(2) have "owner k \<noteq> x" by auto
    with c' show ?thesis by auto
  qed
  ultimately show ?thesis unfolding fds_ok_def by (auto split: if_splits)
qed

lemma pipe_okD:
  assumes "pipe_ok st rs k"
  shows "concat (us_reads st k) @ us_pipes st k = concat (map (\<lambda>(x, a, d). d) (us_sent st k))"
    and "r \<in> set (us_sent st k) \<Longrightarrow> fst r = fst (us_owner st k)"
    and "subseq (us_sent st k) rs" and "us_next st \<le> k \<Longrightarrow> us_sent st k = []"
  using assms by (auto simp: pipe_ok_def)

lemma pipe_ok_cong:
  assumes "pipe_ok st rs k" and "us_pipes st' k = us_pipes st k" and "us_reads st' k = us_reads st k"
    and "us_sent st' k = us_sent st k" and "us_next st \<le> us_next st'"
    and "k < us_next st \<Longrightarrow> us_owner st' k = us_owner st k"
  shows "pipe_ok st' rs k"
  using assms pipe_okD(4) [OF assms(1)]
  by (cases "k < us_next st") (auto simp: pipe_ok_def)

lemma slaves_okD:
  assumes "slaves_ok st"
  shows "us_slaves st p = Some sp \<Longrightarrow> sp_pipe sp < us_next st"
    and "us_slaves st p = Some sp \<Longrightarrow> sp_name sp = snd (us_owner st (sp_pipe sp))"
    and "us_slaves st p = Some sp \<Longrightarrow> us_slaves st q = Some sq \<Longrightarrow> sp_pipe sp = sp_pipe sq \<Longrightarrow> p = q"
    and "(Some j, a, f) \<in> set (us_out st) \<Longrightarrow> j < us_next st \<and> a = snd (us_owner st j)"
    and "k < us_next st \<Longrightarrow> \<exists>d. (fst (us_owner st k), snd (us_owner st k), d) \<in> set (us_requests st)"
  using assms unfolding slaves_ok_def by blast+

lemma slaves_okI:
  assumes "\<And>p sp. us_slaves st p = Some sp \<Longrightarrow> sp_pipe sp < us_next st \<and> sp_name sp = snd (us_owner st (sp_pipe sp))"
    and "\<And>p q sp sq. us_slaves st p = Some sp \<Longrightarrow> us_slaves st q = Some sq \<Longrightarrow> sp_pipe sp = sp_pipe sq \<Longrightarrow> p = q"
    and "\<And>j a f. (Some j, a, f) \<in> set (us_out st) \<Longrightarrow> j < us_next st \<and> a = snd (us_owner st j)"
    and "\<And>k. k < us_next st \<Longrightarrow> \<exists>d. (fst (us_owner st k), snd (us_owner st k), d) \<in> set (us_requests st)"
  shows "slaves_ok st"
  using assms unfolding slaves_ok_def by blast

lemma sys_invD:
  assumes "sys_inv m rs st"
  shows "fds_ok m (us_fds st) (fst \<circ> us_owner st) (us_next st)" and "pipe_ok st rs k" and "slaves_ok st"
  using assms unfolding sys_inv_def by blast+

lemma pipe_ok_later: "pipe_ok st rs k \<Longrightarrow> pipe_ok st (rs @ [r]) k"
  by (auto simp: pipe_ok_def subseq_rev_drop_many)

lemma sys_inv_later: "sys_inv m rs st \<Longrightarrow> sys_inv m (rs @ [r]) st"
  unfolding sys_inv_def using pipe_ok_later by blast

section \<open>The effects of master\<close>

lemma inv_fork:
  assumes inv: "sys_inv m rs st" and none: "m x = None" and kern: "kernel_ok (Some (pr, pw)) pid st"
    and req: "(x, addr, d) \<in> set (us_requests st)"
  shows "sys_inv (m(x \<mapsto> new_client x (pr, pw) pid)) rs
    (do_effect (Some (pr, pw)) written y addr (Fork x pid pr) st)"
proof -
  let ?n = "us_next st"
  define st' where "st' = do_effect (Some (pr, pw)) written y addr (Fork x pid pr) st"
  note D = sys_invD [OF inv] and S = slaves_okD [OF sys_invD(3) [OF inv]]
  have fds: "us_fds st pr = None" "us_fds st pw = None" "pr \<noteq> pw" and pid: "0 < pid \<Longrightarrow> us_slaves st pid = None"
    using kern by (auto simp: kernel_ok_def)
  have st: "us_fds st' = (us_fds st)(pr \<mapsto> ?n, pw \<mapsto> ?n)" "us_next st' = ?n + 1"
    "us_owner st' = (us_owner st)(?n := (x, addr))" "us_pipes st' = us_pipes st" "us_sent st' = us_sent st"
    "us_reads st' = us_reads st" "us_out st' = us_out st" "us_requests st' = us_requests st"
    "us_slaves st' = (if 0 < pid then (us_slaves st)(pid \<mapsto> \<lparr>sp_pipe = ?n, sp_name = addr,
       sp_state = \<lparr>sl_flag = 1, sl_shellfd = -1\<rparr>\<rparr>) else us_slaves st)"
    using fds by (simp_all add: st'_def Let_def)
  have "fst \<circ> us_owner st' = (fst \<circ> us_owner st)(?n := x)" by (simp add: st(3) fun_upd_comp)
  with fds_ok_fork [OF D(1) none fds(1,2), of pid]
  have "fds_ok (m(x \<mapsto> new_client x (pr, pw) pid)) (us_fds st') (fst \<circ> us_owner st') (us_next st')"
    by (simp only: st(1,2))
  moreover have "pipe_ok st' rs k" for k
    by (rule pipe_ok_cong [OF D(2)]) (simp_all only: st, simp_all)
  moreover have "slaves_ok st'"
  proof (rule slaves_okI)
    have new: "us_slaves st p = Some sp \<or> p = pid \<and> sp_pipe sp = ?n \<and> sp_name sp = addr"
      if "us_slaves st' p = Some sp" for p sp
      using that unfolding st(9) by (auto split: if_splits)
    show "sp_pipe sp < us_next st' \<and> sp_name sp = snd (us_owner st' (sp_pipe sp))"
      if "us_slaves st' p = Some sp" for p sp
      using new [OF that] S(1,2) [of p sp] unfolding st(2,3) by (cases "sp_pipe sp = ?n") auto
    show "p = q" if "us_slaves st' p = Some sp" "us_slaves st' q = Some sq" "sp_pipe sp = sp_pipe sq" for p q sp sq
      using new [OF that(1)] new [OF that(2)] that(3) S(1) [of p sp] S(1) [of q sq] S(3) [of p sp q sq] by auto
  next
    fix j a f
    assume "(Some j, a, f) \<in> set (us_out st')"
    then have "(Some j, a, f) \<in> set (us_out st)" by (simp only: st)
    from S(4) [OF this] show "j < us_next st' \<and> a = snd (us_owner st' j)" unfolding st by auto
  next
    fix k
    assume "k < us_next st'"
    then show "\<exists>d. (fst (us_owner st' k), snd (us_owner st' k), d) \<in> set (us_requests st')"
      using S(5) [of k] req unfolding st by (cases "k = ?n") auto
  qed
  ultimately show ?thesis unfolding sys_inv_def st'_def [symmetric] by blast
qed

lemma inv_write:
  assumes inv: "sys_inv m rs st" and c: "m x = Some c"
  shows "sys_inv m (rs @ [(x, addr, bs)]) (do_effect fds written x addr (Pipe_write (snd (ci_pipes c)) bs) st)"
proof -
  note D = sys_invD [OF inv]
  from fds_okD(1) [OF D(1) c] obtain j where
    j: "j < us_next st" "us_fds st (snd (ci_pipes c)) = Some j" "fst (us_owner st j) = x" by auto
  show ?thesis
  proof (cases written)
    case False
    then have "do_effect fds written x addr (Pipe_write (snd (ci_pipes c)) bs) st = st"
      using j(2) by simp
    then show ?thesis using sys_inv_later [OF inv] by simp
  next
    case True
    define st' where "st' = st\<lparr>us_pipes := (us_pipes st)(j := us_pipes st j @ bs),
      us_sent := (us_sent st)(j := us_sent st j @ [(x, addr, bs)])\<rparr>"
    have "pipe_ok st' (rs @ [(x, addr, bs)]) k" for k
    proof (cases "k = j")
      case True
      have ok: "pipe_ok st rs j" by (rule D(2))
      have "concat (us_reads st j) @ us_pipes st j @ bs = concat (map (\<lambda>(x, a, d). d) (us_sent st j)) @ bs"
        using pipe_okD(1) [OF ok] by (metis append.assoc)
      moreover have "subseq (us_sent st j @ [(x, addr, bs)]) (rs @ [(x, addr, bs)])"
        using pipe_okD(3) [OF ok] by simp
      moreover have "\<forall>r \<in> set (us_sent st j @ [(x, addr, bs)]). fst r = fst (us_owner st j)"
        using pipe_okD(2) [OF ok] j(3) by auto
      ultimately show ?thesis using True j(1) unfolding pipe_ok_def by (auto simp: st'_def)
    next
      case False
      then show ?thesis
        by (intro pipe_ok_cong [OF pipe_ok_later [OF D(2)]]) (simp_all add: st'_def)
    qed
    moreover have "slaves_ok st'"
      using D(3) by (simp add: slaves_ok_def st'_def)
    ultimately have "sys_inv m (rs @ [(x, addr, bs)]) st'"
      using D(1) by (simp add: sys_inv_def st'_def)
    moreover have "do_effect fds written x addr (Pipe_write (snd (ci_pipes c)) bs) st = st'"
      using True j(2) by (simp add: st'_def)
    ultimately show ?thesis by simp
  qed
qed

lemma inv_reply:
  "sys_inv m rs st \<Longrightarrow> sys_inv m rs (do_effect fds written x addr (Reply frame) st)"
  by (auto simp: sys_inv_def pipe_ok_def slaves_ok_def)

lemma inv_close:
  assumes inv: "sys_inv m rs st" and c: "m x = Some c"
  shows "sys_inv (m(x := None)) rs (do_effect fds written x addr (Close (snd (ci_pipes c)))
    (do_effect fds written x addr (Close (fst (ci_pipes c))) st))"
proof -
  let ?st = "do_effect fds written x addr (Close (snd (ci_pipes c)))
    (do_effect fds written x addr (Close (fst (ci_pipes c))) st)"
  note D = sys_invD [OF inv]
  have "fds_ok (m(x := None)) (us_fds ?st) (fst \<circ> us_owner ?st) (us_next ?st)"
    using fds_ok_close [OF D(1) c] by simp
  moreover have "pipe_ok ?st rs k" for k by (rule pipe_ok_cong [OF D(2)]) simp_all
  moreover have "slaves_ok ?st" using D(3) by (simp add: slaves_ok_def)
  ultimately show ?thesis unfolding sys_inv_def by blast
qed

text \<open>All effects of a round of \<open>master\<close>.\<close>

lemma inv_route:
  assumes inv: "sys_inv m rs st" and kern: "kernel_ok fds pid st"
    and req: "(x, addr, c_str data) \<in> set (us_requests st)"
    and route: "route x data fds pid written reply m = (effs, m')"
  shows "sys_inv m' (rs @ [(x, addr, c_str data)]) (fold (do_effect fds written x addr) effs st)"
proof -
  let ?rs = "rs @ [(x, addr, c_str data)]"
  let ?do = "do_effect fds written x addr"
  have serve: "sys_inv m' ?rs (fold ?do es st1)"
    if st1: "sys_inv m1 rs st1" and c: "m1 x = Some c" and m1: "m1 = m(x \<mapsto> c)"
      and es: "(es, m') = (if get_command data = cmd_findall then ([Reply reply], m1)
        else if written \<and> get_command data = cmd_quit
        then ([Pipe_write (snd (ci_pipes c)) (c_str data), Close (fst (ci_pipes c)),
               Close (snd (ci_pipes c))], m(x := None))
        else ([Pipe_write (snd (ci_pipes c)) (c_str data)], m1))" for es m1 st1 c
  proof -
    have gone: "m(x := None) = m1(x := None)" by (simp add: m1)
    have w: "sys_inv m1 ?rs (?do (Pipe_write (snd (ci_pipes c)) (c_str data)) st1)"
      by (rule inv_write [OF st1 c])
    show ?thesis
    proof (cases "get_command data = cmd_findall")
      case True
      with es have "es = [Reply reply]" "m' = m1" by simp_all
      then show ?thesis using inv_reply [OF sys_inv_later [OF st1]] by (simp del: do_effect.simps)
    next
      case no_find: False
      show ?thesis
      proof (cases "written \<and> get_command data = cmd_quit")
        case True
        with es no_find have "es = [Pipe_write (snd (ci_pipes c)) (c_str data), Close (fst (ci_pipes c)),
               Close (snd (ci_pipes c))]" "m' = m1(x := None)" by (simp_all add: gone)
        then show ?thesis using inv_close [OF w c] by (simp del: do_effect.simps)
      next
        case False
        with es no_find have "es = [Pipe_write (snd (ci_pipes c)) (c_str data)]" "m' = m1" by auto
        then show ?thesis using w by (simp del: do_effect.simps)
      qed
    qed
  qed
  show ?thesis
  proof (cases "m x")
    case (Some c)
    have same: "m = m(x \<mapsto> c)" using Some by auto
    have "sys_inv (m(x \<mapsto> c)) rs st" using inv same by simp
    then show ?thesis
      by (rule serve [OF _ _ refl]) (use route [symmetric] Some in \<open>simp_all add: route_def\<close>)
  next
    case None
    show ?thesis
    proof (cases "\<exists>p. fds = Some p \<and> card (dom m) < MAX_CLIENTS_COUNT")
      case False
      then have "effs = [] \<and> m' = m"
        using route None by (auto simp: route_def split: option.splits)
      then show ?thesis using sys_inv_later [OF inv] by simp
    next
      case True
      then obtain pr pw where p: "fds = Some (pr, pw)" "card (dom m) < MAX_CLIENTS_COUNT" by auto
      let ?c = "new_client x (pr, pw) pid" and ?st = "?do (Fork x pid pr) st"
      have st: "sys_inv (m(x \<mapsto> ?c)) rs ?st"
        using inv_fork [OF inv None _ req, of pr pw pid] kern unfolding p(1) by blast
      from route None p obtain es where es: "effs = Fork x pid pr # es"
        "(es, m') = (if get_command data = cmd_findall then ([Reply reply], m(x \<mapsto> ?c))
          else if written \<and> get_command data = cmd_quit
          then ([Pipe_write (snd (ci_pipes ?c)) (c_str data), Close (fst (ci_pipes ?c)),
                 Close (snd (ci_pipes ?c))], m(x := None))
          else ([Pipe_write (snd (ci_pipes ?c)) (c_str data)], m(x \<mapsto> ?c)))"
        by (auto simp: route_def split: if_splits)
      from serve [OF st _ refl es(2)] es(1) show ?thesis by (simp del: do_effect.simps)
    qed
  qed
qed

section \<open>All steps\<close>

definition sys_ok :: "udp_system \<Rightarrow> bool" where
  "sys_ok st \<longleftrightarrow> table_inv (um_table (us_master st)) \<and>
     sys_inv (table_abs (um_table (us_master st))) (us_requests st) st"

lemma effect_frame:
  "us_master (do_effect fds written x addr e st) = us_master st"
  "us_requests (do_effect fds written x addr e st) = us_requests st"
  by (cases e; auto simp: Let_def split: option.splits)+

lemma effects_frame:
  "us_master (fold (do_effect fds written x addr) es st) = us_master st"
  "us_requests (fold (do_effect fds written x addr) es st) = us_requests st"
  by (induction es arbitrary: st) (simp_all add: effect_frame)

lemma log_request_simps [simp]:
  "us_master (log_request m r st) = m" "us_requests (log_request m r st) = us_requests st @ [r]"
  "us_fds (log_request m r st) = us_fds st" "us_pipes (log_request m r st) = us_pipes st"
  "us_next (log_request m r st) = us_next st" "us_slaves (log_request m r st) = us_slaves st"
  "us_out (log_request m r st) = us_out st" "us_owner (log_request m r st) = us_owner st"
  "us_sent (log_request m r st) = us_sent st" "us_reads (log_request m r st) = us_reads st"
  by (simp_all add: log_request_def)

lemma inv_log: "sys_inv m rs st \<Longrightarrow> sys_inv m rs (log_request mm r st)"
  by (fastforce simp: sys_inv_def pipe_ok_def slaves_ok_def)

lemma set_slave_simps [simp]:
  "us_master (set_slave pid sp s st) = us_master st" "us_requests (set_slave pid sp s st) = us_requests st"
  "us_fds (set_slave pid sp s st) = us_fds st" "us_pipes (set_slave pid sp s st) = us_pipes st"
  "us_next (set_slave pid sp s st) = us_next st" "us_out (set_slave pid sp s st) = us_out st"
  "us_owner (set_slave pid sp s st) = us_owner st" "us_sent (set_slave pid sp s st) = us_sent st"
  "us_reads (set_slave pid sp s st) = us_reads st"
  "us_slaves (set_slave pid sp s st) = (us_slaves st)(pid \<mapsto> sp\<lparr>sp_state := s\<rparr>)"
  by (simp_all add: set_slave_def)

lemma take_read_simps [simp]:
  "us_master (take_read k a fr st) = us_master st" "us_requests (take_read k a fr st) = us_requests st"
  "us_fds (take_read k a fr st) = us_fds st" "us_next (take_read k a fr st) = us_next st"
  "us_owner (take_read k a fr st) = us_owner st" "us_sent (take_read k a fr st) = us_sent st"
  "us_slaves (take_read k a fr st) = us_slaves st"
  "us_pipes (take_read k a fr st) = (us_pipes st)(k := drop BUFSZ (us_pipes st k))"
  "us_reads (take_read k a fr st) = (us_reads st)(k := us_reads st k @ [take BUFSZ (us_pipes st k)])"
  "us_out (take_read k a fr st) = us_out st @ map (\<lambda>f. (Some k, a, f)) fr"
  by (simp_all add: take_read_def)

lemma inv_set_slave:
  assumes inv: "sys_inv m rs st" and sp: "us_slaves st pid = Some sp"
  shows "sys_inv m rs (set_slave pid sp s st)"
proof -
  note D = sys_invD [OF inv] and S = slaves_okD [OF sys_invD(3) [OF inv]]
  have "slaves_ok (set_slave pid sp s st)"
  proof (rule slaves_okI)
    show "sp_pipe sp' < us_next (set_slave pid sp s st) \<and>
        sp_name sp' = snd (us_owner (set_slave pid sp s st) (sp_pipe sp'))"
      if "us_slaves (set_slave pid sp s st) p = Some sp'" for p sp'
      using that S(1,2) [OF sp] S(1,2) [of p sp'] by (cases "p = pid") auto
    have old: "\<exists>c. us_slaves st p = Some c \<and> sp_pipe c = sp_pipe a"
      if "us_slaves (set_slave pid sp s st) p = Some a" for p a
      using that sp by (auto split: if_splits)
    show "p = q" if a: "us_slaves (set_slave pid sp s st) p = Some a" and b: "us_slaves (set_slave pid sp s st) q = Some b"
      and "sp_pipe a = sp_pipe b" for p q a b
    proof -
      obtain c d where "us_slaves st p = Some c" "sp_pipe c = sp_pipe a"
        "us_slaves st q = Some d" "sp_pipe d = sp_pipe b" using old [OF a] old [OF b] by blast
      with S(3) that(3) show ?thesis by metis
    qed
  qed (use S(4,5) in auto)
  moreover have "pipe_ok (set_slave pid sp s st) rs k" for k by (rule pipe_ok_cong [OF D(2)]) simp_all
  ultimately show ?thesis using D(1) by (simp add: sys_inv_def)
qed

lemma inv_take_read:
  assumes inv: "sys_inv m rs st" and sp: "us_slaves st pid = Some sp"
  shows "sys_inv m rs (take_read (sp_pipe sp) (sp_name sp) frames st)"
proof -
  let ?k = "sp_pipe sp" and ?st = "take_read (sp_pipe sp) (sp_name sp) frames st"
  note D = sys_invD [OF inv] and S = slaves_okD [OF sys_invD(3) [OF inv]]
  have "pipe_ok ?st rs k" for k
  proof (cases "k = ?k")
    case True
    have "concat (us_reads ?st ?k) @ us_pipes ?st ?k = concat (us_reads st ?k) @ us_pipes st ?k" by simp
    with D(2) [of ?k] True show ?thesis by (simp add: pipe_ok_def)
  next
    case False
    then show ?thesis by (intro pipe_ok_cong [OF D(2)]) simp_all
  qed
  moreover have "slaves_ok ?st"
  proof (rule slaves_okI)
    show "j < us_next ?st \<and> a = snd (us_owner ?st j)" if "(Some j, a, f) \<in> set (us_out ?st)" for j a f
      using that S(1,2) [OF sp] S(4) [of j a f] by auto
  qed (use S in auto)
  ultimately show ?thesis using D(1) by (simp add: sys_inv_def)
qed

lemma inv_slave_ends:
  "sys_inv m rs st \<Longrightarrow> sys_inv m rs (st\<lparr>us_slaves := (us_slaves st)(pid := None)\<rparr>)"
  by (fastforce simp: sys_inv_def pipe_ok_def slaves_ok_def split: if_splits)

lemma sys_ok_same:
  "sys_ok st \<Longrightarrow> us_master st' = us_master st \<Longrightarrow> us_requests st' = us_requests st \<Longrightarrow>
    (\<And>m rs. sys_inv m rs st \<Longrightarrow> sys_inv m rs st') \<Longrightarrow> sys_ok st'"
  by (simp add: sys_ok_def)

lemma sys_step_ok:
  assumes ok: "sys_ok st" and "sys_step st st'"
  shows "sys_ok st'"
  using assms(2)
proof cases
  case (request beyond buffer x data fds pid written effs m addr)
  let ?st = "log_request m (x, addr, c_str data) st"
  have table: "table_inv (um_table (us_master st))" and
    inv: "sys_inv (table_abs (um_table (us_master st))) (us_requests st) st"
    using ok by (simp_all add: sys_ok_def)
  from master_step_route [OF table request(2), of fds pid written] request(4) have
    eff: "effs = fst (route x data fds pid written (reply_frame data) (table_abs (um_table (us_master st))))"
      "table_inv (um_table m)"
      "table_abs (um_table m) =
        snd (route x data fds pid written (reply_frame data) (table_abs (um_table (us_master st))))"
    by auto
  have "kernel_ok fds pid ?st" using request(3) by (simp add: kernel_ok_def split: option.splits prod.splits)
  moreover have "(x, addr, c_str data) \<in> set (us_requests ?st)" by simp
  moreover have "route x data fds pid written (reply_frame data) (table_abs (um_table (us_master st))) =
      (effs, table_abs (um_table m))" by (simp add: eff)
  ultimately have "sys_inv (table_abs (um_table m)) (us_requests st @ [(x, addr, c_str data)])
      (fold (do_effect fds written x addr) effs ?st)"
    using inv_route [OF inv_log [OF inv]] by blast
  then show ?thesis
    using eff(2) by (simp add: sys_ok_def request(1) effects_frame)
next
  case (slave_round pid sp a beyond literal effects frames s)
  have "sys_inv m rs st'" if "sys_inv m rs st" for m rs
    unfolding slave_round(1)
    by (rule inv_set_slave [OF inv_take_read [OF that slave_round(2)]]) (simp add: slave_round(2))
  then show ?thesis by (rule sys_ok_same [OF ok, rotated 2]) (simp_all add: slave_round(1))
next
  case (slave_sigchld pid sp)
  have "sys_inv m rs st'" if "sys_inv m rs st" for m rs
    unfolding slave_sigchld(1) by (rule inv_set_slave [OF that slave_sigchld(2)])
  then show ?thesis by (rule sys_ok_same [OF ok, rotated 2]) (simp_all add: slave_sigchld(1))
next
  case (slave_ends pid sp)
  show ?thesis
    unfolding slave_ends(1)
    by (rule sys_ok_same [OF ok]) (auto intro!: inv_slave_ends)
qed

lemma sys_start_ok: "sys_ok system_start"
  using master_start_inv
  by (simp add: sys_ok_def system_start_def sys_inv_def fds_ok_def pipe_ok_def slaves_ok_def)

lemma sys_reach_ok: "sys_reach st \<Longrightarrow> sys_ok st"
  by (induction rule: sys_reach.induct) (auto intro: sys_start_ok sys_step_ok)

section \<open>Pipes that master has closed\<close>

definition orphan :: "nat \<Rightarrow> udp_system \<Rightarrow> bool" where
  "orphan k st \<longleftrightarrow> k < us_next st \<and> (\<forall>d. us_fds st d \<noteq> Some k)"

lemma orphan_effect:
  assumes "orphan k st"
  shows "orphan k (do_effect fds written x addr e st)"
    and "us_pipes (do_effect fds written x addr e st) k = us_pipes st k"
    and "us_reads (do_effect fds written x addr e st) k = us_reads st k"
    and "us_sent (do_effect fds written x addr e st) k = us_sent st k"
  using assms by (cases e; fastforce simp: orphan_def Let_def split: option.splits if_splits)+

lemma orphan_effects:
  assumes "orphan k st"
  shows "orphan k (fold (do_effect fds written x addr) es st)"
    and "us_pipes (fold (do_effect fds written x addr) es st) k = us_pipes st k"
    and "us_reads (fold (do_effect fds written x addr) es st) k = us_reads st k"
    and "us_sent (fold (do_effect fds written x addr) es st) k = us_sent st k"
  using assms by (induction es arbitrary: st) (simp_all add: orphan_effect del: do_effect.simps)

lemma orphan_step:
  assumes "orphan k st" and "us_pipes st k = []" and "sys_step st st'"
  shows "orphan k st' \<and> us_pipes st' k = [] \<and> us_reads st' k = us_reads st k"
  using assms(3)
proof cases
  case (request beyond buffer x data fds pid written effs m addr)
  have "orphan k (log_request m (x, addr, c_str data) st)" using assms(1) by (simp add: orphan_def)
  from orphan_effects [OF this] assms(2) show ?thesis by (simp add: request(1))
next
  case (slave_round pid sp a beyond literal effects frames s)
  then have "sp_pipe sp \<noteq> k" using assms(2) by auto
  with assms show ?thesis by (simp add: slave_round(1) orphan_def)
qed (use assms in \<open>simp_all add: orphan_def\<close>)

lemma orphan_forever:
  assumes "sys_step\<^sup>*\<^sup>* st st'" and "orphan k st" and "us_pipes st k = []"
  shows "orphan k st' \<and> us_pipes st' k = [] \<and> us_reads st' k = us_reads st k"
  using assms
proof (induction rule: rtranclp_induct)
  case (step y z)
  with orphan_step [of k y z] show ?case by auto
qed simp

text \<open>A command other than \<open>quit\<close>, without a shell, keeps the slave in its loop.\<close>

lemma slave_stays:
  assumes "udp_slave_step a beyond literal (Some bs) s = (effects, frames, s')"
    and "0 \<notin> set bs" and "length bs < BUFSZ" and "get_command bs \<noteq> cmd_quit" and "sl_shellfd s \<le> 0"
  shows "sl_flag s' \<noteq> 0"
proof -
  let ?data = "store_at 0 (take BUFSZ bs) (replicate BUFSZ 0 @ beyond)"
  obtain n where n: "BUFSZ - length bs = Suc n" using assms(3) by (cases "BUFSZ - length bs") auto
  have "?data = bs @ 0 # (replicate n 0 @ beyond)"
    using assms(3) n by (simp add: store_at_def)
  then have "c_str ?data = c_str bs" using assms(2) by (simp add: c_str_append_nul c_str_no_nul_id)
  then have "get_command ?data \<noteq> cmd_quit" using get_command_c_str [of ?data bs] assms(4) by simp
  then have "fst (handler a ?data (sl_shellfd s)) = 1"
    using assms(5) by (cases "get_command ?data") (auto simp: handler_def usual_handler_def Let_def case_prod_beta)
  then show ?thesis
    using assms(1) by (auto simp: udp_slave_step_def Let_def case_prod_beta)
qed

lemma quit_closes:
  assumes ok: "sys_ok st" and c: "table_abs (um_table (us_master st)) x = Some c"
    and k: "us_fds st (snd (ci_pipes c)) = Some k"
    and sep: "separate_buffer beyond buffer (um_data (us_master st)) = (x, data)"
    and quit: "get_command data = cmd_quit"
  shows "\<exists>st'. sys_step st st' \<and> table_abs (um_table (us_master st')) x = None \<and> orphan k st' \<and>
    us_pipes st' k = us_pipes st k @ c_str data \<and> us_reads st' k = us_reads st k \<and>
    us_slaves st' = us_slaves st"
proof -
  let ?m = "table_abs (um_table (us_master st))"
  have table: "table_inv (um_table (us_master st))" and inv: "sys_inv ?m (us_requests st) st"
    using ok by (simp_all add: sys_ok_def)
  have "route x data None (-1) True (reply_frame data) ?m =
      ([Pipe_write (snd (ci_pipes c)) (c_str data), Close (fst (ci_pipes c)), Close (snd (ci_pipes c))], ?m(x := None))"
    using c quit by (simp add: route_def)
  with master_step_route [OF table sep, of None "-1" True] obtain m where
    m: "master_step beyond None (-1) True buffer (us_master st) =
        ([Pipe_write (snd (ci_pipes c)) (c_str data), Close (fst (ci_pipes c)), Close (snd (ci_pipes c))], m)"
      "table_abs (um_table m) = ?m(x := None)" by auto
  define st' where "st' = fold (do_effect None True x (0, 0))
    [Pipe_write (snd (ci_pipes c)) (c_str data), Close (fst (ci_pipes c)), Close (snd (ci_pipes c))]
    (log_request m (x, (0, 0), c_str data) st)"
  have st': "us_master st' = m" "us_slaves st' = us_slaves st" "us_next st' = us_next st"
    "us_fds st' = (us_fds st)(fst (ci_pipes c) := None, snd (ci_pipes c) := None)"
    "us_pipes st' k = us_pipes st k @ c_str data" "us_reads st' k = us_reads st k"
    using k by (simp_all add: st'_def)
  have "sys_step st st'"
    unfolding st'_def by (rule sys_step.request [OF sep _ m(1)]) (simp add: kernel_ok_def)
  moreover have "orphan k st'"
  proof -
    note F = fds_okD [OF sys_invD(1) [OF inv]]
    from F(1) [OF c] k have "fst (us_owner st k) = x" by auto
    then have "d \<in> {fst (ci_pipes c), snd (ci_pipes c)}" if "us_fds st d = Some k" for d
      using F(3) [OF that] c by auto
    then show ?thesis using F(2) [OF k] by (auto simp: orphan_def st' split: if_splits)
  qed
  ultimately show ?thesis using st' m(2) by (intro exI [of _ st']) simp
qed

text \<open>A kernel in which everything the handlers call succeeds; \<open>ls\<close> and the shell print nothing.\<close>

definition quiet_answers :: answers where
  "quiet_answers = \<lparr>ls_output = [], chdir_error = (\<lambda>_. None), shell_write_ok = True, shell_reads = [],
     shell_pty = \<lparr>pty_open = 3, pty_grant = True, pty_unlock = True, pty_name = Some [], pty_res = 4\<rparr>\<rparr>"

section \<open>Properties\<close>

text \<open>
  C9: whatever the clients send and however \<open>master\<close> and the slaves interleave, whatever
  descriptors and pids the kernel hands out again: what a slave has read, followed by what waits
  in its pipe, is what \<open>master\<close> wrote there, in the order in which it got it, and all of it came
  under the id for which the slave was made; no two slaves share a pipe; and every frame a slave
  sends goes to the address from which a request with that id came.
\<close>

theorem udp_requests_stay_apart:
  assumes "sys_reach st" and "us_slaves st pid = Some sp"
  shows "concat (us_reads st (sp_pipe sp)) @ us_pipes st (sp_pipe sp) =
      concat (map (\<lambda>(x, a, d). d) (us_sent st (sp_pipe sp))) \<and>
    subseq (us_sent st (sp_pipe sp)) (us_requests st) \<and>
    (\<exists>x d. (\<forall>r \<in> set (us_sent st (sp_pipe sp)). fst r = x) \<and> (x, sp_name sp, d) \<in> set (us_requests st)) \<and>
    (\<forall>q sq. us_slaves st q = Some sq \<longrightarrow> sp_pipe sq = sp_pipe sp \<longrightarrow> q = pid) \<and>
    (\<forall>a f. (Some (sp_pipe sp), a, f) \<in> set (us_out st) \<longrightarrow> a = sp_name sp)"
proof -
  have inv: "sys_inv (table_abs (um_table (us_master st))) (us_requests st) st"
    using sys_reach_ok [OF assms(1)] by (simp add: sys_ok_def)
  note P = pipe_okD [OF sys_invD(2) [OF inv, of "sp_pipe sp"]] and S = slaves_okD [OF sys_invD(3) [OF inv]]
  have "\<exists>x d. (\<forall>r \<in> set (us_sent st (sp_pipe sp)). fst r = x) \<and> (x, sp_name sp, d) \<in> set (us_requests st)"
    using S(5) [OF S(1) [OF assms(2)]] P(2) S(2) [OF assms(2)] by auto
  then show ?thesis
    using P(1,3) S(2,3) [OF assms(2)] S(4) [of "sp_pipe sp"] S(3) [OF assms(2)] by auto
qed

text \<open>
  C11: a \<open>quit\<close> that reaches \<open>master\<close> while an earlier request still waits in the pipe is read
  together with it, as one command. When the earlier one decides what the command is, the
  \<open>quit\<close> is lost: \<open>master\<close> has taken the client out of its table and closed the pipe, the slave
  stays in its loop, and whatever happens it never reads anything again.
\<close>

theorem quit_lost:
  assumes "sys_reach st" and "table_abs (um_table (us_master st)) x = Some c"
    and "us_fds st (snd (ci_pipes c)) = Some (sp_pipe sp)"
    and "us_slaves st pid = Some sp" and "sl_flag (sp_state sp) \<noteq> 0" and "sl_shellfd (sp_state sp) \<le> 0"
    and "us_pipes st (sp_pipe sp) = d" and "d \<noteq> []" and "0 \<notin> set d"
    and "separate_buffer beyond buffer (um_data (us_master st)) = (x, data)" and "get_command data = cmd_quit"
    and "length (d @ c_str data) < BUFSZ" and "get_command (d @ c_str data) \<noteq> cmd_quit"
  shows "\<exists>st1 st2 sp'. sys_step st st1 \<and> table_abs (um_table (us_master st1)) x = None \<and> sys_step st1 st2 \<and>
    us_reads st2 (sp_pipe sp) = us_reads st (sp_pipe sp) @ [d @ c_str data] \<and>
    us_slaves st2 pid = Some sp' \<and> sp_pipe sp' = sp_pipe sp \<and> sl_flag (sp_state sp') \<noteq> 0 \<and>
    (\<forall>st3. sys_step\<^sup>*\<^sup>* st2 st3 \<longrightarrow> us_reads st3 (sp_pipe sp) = us_reads st2 (sp_pipe sp))"
proof -
  let ?k = "sp_pipe sp" and ?bs = "d @ c_str data"
  from quit_closes [OF sys_reach_ok [OF assms(1)] assms(2,3,10,11)] obtain st1 where
    1: "sys_step st st1" "table_abs (um_table (us_master st1)) x = None" "orphan ?k st1"
      "us_pipes st1 ?k = ?bs" "us_reads st1 ?k = us_reads st ?k" "us_slaves st1 = us_slaves st"
    using assms(7) by auto
  have take: "take BUFSZ ?bs = ?bs" using assms(12) by simp
  obtain effects frames s where
    s: "udp_slave_step quiet_answers [] [] (Some ?bs) (sp_state sp) = (effects, frames, s)"
    by (metis surj_pair)
  define st2 where "st2 = set_slave pid sp s (take_read ?k (sp_name sp) frames st1)"
  have "sys_step st1 st2"
    unfolding st2_def
    by (rule sys_step.slave_round) (use assms(4,5,8) 1(4,6) s take in auto)
  moreover have "sl_flag s \<noteq> 0"
    by (rule slave_stays [OF s]) (use assms(6,9,12,13) in auto)
  moreover have "orphan ?k st2" using 1(3) by (simp add: st2_def orphan_def)
  moreover have st2: "us_pipes st2 ?k = []" "us_reads st2 ?k = us_reads st ?k @ [?bs]"
    "us_slaves st2 pid = Some (sp\<lparr>sp_state := s\<rparr>)"
    using assms(12) 1(4,5) take by (simp_all add: st2_def)
  ultimately have "sys_step st1 st2" "sl_flag s \<noteq> 0"
    "\<forall>st3. sys_step\<^sup>*\<^sup>* st2 st3 \<longrightarrow> us_reads st3 ?k = us_reads st2 ?k"
    using orphan_forever by blast+
  moreover have "sp_pipe (sp\<lparr>sp_state := s\<rparr>) = ?k" "sl_flag (sp_state (sp\<lparr>sp_state := s\<rparr>)) = sl_flag s"
    by simp_all
  ultimately show ?thesis using 1(1,2) st2(2,3) by metis
qed

section \<open>Witnesses\<close>

text \<open>Client 7 has sent \<open>ls\<close>, its first request, and the slave has not read it yet.\<close>

lemma ls_waits:
  obtains st sp where "sys_reach st"
    and "table_abs (um_table (us_master st)) = [7 \<mapsto> new_client 7 (5, 6) 99]" and "us_fds st 6 = Some (sp_pipe sp)"
    and "us_slaves st 99 = Some sp" and "sl_flag (sp_state sp) = 1" and "sl_shellfd (sp_state sp) = -1"
    and "us_pipes st (sp_pipe sp) = cstr ''ls''" and "us_reads st (sp_pipe sp) = []"
proof -
  have "0 \<notin> set (cstr ''ls'')" by simp
  note req = request_7(1) [OF this, of "replicate 243 0" "um_data master_start"]
    request_7(2,3) [OF this, of "um_data master_start"]
  let ?buf = "digits_7 @ cstr ''ls'' @ 0 # replicate 243 0"
  from master_step_route [OF master_start_inv(1) req(1), of "Some (5, 6)" 99 True]
    route_ls_7 [OF _ req(2)] req(3) get_command_ls master_start_inv(2) obtain m where
    m: "master_step [] (Some (5, 6)) 99 True ?buf master_start = ([Fork 7 99 5, Pipe_write 6 (cstr ''ls'')], m)"
      "table_abs (um_table m) = [7 \<mapsto> new_client 7 (5, 6) 99]" by auto
  define st where "st = fold (do_effect (Some (5, 6)) True 7 (1, 1)) [Fork 7 99 5, Pipe_write 6 (cstr ''ls'')]
    (log_request m (7, (1, 1), cstr ''ls'') system_start)"
  define sp where "sp = \<lparr>sp_pipe = 0, sp_name = (1, 1), sp_state = \<lparr>sl_flag = 1, sl_shellfd = -1\<rparr>\<rparr>"
  have master: "us_master system_start = master_start" by (simp add: system_start_def)
  have "kernel_ok (Some (5, 6)) 99 system_start" by (simp add: kernel_ok_def system_start_def)
  from sys_step.request [of "[]" ?buf system_start, unfolded master, OF req(1) this m(1), of "(1, 1)"]
  have "sys_step system_start st" by (simp add: st_def req(2) del: do_effect.simps cstr_simps)
  with sys_reach.start have "sys_reach st" by (rule sys_reach.step)
  moreover have "us_master st = m" by (simp only: st_def effects_frame log_request_simps)
  moreover have "us_fds st 6 = Some (sp_pipe sp)" "us_slaves st 99 = Some sp"
    "us_pipes st (sp_pipe sp) = cstr ''ls''" "us_reads st (sp_pipe sp) = []"
    by (simp_all add: st_def sp_def system_start_def Let_def)
  moreover have "sl_flag (sp_state sp) = 1" "sl_shellfd (sp_state sp) = -1" by (simp_all add: sp_def)
  ultimately show thesis using that m(2) by blast
qed

theorem udp_requests_stay_apart_witness:
  "\<exists>st sp. sys_reach st \<and> us_slaves st 99 = Some sp \<and> us_pipes st (sp_pipe sp) = cstr ''ls'' \<and>
    concat (map (\<lambda>(x, a, d). d) (us_sent st (sp_pipe sp))) = cstr ''ls''"
proof -
  obtain st sp where st: "sys_reach st" "us_slaves st 99 = Some sp" "us_pipes st (sp_pipe sp) = cstr ''ls''"
      "us_reads st (sp_pipe sp) = []"
    by (rule ls_waits)
  from udp_requests_stay_apart [OF st(1,2)] st(3,4) have
    "concat (map (\<lambda>(x, a, d). d) (us_sent st (sp_pipe sp))) = cstr ''ls''" by simp
  with st show ?thesis by blast
qed

theorem quit_lost_witness:
  "\<exists>st1 st2 sp. sys_step st1 st2 \<and> table_abs (um_table (us_master st1)) 7 = None \<and>
    us_slaves st2 99 = Some sp \<and> sl_flag (sp_state sp) \<noteq> 0 \<and>
    us_reads st2 (sp_pipe sp) = [cstr ''ls'' @ cstr ''quit''] \<and>
    (\<forall>st3. sys_step\<^sup>*\<^sup>* st2 st3 \<longrightarrow> us_reads st3 (sp_pipe sp) = us_reads st2 (sp_pipe sp))"
proof -
  obtain st sp where st: "sys_reach st"
      "table_abs (um_table (us_master st)) = [7 \<mapsto> new_client 7 (5, 6) 99]" "us_fds st 6 = Some (sp_pipe sp)"
      "us_slaves st 99 = Some sp" "sl_flag (sp_state sp) = 1" "sl_shellfd (sp_state sp) = -1"
      "us_pipes st (sp_pipe sp) = cstr ''ls''" "us_reads st (sp_pipe sp) = []"
    by (rule ls_waits)
  have "0 \<notin> set (cstr ''quit'')" by simp
  note req = request_7(1) [OF this, of "replicate 241 0" "um_data (us_master st)"]
    request_7(2,3) [OF this, of "um_data (us_master st)"]
  have h: "table_abs (um_table (us_master st)) 7 = Some (new_client 7 (5, 6) 99)"
      "us_fds st (snd (ci_pipes (new_client 7 (5, 6) 99))) = Some (sp_pipe sp)"
    by (simp_all add: st(2,3) new_client_def)
  have slave: "sl_flag (sp_state sp) \<noteq> 0" "sl_shellfd (sp_state sp) \<le> 0" by (simp_all add: st(5,6))
  have word: "cstr ''ls'' \<noteq> []" "0 \<notin> set (cstr ''ls'')" by simp_all
  have quit: "get_command (store_at 0 (cstr ''quit'' @ [0]) (um_data (us_master st))) = cmd_quit"
    by (simp only: req(3) get_command_quit)
  have short: "length (cstr ''ls'' @ c_str (store_at 0 (cstr ''quit'' @ [0]) (um_data (us_master st)))) < BUFSZ"
    by (simp only: req(2)) (simp add: BUFSZ_def)
  have both: "get_command (cstr ''ls'' @ c_str (store_at 0 (cstr ''quit'' @ [0]) (um_data (us_master st)))) \<noteq> cmd_quit"
    by (simp only: req(2) get_command_lsquit) simp
  from quit_lost [OF st(1) h st(4) slave st(7) word req(1) quit short both, unfolded req(2) st(8) append_Nil]
  show ?thesis by metis
qed

end
