(* ===== verification/Sock_Session.thy ===== *)
theory Sock_Session
  imports Sock_Client Sock_System
begin

text \<open>
  A request over UDP from the terminal of the client to the terminal of the client: \<open>client.c\<close>,
  the cipher of \<open>lib.c\<close>, both loops of \<open>UDP.c\<close> and the handlers of \<open>server.c\<close> put together.
\<close>

text \<open>A round of \<open>master\<close> for a client it knows and a command that goes to the subprocess.\<close>

lemma master_hands_on:
  assumes ok: "sys_ok st" and c: "table_abs (um_table (us_master st)) x = Some c"
    and k: "us_fds st (snd (ci_pipes c)) = Some k"
    and sep: "separate_buffer beyond buffer (um_data (us_master st)) = (x, data)"
    and command: "get_command data \<noteq> cmd_findall" "get_command data \<noteq> cmd_quit"
  shows "\<exists>st'. sys_step st st' \<and> us_requests st' = us_requests st @ [(x, addr, c_str data)] \<and>
    us_pipes st' = (us_pipes st)(k := us_pipes st k @ c_str data) \<and> us_reads st' = us_reads st \<and>
    us_slaves st' = us_slaves st \<and> us_out st' = us_out st \<and>
    table_abs (um_table (us_master st')) = table_abs (um_table (us_master st))"
proof -
  let ?m = "table_abs (um_table (us_master st))" and ?es = "[Pipe_write (snd (ci_pipes c)) (c_str data)]"
  have table: "table_inv (um_table (us_master st))" using ok by (simp add: sys_ok_def)
  have "route x data None (-1) True (reply_frame data) ?m = (?es, ?m)"
    using c command route_map [of ?m x c] by (simp add: route_def)
  with master_step_route [OF table sep, of None "-1" True] obtain m where
    m: "master_step beyond None (-1) True buffer (us_master st) = (?es, m)" "table_abs (um_table m) = ?m" by auto
  define st' where "st' = fold (do_effect None True x addr) ?es (log_request m (x, addr, c_str data) st)"
  have "sys_step st st'"
    unfolding st'_def by (rule sys_step.request [OF sep _ m(1)]) (simp add: kernel_ok_def)
  then show ?thesis
    using k m(2) by (intro exI [of _ st']) (simp add: st'_def)
qed

section \<open>What a command prints\<close>

text \<open>
  The reference: what a subprocess without a shell lets the client see for a line, from what \<open>ls\<close>, \<open>chdir\<close> and
  the opening of a terminal answer.
\<close>

definition shell_starts :: "pty_answers \<Rightarrow> bool" where
  "shell_starts p \<longleftrightarrow> 0 < pty_open p \<and> pty_grant p \<and> pty_unlock p \<and> pty_name p \<noteq> None \<and> 0 \<le> pty_res p"

definition answer_text :: "answers \<Rightarrow> byte list \<Rightarrow> byte list" where
  "answer_text a line =
     (case get_command line of
        cmd_print \<Rightarrow> drop 6 line @ [10]
      | cmd_ls \<Rightarrow> ls_output a
      | cmd_cd \<Rightarrow>
          (case chdir_error a (drop 3 line) of
             Some e \<Rightarrow> cstr ''Cant change directory: '' @ e @ [10]
           | None \<Rightarrow> cstr ''New directory: ('' @ drop 3 line @ cstr '')'' @ [10])
      | cmd_shell \<Rightarrow> (if shell_starts (shell_pty a) then cstr ''Shell started'' else cstr ''Error with starting shell'') @ [10]
      | cmd_quit \<Rightarrow> cstr ''Quit from slave process'' @ [10]
      | _ \<Rightarrow> cstr ''UNKNOWN COMMAND: ('' @ line @ cstr '')'' @ [10])"

text \<open>What stands behind the word of a command that ends with a newline is not beyond its end.\<close>

lemma command_word:
  assumes "0 \<notin> set bs" and "10 \<in> set bs"
  shows "get_command bs = cmd_print \<Longrightarrow> 6 \<le> length bs" "get_command bs = cmd_cd \<Longrightarrow> 3 \<le> length bs"
proof -
  have longer: "length w < length bs" if "prefix w bs" "10 \<notin> set w" for w
    using that assms(2) by (cases "length w = length bs") (auto simp: prefix_def)
  show "6 \<le> length bs" if "get_command bs = cmd_print"
  proof -
    have "prefix (cstr ''print'') bs"
      using that assms(1) by (auto simp: get_command_def starts_with_prefix c_str_no_nul_id split: if_splits)
    from longer [OF this] show ?thesis by simp
  qed
  show "3 \<le> length bs" if "get_command bs = cmd_cd"
  proof -
    have "prefix (cstr ''cd'') bs"
      using that assms(1) by (auto simp: get_command_def starts_with_prefix c_str_no_nul_id split: if_splits)
    from longer [OF this] show ?thesis by simp
  qed
qed

lemma start_shell_plain:
  assumes "shellfd \<le> 0"
  shows "0 < snd (start_shell p shellfd) \<and> 0 < fst (start_shell p shellfd) \<longleftrightarrow> shell_starts p"
  using assms by (auto simp: start_shell_def shell_starts_def Let_def)

lemma handler_plain:
  assumes "0 \<notin> set bs" and "10 \<in> set bs" and "get_command bs \<noteq> cmd_quit" and "shellfd \<le> 0"
  shows "\<exists>effects fd. handler a (bs @ 0 # rest) shellfd = (1, effects, bs @ 0 # rest, fd) \<and>
    concat (map (effect_output a) effects) = answer_text a bs \<and>
    (get_command bs \<noteq> cmd_shell \<longrightarrow> fd = shellfd) \<and>
    (get_command bs = cmd_print \<longrightarrow> effects = [Print (drop 6 bs @ [10])]) \<and>
    (get_command bs = cmd_ls \<longrightarrow> effects = [Run_ls]) \<and>
    (get_command bs = cmd_cd \<longrightarrow> (\<exists>t. effects = [Chdir (drop 3 bs), Print t]))"
proof -
  let ?data = "bs @ 0 # rest"
  have cut: "c_str ?data = bs" using assms(1) by (simp add: c_str_append_nul)
  then have command: "get_command ?data = get_command bs"
    using get_command_c_str [of ?data bs] assms(1) by (simp add: c_str_no_nul_id)
  have behind: "c_str (drop k bs @ 0 # rest) = drop k bs" for k
  proof -
    have "0 \<notin> set (drop k bs)" using assms(1) set_drop_subset by fastforce
    then show ?thesis by (simp add: c_str_append_nul)
  qed
  note word = command_word [OF assms(1,2)] and start = start_shell_plain [OF assms(4), of "shell_pty a"]
  show ?thesis
    using assms(3,4) word start
    by (cases "get_command bs")
      (auto simp: handler_def usual_handler_def command cut behind answer_text_def effect_output_def Let_def case_prod_beta
        split: option.splits)
qed

lemma answer_text_ok:
  assumes "text_ok line" and "get_command line = cmd_ls \<Longrightarrow> text_ok (ls_output a)"
    and "\<And>e. chdir_error a (drop 3 line) = Some e \<Longrightarrow> text_ok e"
  shows "text_ok (answer_text a line)"
proof -
  have "text_ok (drop k line)" for k
    using assms(1) set_drop_subset [of k line] by (auto simp: text_ok_def)
  then show ?thesis
    using assms
    by (cases "get_command line")
      (auto simp: answer_text_def text_ok_def CR_MASK_def split: option.split)
qed

text \<open>A round of a subprocess without a shell.\<close>

lemma slave_answers:
  assumes "0 \<notin> set bs" and "length bs < BUFSZ" and "get_command bs \<noteq> cmd_quit" and "sl_shellfd s \<le> 0"
    and "text_ok (answer_text a bs)" and "length buffer = BUFSZ" and "10 \<in> set bs"
  shows "\<exists>effects frames s' b. udp_slave_step a (0 # behind) literal (Some bs) s = (effects, frames, s') \<and>
    sl_flag s' \<noteq> 0 \<and> (get_command bs \<noteq> cmd_shell \<longrightarrow> sl_shellfd s' = sl_shellfd s) \<and>
    (get_command bs = cmd_print \<longrightarrow> effects = [Print (drop 6 bs @ [10])]) \<and>
    (get_command bs = cmd_ls \<longrightarrow> effects = [Run_ls]) \<and>
    (get_command bs = cmd_cd \<longrightarrow> (\<exists>t. effects = [Chdir (drop 3 bs), Print t])) \<and>
    receive_data udp_receive_buf (map Some frames @ sk) buffer [] =
      Some (concat (map (take 255) (chunks BUFSZ (answer_text a bs))), b, sk)"
proof -
  let ?data = "store_at 0 (take BUFSZ bs) (replicate BUFSZ 0 @ 0 # behind)" and ?ms = "chunks BUFSZ (answer_text a bs)"
  obtain n where n: "BUFSZ - length bs = Suc n" using assms(2) by (cases "BUFSZ - length bs") auto
  have data: "?data = bs @ 0 # (replicate n 0 @ 0 # behind)"
    using assms(2) n by (simp add: store_at_def)
  have len: "length (bs @ 0 # replicate n 0) = BUFSZ" using n assms(2) by simp
  have "drop BUFSZ ((bs @ 0 # replicate n 0) @ 0 # behind) = 0 # behind"
    using len by (metis append_eq_conv_conj)
  then have nul: "nul_behind ?data" unfolding data nul_behind_def by simp
  from handler_plain [OF assms(1,7,3,4), of a "replicate n 0 @ 0 # behind"] obtain effects fd where
    h: "handler a ?data (sl_shellfd s) = (1, effects, ?data, fd)"
      "concat (map (effect_output a) effects) = answer_text a bs" "get_command bs \<noteq> cmd_shell \<longrightarrow> fd = sl_shellfd s"
      "get_command bs = cmd_print \<longrightarrow> effects = [Print (drop 6 bs @ [10])]"
      "get_command bs = cmd_ls \<longrightarrow> effects = [Run_ls]"
      "get_command bs = cmd_cd \<longrightarrow> (\<exists>t. effects = [Chdir (drop 3 bs), Print t])"
    unfolding data by blast
  have ms: "list_all (\<lambda>m. text_ok m \<and> length m \<le> BUFSZ) ?ms" "list_all (\<lambda>m. text_ok m \<and> m \<noteq> []) ?ms"
    using chunks_text [OF assms(5)] by (auto simp: list_all_iff)
  from send_data_texts [OF ms(1) nul, of "udp_send_buf (int BUFSZ)"] obtain rests data' where
    2: "send_data (udp_send_buf (int BUFSZ)) ?data (map Some ?ms) = (data', map2 text_frame ?ms rests)"
      "length rests = length ?ms"
    by (auto simp: udp_send_text)
  have 3: "udp_send_buf (int BUFSZ) (0 # literal) = (int BUFSZ, encode (0 # literal), Some (text_frame [] literal))"
    using udp_send_text [of "int BUFSZ" "[]" literal] by simp
  let ?frames = "map2 text_frame ?ms rests @ [text_frame [] literal]"
  from receive_data_udp [OF ms(2) 2(2) assms(6), of literal sk "[]"] obtain b where
    "receive_data udp_receive_buf (map Some ?frames @ sk) buffer [] = Some (concat (map (take 255) ?ms), b, sk)"
    by (auto simp: BUFSZ_def)
  moreover have "udp_slave_step a (0 # behind) literal (Some bs) s = (effects, ?frames, s\<lparr>sl_flag := 1, sl_shellfd := fd\<rparr>)"
    by (simp only: udp_slave_step_def Let_def option.case case_prod_beta' h(1,2) fst_conv snd_conv pipe_reads_def 2(1) 3) simp
  ultimately show ?thesis using h(3-6)
    by (intro exI [of _ effects] exI [of _ ?frames] exI [of _ "s\<lparr>sl_flag := 1, sl_shellfd := fd\<rparr>"] exI [of _ b]) simp
qed

section \<open>Properties\<close>


lemma client_7_idle:
  obtains st sp where "sys_reach st"
    and "table_abs (um_table (us_master st)) = [7 \<mapsto> new_client 7 (5, 6) 99]" and "us_fds st 6 = Some (sp_pipe sp)"
    and "us_slaves st 99 = Some sp" and "sl_flag (sp_state sp) \<noteq> 0" and "sl_shellfd (sp_state sp) = -1"
    and "us_pipes st (sp_pipe sp) = []"
proof -
  obtain st sp where st: "sys_reach st"
      "table_abs (um_table (us_master st)) = [7 \<mapsto> new_client 7 (5, 6) 99]" "us_fds st 6 = Some (sp_pipe sp)"
      "us_slaves st 99 = Some sp" "sl_flag (sp_state sp) = 1" "sl_shellfd (sp_state sp) = -1"
      "us_pipes st (sp_pipe sp) = cstr ''ls''" "us_reads st (sp_pipe sp) = []"
    by (rule ls_waits)
  have ls: "0 \<notin> set (cstr ''ls'')" "length (cstr ''ls'') < BUFSZ" "take BUFSZ (cstr ''ls'') = cstr ''ls''"
    "drop BUFSZ (cstr ''ls'') = []" "cstr ''ls'' \<noteq> []" by (simp_all add: BUFSZ_def)
  obtain effects frames s' where round: "udp_slave_step quiet_answers [0] [] (Some (cstr ''ls'')) (sp_state sp) = (effects, frames, s')"
    by (metis surj_pair)
  have kept: "sl_flag s' \<noteq> 0" "sl_shellfd s' = sl_shellfd (sp_state sp)"
    using round st(6) get_command_ls
    by (auto simp: udp_slave_step_def handler_def usual_handler_def Let_def BUFSZ_def store_at_def get_command_def starts_with_prefix
        split: prod.splits)
  define st1 where "st1 = set_slave 99 sp s' (take_read (sp_pipe sp) (sp_name sp) frames st)"
  have "sys_step st st1"
    unfolding st1_def
    by (rule sys_step.slave_round [where effects = effects and a = quiet_answers and beyond = "[0]" and literal = "[]"])
      (use st(4,5,7) ls(3,5) round in \<open>simp_all only:\<close>, simp)
  with st(1) have "sys_reach st1" by (rule sys_reach.step)
  then show thesis
    by (rule that [of st1 "sp\<lparr>sp_state := s'\<rparr>"]) (use st(2,3,6,7) ls(4) kept in \<open>simp_all add: st1_def\<close>)
qed


end
