(* ===== verification/Operator_Stick.thy ===== *)
theory Operator_Stick
  imports C_Prelude
begin

text \<open>
  \<open>Operator_Stick/main_stick.c\<close>: a file with a pipeline of commands, each run by a child of its
  own between two pipes. A process has a table of open descriptors; the program leads to the
  programs its children execute, each with its arguments and its table. \<open>usable n\<close> is how many bytes the
  block has that \<open>malloc (n)\<close> gives, at least \<open>n\<close>: an access behind them is a fault.
\<close>

section \<open>Descriptors\<close>

datatype fobj = Std nat | Command_file | Pipe_out nat | Pipe_in nat

type_synonym fdtab = "fobj option list"

definition fd_at :: "fdtab \<Rightarrow> nat \<Rightarrow> fobj option" where
  "fd_at fds n = (if n < length fds then fds ! n else None)"

text \<open>A new descriptor is the lowest number that is free.\<close>

definition alloc_fd :: "fobj \<Rightarrow> fdtab \<Rightarrow> nat \<times> fdtab" where
  "alloc_fd x fds = (let n = length (takeWhile (\<lambda>f. f \<noteq> None) fds) in
     (n, if n < length fds then fds[n := Some x] else fds @ [Some x]))"

definition close_fd :: "nat \<Rightarrow> fdtab \<Rightarrow> fdtab" where
  "close_fd n fds = (if n < length fds then fds[n := None] else fds)"

definition dup2 :: "nat \<Rightarrow> nat \<Rightarrow> fdtab \<Rightarrow> fdtab" where
  "dup2 a b fds =
     (if fd_at fds a = None then fds
      else if b < length fds then fds[b := fd_at fds a]
      else fds @ replicate (b - length fds) None @ [fd_at fds a])"

section \<open>The program\<close>

definition my_open :: "nat \<Rightarrow> fdtab \<Rightarrow> (nat, fdtab) outcome" where
  "my_open argc fds = (if argc = 2 then (case alloc_fd Command_file fds of (fd, fds) \<Rightarrow> Returns fd fds) else Exits 0 fds)"

text \<open>
  \<open>my_read\<close>: the buffer of the size of the file holds all but its last byte; \<open>heap\<close> is what its
  block holds before. The text in it ends at the first NUL, which nobody stores.
\<close>

definition my_read :: "byte list \<Rightarrow> byte list \<Rightarrow> nat \<Rightarrow> fdtab \<Rightarrow> byte list \<times> fdtab" where
  "my_read data heap fd fds = (take (length data - 1) data @ drop (length data - 1) heap, close_fd fd fds)"

text \<open>\<open>pipe\<close> for the \<open>i\<close>-th pipe, and \<open>create_pipes\<close> with the numbers in its array.\<close>

definition pipe :: "nat \<Rightarrow> fdtab \<Rightarrow> nat list \<times> fdtab" where
  "pipe i fds = (case alloc_fd (Pipe_out i) fds of (r, fds) \<Rightarrow>
     case alloc_fd (Pipe_in i) fds of (w, fds) \<Rightarrow> ([r, w], fds))"

primrec create_pipes :: "nat \<Rightarrow> fdtab \<Rightarrow> nat list \<times> fdtab" where
  "create_pipes 0 fds = ([], fds)"
| "create_pipes (Suc count) fds =
     (case create_pipes count fds of (pipes, fds) \<Rightarrow>
      case pipe count fds of (ends, fds) \<Rightarrow> (pipes @ ends, fds))"

primrec close_pipes :: "nat list \<Rightarrow> nat \<Rightarrow> fdtab \<Rightarrow> fdtab" where
  "close_pipes pipes 0 fds = fds"
| "close_pipes pipes (Suc count) fds =
     close_fd (pipes ! (2 * count + 1)) (close_fd (pipes ! (count * 2)) (close_pipes pipes count fds))"

text \<open>\<open>strtok_r\<close> with one delimiter: the token and the string to go on with.\<close>

definition strtok_r :: "byte \<Rightarrow> byte list \<Rightarrow> byte list option \<times> byte list" where
  "strtok_r delim str = (let s = dropWhile (\<lambda>b. b = delim) (c_str str) in
     if s = [] then (None, [])
     else (Some (takeWhile (\<lambda>b. b \<noteq> delim) s), tl (dropWhile (\<lambda>b. b \<noteq> delim) s)))"

lemma strtok_r_shorter: "strtok_r d str = (Some t, rest) \<Longrightarrow> length rest < length str"
proof -
  assume a: "strtok_r d str = (Some t, rest)"
  let ?s = "dropWhile (\<lambda>b. b = d) (c_str str)"
  from a have s: "?s \<noteq> []" "rest = tl (dropWhile (\<lambda>b. b \<noteq> d) ?s)"
    by (auto simp: strtok_r_def Let_def split: if_splits)
  have "length ?s \<le> length str"
    using length_dropWhile_le [of "\<lambda>b. b = d" "c_str str"] strlen_le [of str] by (simp add: strlen_def)
  moreover have "length (dropWhile (\<lambda>b. b \<noteq> d) ?s) \<le> length ?s" by (rule length_dropWhile_le)
  moreover have "0 < length ?s" using s(1) by blast
  moreover have "length rest = length (dropWhile (\<lambda>b. b \<noteq> d) ?s) - 1" using s(2) by simp
  ultimately show ?thesis by linarith
qed

text \<open>The loops \<open>while (token = strtok_r (str, delim, &str))\<close>.\<close>

function tokens :: "byte \<Rightarrow> byte list \<Rightarrow> byte list list" where
  "tokens d str = (case strtok_r d str of (None, _) \<Rightarrow> [] | (Some t, rest) \<Rightarrow> t # tokens d rest)"
  by pat_completeness auto

termination by (relation "measure (\<lambda>(d, str). length str)") (auto dest: strtok_r_shorter [OF sym])

function count_tokens :: "byte \<Rightarrow> byte list \<Rightarrow> nat \<Rightarrow> nat" where
  "count_tokens d str res =
     (case strtok_r d str of (None, _) \<Rightarrow> res | (Some t, rest) \<Rightarrow> count_tokens d rest (res + 1))"
  by pat_completeness auto

termination by (relation "measure (\<lambda>(d, str, res). length str)") (auto dest: strtok_r_shorter [OF sym])

declare tokens.simps [simp del] count_tokens.simps [simp del]

text \<open>
  \<open>get_coms_count\<close>: the text is copied into a block of the size of a pointer. \<open>None\<close> when there is no NUL in
  its own block, or when the copy does not fit.
\<close>

definition get_coms_count :: "(nat \<Rightarrow> nat) \<Rightarrow> byte list \<Rightarrow> nat option" where
  "get_coms_count usable all_commands =
     (if 0 \<notin> set all_commands then None
      else if usable 8 < strlen all_commands + 1 then None
      else Some (count_tokens (of_char (CHR ''|'')) (c_str all_commands) 0))"

text \<open>
  \<open>do_subcoms\<close>: the child executes its command or, when \<open>execvp\<close> fails, returns. The array of arguments
  has a byte for each character of the command and takes eight for each word and for the \<open>NULL\<close>
  behind them; \<open>None\<close> when a store is behind its block.
\<close>

datatype subcoms = Executes "byte list list" fdtab | Goes_on fdtab

definition child_table :: "nat list \<Rightarrow> nat \<Rightarrow> nat \<Rightarrow> fdtab \<Rightarrow> fdtab" where
  "child_table pipes count com_id fds =
     (let fds = (if com_id \<noteq> 0 then dup2 (pipes ! (2 * (com_id - 1))) 0 fds else fds);
          fds = (if com_id < count - 1 then dup2 (pipes ! (2 * com_id + 1)) 1 fds else fds) in
      close_pipes pipes count fds)"

definition do_subcoms ::
  "(nat \<Rightarrow> nat) \<Rightarrow> (byte list list \<Rightarrow> bool) \<Rightarrow> byte list \<Rightarrow> nat list \<Rightarrow> nat \<Rightarrow> nat \<Rightarrow> fdtab \<Rightarrow> subcoms option" where
  "do_subcoms usable execvp command pipes count com_id fds =
     (let arr_subcoms = tokens (of_char (CHR '' '')) command;
          fds = child_table pipes count com_id fds in
      if usable (strlen command) < 8 * (length arr_subcoms + 1) then None
      else Some (if arr_subcoms \<noteq> [] \<and> execvp arr_subcoms then Executes arr_subcoms fds else Goes_on fds))"

text \<open>
  The loop of \<open>main\<close> from the \<open>i\<close>-th command on, in a process with the table \<open>fds\<close>: what its
  children execute, or \<open>None\<close> when one of them makes a fault. A child that returns from \<open>do_subcoms\<close> goes on
  with the same loop.
\<close>

primrec fork_loop ::
  "(nat \<Rightarrow> nat) \<Rightarrow> (byte list list \<Rightarrow> bool) \<Rightarrow> nat list \<Rightarrow> nat \<Rightarrow> nat \<Rightarrow> nat \<Rightarrow> byte list \<Rightarrow> fdtab \<Rightarrow>
   (byte list list \<times> fdtab) list option" where
  "fork_loop usable execvp pipes count i 0 all_commands fds = Some []"
| "fork_loop usable execvp pipes count i (Suc n) all_commands fds =
     (case strtok_r (of_char (CHR ''|'')) all_commands of (command, all_commands) \<Rightarrow>
        (case (case command of None \<Rightarrow> None
               | Some command \<Rightarrow>
                   (case do_subcoms usable execvp command pipes count i fds of
                      None \<Rightarrow> None
                    | Some (Executes argv fds') \<Rightarrow> Some [(argv, fds')]
                    | Some (Goes_on fds') \<Rightarrow> fork_loop usable execvp pipes count (Suc i) n all_commands fds')) of
           None \<Rightarrow> None
         | Some child \<Rightarrow>
             map_option (\<lambda>ps. child @ ps) (fork_loop usable execvp pipes count (Suc i) n all_commands fds)))"

text \<open>\<open>wait_children\<close>: how many children that nobody has waited for are left of \<open>children\<close>.\<close>

primrec wait_children :: "nat \<Rightarrow> nat \<Rightarrow> nat" where
  "wait_children 0 children = children"
| "wait_children (Suc count) children = wait_children count (children - 1)"

lemma wait_children_left: "wait_children count children = children - count"
  by (induction count arbitrary: children) simp_all

definition stick_main ::
  "(nat \<Rightarrow> nat) \<Rightarrow> (byte list list \<Rightarrow> bool) \<Rightarrow> nat \<Rightarrow> byte list \<Rightarrow> byte list \<Rightarrow> fdtab \<Rightarrow>
   ((byte list list \<times> fdtab) list option, fdtab) outcome" where
  "stick_main usable execvp argc data heap fds =
     bind_outcome (my_open argc fds) (\<lambda>fd fds.
       case my_read data heap fd fds of (all_commands, fds) \<Rightarrow>
       case get_coms_count usable all_commands of
         None \<Rightarrow> Faults fds
       | Some comd_count \<Rightarrow>
           case create_pipes comd_count fds of (pipes, fds) \<Rightarrow>
           Returns (fork_loop usable execvp pipes comd_count 0 comd_count all_commands fds)
             (close_pipes pipes comd_count fds))"

section \<open>Tokens\<close>

fun pieces :: "byte \<Rightarrow> byte list \<Rightarrow> byte list list" where
  "pieces d [] = [[]]"
| "pieces d (b # bs) = (if b = d then [] # pieces d bs else (b # hd (pieces d bs)) # tl (pieces d bs))"

text \<open>What lies between delimiters, without the empty pieces.\<close>

definition words :: "byte \<Rightarrow> byte list \<Rightarrow> byte list list" where
  "words d s = filter (\<lambda>w. w \<noteq> []) (pieces d s)"

lemma pieces_not_Nil [simp]: "pieces d s \<noteq> []"
  by (cases s) auto

lemma pieces_skip: "words d s = words d (dropWhile (\<lambda>b. b = d) s)"
  by (induction s) (auto simp: words_def)

lemma pieces_head: "pieces d s = takeWhile (\<lambda>b. b \<noteq> d) s #
    (case dropWhile (\<lambda>b. b \<noteq> d) s of [] \<Rightarrow> [] | _ # r \<Rightarrow> pieces d r)"
  by (induction s) auto

lemma words_head:
  assumes "s \<noteq> []" and "hd s \<noteq> d"
  shows "words d s = takeWhile (\<lambda>b. b \<noteq> d) s # words d (tl (dropWhile (\<lambda>b. b \<noteq> d) s))"
proof -
  have "takeWhile (\<lambda>b. b \<noteq> d) s \<noteq> []" using assms by (cases s) auto
  then show ?thesis
    by (cases "dropWhile (\<lambda>b. b \<noteq> d) s") (simp_all add: words_def pieces_head [of d s] del: dropWhile_eq_Nil_conv)
qed

lemma words_Nil [simp]: "words d [] = []"
  by (simp add: words_def)

lemma strtok_r_words:
  assumes "0 \<notin> set s"
  shows "(strtok_r d s = (None, []) \<and> words d s = []) \<or>
    (\<exists>t rest. strtok_r d s = (Some t, rest) \<and> 0 \<notin> set t \<and> 0 \<notin> set rest \<and> words d s = t # words d rest)"
proof -
  let ?s = "dropWhile (\<lambda>b. b = d) s"
  have id: "c_str s = s" using assms by (rule c_str_no_nul_id)
  show ?thesis
  proof (cases "?s = []")
    case True
    then show ?thesis using pieces_skip [of d s] by (simp add: strtok_r_def id del: dropWhile_eq_Nil_conv)
  next
    case False
    then have "hd ?s \<noteq> d" by (rule hd_dropWhile)
    moreover have "0 \<notin> set (tl (dropWhile (\<lambda>b. b \<noteq> d) ?s))"
    proof -
      have "set (tl xs) \<subseteq> set xs" for xs :: "byte list" by (cases xs) auto
      then have "set (tl (dropWhile (\<lambda>b. b \<noteq> d) ?s)) \<subseteq> set s" by (meson set_dropWhileD subsetD subsetI)
      with assms show ?thesis by blast
    qed
    moreover have "0 \<notin> set (takeWhile (\<lambda>b. b \<noteq> d) ?s)"
      using assms by (meson set_dropWhileD set_takeWhileD)
    ultimately show ?thesis
      using False pieces_skip [of d s] words_head [OF False] by (simp add: strtok_r_def id Let_def del: dropWhile_eq_Nil_conv)
  qed
qed

lemma tokens_words: "0 \<notin> set s \<Longrightarrow> tokens d s = words d s"
proof (induction d s rule: tokens.induct)
  case (1 d s)
  show ?case
    using strtok_r_words [OF 1(2), of d] 1(1) by (subst tokens.simps) auto
qed

lemma count_tokens_words: "0 \<notin> set s \<Longrightarrow> count_tokens d s res = res + length (words d s)"
proof (induction d s res rule: count_tokens.induct)
  case (1 d s res)
  show ?case
    using strtok_r_words [OF 1(2), of d] 1(1) by (subst count_tokens.simps) auto
qed

section \<open>Descriptors of the children\<close>

lemma fd_at_close_fd: "fd_at (close_fd n fds) m = (if m = n then None else fd_at fds m)"
  by (auto simp: fd_at_def close_fd_def)

lemma fd_at_dup2: "fd_at (dup2 a b fds) m = (if fd_at fds a \<noteq> None \<and> m = b then fd_at fds a else fd_at fds m)"
  by (auto simp: fd_at_def dup2_def nth_append)

lemma fd_at_close_pipes:
  "2 * n \<le> length pipes \<Longrightarrow>
   fd_at (close_pipes pipes n fds) m = (if m \<in> set (take (2 * n) pipes) then None else fd_at fds m)"
proof (induction n)
  case 0
  then show ?case by simp
next
  case (Suc n)
  have "take (2 * Suc n) pipes = take (2 * n) pipes @ [pipes ! (n * 2), pipes ! (2 * n + 1)]"
    using Suc.prems by (simp add: take_Suc_conv_app_nth mult.commute)
  with Suc show ?case by (auto simp: fd_at_close_fd)
qed

lemma alloc_fd_full:
  assumes "None \<notin> set p" and "set t \<subseteq> {None}"
  shows "alloc_fd x (p @ t) = (length p, p @ [Some x] @ tl t)"
proof -
  have p: "takeWhile (\<lambda>f. f \<noteq> None) p = p"
    using assms(1) by (subst takeWhile_eq_all_conv) metis
  then have "takeWhile (\<lambda>f. f \<noteq> None) (p @ t) = p"
    using assms by (cases t) (auto simp: takeWhile_append simp del: not_None_eq)
  then have "alloc_fd x (p @ t) = (length p, if length p < length (p @ t) then (p @ t)[length p := Some x] else (p @ t) @ [Some x])"
    by (simp only: alloc_fd_def Let_def)
  then show ?thesis by (cases t) simp_all
qed

definition pipe_ends :: "nat \<Rightarrow> fdtab" where
  "pipe_ends n = concat (map (\<lambda>i. [Some (Pipe_out i), Some (Pipe_in i)]) [0..<n])"

lemma length_pipe_ends [simp]: "length (pipe_ends n) = 2 * n"
  by (induction n) (simp_all add: pipe_ends_def)

lemma pipe_ends_open [simp]: "None \<notin> set (pipe_ends n)"
  by (auto simp: pipe_ends_def)

lemma pipe_ends_Suc: "pipe_ends (Suc n) = pipe_ends n @ [Some (Pipe_out n), Some (Pipe_in n)]"
  by (simp add: pipe_ends_def)

lemma nth_pipe_ends:
  "i < n \<Longrightarrow> pipe_ends n ! (2 * i) = Some (Pipe_out i) \<and> pipe_ends n ! (2 * i + 1) = Some (Pipe_in i)"
  by (induction n) (auto simp: pipe_ends_Suc nth_append less_Suc_eq)

lemma create_pipes_run:
  assumes "None \<notin> set p" and "set t \<subseteq> {None}"
  shows "\<exists>t'. set t' \<subseteq> {None} \<and> create_pipes n (p @ t) = ([length p..<length p + 2 * n], p @ pipe_ends n @ t')"
proof (induction n)
  case 0
  then show ?case using assms by (auto simp: pipe_ends_def)
next
  case (Suc n)
  then obtain t' where t': "set t' \<subseteq> {None}"
    "create_pipes n (p @ t) = ([length p..<length p + 2 * n], p @ pipe_ends n @ t')" by blast
  have tl: "set (tl t') \<subseteq> {None}" "set (tl (tl t')) \<subseteq> {None}"
    using t'(1) by (cases t'; cases "tl t'"; auto)+
  have "alloc_fd (Pipe_out n) (p @ pipe_ends n @ t') = (length p + 2 * n, (p @ pipe_ends n @ [Some (Pipe_out n)]) @ tl t')"
    using alloc_fd_full [of "p @ pipe_ends n" t'] assms t'(1) by simp
  moreover have "alloc_fd (Pipe_in n) ((p @ pipe_ends n @ [Some (Pipe_out n)]) @ tl t') =
      (Suc (length p + 2 * n), p @ pipe_ends (Suc n) @ tl (tl t'))"
    using alloc_fd_full [of "p @ pipe_ends n @ [Some (Pipe_out n)]" "tl t'"] assms tl(1) by (simp add: pipe_ends_Suc)
  ultimately show ?case
    using t'(2) tl(2) by (intro exI [of _ "tl (tl t')"]) (simp add: pipe_def)
qed

lemma fd_at_child_table:
  assumes "length p = 3" and "com_id < n" and "set t \<subseteq> {None}"
  shows "fd_at (child_table [3..<3 + 2 * n] n com_id (p @ pipe_ends n @ t)) m =
    (if m = 0 \<and> com_id \<noteq> 0 then Some (Pipe_out (com_id - 1))
     else if m = 1 \<and> com_id < n - 1 then Some (Pipe_in com_id)
     else if m < 3 then p ! m else None)"
proof -
  let ?fds = "p @ pipe_ends n @ t"
  have ends: "i < n \<Longrightarrow> fd_at ?fds (3 + 2 * i) = Some (Pipe_out i)" "i < n \<Longrightarrow> fd_at ?fds (3 + (2 * i + 1)) = Some (Pipe_in i)" for i
    using assms(1) nth_pipe_ends [of i n] by (auto simp: fd_at_def nth_append)
  have beyond: "fd_at ?fds m = None" if "3 + 2 * n \<le> m" for m
    using that assms(1,3) nth_mem [of "m - length p - 2 * n" t] by (force simp: fd_at_def nth_append)
  have low: "fd_at ?fds m = p ! m" if "m < 3" for m
    using that assms(1) by (simp add: fd_at_def nth_append)
  have nums: "[3..<3 + 2 * n] ! k = 3 + k" if "k < 2 * n" for k
    using that by simp
  define fds1 where "fds1 = (if com_id \<noteq> 0 then dup2 ([3..<3 + 2 * n] ! (2 * (com_id - 1))) 0 ?fds else ?fds)"
  define fds2 where "fds2 = (if com_id < n - 1 then dup2 ([3..<3 + 2 * n] ! (2 * com_id + 1)) 1 fds1 else fds1)"
  have dup_in: "fd_at fds1 m = (if m = 0 \<and> com_id \<noteq> 0 then Some (Pipe_out (com_id - 1)) else fd_at ?fds m)" for m
    using ends(1) [of "com_id - 1"] assms(2) nums [of "2 * (com_id - 1)"] by (simp add: fds1_def fd_at_dup2)
  have dup_out: "fd_at fds2 m = (if m = 1 \<and> com_id < n - 1 then Some (Pipe_in com_id) else fd_at fds1 m)" for m
    using ends(2) [OF assms(2)] assms(2) nums [of "2 * com_id + 1"] by (simp add: fds2_def fd_at_dup2 dup_in)
  have "fd_at (close_pipes [3..<3 + 2 * n] n fds2) m = (if m \<in> {3..<3 + 2 * n} then None else fd_at fds2 m)"
    by (subst fd_at_close_pipes) simp_all
  also have "\<dots> = (if m = 0 \<and> com_id \<noteq> 0 then Some (Pipe_out (com_id - 1))
     else if m = 1 \<and> com_id < n - 1 then Some (Pipe_in com_id)
     else if m < 3 then p ! m else None)"
    unfolding dup_out dup_in using low [of m] beyond [of m] by auto
  finally show ?thesis by (simp only: child_table_def Let_def fds1_def fds2_def)
qed

section \<open>What the children execute\<close>

text \<open>The programs run from a list of commands: after a command that fails its child runs the rest as well.\<close>

fun runs :: "(byte list list \<Rightarrow> bool) \<Rightarrow> byte list list \<Rightarrow> byte list list list" where
  "runs execvp [] = []"
| "runs execvp (c # cs) =
     (if words 32 c \<noteq> [] \<and> execvp (words 32 c) then [words 32 c] else runs execvp cs) @ runs execvp cs"

lemma strtok_r_c_str: "strtok_r d (c_str s) = strtok_r d s"
  by (simp add: strtok_r_def c_str_no_nul_id)

lemma fork_loop_c_str:
  "fork_loop usable execvp pipes count i n (c_str s) fds = fork_loop usable execvp pipes count i n s fds"
  by (cases n) (simp_all add: strtok_r_c_str)

text \<open>The arrays of all commands have room.\<close>

definition arrays_fit :: "(nat \<Rightarrow> nat) \<Rightarrow> byte list list \<Rightarrow> bool" where
  "arrays_fit usable coms \<longleftrightarrow> (\<forall>c \<in> set coms. 8 * (length (words 32 c) + 1) \<le> usable (length c))"

lemma do_subcoms_words:
  assumes "0 \<notin> set t"
  shows "do_subcoms usable execvp t pipes count i fds =
    (if usable (length t) < 8 * (length (words 32 t) + 1) then None
     else Some (if words 32 t \<noteq> [] \<and> execvp (words 32 t) then Executes (words 32 t) (child_table pipes count i fds)
       else Goes_on (child_table pipes count i fds)))"
  using assms by (simp add: do_subcoms_def tokens_words strlen_def c_str_no_nul_id Let_def)

lemma fork_loop_runs:
  assumes "0 \<notin> set s" and "n = length (words 124 s)" and "arrays_fit usable (words 124 s)"
  shows "\<exists>ps. fork_loop usable execvp pipes count i n s fds = Some ps \<and> map fst ps = runs execvp (words 124 s) \<and>
    ((\<forall>c \<in> set (words 124 s). words 32 c \<noteq> [] \<and> execvp (words 32 c)) \<longrightarrow>
      map snd ps = map (\<lambda>k. child_table pipes count k fds) [i..<i + n])"
  using assms
proof (induction n arbitrary: s i fds)
  case 0
  then show ?case by simp
next
  case (Suc n)
  obtain t rest where
    t: "strtok_r 124 s = (Some t, rest)" "0 \<notin> set t" "0 \<notin> set rest" "words 124 s = t # words 124 rest"
    using strtok_r_words [OF Suc.prems(1), of 124] Suc.prems(2) by auto
  have len: "n = length (words 124 rest)" and fit: "arrays_fit usable (words 124 rest)"
    and "\<not> usable (length t) < 8 * (length (words 32 t) + 1)"
    using Suc.prems(2,3) t(4) by (simp_all add: arrays_fit_def)
  then have sub: "do_subcoms usable execvp t pipes count i fds =
      Some (if words 32 t \<noteq> [] \<and> execvp (words 32 t) then Executes (words 32 t) (child_table pipes count i fds)
        else Goes_on (child_table pipes count i fds))"
    by (simp add: do_subcoms_words [OF t(2)])
  note IH = Suc.IH [OF t(3) len fit, of "Suc i"]
  obtain ps where ps: "fork_loop usable execvp pipes count (Suc i) n rest fds = Some ps"
    "map fst ps = runs execvp (words 124 rest)"
    "(\<forall>c \<in> set (words 124 rest). words 32 c \<noteq> [] \<and> execvp (words 32 c)) \<longrightarrow>
      map snd ps = map (\<lambda>k. child_table pipes count k fds) [Suc i..<Suc i + n]"
    using IH [of fds] by blast
  have upt: "[i..<Suc (i + n)] = i # [Suc i..<Suc (i + n)]" by (simp add: upt_conv_Cons del: upt_Suc)
  show ?case
  proof (cases "words 32 t \<noteq> [] \<and> execvp (words 32 t)")
    case True
    with t(1,4) sub ps show ?thesis
      by (intro exI [of _ "(words 32 t, child_table pipes count i fds) # ps"]) (simp add: upt del: upt_Suc)
  next
    case False
    obtain qs where qs: "fork_loop usable execvp pipes count (Suc i) n rest (child_table pipes count i fds) = Some qs"
      "map fst qs = runs execvp (words 124 rest)"
      using IH [of "child_table pipes count i fds"] by blast
    with False t(1,4) sub ps show ?thesis
      by (intro exI [of _ "qs @ ps"]) (auto simp del: upt_Suc)
  qed
qed

lemma fork_loop_overrun:
  assumes "0 \<notin> set s" and "n = length (words 124 s)" and "\<not> arrays_fit usable (words 124 s)"
  shows "fork_loop usable execvp pipes count i n s fds = None"
  using assms
proof (induction n arbitrary: s i)
  case 0
  then show ?case by (simp add: arrays_fit_def)
next
  case (Suc n)
  obtain t rest where
    t: "strtok_r 124 s = (Some t, rest)" "0 \<notin> set t" "0 \<notin> set rest" "words 124 s = t # words 124 rest"
    using strtok_r_words [OF Suc.prems(1), of 124] Suc.prems(2) by auto
  show ?case
  proof (cases "8 * (length (words 32 t) + 1) \<le> usable (length t)")
    case True
    with Suc.prems t have "fork_loop usable execvp pipes count (Suc i) n rest fds = None"
      by (intro Suc.IH) (auto simp: arrays_fit_def)
    with t show ?thesis by (simp split: option.splits)
  next
    case False
    with t show ?thesis by (simp add: do_subcoms_words)
  qed
qed

lemma runs_all:
  "\<forall>c \<in> set cs. words 32 c \<noteq> [] \<and> execvp (words 32 c) \<Longrightarrow> runs execvp cs = map (words 32) cs"
  by (induction cs) auto

text \<open>The text that the program sees: the file but for its last byte, and what its block held behind that.\<close>

definition seen_text :: "byte list \<Rightarrow> byte list \<Rightarrow> byte list" where
  "seen_text data heap = take (length data - 1) data @ drop (length data - 1) heap"

lemma stick_start:
  assumes "0 \<in> set (seen_text data heap)" and "s = c_str (seen_text data heap)" and "length s < usable 8"
    and "fds = [Some a, Some b, Some c]" and "n = length (words 124 s)"
  obtains buf t where "my_open 2 fds = Returns 3 (fds @ [Some Command_file])"
    and "my_read data heap 3 (fds @ [Some Command_file]) = (buf, fds @ [None])"
    and "c_str buf = s" and "get_coms_count usable buf = Some n" and "set t \<subseteq> {None}"
    and "create_pipes n (fds @ [None]) = ([3..<3 + 2 * n], fds @ pipe_ends n @ t)"
proof -
  have nul: "0 \<notin> set s" by (simp add: assms(2))
  have opened: "my_open 2 fds = Returns 3 (fds @ [Some Command_file])"
    "my_read data heap 3 (fds @ [Some Command_file]) = (seen_text data heap, fds @ [None])"
    using assms(4) by (simp_all add: my_open_def alloc_fd_def my_read_def close_fd_def seen_text_def)
  have count: "get_coms_count usable (seen_text data heap) = Some n"
    using assms(1,3,5) nul by (simp add: get_coms_count_def strlen_def count_tokens_words flip: assms(2))
  have "None \<notin> set fds" "set [None :: fobj option] \<subseteq> {None}" "length fds = 3" using assms(4) by simp_all
  then obtain t where "set t \<subseteq> {None}" "create_pipes n (fds @ [None]) = ([3..<3 + 2 * n], fds @ pipe_ends n @ t)"
    using create_pipes_run [of fds "[None]" n] by metis
  with opened count that show thesis by (metis assms(2))
qed

lemma stick_main_run:
  assumes "0 \<in> set (seen_text data heap)" and "s = c_str (seen_text data heap)" and "length s < usable 8"
    and "fds = [Some a, Some b, Some c]" and "n = length (words 124 s)"
  shows "\<exists>t. set t \<subseteq> {None} \<and> stick_main usable execvp 2 data heap fds =
    Returns (fork_loop usable execvp [3..<3 + 2 * n] n 0 n s (fds @ pipe_ends n @ t))
      (close_pipes [3..<3 + 2 * n] n (fds @ pipe_ends n @ t))"
proof -
  obtain buf t where st: "my_open 2 fds = Returns 3 (fds @ [Some Command_file])"
    "my_read data heap 3 (fds @ [Some Command_file]) = (buf, fds @ [None])"
    "c_str buf = s" "get_coms_count usable buf = Some n" "set t \<subseteq> {None}"
    "create_pipes n (fds @ [None]) = ([3..<3 + 2 * n], fds @ pipe_ends n @ t)"
    by (rule stick_start [of data heap s usable fds a b c n, OF assms])
  then show ?thesis
    using fork_loop_c_str [of usable execvp "[3..<3 + 2 * n]" n 0 n buf "fds @ pipe_ends n @ t"]
    by (intro exI [of _ t]) (simp add: stick_main_def Let_def)
qed

lemma stick_main_long:
  assumes "0 \<notin> set (seen_text data heap) \<or> usable 8 \<le> length (c_str (seen_text data heap))" and "fds = [Some a, Some b, Some c]"
  shows "stick_main usable execvp 2 data heap fds = Faults (fds @ [None])"
proof -
  have "my_open 2 fds = Returns 3 (fds @ [Some Command_file])"
    "my_read data heap 3 (fds @ [Some Command_file]) = (seen_text data heap, fds @ [None])"
    using assms(2) by (simp_all add: my_open_def alloc_fd_def my_read_def close_fd_def seen_text_def)
  moreover have "get_coms_count usable (seen_text data heap) = None"
    using assms(1) by (auto simp: get_coms_count_def strlen_def)
  ultimately show ?thesis by (simp add: stick_main_def)
qed

text \<open>With blocks that are exactly as long as asked for, no command fits its array in a text that fits its copy.\<close>

lemma exact_blocks_fail:
  assumes "\<forall>n. usable n = n" and "words 124 s \<noteq> []" and "length s < usable 8" and "0 \<notin> set s"
  shows "\<not> arrays_fit usable (words 124 s)"
proof -
  obtain t rest where t: "strtok_r 124 s = (Some t, rest)" "words 124 s = t # words 124 rest"
    using strtok_r_words [OF assms(4), of 124] assms(2) by auto
  have "length t \<le> length s"
  proof -
    let ?s = "dropWhile (\<lambda>b. b = 124) s"
    from t(1) have "t = takeWhile (\<lambda>b. b \<noteq> 124) ?s"
      by (auto simp: strtok_r_def c_str_no_nul_id [OF assms(4)] Let_def split: if_splits)
    then have "length t \<le> length ?s" using length_takeWhile_le by metis
    also have "\<dots> \<le> length s" by (rule length_dropWhile_le)
    finally show ?thesis .
  qed
  with assms(1,3) have "length t < 8" by simp
  then have "\<not> 8 * (length (words 32 t) + 1) \<le> usable (length t)" using assms(1) by simp
  with t(2) show ?thesis by (simp add: arrays_fit_def)
qed

section \<open>Pipelines\<close>

text \<open>
  C32: the text of a command file is the file but for its last byte, with what the block behind it held, up to a NUL there.
  When the copy of the text and the arrays of the arguments fit the blocks that \<open>malloc\<close> gives, and every command can be
  executed, the program splits the text at the bars and blanks: there is one child for each command, in order,
  with its words as arguments, its input from the pipe before it, its output to the pipe behind it, the ends of the
  pipeline with the standard ones, and no other descriptor open; nor is one in the parent. When a block has
  only the bytes asked for, which is all that C promises, every text with a command in it is
  copied or has a pointer stored behind a block.
\<close>

theorem stick_pipeline:
  assumes "s = c_str (seen_text data heap)" and "fds = [Some a, Some b, Some c]" and "coms = words (of_char (CHR ''|'')) s"
  shows "(0 \<in> set (seen_text data heap) \<and> length s + 1 \<le> usable 8 \<and>
      (\<forall>c \<in> set coms. 8 * (length (words (of_char (CHR '' '')) c) + 1) \<le> usable (length c)) \<and>
      (\<forall>c \<in> set coms. words (of_char (CHR '' '')) c \<noteq> [] \<and> execvp (words (of_char (CHR '' '')) c)) \<longrightarrow>
    (\<exists>procs fds'. stick_main usable execvp 2 data heap fds = Returns (Some procs) fds' \<and>
      map fst procs = map (words (of_char (CHR '' ''))) coms \<and>
      (\<forall>k < length coms. \<forall>m. fd_at (snd (procs ! k)) m =
         (if m = 0 \<and> k \<noteq> 0 then Some (Pipe_out (k - 1))
          else if m = 1 \<and> k < length coms - 1 then Some (Pipe_in k)
          else fd_at fds m)) \<and>
      (\<forall>m. fd_at fds' m = fd_at fds m))) \<and>
    ((\<forall>n. usable n = n) \<and> coms \<noteq> [] \<longrightarrow>
      (\<exists>fds'. stick_main usable execvp 2 data heap fds \<in> {Faults fds', Returns None fds'}))"
proof (intro conjI impI; (elim conjE)?)
  assume found: "0 \<in> set (seen_text data heap)" and short: "length s + 1 \<le> usable 8"
    and room: "\<forall>c \<in> set coms. 8 * (length (words (of_char (CHR '' '')) c) + 1) \<le> usable (length c)"
    and exec: "\<forall>c \<in> set coms. words (of_char (CHR '' '')) c \<noteq> [] \<and> execvp (words (of_char (CHR '' '')) c)"
  define n where "n = length coms"
  have coms: "coms = words 124 s" "n = length (words 124 s)" using assms(3) by (simp_all add: n_def)
  have nul: "0 \<notin> set s" by (simp add: assms(1))
  have exec: "\<forall>c \<in> set (words 124 s). words 32 c \<noteq> [] \<and> execvp (words 32 c)" using exec coms by simp
  have fit: "arrays_fit usable (words 124 s)" using room coms by (simp add: arrays_fit_def)
  obtain t where t: "set t \<subseteq> {None}" and run: "stick_main usable execvp 2 data heap fds =
    Returns (fork_loop usable execvp [3..<3 + 2 * n] n 0 n s (fds @ pipe_ends n @ t))
      (close_pipes [3..<3 + 2 * n] n (fds @ pipe_ends n @ t))"
    using stick_main_run [of data heap s usable fds a b c n, OF found assms(1) _ assms(2) coms(2)] short by (metis Suc_eq_plus1 less_eq_Suc_le)
  obtain procs where procs: "fork_loop usable execvp [3..<3 + 2 * n] n 0 n s (fds @ pipe_ends n @ t) = Some procs"
      "map fst procs = map (words 32) coms"
      "map snd procs = map (\<lambda>k. child_table [3..<3 + 2 * n] n k (fds @ pipe_ends n @ t)) [0..<n]"
    using fork_loop_runs [OF nul coms(2) fit, of execvp "[3..<3 + 2 * n]" n 0] runs_all [OF exec] exec
    by (fastforce simp: coms(1))
  have len: "length fds = 3" using assms(2) by simp
  have child: "fd_at (snd (procs ! k)) m = (if m = 0 \<and> k \<noteq> 0 then Some (Pipe_out (k - 1))
        else if m = 1 \<and> k < n - 1 then Some (Pipe_in k) else fd_at fds m)" if "k < n" for k m
  proof -
    have "k < length procs" using that procs(2) n_def by (metis length_map)
    then have "snd (procs ! k) = child_table [3..<3 + 2 * n] n k (fds @ pipe_ends n @ t)"
      using that arg_cong [OF procs(3), of "\<lambda>l. l ! k"] by simp
    then show ?thesis
      using fd_at_child_table [OF len that t] by (simp add: fd_at_def len)
  qed
  have parent: "fd_at (close_pipes [3..<3 + 2 * n] n (fds @ pipe_ends n @ t)) m = fd_at fds m" for m
  proof -
    have "fd_at (fds @ pipe_ends n @ t) m = None" if "3 + 2 * n \<le> m"
      using that len t nth_mem [of "m - length fds - 2 * n" t] by (force simp: fd_at_def nth_append)
    then show ?thesis
      using len by (subst fd_at_close_pipes) (auto simp: fd_at_def nth_append)
  qed
  show "\<exists>procs fds'. stick_main usable execvp 2 data heap fds = Returns (Some procs) fds' \<and>
      map fst procs = map (words (of_char (CHR '' ''))) coms \<and>
      (\<forall>k < length coms. \<forall>m. fd_at (snd (procs ! k)) m =
         (if m = 0 \<and> k \<noteq> 0 then Some (Pipe_out (k - 1))
          else if m = 1 \<and> k < length coms - 1 then Some (Pipe_in k)
          else fd_at fds m)) \<and>
      (\<forall>m. fd_at fds' m = fd_at fds m)"
    using run procs(1,2) child [unfolded n_def] parent
    by (intro exI [of _ procs] exI [of _ "close_pipes [3..<3 + 2 * n] n (fds @ pipe_ends n @ t)"]) simp
next
  assume exact: "\<forall>n. usable n = n" and some: "coms \<noteq> []"
  have nul: "0 \<notin> set s" and coms: "words 124 s \<noteq> []" using some assms(1,3) by simp_all
  show "\<exists>fds'. stick_main usable execvp 2 data heap fds \<in> {Faults fds', Returns None fds'}"
  proof (cases "0 \<in> set (seen_text data heap) \<and> length s < usable 8")
    case True
    note fail = exact_blocks_fail [of usable s, OF exact coms conjunct2 [OF True] nul]
    from stick_main_run [of data heap s usable fds a b c, OF conjunct1 [OF True] assms(1) conjunct2 [OF True] assms(2) refl, of execvp] show ?thesis
      by (auto simp: fork_loop_overrun [OF nul refl fail])
  next
    case False
    then show ?thesis using stick_main_long [of data heap usable, OF _ assms(2)] assms(1) by auto
  qed
qed

text \<open>
  The sizes of the blocks of a common \<open>malloc\<close>: multiples of 16 less 8, at least 24. With a text of at most 23 bytes and
  commands of at most two words everything fits.
\<close>

definition common_usable :: "nat \<Rightarrow> nat" where
  "common_usable n = max 24 ((n + 23) div 16 * 16 - 8)"

lemma stick_pipeline_witness:
  "\<exists>procs fds'. stick_main common_usable (\<lambda>_. True) 2 (cstr ''ls -l | wc'' @ [10]) (replicate 24 0)
      [Some (Std 0), Some (Std 1), Some (Std 2)] = Returns (Some procs) fds' \<and>
    map fst procs = [[cstr ''ls'', cstr ''-l''], [cstr ''wc'']] \<and> fd_at (snd (procs ! 1)) 0 = Some (Pipe_out 0)"
proof -
  let ?data = "cstr ''ls -l | wc'' @ [10]" and ?heap = "replicate 24 (0 :: byte)"
  have seen: "seen_text ?data ?heap = cstr ''ls -l | wc'' @ 0 # replicate 13 0"
    by (simp add: seen_text_def eval_nat_numeral)
  then have seen_ls: "cstr ''ls -l | wc'' = c_str (seen_text ?data ?heap)" "0 \<in> set (seen_text ?data ?heap)"
    by (simp_all add: c_str_append_nul)
  define coms where "coms = words (of_char (CHR ''|'')) (cstr ''ls -l | wc'')"
  have c: "coms = [cstr ''ls -l '', cstr '' wc'']"
    "words (of_char (CHR '' '')) (cstr ''ls -l '') = [cstr ''ls'', cstr ''-l'']"
    "words (of_char (CHR '' '')) (cstr '' wc'') = [cstr ''wc'']"
    by (simp_all add: coms_def words_def)
  have fit: "length (cstr ''ls -l | wc'') + 1 \<le> common_usable 8"
    "\<forall>c \<in> set coms. 8 * (length (words (of_char (CHR '' '')) c) + 1) \<le> common_usable (length c)"
    by (simp add: common_usable_def, unfold c(1), unfold list.set ball_simps c, simp add: common_usable_def)
  have exec: "\<forall>c \<in> set coms. words (of_char (CHR '' '')) c \<noteq> [] \<and> True"
    by (unfold c(1), unfold list.set ball_simps c, simp)
  from mp [OF conjunct1 [OF stick_pipeline [OF seen_ls(1) refl coms_def, where usable = common_usable and execvp = "\<lambda>_. True"
      and a = "Std 0" and b = "Std 1" and c = "Std 2"]], OF conjI [OF seen_ls(2) conjI [OF fit(1) conjI [OF fit(2) exec]]]]
  obtain procs fds' where "stick_main common_usable (\<lambda>_. True) 2 ?data ?heap [Some (Std 0), Some (Std 1), Some (Std 2)] =
      Returns (Some procs) fds'"
    "map fst procs = map (words (of_char (CHR '' ''))) coms" "fd_at (snd (procs ! 1)) 0 = Some (Pipe_out 0)"
    using c(1) by (auto simp del: cstr_simps simp: all_conj_distrib)
  with c show ?thesis by (simp del: cstr_simps)
qed

text \<open>
  A child whose command cannot be executed goes on as a second parent: in a pipeline whose first
  command fails every other command is run twice.
\<close>

theorem stick_failed_exec_repeats:
  assumes "0 \<in> set (seen_text data heap)" and "s = c_str (seen_text data heap)" and "length s < usable 8"
    and "fds = [Some a, Some b, Some c]" and "words 124 s = bad # coms" and "arrays_fit usable (bad # coms)"
    and "\<not> execvp (words 32 bad)" and "\<forall>c \<in> set coms. words 32 c \<noteq> [] \<and> execvp (words 32 c)"
  shows "\<exists>procs fds'. stick_main usable execvp 2 data heap fds = Returns (Some procs) fds' \<and>
    map fst procs = map (words 32) (coms @ coms)"
proof -
  have "0 \<notin> set s" by (simp add: assms(2))
  have "runs execvp (words 124 s) = map (words 32) (coms @ coms)"
    using runs_all [OF assms(8)] assms(5,7) by simp
  then show ?thesis
    using stick_main_run [of data heap s usable fds a b c, OF assms(1-4) refl, of execvp] fork_loop_runs [OF \<open>0 \<notin> set s\<close> refl, of usable execvp] assms(5,6)
    by fastforce
qed

end
