(* ===== verification/Sock_Start.thy ===== *)
theory Sock_Start
  imports Sock_Client Sock_System Operator_Stick
begin

text \<open>
  How the programs of \<open>Socket\<close> come by their sockets: the functions of \<open>UDP.c\<close> and \<open>TCP.c\<close> that make, connect
  and listen on one, \<open>main\<close> of \<open>server.c\<close> up to its \<open>master\<close> and \<open>main\<close> of \<open>client.c\<close> up to its loop, over the sockets
  of one host; and the start of a \<open>slave\<close>, which turns its output into a pipe, with its loop.
\<close>

section \<open>The sockets of a host\<close>

text \<open>
  Which sockets there are, the addresses and ports they are bound to (0 is every address), those that may
  share theirs, those that listen, and the connections with the socket that accepts them.
\<close>

record host =
  h_socks :: "(int \<times> protocol) list"
  h_bound :: "(int \<times> 32 word \<times> 16 word) list"
  h_reuse :: "int list"
  h_listening :: "int list"
  h_conns :: "(int \<times> int) list"
  h_next :: int

definition call_socket :: "protocol \<Rightarrow> bool \<Rightarrow> host \<Rightarrow> int \<times> host" where
  "call_socket p ok h =
     (if ok then (h_next h, h\<lparr>h_socks := (h_next h, p) # h_socks h, h_next := h_next h + 1\<rparr>) else (-1, h))"

definition call_close :: "int \<Rightarrow> host \<Rightarrow> host" where
  "call_close sk h = h\<lparr>h_socks := filter (\<lambda>(s, p). s \<noteq> sk) (h_socks h), h_bound := filter (\<lambda>(s, n). s \<noteq> sk) (h_bound h),
     h_reuse := filter (\<lambda>s. s \<noteq> sk) (h_reuse h), h_listening := filter (\<lambda>s. s \<noteq> sk) (h_listening h),
     h_conns := filter (\<lambda>(s, t). s \<noteq> sk) (h_conns h)\<rparr>"

text \<open>
  Two sockets of one protocol have a port in common only with different addresses, or when both were allowed to share it
  before they were bound. \<open>port0\<close> is the port that the kernel picks when none is asked for.
\<close>

definition taken :: "host \<Rightarrow> int \<Rightarrow> protocol \<Rightarrow> 32 word \<Rightarrow> 16 word \<Rightarrow> bool" where
  "taken h sk p a port \<longleftrightarrow>
     list_ex (\<lambda>(s, b, q). map_of (h_socks h) s = Some p \<and> q = port \<and> (a = b \<or> a = 0 \<or> b = 0) \<and>
       \<not> (s \<in> set (h_reuse h) \<and> sk \<in> set (h_reuse h))) (h_bound h)"

definition call_bind :: "16 word \<Rightarrow> int \<Rightarrow> sockaddr_in \<Rightarrow> host \<Rightarrow> bind_result \<times> host" where
  "call_bind port0 sk name h =
     (let port = (if sin_port name = 0 then port0 else sin_port name) in
      case map_of (h_socks h) sk of
        None \<Rightarrow> (Bind_fails, h)
      | Some p \<Rightarrow>
          if map_of (h_bound h) sk \<noteq> None then (Bind_EINVAL, h)
          else if taken h sk p (sin_addr name) port then (Bind_fails, h)
          else (Bound 0, h\<lparr>h_bound := (sk, sin_addr name, port) # h_bound h\<rparr>))"

definition call_connect :: "int \<Rightarrow> sockaddr_in \<Rightarrow> host \<Rightarrow> int \<times> host" where
  "call_connect sk name h =
     (case filter (\<lambda>(s, a, port). map_of (h_socks h) s = Some Tcp \<and> port = sin_port name \<and>
        (a = sin_addr name \<or> a = 0) \<and> s \<in> set (h_listening h)) (h_bound h) of
        [] \<Rightarrow> (-1, h)
      | (s, n) # _ \<Rightarrow> (0, h\<lparr>h_conns := (sk, s) # h_conns h\<rparr>))"

definition call_listen :: "bool \<Rightarrow> int \<Rightarrow> host \<Rightarrow> int \<times> host" where
  "call_listen ok sk h = (if ok then (0, h\<lparr>h_listening := sk # h_listening h\<rparr>) else (-1, h))"

definition call_reuse :: "bool \<Rightarrow> int \<Rightarrow> host \<Rightarrow> int \<times> host" where
  "call_reuse ok sk h = (if ok then (0, h\<lparr>h_reuse := sk # h_reuse h\<rparr>) else (-1, h))"

section \<open>The functions of the two libraries\<close>

definition udp_create_socket :: "bool \<Rightarrow> host \<Rightarrow> int \<times> host" where
  "udp_create_socket ok h = call_socket Udp ok h"

definition udp_connect_socket :: "int \<Rightarrow> sockaddr_in \<Rightarrow> host \<Rightarrow> int \<times> host" where
  "udp_connect_socket sk name h = (0, h)"

definition udp_listen_socket :: "bool \<Rightarrow> int \<Rightarrow> host \<Rightarrow> int \<times> host" where
  "udp_listen_socket ok sk h = (0, h)"

definition tcp_create_socket :: "bool \<Rightarrow> host \<Rightarrow> int \<times> host" where
  "tcp_create_socket ok h = call_socket Tcp ok h"

definition tcp_connect_socket :: "int \<Rightarrow> sockaddr_in \<Rightarrow> host \<Rightarrow> int \<times> host" where
  "tcp_connect_socket sk name h = call_connect sk name h"

definition tcp_listen_socket :: "bool \<Rightarrow> int \<Rightarrow> host \<Rightarrow> int \<times> host" where
  "tcp_listen_socket ok sk h = call_listen ok sk h"

text \<open>What \<open>get_functions\<close> finds in the library of a protocol.\<close>

definition lib_create :: "protocol \<Rightarrow> bool \<Rightarrow> host \<Rightarrow> int \<times> host" where
  "lib_create p = (case p of Udp \<Rightarrow> udp_create_socket | Tcp \<Rightarrow> tcp_create_socket)"

definition lib_connect :: "protocol \<Rightarrow> int \<Rightarrow> sockaddr_in \<Rightarrow> host \<Rightarrow> int \<times> host" where
  "lib_connect p = (case p of Udp \<Rightarrow> udp_connect_socket | Tcp \<Rightarrow> tcp_connect_socket)"

definition lib_listen :: "protocol \<Rightarrow> bool \<Rightarrow> int \<Rightarrow> host \<Rightarrow> int \<times> host" where
  "lib_listen p = (case p of Udp \<Rightarrow> udp_listen_socket | Tcp \<Rightarrow> tcp_listen_socket)"

text \<open>\<open>bind_socket\<close> of \<open>lib.c\<close> with its \<open>close\<close>.\<close>

definition bind_on :: "16 word \<Rightarrow> int \<Rightarrow> sockaddr_in \<Rightarrow> host \<Rightarrow> int \<times> host" where
  "bind_on port0 sk name h =
     (let (r, h) = call_bind port0 sk name h; (ret, closed) = bind_socket r in
      (ret, if closed then call_close sk h else h))"

section \<open>The programs\<close>

definition no_name :: sockaddr_in where
  "no_name = \<lparr>sin_family = 0, sin_port = 0, sin_addr = 0\<rparr>"

text \<open>
  \<open>main\<close> of the server up to \<open>master\<close>. \<open>open_lib\<close> says whether the library of the protocol is there with all its
  functions; the options for sharing are set when the socket has been bound.
\<close>

definition server_begin ::
  "(protocol \<Rightarrow> bool) \<Rightarrow> bool \<Rightarrow> bool \<Rightarrow> bool \<Rightarrow> byte list list \<Rightarrow> host \<Rightarrow> (protocol \<times> int, host) outcome" where
  "server_begin open_lib sock_ok listen_ok opt_ok argv h =
     (if length argv < 2 then Exits (-1) h
      else
        (case choose_protocol (argv ! 1) of
           None \<Rightarrow> Exits (-1) h
         | Some p \<Rightarrow>
             if \<not> open_lib p then Exits (-1) h
             else
               (let (sk, h) = lib_create p sock_ok h in
                if sk < 0 then Exits (-1) h
                else
                  (let name = create_sock_name 0 no_name;
                       (ret, h) = bind_on 0 sk name h in
                   if ret < 0 then Exits (-1) (call_close sk h)
                   else
                     (let (ret, h) = lib_listen p listen_ok sk h in
                      if ret < 0 then Exits (-1) (call_close sk h)
                      else Returns (p, sk) (snd (call_reuse opt_ok sk h)))))))"

text \<open>\<open>main\<close> of the client up to its loop; \<open>get_id\<close> has no part in it.\<close>

definition client_begin ::
  "(protocol \<Rightarrow> bool) \<Rightarrow> (byte list \<Rightarrow> 32 word option) \<Rightarrow> bool \<Rightarrow> 16 word \<Rightarrow> byte list list \<Rightarrow> host \<Rightarrow>
   (protocol \<times> int, host) outcome" where
  "client_begin open_lib inet_aton sock_ok port0 argv h =
     (if length argv < 3 then Exits (-1) h
      else
        (case choose_protocol (argv ! 1) of
           None \<Rightarrow> Exits (-1) h
         | Some p \<Rightarrow>
             if \<not> open_lib p then Exits (-1) h
             else
               (let (ret, addr) = convert_address inet_aton (argv ! 2) 0;
                    name = create_sock_name addr no_name;
                    (sk, h) = lib_create p sock_ok h in
                if sk < 0 then Exits (-1) h
                else
                  (let (ret, h) = lib_connect p sk name h in
                   if ret < 0 then Exits (-1) h
                   else
                     (let name = name\<lparr>sin_addr := 0, sin_port := 0\<rparr>;
                          (ret, h) = (if starts_with (argv ! 1) (cstr ''udp'') then bind_on port0 sk name h else (0, h)) in
                      if ret < 0 then Exits (-1) h else Returns (p, sk) h)))))"

section \<open>Slaves\<close>

text \<open>
  Standard output and error of a \<open>slave\<close> go into a pipe of its own, the \<open>n\<close>-th of the host; the result is the end that
  \<open>send_data\<close> reads.
\<close>

definition slave_output :: "nat \<Rightarrow> fdtab \<Rightarrow> nat \<times> fdtab" where
  "slave_output n fds =
     (case pipe n fds of (buf_pipe, fds) \<Rightarrow>
        (buf_pipe ! 0, dup2 (buf_pipe ! 1) 2 (dup2 (buf_pipe ! 1) 1 fds)))"

type_synonym round = "answers \<times> byte list \<times> byte list \<times> byte list option"

fun udp_slave_loop :: "round list \<Rightarrow> slave \<Rightarrow> (server_effect list \<times> byte list list) list \<times> slave" where
  "udp_slave_loop [] s = ([], s)"
| "udp_slave_loop ((a, beyond, literal, r) # rounds) s =
     (if sl_flag s = 0 then ([], s)
      else
        (let (effects, frames, s) = udp_slave_step a beyond literal r s; (outs, s) = udp_slave_loop rounds s in
         ((effects, frames) # outs, s)))"

definition udp_slave ::
  "nat \<Rightarrow> fdtab \<Rightarrow> round list \<Rightarrow> nat \<times> fdtab \<times> (server_effect list \<times> byte list list) list \<times> slave" where
  "udp_slave n fds rounds =
     (let (buf_pipe, fds) = slave_output n fds in (buf_pipe, fds, udp_slave_loop rounds \<lparr>sl_flag = 1, sl_shellfd = -1\<rparr>))"

text \<open>In \<open>TCP.c\<close> a round may wait for ever, which ends the list.\<close>

fun tcp_slave_loop ::
  "(answers \<times> byte list \<times> byte list) list \<Rightarrow> slave \<times> stream \<Rightarrow>
   (server_effect list \<times> byte list list) list \<times> slave \<times> stream" where
  "tcp_slave_loop [] s = ([], s)"
| "tcp_slave_loop ((a, beyond_id, beyond) # rounds) s =
     (if sl_flag (fst s) = 0 then ([], s)
      else
        (case tcp_slave_step a beyond_id beyond s of
           None \<Rightarrow> ([], s)
         | Some (effects, frames, s) \<Rightarrow>
             (let (outs, s) = tcp_slave_loop rounds s in ((effects, frames) # outs, s))))"

definition tcp_slave ::
  "nat \<Rightarrow> fdtab \<Rightarrow> (answers \<times> byte list \<times> byte list) list \<Rightarrow> stream \<Rightarrow>
   nat \<times> fdtab \<times> (server_effect list \<times> byte list list) list \<times> slave \<times> stream" where
  "tcp_slave n fds rounds sk =
     (let (buf_pipe, fds) = slave_output n fds in
      (buf_pipe, fds, tcp_slave_loop rounds (\<lparr>sl_flag = 1, sl_shellfd = -1\<rparr>, sk)))"

text \<open>The loop of \<open>master\<close> in \<open>UDP.c\<close>, over what it receives and what the kernel answers.\<close>

fun udp_master_loop ::
  "(byte list \<times> (int \<times> int) option \<times> int \<times> bool \<times> byte list) list \<Rightarrow> udp_master \<Rightarrow> effect list \<times> udp_master" where
  "udp_master_loop [] s = ([], s)"
| "udp_master_loop ((beyond, fds, pid, written, buffer) # rounds) s =
     (let (effs, s) = master_step beyond fds pid written buffer s; (rest, s) = udp_master_loop rounds s in (effs @ rest, s))"

definition udp_master_run ::
  "(byte list \<times> (int \<times> int) option \<times> int \<times> bool \<times> byte list) list \<Rightarrow> effect list \<times> udp_master" where
  "udp_master_run rounds = udp_master_loop rounds master_start"

section \<open>Starting servers and clients\<close>

text \<open>No socket of the protocol has the port of the server, and the next number is new.\<close>

definition port_open :: "protocol \<Rightarrow> host \<Rightarrow> bool" where
  "port_open p h \<longleftrightarrow>
     list_all (\<lambda>(s, a, port). map_of (h_socks h) s = Some p \<longrightarrow> port \<noteq> htons port_number) (h_bound h)"

definition host_ok :: "host \<Rightarrow> bool" where
  "host_ok h \<longleftrightarrow> 0 \<le> h_next h \<and> list_all (\<lambda>(s, n). s < h_next h) (h_socks h) \<and>
     list_all (\<lambda>(s, n). s < h_next h) (h_bound h) \<and> list_all (\<lambda>s. s < h_next h) (h_listening h @ h_reuse h)"

text \<open>The host once the server with socket \<open>sk\<close> is there.\<close>

definition served :: "protocol \<Rightarrow> bool \<Rightarrow> int \<Rightarrow> host \<Rightarrow> host" where
  "served p opt_ok sk h = h\<lparr>h_socks := (sk, p) # h_socks h, h_bound := (sk, 0, htons port_number) # h_bound h,
     h_listening := (if p = Tcp then [sk] else []) @ h_listening h,
     h_reuse := (if opt_ok then [sk] else []) @ h_reuse h, h_next := sk + 1\<rparr>"

lemma port_not_0 [simp]: "htons port_number \<noteq> 0"
  by (simp add: htons_def port_number_def)

lemma map_of_new: "list_all (\<lambda>(s, n). s < k) xs \<Longrightarrow> map_of xs (k :: int) = None"
  by (induction xs) auto

lemma not_taken:
  assumes "port_open p h" and "host_ok h"
  shows "\<not> taken (h\<lparr>h_socks := (h_next h, p) # h_socks h, h_next := k\<rparr>) sk p 0 (htons port_number)"
proof -
  have "s \<noteq> h_next h" if "(s, a, q) \<in> set (h_bound h)" for s a q
    using assms(2) that by (auto simp: host_ok_def list_all_iff)
  with assms(1) show ?thesis by (fastforce simp: taken_def port_open_def list_all_iff list_ex_iff)
qed

lemma server_starts:
  assumes "1 < length argv" and "choose_protocol (argv ! 1) = Some p" and "open_lib p" and "host_ok h" and "port_open p h"
  shows "server_begin open_lib True True opt_ok argv h = Returns (p, h_next h) (served p opt_ok (h_next h) h)"
proof -
  have "map_of (h_bound h) (h_next h) = None" using assms(4) by (auto simp: host_ok_def intro: map_of_new)
  then show ?thesis
    using assms(1-3) not_taken [OF assms(5,4)] assms(4)
    by (cases p) (simp_all add: server_begin_def lib_create_def lib_listen_def udp_create_socket_def tcp_create_socket_def
        udp_listen_socket_def tcp_listen_socket_def call_socket_def call_listen_def call_reuse_def bind_on_def bind_socket_def
        call_bind_def create_sock_name_def no_name_def served_def host_ok_def Let_def)
qed

lemma list_all_less:
  "list_all (\<lambda>s. s < k) xs \<Longrightarrow> list_all (\<lambda>s. s \<le> k) (xs :: int list)"
  "list_all (\<lambda>(s, n). s < k) ys \<Longrightarrow> list_all (\<lambda>(s, n). s \<le> k) (ys :: (int \<times> 'a) list)"
  by (auto elim!: list.pred_mono_strong)

lemma served_ok: "host_ok h \<Longrightarrow> host_ok (served p opt_ok (h_next h) h)"
  by (simp add: host_ok_def served_def list_all_less)

lemma served_port: "p' \<noteq> p \<Longrightarrow> port_open p' h \<Longrightarrow> host_ok h \<Longrightarrow> port_open p' (served p opt_ok (h_next h) h)"
  by (fastforce simp: port_open_def served_def list_all_iff host_ok_def)

text \<open>A second server of the protocol is refused, whatever options the first one has set.\<close>

lemma server_refused:
  assumes "1 < length argv" and "choose_protocol (argv ! 1) = Some p" and "open_lib p" and "host_ok h"
    and "map_of (h_socks h) s = Some p" and "(s, 0, htons port_number) \<in> set (h_bound h)"
  shows "\<exists>h'. server_begin open_lib True listen_ok opt_ok argv h = Exits (-1) h' \<and>
    h_bound h' = h_bound h \<and> h_listening h' = h_listening h \<and> h_socks h' = h_socks h"
proof -
  let ?h = "h\<lparr>h_socks := (h_next h, p) # h_socks h, h_next := h_next h + 1\<rparr>"
  have new: "map_of (h_bound h) (h_next h) = None" using assms(4) by (auto simp: host_ok_def intro: map_of_new)
  have less: "s < h_next h" "h_next h \<notin> set (h_reuse h)" using assms(4,6) by (auto simp: host_ok_def list_all_iff)
  then have taken: "taken ?h (h_next h) p 0 (htons port_number)"
    using assms(5,6) by (auto simp: taken_def list_ex_iff intro!: bexI [of _ "(s, 0, htons port_number)"])
  have same: "filter (\<lambda>(t, n). t \<noteq> h_next h) (h_bound h) = h_bound h" "filter (\<lambda>t. t \<noteq> h_next h) (h_listening h) = h_listening h"
    "filter (\<lambda>(t, n). t \<noteq> h_next h) (h_socks h) = h_socks h"
    using assms(4) by (auto simp: host_ok_def list_all_iff filter_id_conv)
  have "call_bind 0 (h_next h) (create_sock_name 0 no_name) ?h = (Bind_fails, ?h)"
    using new taken by (simp add: call_bind_def create_sock_name_def no_name_def)
  then have "server_begin open_lib True listen_ok opt_ok argv h = Exits (-1) (call_close (h_next h) (call_close (h_next h) ?h))"
    using assms(1-4) by (cases p) (simp_all add: server_begin_def lib_create_def udp_create_socket_def tcp_create_socket_def
        call_socket_def bind_on_def bind_socket_def host_ok_def Let_def)
  then show ?thesis using same by (simp add: call_close_def)
qed

text \<open>A client of the TCP server is connected to it whatever address of the host it was given.\<close>

lemma tcp_client_connected:
  assumes "2 < length argv" and "choose_protocol (argv ! 1) = Some Tcp" and "open_lib Tcp" and "0 \<le> h_next h"
  shows "\<exists>h'. client_begin open_lib inet_aton True port0 argv (served Tcp opt_ok (h_next h) h) = Returns (Tcp, h_next h + 1) h' \<and>
    h_conns h' = (h_next h + 1, h_next h) # h_conns h"
proof -
  have "\<not> starts_with (argv ! 1) (cstr ''udp'')"
    using assms(2) by (auto simp: choose_protocol_def split: if_splits)
  with assms show ?thesis
    by (simp add: client_begin_def lib_create_def lib_connect_def tcp_create_socket_def tcp_connect_socket_def call_socket_def
        call_connect_def create_sock_name_def no_name_def served_def convert_address_def Let_def split: option.split)
qed

section \<open>The output of a slave\<close>

lemma alloc_fd_at:
  assumes "alloc_fd x fds = (n, fds')"
  shows "fd_at fds n = None" "fd_at fds' d = (if d = n then Some x else fd_at fds d)"
proof -
  let ?P = "\<lambda>f :: fobj option. f \<noteq> None"
  have n: "n = length (takeWhile ?P fds)" and fds': "fds' = (if n < length fds then fds[n := Some x] else fds @ [Some x])"
    using assms by (auto simp: alloc_fd_def Let_def)
  have le: "n \<le> length fds" unfolding n by (rule length_takeWhile_le)
  have none: "n < length fds \<Longrightarrow> fds ! n = None"
    using nth_length_takeWhile [of ?P fds] n by simp
  then show "fd_at fds n = None" by (simp add: fd_at_def)
  show "fd_at fds' d = (if d = n then Some x else fd_at fds d)"
    using le none by (auto simp: fd_at_def fds' nth_append nth_list_update)
qed

lemma dup2_at: "fd_at fds a \<noteq> None \<Longrightarrow> fd_at (dup2 a b fds) d = (if d = b then fd_at fds a else fd_at fds d)"
  by (auto simp: dup2_def fd_at_def nth_append nth_list_update)

text \<open>Both outputs lead into the pipe, the result is its other end, and everything else stays as it was.\<close>

lemma slave_output_at:
  assumes "slave_output n fds = (r, fds')" and "\<forall>d \<le> 2. fd_at fds d \<noteq> None"
  shows "fd_at fds' 1 = Some (Pipe_in n)" "fd_at fds' 2 = Some (Pipe_in n)" "fd_at fds' r = Some (Pipe_out n)"
    "d \<noteq> 1 \<Longrightarrow> d \<noteq> 2 \<Longrightarrow> fd_at fds d \<noteq> None \<Longrightarrow> fd_at fds' d = fd_at fds d"
proof -
  obtain fds1 w fds2 where 1: "alloc_fd (Pipe_out n) fds = (r, fds1)" "alloc_fd (Pipe_in n) fds1 = (w, fds2)"
    "fds' = dup2 w 2 (dup2 w 1 fds2)"
    using assms(1) by (auto simp: slave_output_def pipe_def split: prod.splits)
  note A = alloc_fd_at [OF 1(1)] and B = alloc_fd_at [OF 1(2)]
  have "r \<noteq> w" using A B by auto
  have "fd_at fds 1 \<noteq> None" "fd_at fds 2 \<noteq> None" using assms(2) by simp_all
  then have "w \<noteq> 1" "w \<noteq> 2" "r \<noteq> 1" "r \<noteq> 2" using A B(1) by (metis option.distinct(1))+
  have at: "fd_at fds' d = (if d = 1 \<or> d = 2 \<or> d = w then Some (Pipe_in n) else if d = r then Some (Pipe_out n) else fd_at fds d)" for d
    using \<open>w \<noteq> 1\<close> by (simp add: 1(3) dup2_at B(2) A(2))
  show "fd_at fds' 1 = Some (Pipe_in n)" "fd_at fds' 2 = Some (Pipe_in n)" "fd_at fds' r = Some (Pipe_out n)"
    using \<open>r \<noteq> w\<close> \<open>r \<noteq> 1\<close> \<open>r \<noteq> 2\<close> by (simp_all add: at)
  show "d \<noteq> 1 \<Longrightarrow> d \<noteq> 2 \<Longrightarrow> fd_at fds d \<noteq> None \<Longrightarrow> fd_at fds' d = fd_at fds d"
    using A(1) B(1) by (auto simp: at A(2) split: if_splits)
qed

section \<open>The property\<close>

text \<open>
  C12: a server whose library is there and whose port is free in its protocol starts, bound to the port at the address 0,
  which stands for every address of the host, and listening if the protocol is TCP.
  A second server of the same protocol ends with -1 and leaves the first as it was, for the options that let two sockets share
  a port are set behind \<open>bind\<close>; one of the other protocol starts beside it. A client of a TCP server is connected to
  it whatever address of the host it was given, also where \<open>inet_aton\<close> fails. In each slave standard output and error
  lead into the pipe that its \<open>send_data\<close> reads, and its other descriptors stay.
\<close>

theorem servers_start:
  assumes "1 < length argv" and "choose_protocol (argv ! 1) = Some p" and "open_lib p" and "host_ok h" and "port_open p h"
  shows "\<exists>h1. server_begin open_lib True True opt_ok argv h = Returns (p, h_next h) h1 \<and>
    h_bound h1 = (h_next h, 0, htons port_number) # h_bound h \<and> map_of (h_socks h1) (h_next h) = Some p \<and>
    (p = Tcp \<longrightarrow> h_next h \<in> set (h_listening h1)) \<and>
    (\<exists>h2. server_begin open_lib True True opt_ok argv h1 = Exits (-1) h2 \<and> h_bound h2 = h_bound h1 \<and>
      h_listening h2 = h_listening h1 \<and> h_socks h2 = h_socks h1) \<and>
    (\<forall>argv' q. 1 < length argv' \<longrightarrow> choose_protocol (argv' ! 1) = Some q \<longrightarrow> open_lib q \<longrightarrow> q \<noteq> p \<longrightarrow> port_open q h \<longrightarrow>
      (\<exists>h2. server_begin open_lib True True opt_ok argv' h1 = Returns (q, h_next h1) h2)) \<and>
    (p = Tcp \<longrightarrow> (\<forall>argv'. 2 < length argv' \<longrightarrow> choose_protocol (argv' ! 1) = Some Tcp \<longrightarrow>
      (\<exists>h2. client_begin open_lib inet_aton True port0 argv' h1 = Returns (Tcp, h_next h1) h2 \<and>
        h_conns h2 = (h_next h1, h_next h) # h_conns h1))) \<and>
    (\<forall>n fds r fds'. slave_output n fds = (r, fds') \<longrightarrow> (\<forall>d\<le>2. fd_at fds d \<noteq> None) \<longrightarrow>
      fd_at fds' 1 = Some (Pipe_in n) \<and> fd_at fds' 2 = Some (Pipe_in n) \<and> fd_at fds' r = Some (Pipe_out n) \<and>
      (\<forall>d. d \<noteq> 1 \<longrightarrow> d \<noteq> 2 \<longrightarrow> fd_at fds d \<noteq> None \<longrightarrow> fd_at fds' d = fd_at fds d))"
proof -
  let ?h1 = "served p opt_ok (h_next h) h"
  have 1: "server_begin open_lib True True opt_ok argv h = Returns (p, h_next h) ?h1"
    by (rule server_starts [of argv p open_lib h opt_ok, OF assms])
  have h1: "h_next ?h1 = h_next h + 1" "map_of (h_socks ?h1) (h_next h) = Some p"
    "(h_next h, 0, htons port_number) \<in> set (h_bound ?h1)" "h_conns ?h1 = h_conns h" by (simp_all add: served_def)
  note refused = server_refused [of argv p open_lib ?h1 "h_next h" True opt_ok, OF assms(1-3) served_ok [OF assms(4)] h1(2,3)]
  have other: "\<exists>h2. server_begin open_lib True True opt_ok argv' ?h1 = Returns (q, h_next ?h1) h2"
    if "1 < length argv'" "choose_protocol (argv' ! 1) = Some q" "open_lib q" "q \<noteq> p" "port_open q h" for argv' q
    using server_starts [of argv' q open_lib ?h1 opt_ok, OF that(1-3) served_ok [OF assms(4)] served_port [OF that(4,5) assms(4)]] by blast
  have client: "\<exists>h2. client_begin open_lib inet_aton True port0 argv' ?h1 = Returns (Tcp, h_next ?h1) h2 \<and>
        h_conns h2 = (h_next ?h1, h_next h) # h_conns ?h1"
    if "p = Tcp" "2 < length argv'" "choose_protocol (argv' ! 1) = Some Tcp" for argv'
    using tcp_client_connected [of argv' open_lib h inet_aton port0 opt_ok, OF that(2,3)] assms(3,4) that(1) by (simp add: host_ok_def served_def)
  have bound: "h_bound ?h1 = (h_next h, 0, htons port_number) # h_bound h" "p = Tcp \<Longrightarrow> h_next h \<in> set (h_listening ?h1)"
    by (simp_all add: served_def)
  show ?thesis
    by (intro exI [of _ ?h1] conjI 1 bound h1(2) refused allI impI other client; blast dest: slave_output_at)
qed

theorem servers_start_witness:
  "\<exists>h1 h2. server_begin (\<lambda>_. True) True True True [cstr ''server'', cstr ''tcp'' @ [0]]
      \<lparr>h_socks = [], h_bound = [], h_reuse = [], h_listening = [], h_conns = [], h_next = 3\<rparr> = Returns (Tcp, 3) h1 \<and>
    server_begin (\<lambda>_. True) True True True [cstr ''server'', cstr ''tcp'' @ [0]] h1 = Exits (-1) h2"
proof -
  let ?argv = "[cstr ''server'', cstr ''tcp'' @ [0]]"
  define h where "h = \<lparr>h_socks = [], h_bound = [], h_reuse = [], h_listening = [], h_conns = [], h_next = 3\<rparr>"
  have "1 < length ?argv" "choose_protocol (?argv ! 1) = Some Tcp" "host_ok h" "port_open Tcp h" and next3: "h_next h = 3"
    by (simp_all add: choose_protocol_def starts_with_prefix host_ok_def port_open_def h_def)
  note start = servers_start [of ?argv Tcp "\<lambda>_. True" h True "\<lambda>_. None" 0, OF this(1,2) _ this(3,4), unfolded next3]
  show ?thesis
    unfolding h_def [symmetric] by (rule exE [OF start]) (rule TrueI, elim conjE exE, intro exI conjI)
qed

end
