(* ===== verification/Sock_Drafts.thy ===== *)
theory Sock_Drafts
  imports Sock_Lib
begin

text \<open>
  \<open>Socket/trash\<close>: the first servers and clients, before the library of \<open>Socket\<close>. One server
  answers one request over a local socket, one over TCP, one forks for each connection; the
  clients send a line as a frame of 256 bytes. What the kernel answers is an argument, what a
  program does to descriptors and output is a list of effects.
\<close>

section \<open>my_server.h\<close>

datatype draft_effect =
    Out "byte list"
  | Send int "byte list"
  | Close_fd int
  | Unlink_path

text \<open>The calls that end the program when they fail; the effects before it are in the world.\<close>

definition create_socket :: "int \<Rightarrow> draft_effect list \<Rightarrow> (int, draft_effect list) outcome" where
  "create_socket sk w = (if sk < 0 then Exits 1 w else Returns sk w)"

definition convert_address' :: "'addr option \<Rightarrow> draft_effect list \<Rightarrow> ('addr, draft_effect list) outcome" where
  "convert_address' addr w = (case addr of None \<Rightarrow> Exits 1 w | Some a \<Rightarrow> Returns a w)"

definition connect_socket :: "int \<Rightarrow> int \<Rightarrow> draft_effect list \<Rightarrow> (unit, draft_effect list) outcome" where
  "connect_socket sk ret w = (if ret \<noteq> 0 then Exits 1 (w @ [Close_fd sk]) else Returns () w)"

definition bind_socket' :: "int \<Rightarrow> int \<Rightarrow> draft_effect list \<Rightarrow> (unit, draft_effect list) outcome" where
  "bind_socket' sk ret w = (if ret < 0 then Exits 1 (w @ [Close_fd sk]) else Returns () w)"

definition listen_socket :: "int \<Rightarrow> int \<Rightarrow> draft_effect list \<Rightarrow> (unit, draft_effect list) outcome" where
  "listen_socket sk ret w = (if ret \<noteq> 0 then Exits 1 (w @ [Close_fd sk]) else Returns () w)"

definition accept_socket' :: "int \<Rightarrow> draft_effect list \<Rightarrow> (int, draft_effect list) outcome" where
  "accept_socket' ret w = (if ret < 0 then Exits 1 w else Returns ret w)"

text \<open>
  \<open>get_str\<close>: \<open>r\<close> is what \<open>fgets\<close> stores, at most 255 bytes. The newline is overwritten; on an
  empty string the store goes in front of the array, which is undefined.
\<close>

definition get_str' :: "byte list option \<Rightarrow> byte list \<Rightarrow> draft_effect list \<Rightarrow> (byte list, draft_effect list) outcome" where
  "get_str' r buffer w =
     (let tmp = (case r of None \<Rightarrow> replicate BUFSZ 0 | Some s \<Rightarrow> store_at 0 (s @ [0]) (replicate BUFSZ 0));
          n = strlen tmp in
      if n = 0 then Faults w
      else Returns (store_at 0 (c_str (tmp[n - 1 := 0]) @ [0]) buffer) w)"

section \<open>The clients over TCP\<close>

text \<open>
  A round of the loop of \<open>client_TCP.c\<close> (and \<open>client_test.c\<close>, the same text): \<open>sent\<close> is what
  \<open>send\<close> answers, \<open>got\<close> what \<open>recvfrom\<close> delivers.
\<close>

definition client_round ::
  "int \<Rightarrow> byte list option \<Rightarrow> bool \<Rightarrow> byte list option \<Rightarrow> draft_effect list \<Rightarrow> (unit, draft_effect list) outcome" where
  "client_round sk line sent got w =
     bind_outcome (get_str' line (replicate BUFSZ 0) w) (\<lambda>buffer w.
     if \<not> sent then Exits 1 w
     else
       (let w = w @ [Send sk (take BUFSZ buffer)] in
        case got of
          None \<Rightarrow> Exits 1 w
        | Some bs \<Rightarrow>
            (let buffer = store_at 0 (take BUFSZ bs) (replicate BUFSZ 0) in
             Returns () (w @ [Out (cstr ''response: '' @ c_str buffer @ [10])]))))"

section \<open>server_UNIX.c\<close>

definition PRINT :: "byte list" where "PRINT = cstr ''print''"
definition EXIT :: "byte list" where "EXIT = cstr ''exit''"
definition DUMMY_STR :: "byte list" where "DUMMY_STR = cstr ''lalala printing smth for otl10''"

text \<open>\<open>sizeof\<close> counts the NUL of the literal, so the whole text is compared.\<close>

definition unix_handler :: "byte list \<Rightarrow> int \<times> draft_effect list" where
  "unix_handler buffer =
     (if strncmp buffer PRINT (length PRINT + 1) = 0 then (1, [Out (DUMMY_STR @ [10])])
      else if strncmp buffer EXIT (length EXIT + 1) = 0 then (0, [])
      else (0, [Out (cstr ''UNKNOWN COMMAND'' @ [10])]))"

text \<open>
  The loop, over the connections that come, each with the descriptor \<open>accept\<close> gives and what
  \<open>read\<close> delivers; it blocks when no more come.
\<close>

fun unix_serve :: "(int \<times> byte list option) list \<Rightarrow> draft_effect list \<Rightarrow> (unit, draft_effect list) outcome" where
  "unix_serve [] w = Blocks w"
| "unix_serve ((fd, r) # conns) w =
     bind_outcome (accept_socket' fd w) (\<lambda>client_sk w.
     case r of
       None \<Rightarrow> Exits 1 w
     | Some bs \<Rightarrow>
         (let (flag, es) = unix_handler (store_at 0 (take BUFSZ bs) (replicate BUFSZ 0));
              w = w @ es @ [Close_fd client_sk] in
          if flag \<noteq> 0 then unix_serve conns w
          else Returns () (w @ [Out (cstr ''End of server'' @ [10]), Unlink_path])))"

definition unix_main ::
  "int \<Rightarrow> int \<Rightarrow> int \<Rightarrow> (int \<times> byte list option) list \<Rightarrow> (unit, draft_effect list) outcome" where
  "unix_main sk bound listened conns =
     bind_outcome (create_socket sk [Unlink_path]) (\<lambda>sk w.
     bind_outcome (bind_socket' sk bound w) (\<lambda>_ w.
     bind_outcome (listen_socket sk listened w) (\<lambda>_ w.
     unix_serve conns w)))"

text \<open>
  \<open>client_UNIX.c\<close>: each word goes over a connection of its own; at the end of the input \<open>scanf\<close>
  leaves the buffer as it is. \<open>conn\<close> has the socket and the result of \<open>connect\<close>. A word of 256
  bytes or more overruns the buffer.
\<close>

definition unix_client_round ::
  "int \<times> int \<Rightarrow> byte list option \<Rightarrow> bool \<Rightarrow> byte list \<Rightarrow> draft_effect list \<Rightarrow> (byte list, draft_effect list) outcome" where
  "unix_client_round conn word written buffer w =
     bind_outcome (create_socket (fst conn) w) (\<lambda>sk w.
     bind_outcome (connect_socket sk (snd conn) w) (\<lambda>_ w.
     let buffer = (case word of None \<Rightarrow> buffer | Some s \<Rightarrow> store_at 0 (s @ [0]) buffer) in
     if \<not> written then Exits 1 w
     else Returns buffer (w @ [Send sk (take BUFSZ buffer), Close_fd sk])))"

section \<open>server_TCP.c and server_test.c\<close>

text \<open>What both send back: the bytes received, the first of them overwritten.\<close>

definition echo_frame :: "byte list \<Rightarrow> byte list" where
  "echo_frame bs = (store_at 0 (take BUFSZ bs) (replicate BUFSZ 0))[0 := of_char (CHR ''a'')]"

definition echo_once :: "int \<Rightarrow> byte list option \<Rightarrow> bool \<Rightarrow> draft_effect list \<Rightarrow> (unit, draft_effect list) outcome" where
  "echo_once client_sk r sent w =
     (case r of
        None \<Rightarrow> Exits 1 w
      | Some bs \<Rightarrow>
          (let w = w @ [Out (cstr ''read: '' @ c_str (store_at 0 (take BUFSZ bs) (replicate BUFSZ 0)) @ [10])];
               buffer = echo_frame bs in
           if \<not> sent then Exits 1 (w @ [Out (cstr ''ret: -1'' @ [10])])
           else Returns () (w @ [Send client_sk buffer, Out (cstr ''ret: 256'' @ [10]),
                                 Out (cstr ''write: '' @ c_str buffer @ [9, 10])])))"

text \<open>
  \<open>server_TCP.c\<close>: every round accepts a connection and answers its first message; connections
  are not closed. A connection is given with its messages in the order in which \<open>recvfrom\<close>
  would deliver them.
\<close>

fun tcp_serve :: "(int \<times> byte list list \<times> bool) list \<Rightarrow> draft_effect list \<Rightarrow> (unit, draft_effect list) outcome" where
  "tcp_serve [] w = Blocks w"
| "tcp_serve ((fd, msgs, sent) # conns) w =
     bind_outcome (accept_socket' fd w) (\<lambda>client_sk w.
     case msgs of
       [] \<Rightarrow> Blocks w
     | bs # _ \<Rightarrow> bind_outcome (echo_once client_sk (Some bs) sent w) (\<lambda>_ w. tcp_serve conns w))"

text \<open>The child of \<open>server_test.c\<close> stays with its connection.\<close>

fun test_child :: "int \<Rightarrow> (byte list option \<times> bool) list \<Rightarrow> draft_effect list \<Rightarrow> (unit, draft_effect list) outcome" where
  "test_child client_sk [] w = Blocks w"
| "test_child client_sk ((r, sent) # msgs) w =
     bind_outcome (echo_once client_sk r sent w) (\<lambda>_ w. test_child client_sk msgs w)"

section \<open>Texts in frames\<close>

lemma strncmp_whole:
  assumes "0 \<notin> set t"
  shows "strncmp s t (length t + 1) = 0 \<longleftrightarrow> c_str s = t"
  using assms
proof (induction t arbitrary: s)
  case Nil
  then show ?case by (cases s) (auto simp: uint_0_iff)
next
  case (Cons b t)
  then show ?case by (cases s) (auto simp: uint_0_iff dest: word_uint_eqI)
qed

lemma draft_frame_text:
  assumes "length bs \<le> BUFSZ"
  shows "c_str (store_at 0 (take BUFSZ bs) (replicate BUFSZ 0)) = c_str bs"
proof -
  have "c_str (bs @ replicate n 0) = c_str bs" for n
    by (induction bs) (cases n; simp)+
  with assms show ?thesis by (simp add: store_at_def)
qed

lemma unix_handler_text:
  "unix_handler buffer =
     (if c_str buffer = PRINT then (1, [Out (DUMMY_STR @ [10])])
      else if c_str buffer = EXIT then (0, []) else (0, [Out (cstr ''UNKNOWN COMMAND'' @ [10])]))"
proof -
  have nul: "0 \<notin> set PRINT" "0 \<notin> set EXIT" by (simp_all add: PRINT_def EXIT_def)
  show ?thesis
    unfolding unix_handler_def strncmp_whole [OF nul(1)] strncmp_whole [OF nul(2)] by (rule refl)
qed

text \<open>What the server has done after serving \<open>print\<close> over each of the descriptors.\<close>

definition printed :: "int list \<Rightarrow> draft_effect list" where
  "printed fds = concat (map (\<lambda>fd. [Out (DUMMY_STR @ [10]), Close_fd fd]) fds)"

lemma printed_simps [simp]: "printed [] = []" "printed (fd # fds) = [Out (DUMMY_STR @ [10]), Close_fd fd] @ printed fds"
  by (simp_all add: printed_def)

lemma unix_serve_prints:
  assumes "\<forall>(fd, r) \<in> set conns. 0 \<le> fd \<and> (\<exists>bs. r = Some bs \<and> length bs \<le> BUFSZ \<and> c_str bs = PRINT)"
  shows "unix_serve (conns @ rest) w = unix_serve rest (w @ printed (map fst conns))"
  using assms
proof (induction conns arbitrary: w)
  case (Cons c conns)
  obtain fd bs where c: "c = (fd, Some bs)" "0 \<le> fd" "length bs \<le> BUFSZ" "c_str bs = PRINT"
    using Cons.prems by (cases c) auto
  then have "unix_handler (store_at 0 (take BUFSZ bs) (replicate BUFSZ 0)) = (1, [Out (DUMMY_STR @ [10])])"
    unfolding unix_handler_text draft_frame_text [OF c(3)] by simp
  with c(2) have "unix_serve ((fd, Some bs) # conns @ rest) w =
      unix_serve (conns @ rest) (w @ [Out (DUMMY_STR @ [10]), Close_fd fd])"
    unfolding unix_serve.simps by (simp add: accept_socket'_def)
  with Cons c(1) show ?case by simp
qed simp

lemma client_frame:
  assumes "0 \<notin> set t" and "length t < BUFSZ" and "length buffer = BUFSZ"
  shows "length (store_at 0 (t @ [0]) buffer) = BUFSZ" and "c_str (store_at 0 (t @ [0]) buffer) = t"
  using assms by (auto intro!: c_str_stored_text simp: length_store_at)

lemma unix_client_send:
  assumes "0 \<notin> set t" and "length t < BUFSZ" and "length buffer = BUFSZ" and "0 \<le> sk"
  shows "unix_client_round (sk, 0) (Some t) True buffer w =
    Returns (store_at 0 (t @ [0]) buffer) (w @ [Send sk (store_at 0 (t @ [0]) buffer), Close_fd sk])"
  using client_frame(1) [OF assms(1-3)] assms(4)
  by (simp add: unix_client_round_def create_socket_def connect_socket_def Let_def)

section \<open>Echo\<close>

fun sends :: "int \<Rightarrow> draft_effect list \<Rightarrow> byte list list" where
  "sends fd [] = []"
| "sends fd (Send d b # es) = (if d = fd then b # sends fd es else sends fd es)"
| "sends fd (e # es) = sends fd es"

lemma sends_append [simp]: "sends fd (es @ es') = sends fd es @ sends fd es'"
  by (induction fd es rule: sends.induct) auto

lemma echo_once_sends:
  obtains es where "echo_once fd (Some bs) True w = Returns () (w @ es)" and "sends fd es = [echo_frame bs]"
    and "\<And>d. d \<noteq> fd \<Longrightarrow> sends d es = []"
  by (rule that) (auto simp: echo_once_def Let_def)

lemma test_child_all:
  "\<exists>es. test_child fd (map (\<lambda>bs. (Some bs, True)) msgs) w = Blocks (w @ es) \<and> sends fd es = map echo_frame msgs"
proof (induction msgs arbitrary: w)
  case (Cons bs msgs)
  obtain es where 1: "echo_once fd (Some bs) True w = Returns () (w @ es)" "sends fd es = [echo_frame bs]"
    by (rule echo_once_sends [of fd bs w])
  from Cons.IH [of "w @ es"] obtain es' where
    "test_child fd (map (\<lambda>bs. (Some bs, True)) msgs) (w @ es) = Blocks ((w @ es) @ es')"
    "sends fd es' = map echo_frame msgs" by blast
  with 1 show ?case by (intro exI [of _ "es @ es'"]) simp
qed simp

lemma tcp_serve_first:
  assumes "\<forall>(fd, msgs, sent) \<in> set conns. 0 \<le> fd \<and> msgs \<noteq> [] \<and> sent" and "distinct (map fst conns)"
  shows "\<exists>es. tcp_serve conns w = Blocks (w @ es) \<and>
    (\<forall>(fd, msgs, sent) \<in> set conns. sends fd es = [echo_frame (hd msgs)]) \<and>
    (\<forall>fd. fd \<notin> fst ` set conns \<longrightarrow> sends fd es = [])"
  using assms
proof (induction conns arbitrary: w)
  case (Cons c conns)
  obtain fd bs msgs where c: "c = (fd, bs # msgs, True)" "0 \<le> fd"
    using Cons.prems(1) by (cases c; cases "fst (snd c)") auto
  have fresh: "fd \<notin> fst ` set conns" using Cons.prems(2) c by simp
  obtain es where 1: "echo_once fd (Some bs) True w = Returns () (w @ es)" "sends fd es = [echo_frame bs]"
      "\<And>d. d \<noteq> fd \<Longrightarrow> sends d es = []"
    by (rule echo_once_sends [of fd bs w]) (rule that)
  from Cons.IH [of "w @ es"] Cons.prems obtain es' where
    2: "tcp_serve conns (w @ es) = Blocks ((w @ es) @ es')"
      "\<forall>(fd, msgs, sent) \<in> set conns. sends fd es' = [echo_frame (hd msgs)]"
      "\<forall>fd. fd \<notin> fst ` set conns \<longrightarrow> sends fd es' = []" by auto
  have "sends d (es @ es') = [echo_frame (hd ms)]" if "(d, ms, sent) \<in> set (c # conns)" for d ms sent
  proof (cases "(d, ms, sent) = c")
    case True
    with c 1(2) 2(3) fresh show ?thesis by simp
  next
    case False
    with that have "(d, ms, sent) \<in> set conns" by simp
    moreover from this fresh have "d \<noteq> fd" by force
    ultimately show ?thesis using 1(3) 2(2) by auto
  qed
  moreover have "sends d (es @ es') = []" if "d \<notin> fst ` set (c # conns)" for d
    using that 1(3) 2(3) c by simp
  moreover have "tcp_serve (c # conns) w = Blocks (w @ es @ es')"
    using c 1(1) 2(1) by (simp add: accept_socket'_def)
  ultimately show ?case by blast
qed simp

text \<open>The frame for a line, and what comes back of it.\<close>

lemma draft_get_str_line:
  assumes "0 \<notin> set t" and "length t < BUFSZ - 1"
  shows "get_str' (Some (t @ [10])) (replicate BUFSZ 0) w = Returns (t @ replicate (BUFSZ - length t) 0) w"
proof -
  let ?tmp = "store_at 0 ((t @ [10]) @ [0]) (replicate BUFSZ 0)"
  have nul: "0 \<notin> set (t @ [10])" using assms(1) by simp
  then have c: "c_str ?tmp = t @ [10]" using c_str_stored_text [of "t @ [10]"] by simp
  have n: "strlen ?tmp = Suc (length t)" unfolding strlen_def c by simp
  have tmp: "?tmp = t @ 10 # 0 # replicate (BUFSZ - length t - 2) 0"
    using assms(2) by (simp add: store_at_def)
  then have "?tmp[length t := 0] = t @ 0 # 0 # replicate (BUFSZ - length t - 2) 0" by simp
  then have "c_str (?tmp[length t := 0]) = t" using assms(1) by (simp add: c_str_append_nul)
  moreover have "store_at 0 (t @ [0]) (replicate BUFSZ 0) = t @ replicate (BUFSZ - length t) 0"
  proof -
    have "BUFSZ - length t = Suc (BUFSZ - Suc (length t))" using assms(2) by simp
    then show ?thesis by (simp add: store_at_def)
  qed
  ultimately show ?thesis using n by (simp add: get_str'_def Let_def)
qed

lemma echo_frame_text:
  assumes "0 \<notin> set t" and "length t < BUFSZ - 1"
  shows "length (echo_frame (t @ replicate (BUFSZ - length t) 0)) = BUFSZ"
    and "c_str (echo_frame (t @ replicate (BUFSZ - length t) 0)) = of_char (CHR ''a'') # tl t"
proof -
  let ?f = "t @ replicate (BUFSZ - length t) 0"
  have frame: "store_at 0 (take BUFSZ ?f) (replicate BUFSZ 0) = ?f"
    using assms(2) by (simp add: store_at_def)
  show "length (echo_frame ?f) = BUFSZ"
    using assms(2) unfolding echo_frame_def frame by simp
  show "c_str (echo_frame ?f) = of_char (CHR ''a'') # tl t"
  proof (cases t)
    case Nil
    have "replicate BUFSZ 0 = 0 # replicate 255 (0 :: byte)"
      unfolding BUFSZ_def by (simp add: numeral_eq_Suc)
    then show ?thesis unfolding echo_frame_def frame using Nil c_str_replicate_nul [of "[97]" 255] by simp
  next
    case (Cons b t')
    with assms(1) have "0 \<notin> set (97 # t')" by auto
    from c_str_replicate_nul [OF this] Cons show ?thesis unfolding echo_frame_def frame by simp
  qed
qed

section \<open>Properties\<close>

text \<open>
  The local server and its client: a word of the client reaches the server as one message
  whatever the buffer held before; the server prints its line for each \<open>print\<close> and ends with
  the first other word, \<open>exit\<close> or not.
\<close>

theorem unix_session:
  assumes "\<forall>(fd, r) \<in> set conns. 0 \<le> fd \<and> (\<exists>bs. r = Some bs \<and> length bs \<le> BUFSZ \<and> c_str bs = PRINT)"
    and "0 \<notin> set t" and "length t < BUFSZ" and "length buffer = BUFSZ" and "0 \<le> sk" and "0 \<le> fd"
  shows "\<exists>frame. unix_client_round (sk, 0) (Some t) True buffer [] = Returns frame [Send sk frame, Close_fd sk] \<and>
    unix_serve conns w = Blocks (w @ printed (map fst conns)) \<and>
    unix_serve (conns @ (fd, Some frame) # rest) w =
      (if t = PRINT then unix_serve rest (w @ printed (map fst conns @ [fd]))
       else Returns () (w @ printed (map fst conns) @
         (if t = EXIT then [] else [Out (cstr ''UNKNOWN COMMAND'' @ [10])]) @
         [Close_fd fd, Out (cstr ''End of server'' @ [10]), Unlink_path]))"
proof -
  let ?f = "store_at 0 (t @ [0]) buffer"
  note f = client_frame [OF assms(2-4)]
  have plain: "c_str (store_at 0 (take BUFSZ ?f) (replicate BUFSZ 0)) = t"
    using draft_frame_text [of ?f] f by simp
  have "unix_serve ((fd, Some ?f) # rest) w' =
      (if t = PRINT then unix_serve rest (w' @ printed [fd])
       else Returns () (w' @ (if t = EXIT then [] else [Out (cstr ''UNKNOWN COMMAND'' @ [10])]) @
         [Close_fd fd, Out (cstr ''End of server'' @ [10]), Unlink_path]))" for w'
    using assms(6) unfolding unix_serve.simps by (simp add: accept_socket'_def unix_handler_text plain del: cstr_simps)
  moreover have "printed (fds @ [fd]) = printed fds @ printed [fd]" for fds by (simp add: printed_def)
  ultimately show ?thesis
    using unix_client_send [OF assms(2-5), of "[]"] unix_serve_prints [OF assms(1), of "[]" w]
      unix_serve_prints [OF assms(1), of "(fd, Some ?f) # rest" w]
    by (intro exI [of _ ?f]) simp
qed

theorem unix_session_witness:
  "\<exists>frame. unix_client_round (4, 0) (Some (cstr ''exit'')) True (replicate 256 7) [] =
      Returns frame [Send 4 frame, Close_fd 4] \<and>
    unix_serve [(5, Some PRINT), (6, Some frame)] [] =
      Returns () (printed [5] @ [Close_fd 6, Out (cstr ''End of server'' @ [10]), Unlink_path])"
proof -
  have "\<forall>(fd, r) \<in> set [(5 :: int, Some PRINT)]. 0 \<le> fd \<and> (\<exists>bs. r = Some bs \<and> length bs \<le> BUFSZ \<and> c_str bs = PRINT)"
    by (simp add: PRINT_def BUFSZ_def)
  moreover have "EXIT \<noteq> PRINT" by (simp add: PRINT_def EXIT_def)
  moreover have "0 \<notin> set EXIT" "length EXIT < BUFSZ" "length (replicate 256 7) = BUFSZ"
    by (simp_all add: EXIT_def BUFSZ_def)
  ultimately show ?thesis
    using unix_session [of "[(5, Some PRINT)]" EXIT "replicate 256 7" 4 6 "[]" "[]"]
    unfolding EXIT_def [symmetric] by auto
qed

text \<open>
  \<open>server_test.c\<close> answers every message of a connection, and the client prints its line with
  the first letter replaced by \<open>a\<close>. \<open>server_TCP.c\<close> accepts a connection for each message:
  however many messages a connection sends, exactly the first is answered.
\<close>

theorem echo_answers:
  assumes "0 \<notin> set t" and "length t < BUFSZ - 1"
    and "\<forall>(fd, msgs, sent) \<in> set conns. 0 \<le> fd \<and> msgs \<noteq> [] \<and> sent" and "distinct (map fst conns)"
  shows "(\<exists>frame. \<forall>w. client_round sk (Some (t @ [10])) True (Some (echo_frame frame)) w =
      Returns () (w @ [Send sk frame, Out (cstr ''response: '' @ (of_char (CHR ''a'') # tl t) @ [10])])) \<and>
    (\<exists>es. test_child fd (map (\<lambda>bs. (Some bs, True)) msgs) w = Blocks (w @ es) \<and> sends fd es = map echo_frame msgs) \<and>
    (\<exists>es. tcp_serve conns w = Blocks (w @ es) \<and>
      (\<forall>(fd, msgs, sent) \<in> set conns. sends fd es = [echo_frame (hd msgs)]))"
proof -
  let ?f = "t @ replicate (BUFSZ - length t) 0"
  note e = echo_frame_text [OF assms(1,2)]
  have "c_str (store_at 0 (take BUFSZ (echo_frame ?f)) (replicate BUFSZ 0)) = of_char (CHR ''a'') # tl t"
    using draft_frame_text [of "echo_frame ?f"] e by simp
  moreover have "take BUFSZ ?f = ?f" using assms(2) by simp
  ultimately have "client_round sk (Some (t @ [10])) True (Some (echo_frame ?f)) w =
      Returns () (w @ [Send sk ?f, Out (cstr ''response: '' @ (of_char (CHR ''a'') # tl t) @ [10])])" for w
    unfolding client_round_def draft_get_str_line [OF assms(1,2)] by (simp del: cstr_simps take_append)
  then show ?thesis using test_child_all tcp_serve_first [OF assms(3,4), of w] by blast
qed

theorem echo_answers_witness:
  "\<exists>es. tcp_serve [(5, [cstr ''one'', cstr ''two''], True), (6, [cstr ''x''], True)] [] = Blocks es \<and>
    sends 5 es = [echo_frame (cstr ''one'')]"
proof -
  have "0 \<notin> set (cstr ''hi'')" "length (cstr ''hi'') < BUFSZ - 1" by (simp_all add: BUFSZ_def)
  from echo_answers [OF this, of "[(5, [cstr ''one'', cstr ''two''], True), (6, [cstr ''x''], True)]" 4 0 "[]" "[]"]
  show ?thesis by auto
qed

end
