(* ===== verification/Sock_Setup.thy ===== *)
theory Sock_Setup
  imports Sock_Drafts
begin

text \<open>
  How the programs of \<open>Socket/trash\<close> find each other: the set-up of both servers and of their clients, over
  the names that the kernel knows; then the rest of \<open>server_test.c\<close>, \<open>client_TCP.c\<close> and \<open>shell.c\<close>, whose
  \<open>start_shell\<close> is the first version of the one in \<open>server.c\<close>.
\<close>

section \<open>Sockets and their names\<close>

text \<open>
  A socket is known by a number. Names of local sockets are files and stay until somebody removes them;
  \<open>n_locked\<close> has those that the program may not remove, as the files of another user in \<open>/tmp\<close>;
  addresses and ports, of all machines together, are free again when the socket is closed. The address 0
  stands for all.
\<close>

record net =
  n_paths :: "(byte list \<times> int) list"
  n_locked :: "byte list list"
  n_ports :: "(32 word \<times> 16 word \<times> int) list"
  n_listening :: "int list"
  n_next :: int

definition sys_socket :: "bool \<Rightarrow> net \<Rightarrow> int \<times> net" where
  "sys_socket ok w = (if ok then (n_next w, w\<lparr>n_next := n_next w + 1\<rparr>) else (-1, w))"

definition sys_close :: "int \<Rightarrow> net \<Rightarrow> net" where
  "sys_close sk w =
     w\<lparr>n_ports := filter (\<lambda>(a, p, s). s \<noteq> sk) (n_ports w), n_listening := filter (\<lambda>s. s \<noteq> sk) (n_listening w)\<rparr>"

definition sys_unlink :: "byte list \<Rightarrow> net \<Rightarrow> net" where
  "sys_unlink path w =
     (if path \<in> set (n_locked w) then w else w\<lparr>n_paths := filter (\<lambda>(p, s). p \<noteq> path) (n_paths w)\<rparr>)"

definition sys_bind_local :: "int \<Rightarrow> byte list \<Rightarrow> net \<Rightarrow> int \<times> net" where
  "sys_bind_local sk path w =
     (if map_of (n_paths w) path \<noteq> None then (-1, w) else (0, w\<lparr>n_paths := (path, sk) # n_paths w\<rparr>))"

definition same_address :: "32 word \<Rightarrow> 32 word \<Rightarrow> bool" where
  "same_address a b \<longleftrightarrow> a = b \<or> a = 0 \<or> b = 0"

definition sys_bind_inet :: "int \<Rightarrow> sockaddr_in \<Rightarrow> net \<Rightarrow> int \<times> net" where
  "sys_bind_inet sk name w =
     (if list_ex (\<lambda>(a, p, s). p = sin_port name \<and> same_address a (sin_addr name)) (n_ports w) then (-1, w)
      else (0, w\<lparr>n_ports := (sin_addr name, sin_port name, sk) # n_ports w\<rparr>))"

definition sys_listen :: "bool \<Rightarrow> int \<Rightarrow> net \<Rightarrow> int \<times> net" where
  "sys_listen ok sk w = (if ok then (0, w\<lparr>n_listening := sk # n_listening w\<rparr>) else (-1, w))"

text \<open>Who gets the connection.\<close>

definition sys_connect_local :: "byte list \<Rightarrow> net \<Rightarrow> int option" where
  "sys_connect_local path w =
     (case map_of (n_paths w) path of
        None \<Rightarrow> None
      | Some sk \<Rightarrow> if sk \<in> set (n_listening w) then Some sk else None)"

definition sys_connect_inet :: "sockaddr_in \<Rightarrow> net \<Rightarrow> int option" where
  "sys_connect_inet name w =
     (case filter (\<lambda>(a, p, s). p = sin_port name \<and> (a = sin_addr name \<or> a = 0) \<and> s \<in> set (n_listening w)) (n_ports w) of
        [] \<Rightarrow> None
      | (a, p, sk) # _ \<Rightarrow> Some sk)"

section \<open>server_UNIX.c and client_UNIX.c\<close>

record sockaddr_un =
  sun_family :: nat
  sun_path :: "byte list"

definition PATH :: "byte list" where "PATH = cstr ''/tmp/mysock''"

definition AF_UNIX :: nat where "AF_UNIX = 1"

definition empty_un :: sockaddr_un where
  "empty_un = \<lparr>sun_family = 0, sun_path = replicate 108 0\<rparr>"

definition unix_create_socket :: "bool \<Rightarrow> net \<Rightarrow> (int, net) outcome" where
  "unix_create_socket ok w = (let (sk, w) = sys_socket ok w in if sk < 0 then Exits 1 w else Returns sk w)"

text \<open>\<open>strncpy\<close> with \<open>sizeof(PATH)\<close> copies the text and its NUL.\<close>

definition unix_create_sock_name :: "sockaddr_un \<Rightarrow> sockaddr_un" where
  "unix_create_sock_name name = name\<lparr>sun_family := AF_UNIX, sun_path := store_at 0 (PATH @ [0]) (sun_path name)\<rparr>"

definition unix_bind_socket :: "int \<Rightarrow> sockaddr_un \<Rightarrow> net \<Rightarrow> (unit, net) outcome" where
  "unix_bind_socket sk name w =
     (let (ret, w) = sys_bind_local sk (c_str (sun_path name)) w in
      if ret < 0 then Exits 1 (sys_close sk w) else Returns () w)"

definition unix_listen_socket :: "bool \<Rightarrow> int \<Rightarrow> net \<Rightarrow> (unit, net) outcome" where
  "unix_listen_socket ok sk w =
     (let (ret, w) = sys_listen ok sk w in if ret \<noteq> 0 then Exits 1 (sys_close sk w) else Returns () w)"

text \<open>\<open>main\<close> of the server up to its loop; the result of \<open>unlink\<close> is not looked at.\<close>

definition unix_setup :: "bool \<Rightarrow> bool \<Rightarrow> net \<Rightarrow> (int, net) outcome" where
  "unix_setup sock_ok listen_ok w =
     (let w = sys_unlink PATH w in
      bind_outcome (unix_create_socket sock_ok w) (\<lambda>sk w.
      let name = unix_create_sock_name empty_un in
      bind_outcome (unix_bind_socket sk name w) (\<lambda>_ w.
      bind_outcome (unix_listen_socket listen_ok sk w) (\<lambda>_ w.
      Returns sk w))))"

definition unix_connect_socket :: "int \<Rightarrow> sockaddr_un \<Rightarrow> net \<Rightarrow> (int, net) outcome" where
  "unix_connect_socket sk name w =
     (case sys_connect_local (c_str (sun_path name)) w of
        None \<Rightarrow> Exits 1 (sys_close sk w)
      | Some peer \<Rightarrow> Returns peer w)"

text \<open>A round of the client before it reads a word: the server it reaches.\<close>

definition unix_client_start :: "bool \<Rightarrow> net \<Rightarrow> (int, net) outcome" where
  "unix_client_start sock_ok w =
     (let name = unix_create_sock_name empty_un in
      bind_outcome (unix_create_socket sock_ok w) (\<lambda>sk w.
      unix_connect_socket sk name w))"

section \<open>server_TCP.c, server_test.c and their clients\<close>

definition tcp_create_sock_name :: "32 word \<Rightarrow> sockaddr_in \<Rightarrow> sockaddr_in" where
  "tcp_create_sock_name addr name = name\<lparr>sin_family := AF_INET, sin_port := htons port_number, sin_addr := addr\<rparr>"

definition empty_in :: sockaddr_in where
  "empty_in = \<lparr>sin_family = 0, sin_port = 0, sin_addr = 0\<rparr>"

definition server_ip :: "byte list" where "server_ip = cstr ''127.0.0.1''"

text \<open>
  \<open>main\<close> of both servers up to the loop. \<open>addr\<close> starts as \<open>INADDR_ANY\<close>, but \<open>convert_address\<close> stores the
  address of \<open>server_ip\<close> over it.
\<close>

definition tcp_setup :: "(byte list \<Rightarrow> 32 word option) \<Rightarrow> bool \<Rightarrow> bool \<Rightarrow> net \<Rightarrow> (int, net) outcome" where
  "tcp_setup inet_aton sock_ok listen_ok w =
     (let w = sys_unlink PATH w;
          (sk, w) = sys_socket sock_ok w in
      if sk < 0 then Exits 1 w
      else
        (case inet_aton server_ip of
           None \<Rightarrow> Exits 1 w
         | Some addr \<Rightarrow>
             (let name = tcp_create_sock_name addr empty_in;
                  (ret, w) = sys_bind_inet sk name w in
              if ret < 0 then Exits 1 (sys_close sk w)
              else
                (let (ret, w) = sys_listen listen_ok sk w in
                 if ret \<noteq> 0 then Exits 1 (sys_close sk w) else Returns sk w))))"

definition tcp_client_start ::
  "(byte list \<Rightarrow> 32 word option) \<Rightarrow> byte list list \<Rightarrow> bool \<Rightarrow> net \<Rightarrow> (int \<times> int, net) outcome" where
  "tcp_client_start inet_aton argv sock_ok w =
     bind_outcome (c_assert (1 < length argv) w) (\<lambda>_ w.
     case inet_aton (argv ! 1) of
       None \<Rightarrow> Exits 1 w
     | Some addr \<Rightarrow>
         (let name = tcp_create_sock_name addr empty_in;
              (sk, w) = sys_socket sock_ok w in
          if sk < 0 then Exits 1 w
          else
            (case sys_connect_inet name w of
               None \<Rightarrow> Exits 1 (sys_close sk w)
             | Some peer \<Rightarrow> Returns (sk, peer) w)))"

text \<open>
  \<open>server_test.c\<close>: each connection goes to a child of its own, with what \<open>accept\<close> and \<open>fork\<close> answer; the
  parent keeps the descriptor. The result is the descriptor of a child.
\<close>

fun test_serve :: "(int \<times> int) list \<Rightarrow> draft_effect list \<Rightarrow> (int, draft_effect list) outcome" where
  "test_serve [] w = Blocks w"
| "test_serve ((fd, pid) # conns) w =
     bind_outcome (accept_socket' fd w) (\<lambda>client_sk w.
     if pid = 0 then Returns client_sk w else test_serve conns w)"

text \<open>Both programs as a whole; \<open>msgs\<close> is what the child reads. The loops have no end but an error.\<close>

definition tcp_main ::
  "(byte list \<Rightarrow> 32 word option) \<Rightarrow> bool \<Rightarrow> bool \<Rightarrow> (int \<times> byte list list \<times> bool) list \<Rightarrow> net \<Rightarrow>
   (unit, net \<times> draft_effect list) outcome" where
  "tcp_main inet_aton sock_ok listen_ok conns w =
     bind_outcome (map_outcome id (\<lambda>w. (w, [])) (tcp_setup inet_aton sock_ok listen_ok w)) (\<lambda>sk (w, es).
     map_outcome id (Pair w) (tcp_serve conns es))"

definition test_main ::
  "(byte list \<Rightarrow> 32 word option) \<Rightarrow> bool \<Rightarrow> bool \<Rightarrow> (int \<times> int) list \<Rightarrow> (byte list option \<times> bool) list \<Rightarrow> net \<Rightarrow>
   (unit, net \<times> draft_effect list) outcome" where
  "test_main inet_aton sock_ok listen_ok conns msgs w =
     bind_outcome (map_outcome id (\<lambda>w. (w, [])) (tcp_setup inet_aton sock_ok listen_ok w)) (\<lambda>sk (w, es).
     bind_outcome (map_outcome id (Pair w) (test_serve conns es)) (\<lambda>client_sk (w, es).
     map_outcome id (Pair w) (test_child client_sk msgs es)))"

text \<open>The handler that both files define and never call.\<close>

definition tcp_handler :: "byte list \<Rightarrow> int \<times> draft_effect list" where
  "tcp_handler buffer =
     (if strncmp buffer PRINT (length PRINT + 1) = 0 then (1, [Out (DUMMY_STR @ [10])])
      else if strncmp buffer EXIT (length EXIT + 1) = 0 then (0, [])
      else (1, [Out (cstr ''UNKNOWN COMMAND:'' @ [10] @ cstr ''('' @ c_str buffer @ cstr '')'' @ [10])]))"

text \<open>\<open>client_TCP.c\<close> and \<open>client_test.c\<close> after they have connected: rounds without end.\<close>

fun client_rounds ::
  "int \<Rightarrow> (byte list option \<times> bool \<times> byte list option) list \<Rightarrow> draft_effect list \<Rightarrow> (unit, draft_effect list) outcome" where
  "client_rounds sk [] w = Blocks w"
| "client_rounds sk ((line, sent, got) # rounds) w =
     bind_outcome (client_round sk line sent got w) (\<lambda>_ w. client_rounds sk rounds w)"

definition draft_client_main ::
  "(byte list \<Rightarrow> 32 word option) \<Rightarrow> byte list list \<Rightarrow> bool \<Rightarrow> (byte list option \<times> bool \<times> byte list option) list \<Rightarrow> net \<Rightarrow>
   (unit, net \<times> draft_effect list) outcome" where
  "draft_client_main inet_aton argv sock_ok rounds w =
     bind_outcome (map_outcome id (\<lambda>w. (w, [])) (tcp_client_start inet_aton argv sock_ok w)) (\<lambda>(sk, peer) (w, es).
     map_outcome id (Pair w) (client_rounds sk rounds es))"

text \<open>\<open>client_test.c\<close> is the same text.\<close>

definition test_client_main ::
  "(byte list \<Rightarrow> 32 word option) \<Rightarrow> byte list list \<Rightarrow> bool \<Rightarrow> (byte list option \<times> bool \<times> byte list option) list \<Rightarrow> net \<Rightarrow>
   (unit, net \<times> draft_effect list) outcome" where
  "test_client_main = draft_client_main"

section \<open>shell.c\<close>

text \<open>
  The first \<open>start_shell\<close> goes on after every failure; the result is \<open>*shellfd\<close>, the second descriptor and
  what \<open>perror\<close> was given. \<open>open2\<close> is the second \<open>open\<close>, of the name of the terminal.
\<close>

definition complain :: "bool \<Rightarrow> string \<Rightarrow> byte list list" where
  "complain failed msg = (if failed then [cstr msg] else [])"

definition draft_start_shell ::
  "int \<Rightarrow> bool \<Rightarrow> bool \<Rightarrow> byte list option \<Rightarrow> (byte list option \<Rightarrow> int) \<Rightarrow> int \<times> int \<times> byte list list" where
  "draft_start_shell fd granted unlocked path open2 =
     (let resfd = open2 path in
      (fd, resfd,
       complain (fd < 0) ''open fd'' @ complain (\<not> granted) ''grantpt'' @ complain (\<not> unlocked) ''unlockpt'' @
       complain (path = None) ''ptsname'' @ complain (resfd < 0) ''open resfd''))"

text \<open>The child: \<open>None\<close> when \<open>execl\<close> replaces it.\<close>

definition draft_shell_child ::
  "bool \<Rightarrow> bool \<Rightarrow> bool \<Rightarrow> bool \<Rightarrow> bool \<Rightarrow> (unit, byte list list) outcome option" where
  "draft_shell_child dup_in dup_out dup_err sid execl =
     (let msgs = complain (\<not> dup_in) ''dup2 resfd stdin'' @ complain (\<not> dup_out) ''dup2 resfd stdout'' @
        complain (\<not> dup_err) ''dup2 resfd stdrerr'' @ complain (\<not> sid) ''setsid'' in
      if execl then None else Some (Exits 1 (msgs @ [cstr ''execl''])))"

text \<open>
  \<open>main\<close>: what it writes to the terminal and prints of the first answer. A full buffer has no NUL and
  \<open>printf\<close> reads on behind it.
\<close>

definition draft_shell_main :: "int \<Rightarrow> byte list option \<Rightarrow> (unit, draft_effect list) outcome" where
  "draft_shell_main fd answer =
     (let w = [Send fd (cstr ''ls'' @ [10])];
          buffer = (case answer of
              None \<Rightarrow> replicate BUFSZ 0
            | Some bs \<Rightarrow> store_at 0 (take BUFSZ bs) (replicate BUFSZ 0)) in
      if 0 \<in> set buffer then Returns () (w @ [Out (cstr ''('' @ c_str buffer @ cstr '')'')])
      else Faults w)"

section \<open>Lemmas on names\<close>

lemma unix_name [simp]: "c_str (sun_path (unix_create_sock_name empty_un)) = PATH"
proof -
  have "0 \<notin> set PATH" "length PATH = 11" by (simp_all add: PATH_def)
  then show ?thesis
    by (simp add: unix_create_sock_name_def empty_un_def c_str_stored_text)
qed

lemma unlinked: "path \<notin> set (n_locked w) \<Longrightarrow> map_of (n_paths (sys_unlink path w)) path = None"
  by (induction "n_paths w") (auto simp: sys_unlink_def map_of_eq_None_iff)

lemma unix_setup_result:
  assumes "0 \<le> n_next w" and "PATH \<notin> set (n_locked w)"
  shows "\<exists>w'. unix_setup True True w = Returns (n_next w) w' \<and> map_of (n_paths w') PATH = Some (n_next w) \<and>
    n_listening w' = n_next w # n_listening w \<and> n_next w' = n_next w + 1 \<and> n_locked w' = n_locked w"
  using assms unlinked [OF assms(2)]
  by (simp add: unix_setup_def unix_create_socket_def sys_socket_def unix_bind_socket_def sys_bind_local_def
    unix_listen_socket_def sys_listen_def Let_def) (simp add: sys_unlink_def)

text \<open>A name that stays makes \<open>bind\<close> fail.\<close>

lemma unix_setup_locked:
  assumes "0 \<le> n_next w" and "PATH \<in> set (n_locked w)" and "map_of (n_paths w) PATH \<noteq> None"
  shows "\<exists>w'. unix_setup sock_ok listen_ok w = Exits 1 w' \<and> n_paths w' = n_paths w"
  using assms
  by (cases sock_ok)
    (simp_all add: unix_setup_def unix_create_socket_def sys_socket_def unix_bind_socket_def sys_bind_local_def
      sys_unlink_def sys_close_def Let_def)

lemma unix_client_reaches:
  assumes "map_of (n_paths w) PATH = Some sk" and "sk \<in> set (n_listening w)" and "0 \<le> n_next w"
  shows "\<exists>w'. unix_client_start True w = Returns sk w'"
  using assms
  by (simp add: unix_client_start_def unix_create_socket_def sys_socket_def unix_connect_socket_def
    sys_connect_local_def Let_def)


lemma tcp_name [simp]:
  "sin_port (tcp_create_sock_name addr name) = htons port_number" "sin_addr (tcp_create_sock_name addr name) = addr"
  by (simp_all add: tcp_create_sock_name_def)

text \<open>Nobody else has the port.\<close>

definition port_free :: "net \<Rightarrow> bool" where
  "port_free w \<longleftrightarrow> list_all (\<lambda>(a, p, s). p \<noteq> htons port_number) (n_ports w)"

lemma port_freeD: "port_free w \<Longrightarrow> (a, p, s) \<in> set (n_ports w) \<Longrightarrow> p \<noteq> htons port_number"
  by (auto simp: port_free_def list_all_iff)

lemma tcp_setup_result:
  assumes "inet_aton server_ip = Some lo" and "port_free w" and "0 \<le> n_next w"
  shows "\<exists>w'. tcp_setup inet_aton True True w = Returns (n_next w) w' \<and>
    n_ports w' = (lo, htons port_number, n_next w) # n_ports w \<and> n_listening w' = n_next w # n_listening w \<and>
    n_next w' = n_next w + 1"
  using assms port_freeD [OF assms(2)]
  by (auto simp: tcp_setup_def sys_socket_def sys_unlink_def sys_bind_inet_def sys_listen_def list_ex_iff Let_def)

lemma tcp_setup_again:
  assumes "inet_aton server_ip = Some lo" and "(lo, htons port_number, sk) \<in> set (n_ports w)" and "0 \<le> n_next w"
  shows "\<exists>w'. tcp_setup inet_aton True True w = Exits 1 w' \<and> n_ports w' = filter (\<lambda>(a, p, s). s \<noteq> n_next w) (n_ports w) \<and>
    n_listening w' = filter (\<lambda>s. s \<noteq> n_next w) (n_listening w)"
  using assms
  by (force simp: tcp_setup_def sys_socket_def sys_unlink_def sys_bind_inet_def sys_close_def list_ex_iff Let_def same_address_def)

lemma tcp_client_connects:
  assumes "inet_aton (argv ! 1) = Some a" and "1 < length argv" and "0 \<le> n_next w"
    and "n_ports w = (lo, htons port_number, sk) # ports" and "\<forall>(a, p, s) \<in> set ports. p \<noteq> htons port_number"
    and "sk \<in> set (n_listening w)" and "lo \<noteq> 0"
  shows "\<exists>w'. tcp_client_start inet_aton argv True w =
    (if a = lo then Returns (n_next w, sk) w' else Exits 1 w')"
proof -
  have "filter (\<lambda>(b, p, s). p = htons port_number \<and> (b = a \<or> b = 0) \<and> s \<in> set (n_listening w)) ports = []"
    using assms(5) by (auto simp: filter_empty_conv)
  with assms show ?thesis
    by (auto simp: tcp_client_start_def sys_socket_def sys_connect_inet_def Let_def)
qed

text \<open>The child that gets a connection of \<open>server_test.c\<close> answers every message on it.\<close>

lemma test_serve_child:
  assumes "\<forall>(fd, pid) \<in> set conns. 0 \<le> fd \<and> pid \<noteq> 0" and "0 \<le> fd"
  shows "test_serve (conns @ [(fd, 0)]) w = Returns fd w"
  using assms(1)
proof (induction conns)
  case (Cons c conns)
  then show ?case by (cases c) (simp add: accept_socket'_def)
qed (use assms(2) in \<open>simp add: accept_socket'_def\<close>)

lemma test_main_child:
  assumes "tcp_setup inet_aton True True w = Returns sk w1"
    and "\<forall>(fd, pid) \<in> set conns. 0 \<le> fd \<and> pid \<noteq> 0" and "0 \<le> fd"
  shows "\<exists>es. test_main inet_aton True True (conns @ [(fd, 0)]) (map (\<lambda>bs. (Some bs, True)) msgs) w = Blocks (w1, es) \<and>
    sends fd es = map echo_frame msgs"
proof -
  obtain es where "test_child fd (map (\<lambda>bs. (Some bs, True)) msgs) [] = Blocks es" "sends fd es = map echo_frame msgs"
    using test_child_all [of fd msgs "[]"] by auto
  then show ?thesis using assms by (simp add: test_main_def test_serve_child)
qed

section \<open>Properties\<close>

text \<open>
  C30: the local server removes the name before it binds it, whoever uses it. Where it may remove the name, and \<open>socket\<close> and
  \<open>listen\<close> succeed, it starts and takes the name from a server that is running: the first server listens, but every
  new client reaches the second. Where it may not, and the name is there, it ends with 1 and the name
  stays. The TCP servers listen on the loopback address only, which \<open>convert_address\<close> stores over \<open>INADDR_ANY\<close>, against
  the comment beside it that promises all incoming messages: when the port was free and \<open>socket\<close> and \<open>listen\<close> succeed,
  a client given another address gets no connection, and a second server fails and disturbs nothing.
\<close>

theorem servers_and_names:
  assumes "inet_aton server_ip = Some lo" and "lo \<noteq> 0" and "port_free w" and "0 \<le> n_next w"
  shows "(PATH \<notin> set (n_locked w) \<longrightarrow> (\<exists>w1 w2. unix_setup True True w = Returns (n_next w) w1 \<and> unix_setup True True w1 = Returns (n_next w1) w2 \<and>
      (\<exists>w'. unix_client_start True w1 = Returns (n_next w) w') \<and>
      n_next w \<in> set (n_listening w2) \<and> n_next w \<noteq> n_next w1 \<and> (\<exists>w'. unix_client_start True w2 = Returns (n_next w1) w'))) \<and>
    (PATH \<in> set (n_locked w) \<longrightarrow> map_of (n_paths w) PATH \<noteq> None \<longrightarrow>
      (\<exists>w'. unix_setup sock_ok listen_ok w = Exits 1 w' \<and> n_paths w' = n_paths w)) \<and>
    (\<exists>w1 w2. tcp_setup inet_aton True True w = Returns (n_next w) w1 \<and>
      (\<forall>argv a. 1 < length argv \<longrightarrow> a \<noteq> 0 \<longrightarrow> inet_aton (argv ! 1) = Some a \<longrightarrow>
        (\<exists>w'. tcp_client_start inet_aton argv True w1 =
          (if a = lo then Returns (n_next w1, n_next w) w' else Exits 1 w'))) \<and>
      tcp_setup inet_aton True True w1 = Exits 1 w2 \<and>
      n_ports w2 = filter (\<lambda>(a, p, s). s \<noteq> n_next w1) (n_ports w1) \<and>
      n_listening w2 = filter (\<lambda>s. s \<noteq> n_next w1) (n_listening w1))"
proof (intro conjI impI unix_setup_locked assms(4))
  assume free: "PATH \<notin> set (n_locked w)"
  obtain w1 where 1: "unix_setup True True w = Returns (n_next w) w1" "map_of (n_paths w1) PATH = Some (n_next w)"
      "n_listening w1 = n_next w # n_listening w" "n_next w1 = n_next w + 1" "n_locked w1 = n_locked w"
    using unix_setup_result [OF assms(4) free] by blast
  then obtain w2 where 2: "unix_setup True True w1 = Returns (n_next w1) w2" "map_of (n_paths w2) PATH = Some (n_next w1)"
      "n_listening w2 = n_next w1 # n_listening w1" "n_next w2 = n_next w1 + 1"
    using unix_setup_result [of w1] assms(4) free by auto
  from 1 2 unix_client_reaches [of w1 "n_next w"] unix_client_reaches [of w2 "n_next w1"] assms(4)
  show "\<exists>w1 w2. unix_setup True True w = Returns (n_next w) w1 \<and> unix_setup True True w1 = Returns (n_next w1) w2 \<and>
      (\<exists>w'. unix_client_start True w1 = Returns (n_next w) w') \<and>
      n_next w \<in> set (n_listening w2) \<and> n_next w \<noteq> n_next w1 \<and> (\<exists>w'. unix_client_start True w2 = Returns (n_next w1) w')"
    by auto
next
  obtain w1 where 1: "tcp_setup inet_aton True True w = Returns (n_next w) w1"
      "n_ports w1 = (lo, htons port_number, n_next w) # n_ports w" "n_listening w1 = n_next w # n_listening w"
      "n_next w1 = n_next w + 1"
    using tcp_setup_result [of inet_aton lo w, OF assms(1,3,4)] by blast
  have "\<exists>w'. tcp_client_start inet_aton argv True w1 = (if a = lo then Returns (n_next w1, n_next w) w' else Exits 1 w')"
    if "1 < length argv" "a \<noteq> 0" "inet_aton (argv ! 1) = Some a" for argv a
    by (rule tcp_client_connects [of inet_aton argv a w1 lo "n_next w" "n_ports w", OF that(3,1) _ 1(2)]) (use 1 assms(2,4) port_freeD [OF assms(3)] in auto)
  moreover obtain w2 where "tcp_setup inet_aton True True w1 = Exits 1 w2"
      "n_ports w2 = filter (\<lambda>(a, p, s). s \<noteq> n_next w1) (n_ports w1)"
      "n_listening w2 = filter (\<lambda>s. s \<noteq> n_next w1) (n_listening w1)"
    using tcp_setup_again [of inet_aton lo "n_next w" w1, OF assms(1)] 1 assms(4) by auto
  ultimately show "\<exists>w1 w2. tcp_setup inet_aton True True w = Returns (n_next w) w1 \<and>
      (\<forall>argv a. 1 < length argv \<longrightarrow> a \<noteq> 0 \<longrightarrow> inet_aton (argv ! 1) = Some a \<longrightarrow>
        (\<exists>w'. tcp_client_start inet_aton argv True w1 =
          (if a = lo then Returns (n_next w1, n_next w) w' else Exits 1 w'))) \<and>
      tcp_setup inet_aton True True w1 = Exits 1 w2 \<and>
      n_ports w2 = filter (\<lambda>(a, p, s). s \<noteq> n_next w1) (n_ports w1) \<and>
      n_listening w2 = filter (\<lambda>s. s \<noteq> n_next w1) (n_listening w1)"
    using 1(1) by blast
qed

text \<open>With a table of two addresses for \<open>inet_aton\<close>.\<close>

definition two_addresses :: "byte list \<Rightarrow> 32 word option" where
  "two_addresses = map_of [(cstr ''127.0.0.1'', 0x7F000001), (cstr ''10.0.0.2'', 0x0A000002)]"

theorem servers_and_names_witness:
  "\<exists>w1 w'. tcp_setup two_addresses True True \<lparr>n_paths = [(PATH, 3)], n_locked = [], n_ports = [], n_listening = [], n_next = 4\<rparr> = Returns 4 w1 \<and>
    tcp_client_start two_addresses [cstr ''client'', cstr ''10.0.0.2''] True w1 = Exits 1 w'"
proof -
  let ?w = "\<lparr>n_paths = [(PATH, 3)], n_locked = [], n_ports = [], n_listening = [], n_next = 4\<rparr>"
  have "two_addresses server_ip = Some 0x7F000001" "(0x7F000001 :: 32 word) \<noteq> 0" "port_free ?w" "0 \<le> n_next ?w"
    by (simp_all add: two_addresses_def server_ip_def port_free_def)
  from servers_and_names [of two_addresses "0x7F000001" ?w, OF this] obtain w1 where
    1: "tcp_setup two_addresses True True ?w = Returns (n_next ?w) w1"
      "\<And>argv a. 1 < length argv \<Longrightarrow> a \<noteq> 0 \<Longrightarrow> two_addresses (argv ! 1) = Some a \<Longrightarrow>
        \<exists>w'. tcp_client_start two_addresses argv True w1 =
          (if a = 0x7F000001 then Returns (n_next w1, n_next ?w) w' else Exits 1 w')" by blast
  have "two_addresses ([cstr ''client'', cstr ''10.0.0.2''] ! 1) = Some 0x0A000002" by (simp add: two_addresses_def)
  from 1(1) 1(2) [OF _ _ this] show ?thesis by auto
qed

end
