(* ===== verification/Log_Lib.thy ===== *)
theory Log_Lib
  imports C_Prelude
begin

text \<open>
  \<open>Socket/log.c\<close> and its older form \<open>SimplePrograms/Log/log.c\<close>: a line of log is put together in
  a static buffer of 256 bytes and written at once. What \<open>ctime\<close>, \<open>getpid\<close> and the expansion of
  the format give, and whether \<open>open\<close> and \<open>write\<close> work, are arguments; the bytes written are
  part of the result.
\<close>

section \<open>Operations\<close>

definition LOGBUFSZ :: nat where "LOGBUFSZ = 256"

datatype level = ERR | INFO | Other_level

definition log_init :: "byte list option \<Rightarrow> int \<Rightarrow> int \<times> int" where
  "log_init path opened =
     (let logfile = (if path = None then 1 else opened) in
      if logfile < 0 then (-1, logfile) else (0, logfile))"

text \<open>The older one opens \<open>LOG_PATH\<close> where the newer one takes standard output.\<close>

definition old_log_init :: "byte list option \<Rightarrow> (byte list \<Rightarrow> int) \<Rightarrow> int \<times> int" where
  "old_log_init path opens =
     (let logfile = opens (case path of None \<Rightarrow> cstr ''programm.log'' | Some p \<Rightarrow> p) in
      if logfile < 0 then (-1, logfile) else (0, logfile))"

text \<open>\<open>snprintf (buf + strlen (buf), LOGBUFSZ - strlen (buf), ...)\<close> with the expansion \<open>s\<close>.\<close>

definition append_log :: "byte list \<Rightarrow> byte list \<Rightarrow> byte list" where
  "append_log s buf = snprintf_at (strlen buf) (LOGBUFSZ - strlen buf) s buf"

definition insert_level :: "level \<Rightarrow> byte list \<Rightarrow> int \<times> byte list" where
  "insert_level level buf =
     (case level of
        ERR \<Rightarrow> (0, append_log (cstr ''[ERR]'') buf)
      | INFO \<Rightarrow> (0, append_log (cstr ''[INFO]'') buf)
      | Other_level \<Rightarrow> (-1, buf))"

definition old_insert_level :: "level \<Rightarrow> byte list \<Rightarrow> int \<times> byte list" where
  "old_insert_level level buf =
     (case level of ERR \<Rightarrow> (0, append_log (cstr ''[ERR]'') buf) | _ \<Rightarrow> (-1, buf))"

definition insert_time :: "byte list \<Rightarrow> byte list \<Rightarrow> int \<times> byte list" where
  "insert_time ctime buf =
     (let strtime = ctime[strlen ctime - 1 := 0]
      in (0, append_log (cstr ''['' @ c_str strtime @ cstr '']'') buf))"

definition insert_pid :: "int \<Rightarrow> byte list \<Rightarrow> int \<times> byte list" where
  "insert_pid pid buf = (0, append_log (cstr ''['' @ dec_of_int pid @ cstr '']'') buf)"

text \<open>\<open>expanded\<close> is the expansion of the format, \<open>None\<close> when \<open>vsnprintf\<close> fails.\<close>

definition logg ::
  "byte list \<Rightarrow> int \<Rightarrow> bool \<Rightarrow> level \<Rightarrow> byte list option \<Rightarrow> byte list \<Rightarrow> int \<times> byte list \<times> byte list" where
  "logg ctime pid write_ok level expanded buf_log =
     (let buf = memset buf_log 0 LOGBUFSZ;
          buf = snd (insert_level level buf);
          buf = snd (insert_time ctime buf);
          buf = snd (insert_pid pid buf) in
      case expanded of
        None \<Rightarrow> (-1, [], buf)
      | Some m \<Rightarrow>
          (let buf = snprintf_at (strlen buf) (LOGBUFSZ - strlen buf - 1) m buf;
               buf = buf[strlen buf := 10] in
           if write_ok then (0, take (strlen buf) buf, buf) else (-1, [], buf)))"

text \<open>The loop of \<open>clear_buf\<close> in the older form.\<close>

primrec old_clear_buf :: "nat \<Rightarrow> byte list \<Rightarrow> byte list" where
  "old_clear_buf 0 buf = buf"
| "old_clear_buf (Suc i) buf = (old_clear_buf i buf)[i := 0]"

text \<open>Time and pid in the older form, with the buffer of that file.\<close>

definition old_insert_time :: "byte list \<Rightarrow> byte list \<Rightarrow> int \<times> byte list" where
  "old_insert_time ctime buffer =
     (let strtime = ctime[strlen ctime - 1 := 0]
      in (0, append_log (cstr ''['' @ c_str strtime @ cstr '']'') buffer))"

definition old_insert_pid :: "int \<Rightarrow> byte list \<Rightarrow> int \<times> byte list" where
  "old_insert_pid pid buffer = (0, append_log (cstr ''['' @ dec_of_int pid @ cstr '']'') buffer)"

lemma old_inserts [simp]: "old_insert_time = insert_time" "old_insert_pid = insert_pid"
  by (simp_all add: fun_eq_iff old_insert_time_def insert_time_def old_insert_pid_def insert_pid_def)

definition log_error ::
  "int \<Rightarrow> byte list \<Rightarrow> int \<Rightarrow> bool \<Rightarrow> level \<Rightarrow> byte list option \<Rightarrow> byte list \<Rightarrow>
   (int \<times> byte list, byte list) outcome" where
  "log_error logfile ctime pid write_ok level expanded buffer =
     (if logfile < 0 then Aborts buffer
      else
        (let buf = old_clear_buf LOGBUFSZ buffer;
             buf = snd (old_insert_level level buf);
             buf = snd (old_insert_time ctime buf);
             buf = snd (old_insert_pid pid buf) in
         case expanded of
           None \<Rightarrow> Returns (-1, []) buf
         | Some m \<Rightarrow>
             (let buf = snprintf_at (strlen buf) (LOGBUFSZ - strlen buf - 1) m buf;
                  buf = buf[strlen buf := 10] in
              if write_ok then Returns (0, take LOGBUFSZ buf) buf else Returns (-1, []) buf)))"

text \<open>\<open>main.c\<close>: \<open>pr_err\<close> puts the name of the file and the line in front of the message.\<close>

definition log_test_main ::
  "(byte list \<Rightarrow> int) \<Rightarrow> byte list \<Rightarrow> int \<Rightarrow> bool \<Rightarrow> (int \<times> byte list, byte list) outcome" where
  "log_test_main opens ctime pid write_ok =
     (let (ret, logfile) = old_log_init None opens in
      log_error logfile ctime pid write_ok ERR (Some (cstr ''[main.c:6] testing log of error'')) (replicate LOGBUFSZ 0))"

section \<open>A text and zeros behind it\<close>

definition holds_text :: "byte list \<Rightarrow> byte list \<Rightarrow> bool" where
  "holds_text buf t \<longleftrightarrow> buf = t @ replicate (LOGBUFSZ - length t) 0 \<and> 0 \<notin> set t \<and> length t < LOGBUFSZ"

lemma holds_text_strlen: "holds_text buf t \<Longrightarrow> strlen buf = length t \<and> c_str buf = t \<and> length buf = LOGBUFSZ"
  by (auto simp: holds_text_def strlen_def c_str_replicate_nul)

lemma holds_text_snprintf:
  assumes "holds_text buf t" and "0 \<notin> set s" and "n = LOGBUFSZ - length t - k" and "0 < n"
  shows "holds_text (snprintf_at (strlen buf) n s buf) (t @ take (n - 1) s)"
proof -
  let ?u = "take (n - 1) s"
  have len: "length t + length ?u + 1 \<le> LOGBUFSZ" using assms(3,4) by auto
  have buf: "strlen buf = length t" "buf = t @ replicate (LOGBUFSZ - length t) 0"
    using holds_text_strlen [OF assms(1)] assms(1) by (simp_all add: holds_text_def)
  have "snprintf_at (strlen buf) n s buf = t @ ?u @ 0 # replicate (LOGBUFSZ - length t - (length ?u + 1)) 0"
    using assms(4) unfolding buf(1) by (subst buf(2)) (simp add: snprintf_at_def store_at_def)
  also have "0 # replicate (LOGBUFSZ - length t - (length ?u + 1)) (0 :: byte) =
      replicate (LOGBUFSZ - length (t @ ?u)) 0"
  proof -
    have "LOGBUFSZ - length (t @ ?u) = Suc (LOGBUFSZ - length t - (length ?u + 1))" using len by simp
    then show ?thesis by (metis replicate_Suc)
  qed
  finally have "snprintf_at (strlen buf) n s buf = (t @ ?u) @ replicate (LOGBUFSZ - length (t @ ?u)) 0"
    by simp
  moreover have "0 \<notin> set (t @ ?u)"
    using assms(1,2) by (auto simp: holds_text_def dest: in_set_takeD)
  ultimately show ?thesis using len by (simp add: holds_text_def)
qed

lemma holds_text_append:
  assumes "holds_text buf t" and "0 \<notin> set s" and "length t + length s < LOGBUFSZ"
  shows "holds_text (append_log s buf) (t @ s)"
proof -
  have "strlen buf = length t" using holds_text_strlen [OF assms(1)] by simp
  moreover have "take (LOGBUFSZ - length t - 1) s = s" using assms(3) by simp
  ultimately show ?thesis
    using holds_text_snprintf [OF assms(1,2), of "LOGBUFSZ - length t" 0] assms(3)
    by (simp add: append_log_def)
qed

lemma holds_text_newline:
  assumes "holds_text buf t" and "length t < 255"
  shows "holds_text (buf[strlen buf := 10]) (t @ [10])"
proof -
  obtain k where k: "LOGBUFSZ - length t = Suc k" using assms(2) by (cases "LOGBUFSZ - length t") (auto simp: LOGBUFSZ_def)
  with assms holds_text_strlen [OF assms(1)] show ?thesis
    by (auto simp: holds_text_def list_update_append LOGBUFSZ_def)
qed

lemma old_clear_buf_memset: "n \<le> length buf \<Longrightarrow> old_clear_buf n buf = memset buf 0 n"
proof (induction n)
  case (Suc n)
  then have "drop n buf = buf ! n # drop (Suc n) buf" by (simp add: Cons_nth_drop_Suc)
  with Suc show ?case
    by (simp add: memset_def list_update_append replicate_append_same [symmetric] flip: replicate_append_same)
qed (simp add: memset_def)

text \<open>The bytes before the message.\<close>

definition log_prefix :: "string \<Rightarrow> byte list \<Rightarrow> int \<Rightarrow> byte list" where
  "log_prefix lvl time pid =
     cstr lvl @ cstr ''['' @ time @ cstr '']'' @ cstr ''['' @ dec_of_int pid @ cstr '']''"

lemma dec_of_int_no_nul: "0 \<le> v \<Longrightarrow> 0 \<notin> set (dec_of_int v)"
  using dec_digits_all_digit [of "nat v"] digit_nonzero by (auto simp: dec_of_int_def list_all_iff)

lemma dec_of_int_length: "0 \<le> v \<Longrightarrow> v < 2 ^ 31 \<Longrightarrow> length (dec_of_int v) \<le> 10"
  using length_dec_digits [of "nat v" 9] by (simp add: dec_of_int_def nat_less_iff)

lemma prefix_text:
  assumes "holds_text buf (cstr lvl)" and "length lvl \<le> 6" and "0 \<notin> set time" and "length time \<le> 30"
    and "0 \<le> pid" and "pid < 2 ^ 31"
  shows "holds_text (snd (insert_pid pid (snd (insert_time (time @ [10, 0]) buf)))) (log_prefix lvl time pid)"
    and "length (log_prefix lvl time pid) \<le> 50"
proof -
  note pid = dec_of_int_no_nul [OF assms(5)] dec_of_int_length [OF assms(5,6)]
  have "strlen (time @ [10, 0]) = length time + 1"
    using assms(3) c_str_append_nul [of "time @ [10]" "[]"] by (simp add: strlen_def)
  then have "c_str ((time @ [10, 0])[strlen (time @ [10, 0]) - 1 := 0]) = time"
    using assms(3) by (simp add: list_update_append c_str_append_nul)
  then have time: "snd (insert_time (time @ [10, 0]) buf) = append_log (cstr ''['' @ time @ cstr '']'') buf"
    by (simp add: insert_time_def Let_def)
  have "holds_text (append_log (cstr ''['' @ time @ cstr '']'') buf) (cstr lvl @ cstr ''['' @ time @ cstr '']'')"
    by (rule holds_text_append [OF assms(1)]) (use assms(2-4) in \<open>auto simp: LOGBUFSZ_def\<close>)
  from holds_text_append [OF this, of "cstr ''['' @ dec_of_int pid @ cstr '']''"] pid assms(2-4)
  show "holds_text (snd (insert_pid pid (snd (insert_time (time @ [10, 0]) buf)))) (log_prefix lvl time pid)"
    by (auto simp: time insert_pid_def log_prefix_def LOGBUFSZ_def)
  show "length (log_prefix lvl time pid) \<le> 50"
    using pid assms(2,4) by (simp add: log_prefix_def)
qed

lemma message_text:
  assumes "holds_text buf p" and "length p \<le> 50" and "0 \<notin> set m"
    and "buf' = snprintf_at (strlen buf) (LOGBUFSZ - strlen buf - 1) m buf"
  shows "holds_text (buf'[strlen buf' := 10]) (p @ take (254 - length p) m @ [10])"
proof -
  have len: "strlen buf = length p" using holds_text_strlen [OF assms(1)] by simp
  have "holds_text buf' (p @ take (LOGBUFSZ - length p - 1 - 1) m)"
    using holds_text_snprintf [OF assms(1,3), of "LOGBUFSZ - length p - 1" 1] assms(2,4) len
    by (simp add: LOGBUFSZ_def)
  then have "holds_text buf' (p @ take (254 - length p) m)" by (simp add: LOGBUFSZ_def)
  from holds_text_newline [OF this] assms(2) show ?thesis by simp
qed

section \<open>Properties\<close>

lemma logg_run:
  assumes "length buf = LOGBUFSZ" and "snd (insert_level lv (replicate LOGBUFSZ 0)) = lbuf"
    and "holds_text lbuf (cstr lvl)" and "length lvl \<le> 6" and "0 \<notin> set time" and "length time \<le> 30"
    and "0 \<le> pid" and "pid < 2 ^ 31" and "0 \<notin> set m"
  defines "line \<equiv> log_prefix lvl time pid @ take (254 - length (log_prefix lvl time pid)) m @ [10]"
  shows "\<exists>buf'. logg (time @ [10, 0]) pid True lv (Some m) buf = (0, line, buf') \<and> holds_text buf' line"
proof -
  define b where "b = snd (insert_pid pid (snd (insert_time (time @ [10, 0]) lbuf)))"
  define b' where "b' = snprintf_at (strlen b) (LOGBUFSZ - Suc (strlen b)) m b"
  note pre = prefix_text [OF assms(3-8), folded b_def]
  have final: "holds_text (b'[strlen b' := 10]) line"
    unfolding line_def by (rule message_text [OF pre assms(9)]) (simp add: b'_def)
  then have "take (strlen (b'[strlen b' := 10])) (b'[strlen b' := 10]) = line"
    using holds_text_strlen [OF final] take_strlen by metis
  with final show ?thesis
    using assms(1,2) by (simp add: logg_def Let_def memset_all b_def [symmetric] b'_def [symmetric])
qed

lemma level_text:
  "holds_text (append_log (cstr ''[ERR]'') (replicate LOGBUFSZ 0)) (cstr ''[ERR]'')"
  "holds_text (append_log (cstr ''[INFO]'') (replicate LOGBUFSZ 0)) (cstr ''[INFO]'')"
proof -
  have "holds_text (replicate LOGBUFSZ 0) []" by (simp add: holds_text_def LOGBUFSZ_def)
  from holds_text_append [OF this, of "cstr ''[ERR]''"] holds_text_append [OF this, of "cstr ''[INFO]''"]
  show "holds_text (append_log (cstr ''[ERR]'') (replicate LOGBUFSZ 0)) (cstr ''[ERR]'')"
    "holds_text (append_log (cstr ''[INFO]'') (replicate LOGBUFSZ 0)) (cstr ''[INFO]'')"
    by (simp_all add: LOGBUFSZ_def)
qed

lemma log_error_run:
  assumes "0 \<le> fd" and "length buf = LOGBUFSZ" and "0 \<notin> set time" and "length time \<le> 30"
    and "0 \<le> pid" and "pid < 2 ^ 31" and "0 \<notin> set m"
  defines "line \<equiv> log_prefix ''[ERR]'' time pid @ take (254 - length (log_prefix ''[ERR]'' time pid)) m @ [10]"
  shows "\<exists>buf'. log_error fd (time @ [10, 0]) pid True ERR (Some m) buf =
    Returns (0, line @ replicate (LOGBUFSZ - length line) 0) buf'"
proof -
  define lbuf where "lbuf = append_log (cstr ''[ERR]'') (replicate LOGBUFSZ 0)"
  define b where "b = snd (insert_pid pid (snd (insert_time (time @ [10, 0]) lbuf)))"
  define b' where "b' = snprintf_at (strlen b) (LOGBUFSZ - Suc (strlen b)) m b"
  have "length ''[ERR]'' \<le> 6" by simp
  note pre = prefix_text [OF level_text(1) [folded lbuf_def] this assms(3-6), folded b_def]
  have final: "holds_text (b'[strlen b' := 10]) line"
    unfolding line_def by (rule message_text [OF pre assms(7)]) (simp add: b'_def)
  then have "take LOGBUFSZ (b'[strlen b' := 10]) = line @ replicate (LOGBUFSZ - length line) 0"
    using holds_text_strlen [OF final] by (simp add: holds_text_def)
  then show ?thesis
    using assms(1,2)
    by (simp add: log_error_def old_clear_buf_memset memset_all old_insert_level_def Let_def
        lbuf_def [symmetric] b_def [symmetric] b'_def [symmetric] del: cstr_simps)
qed

text \<open>Where the log cannot be opened the assertion of \<open>log_error\<close> ends the program.\<close>

lemma log_test_unopened: "opens (cstr ''programm.log'') < 0 \<Longrightarrow> \<exists>b. log_test_main opens ctime pid write_ok = Aborts b"
  by (simp add: log_test_main_def old_log_init_def log_error_def del: cstr_simps)

text \<open>
  C34: a message of any length gives one line: level, time, pid and as much of the message as
  fits, ended by a newline, at most 255 bytes, so the buffer always keeps a NUL behind it. The
  older form writes the same line with NULs up to 256 bytes.
\<close>

theorem log_line:
  assumes "length buf = LOGBUFSZ" and "0 \<notin> set time" and "length time \<le> 30" and "0 \<le> pid" and "pid < 2 ^ 31"
    and "0 \<notin> set m" and "0 \<le> fd"
  defines "line \<equiv> \<lambda>lvl. log_prefix lvl time pid @ take (254 - length (log_prefix lvl time pid)) m @ [10]"
  shows "(\<exists>b. logg (time @ [10, 0]) pid True ERR (Some m) buf = (0, line ''[ERR]'', b) \<and> length (line ''[ERR]'') \<le> 255) \<and>
    (\<exists>b. logg (time @ [10, 0]) pid True INFO (Some m) buf = (0, line ''[INFO]'', b) \<and> length (line ''[INFO]'') \<le> 255) \<and>
    (\<exists>b. log_error fd (time @ [10, 0]) pid True ERR (Some m) buf =
      Returns (0, line ''[ERR]'' @ replicate (LOGBUFSZ - length (line ''[ERR]'')) 0) b)"
proof -
  have lv: "snd (insert_level ERR (replicate LOGBUFSZ 0)) = append_log (cstr ''[ERR]'') (replicate LOGBUFSZ 0)"
    "snd (insert_level INFO (replicate LOGBUFSZ 0)) = append_log (cstr ''[INFO]'') (replicate LOGBUFSZ 0)"
    by (simp_all add: insert_level_def)
  have short: "length t \<le> 255" if "holds_text b t" for b t
    using that by (simp add: holds_text_def LOGBUFSZ_def)
  have len: "length ''[ERR]'' \<le> 6" "length ''[INFO]'' \<le> 6" by simp_all
  show ?thesis
    using logg_run [OF assms(1) lv(1) level_text(1) len(1) assms(2-6)] short
      logg_run [OF assms(1) lv(2) level_text(2) len(2) assms(2-6)]
      log_error_run [OF assms(7,1-6)]
    unfolding line_def by blast
qed

theorem log_line_witness:
  "\<exists>line b. logg (cstr ''now'' @ [10, 0]) 7 True ERR (Some (cstr ''m'')) (replicate LOGBUFSZ 1) = (0, line, b) \<and>
    length line \<le> 255"
  using log_line [of "replicate LOGBUFSZ 1" "cstr ''now''" 7 "cstr ''m''" 1] by auto

end
