(* ===== verification/Backuper.thy ===== *)
theory Backuper
  imports C_Prelude
begin

text \<open>
  \<open>Daemon(backuper)/backuper.c\<close>: a process for each directory of the source copies its files and
  then follows its inotify events. Paths are kept in buffers of 128 bytes; what a process does
  is a list of effects, a fork holds the effects of the child. Nothing checks that a path fits its
  buffer: past the end of one the behaviour is undefined, so the properties speak of paths that fit.
\<close>

section \<open>Paths\<close>

definition PATH_SIZE :: nat where "PATH_SIZE = 128"
definition EVENTS_SIZE :: nat where "EVENTS_SIZE = 64"

definition strcat :: "byte list \<Rightarrow> byte list \<Rightarrow> byte list" where
  "strcat dst src = store_at (strlen dst) (c_str src @ [0]) dst"

definition strcpy_to :: "byte list \<Rightarrow> byte list \<Rightarrow> byte list" where
  "strcpy_to dst src = store_at 0 (c_str src @ [0]) dst"

text \<open>\<open>file_path\<close> and \<open>dir_path\<close> may be the same buffer: then the first branch is not taken.\<close>

definition make_path :: "byte list \<Rightarrow> byte list \<Rightarrow> byte list \<Rightarrow> byte list" where
  "make_path file_path dir_path name =
     (let file_path = (if strcmp file_path dir_path \<noteq> 0
                       then strcpy_to (file_path[0 := 0]) dir_path else file_path);
          file_path = strcat file_path (cstr ''/'')
      in strcat file_path name)"

section \<open>What a process does\<close>

datatype bk_effect =
    Log "byte list"
  | is_Cp: Cp "byte list" "byte list"
  | is_Rm: Rm "byte list"
  | is_Mkdir: Mkdir "byte list"
  | is_Watch: Watch "byte list"
  | Signal_group string
  | Spawn "bk_effect list"

text \<open>
  The effects of a process and its children in one list, each child at the place of its fork;
  no effect of a process depends on another process.
\<close>

fun flat :: "bk_effect \<Rightarrow> bk_effect list" where
  "flat (Spawn es) = concat (map flat es)"
| "flat e = [e]"

definition all_effects :: "bk_effect list \<Rightarrow> bk_effect list" where
  "all_effects es = concat (map flat es)"

lemma all_effects_simps [simp]:
  "all_effects [] = []" "all_effects (e # es) = flat e @ all_effects es"
  "all_effects (es @ fs) = all_effects es @ all_effects fs" "flat (Spawn es) = all_effects es"
  by (simp_all add: all_effects_def)

declare flat.simps(1) [simp del]

text \<open>What a process has done when its copy has ended, or its \<open>exit\<close>.\<close>

fun done_by :: "('a, 'w) outcome \<Rightarrow> 'w" where
  "done_by (Returns a w) = w"
| "done_by (Exits e w) = w"
| "done_by (Aborts w) = w"
| "done_by (Faults w) = w"
| "done_by (Blocks w) = w"

definition send_children :: "string \<Rightarrow> bk_effect list" where
  "send_children signal = [Signal_group signal]"

definition copy_file :: "byte list \<Rightarrow> byte list \<Rightarrow> bk_effect list" where
  "copy_file source dest =
     [Log (cstr ''Copy file: '' @ c_str source @ cstr '' to '' @ c_str dest @ [10]), Cp (c_str source) (c_str dest)]"

definition del :: "byte list \<Rightarrow> bk_effect list" where
  "del path = [Log (cstr ''Delete: '' @ c_str path @ [10]), Rm (c_str path)] @ send_children ''SIGUSR2''"

section \<open>Opening and watching\<close>

text \<open>
  What the calls answer: the descriptor of \<open>inotify_init\<close>, \<open>inotify_add_watch\<close>, which paths
  \<open>opendir\<close> can open, for which paths \<open>mkdir\<close> makes a directory that can then be opened. The
  texts of the log are without the process number at their end.
\<close>

record bk_env =
  b_inotify :: int
  b_watch :: "byte list \<Rightarrow> int"
  b_opendir :: "byte list \<Rightarrow> bool"
  b_mkdir :: "byte list \<Rightarrow> bool"

definition open_dir :: "bk_env \<Rightarrow> byte list \<Rightarrow> bool \<Rightarrow> bk_effect list \<Rightarrow> (unit, bk_effect list) outcome" where
  "open_dir env path new es =
     (let dir = b_opendir env (c_str path) in
      if new \<and> \<not> dir then
        (if \<not> b_mkdir env (c_str path) then Exits 1 (es @ [Log (cstr ''Can't create directory '' @ c_str path)])
         else Returns () (es @ [Mkdir (c_str path)]))
      else if \<not> dir then Exits 1 (es @ [Log (cstr ''Can't open directory '' @ c_str path)])
      else Returns () es)"

definition create_inotify :: "bk_env \<Rightarrow> byte list \<Rightarrow> bk_effect list \<Rightarrow> (unit, bk_effect list) outcome" where
  "create_inotify env src_path es =
     (if b_inotify env < 0 then Exits 1 (es @ [Log (cstr ''Can't create iniotify'' @ [10])])
      else if b_watch env (c_str src_path) < 0 then Exits 1 (es @ [Log (cstr ''Can't add watch'' @ [10])])
      else Returns () (es @ [Watch (c_str src_path)]))"

section \<open>The first copy\<close>

datatype ftype = DT_UNKNOWN | DT_FIFO | DT_CHR | DT_DIR | DT_BLK | DT_REG | DT_LNK | DT_SOCK

fun dt_code :: "ftype \<Rightarrow> 8 word" where
  "dt_code DT_UNKNOWN = 0"
| "dt_code DT_FIFO = 1"
| "dt_code DT_CHR = 2"
| "dt_code DT_DIR = 4"
| "dt_code DT_BLK = 6"
| "dt_code DT_REG = 8"
| "dt_code DT_LNK = 10"
| "dt_code DT_SOCK = 12"

text \<open>An entry of a directory, with its own entries when it is a directory.\<close>

datatype entry = Entry (e_name: "byte list") (e_type: ftype) (e_sub: "entry list")

text \<open>
  \<open>copy_directory\<close> after the effects \<open>w\<close>: \<open>g\<close> is what the local path buffer holds at first. A child
  that fails ends alone, the loop of its parent goes on.
\<close>

fun copy_directory :: "bk_env \<Rightarrow> byte list \<Rightarrow> byte list \<Rightarrow> byte list \<Rightarrow> entry list \<Rightarrow> bk_effect list \<Rightarrow> (unit, bk_effect list) outcome"
and copy_entries :: "bk_env \<Rightarrow> byte list \<Rightarrow> byte list \<Rightarrow> byte list \<Rightarrow> byte list \<Rightarrow> entry list \<Rightarrow> bk_effect list" where
  "copy_directory env g src_path dest_path es w =
     (case bind_outcome (create_inotify env src_path w)
             (\<lambda>_ w. bind_outcome (open_dir env src_path False w) (\<lambda>_ w. open_dir env dest_path True w)) of
        Returns _ w \<Rightarrow> Returns () (w @ copy_entries env g g src_path dest_path es)
      | failed \<Rightarrow> failed)"
| "copy_entries env g file_path src_path dest_path [] = []"
| "copy_entries env g file_path src_path dest_path (Entry name t sub # es) =
     (if strcmp name (cstr ''.'') \<noteq> 0 \<and> strcmp name (cstr ''..'') \<noteq> 0 then
        (let file_path = make_path file_path src_path name in
         (if dt_code t AND dt_code DT_REG \<noteq> 0 then copy_file file_path dest_path
          else if dt_code t AND dt_code DT_DIR \<noteq> 0 then
            [Spawn (let src = make_path src_path src_path name; dest = make_path dest_path dest_path name in
                    done_by (copy_directory env g src dest sub [Log (cstr ''New process! Directory: '' @ c_str src)]))]
          else [Log (cstr ''Dont work with such files'' @ [10])]) @
         copy_entries env g file_path src_path dest_path es)
      else copy_entries env g file_path src_path dest_path es)"

section \<open>Events\<close>

record inotify_event =
  ev_mask :: "32 word"
  ev_len :: "32 word"
  ev_name :: "byte list"

definition "IN_MODIFY = (0x2 :: 32 word)"
definition "IN_MOVED_FROM = (0x40 :: 32 word)"
definition "IN_MOVED_TO = (0x80 :: 32 word)"
definition "IN_CREATE = (0x100 :: 32 word)"
definition "IN_DELETE = (0x200 :: 32 word)"

lemmas in_masks = IN_MODIFY_def IN_MOVED_FROM_def IN_MOVED_TO_def IN_CREATE_def IN_DELETE_def

definition "S_IFMT = (0xF000 :: 32 word)"
definition "S_IFREG = (0x8000 :: 32 word)"
definition "S_IFDIR = (0x4000 :: 32 word)"

text \<open>\<open>lstat\<close> gives the mode, or whatever the stack holds when it fails.\<close>

definition is_regular :: "(byte list \<Rightarrow> 32 word) \<Rightarrow> byte list \<Rightarrow> bool" where
  "is_regular lstat path \<longleftrightarrow> lstat (c_str path) AND S_IFMT = S_IFREG"

definition is_directory :: "(byte list \<Rightarrow> 32 word) \<Rightarrow> byte list \<Rightarrow> bool" where
  "is_directory lstat path \<longleftrightarrow> lstat (c_str path) AND S_IFMT = S_IFDIR"

definition event_create ::
  "(byte list \<Rightarrow> 32 word) \<Rightarrow> bk_env \<Rightarrow> (byte list \<Rightarrow> entry list) \<Rightarrow> byte list \<Rightarrow> byte list \<Rightarrow> byte list \<Rightarrow>
   inotify_event \<Rightarrow> bk_effect list" where
  "event_create lstat env readdir g src_path dest_path event =
     (let file_path_src = make_path g src_path (ev_name event);
          file_path_dest = make_path g dest_path (ev_name event) in
      if is_regular lstat file_path_src then copy_file file_path_src dest_path
      else if is_directory lstat file_path_src then
        [Spawn (let src = strcpy_to src_path file_path_src; dest = strcpy_to dest_path file_path_dest in
                done_by (copy_directory env g src dest (readdir (c_str src))
                  [Log (cstr ''New process! Directory: '' @ c_str src)]))]
      else [])"

definition event_delete :: "byte list \<Rightarrow> byte list \<Rightarrow> inotify_event \<Rightarrow> bk_effect list" where
  "event_delete g dest_path event = del (make_path g dest_path (ev_name event))"

text \<open>\<open>check_event\<close> with \<open>event_modify\<close>, \<open>event_move_to\<close> and \<open>event_move_from\<close>, which call the other two.\<close>

definition event_log :: "nat \<Rightarrow> string \<Rightarrow> byte list \<Rightarrow> inotify_event \<Rightarrow> bk_effect" where
  "event_log i kind src_path event =
     Log (dec_of_int (int i + 1) @ cstr '')event: '' @ cstr kind @ [9] @ cstr '' file: '' @ c_str src_path @ [47] @
       c_str (ev_name event) @ [10])"

definition check_event ::
  "(byte list \<Rightarrow> 32 word) \<Rightarrow> bk_env \<Rightarrow> (byte list \<Rightarrow> entry list) \<Rightarrow> byte list \<Rightarrow> byte list \<Rightarrow> byte list \<Rightarrow>
   nat \<Rightarrow> inotify_event \<Rightarrow> bk_effect list" where
  "check_event lstat env readdir g src_path dest_path i event =
     (if ev_mask event AND IN_CREATE \<noteq> 0 \<and> ev_len event \<noteq> 0 then
        event_log i ''create'' src_path event # event_create lstat env readdir g src_path dest_path event
      else if ev_mask event AND IN_DELETE \<noteq> 0 \<and> ev_len event \<noteq> 0 then
        event_log i ''delete'' src_path event # event_delete g dest_path event
      else if ev_mask event AND IN_MODIFY \<noteq> 0 \<and> ev_len event \<noteq> 0 then
        event_log i ''modify'' src_path event # event_create lstat env readdir g src_path dest_path event
      else if ev_mask event AND IN_MOVED_TO \<noteq> 0 \<and> ev_len event \<noteq> 0 then
        event_log i ''move_to'' src_path event # event_create lstat env readdir g src_path dest_path event
      else if ev_mask event AND IN_MOVED_FROM \<noteq> 0 \<and> ev_len event \<noteq> 0 then
        event_log i ''move_from'' src_path event # event_delete g dest_path event
      else [])"

text \<open>
  \<open>events + i\<close> in the bytes that \<open>read\<close> gave: the code takes an array of structs of 16 bytes, the
  name begins behind the struct.
\<close>

definition load32 :: "byte list \<Rightarrow> nat \<Rightarrow> 32 word" where
  "load32 bs off = ucast (bs ! off) OR push_bit 8 (ucast (bs ! (off + 1))) OR
     push_bit 16 (ucast (bs ! (off + 2))) OR push_bit 24 (ucast (bs ! (off + 3)))"

definition event_at :: "byte list \<Rightarrow> nat \<Rightarrow> inotify_event" where
  "event_at bs i = \<lparr>ev_mask = load32 bs (16 * i + 4), ev_len = load32 bs (16 * i + 12),
     ev_name = c_str (drop (16 * i + 16) bs)\<rparr>"

text \<open>
  \<open>count = res_read / sizeof (struct inotify_event)\<close>: the division is unsigned, and the result
  is cut to an \<open>int\<close>, so an error gives -1.
\<close>

definition event_count :: "int \<Rightarrow> int" where
  "event_count res_read = sint (word_of_int ((res_read mod 2 ^ 64) div 16) :: 32 word)"

definition is_alife :: "(byte list \<Rightarrow> bool) \<Rightarrow> byte list \<Rightarrow> bool" where
  "is_alife exists path \<longleftrightarrow> exists (c_str path)"

text \<open>\<open>finish\<close>: the last effects of the process and its exit with 0.\<close>

definition finish :: "bool \<Rightarrow> byte list \<Rightarrow> bk_effect list \<Rightarrow> (unit, bk_effect list) outcome" where
  "finish is_main src_path es =
     Exits 0 (es @ send_children ''SIGINT'' @ [Log (cstr ''End of watching! Directory: '' @ c_str src_path @ [10])] @
       (if is_main then [Log (cstr ''END OF BACKUP! Folder:'' @ c_str src_path @ [10, 10])] else []))"

text \<open>
  The loop over the events of one \<open>read\<close>, with \<open>check_folder\<close> before each; \<open>exists k\<close> is what
  \<open>lstat\<close> finds then. \<open>check_flag\<close> falls only in a child.
\<close>

primrec handle_events ::
  "(nat \<Rightarrow> inotify_event \<Rightarrow> bk_effect list) \<Rightarrow> (nat \<Rightarrow> byte list \<Rightarrow> bool) \<Rightarrow> bool \<Rightarrow> byte list \<Rightarrow> byte list \<Rightarrow> nat \<Rightarrow> nat \<Rightarrow>
   bk_effect list \<Rightarrow> (unit, bk_effect list) outcome" where
  "handle_events check exists is_main src_path bs i 0 es = Returns () es"
| "handle_events check exists is_main src_path bs i (Suc n) es =
     (if \<not> is_alife (exists i) src_path then finish is_main src_path es
      else handle_events check exists is_main src_path bs (Suc i) n (es @ check i (event_at bs i)))"

text \<open>The loop of \<open>main\<close>: \<open>reads\<close> are the results of \<open>read\<close> with the bytes in the buffer.\<close>

primrec watch_loop ::
  "(nat \<Rightarrow> inotify_event \<Rightarrow> bk_effect list) \<Rightarrow> (nat \<Rightarrow> byte list \<Rightarrow> bool) \<Rightarrow> bool \<Rightarrow> byte list \<Rightarrow> (int \<times> byte list) list \<Rightarrow>
   bk_effect list \<Rightarrow> (unit, bk_effect list) outcome" where
  "watch_loop check exists is_main src_path [] es = Blocks es"
| "watch_loop check exists is_main src_path (r # reads) es =
     (let count = event_count (fst r) in
      if count \<le> 0 then finish is_main src_path es
      else bind_outcome (handle_events check exists is_main src_path (snd r) 0 (nat count) es)
             (\<lambda>_ es. watch_loop check exists is_main src_path reads es))"

text \<open>The arguments of \<open>main\<close>.\<close>

definition backuper_args :: "byte list list \<Rightarrow> (byte list \<times> byte list, unit) outcome" where
  "backuper_args argv =
     (if length argv = 3
      then Returns (strcpy_to (replicate PATH_SIZE 0) (argv ! 1), strcpy_to (replicate PATH_SIZE 0) (argv ! 2)) ()
      else Aborts ())"

text \<open>\<open>start_log\<close> and \<open>start_daemon\<close> in the child: \<open>fifo\<close> says whether the log can be opened.\<close>

definition start_log :: "bool \<Rightarrow> bk_effect list \<Rightarrow> (unit, bk_effect list) outcome" where
  "start_log fifo es = (if fifo then Returns () es else Exits 1 es)"

definition start_daemon :: "bool \<Rightarrow> byte list \<Rightarrow> byte list \<Rightarrow> (unit, bk_effect list) outcome" where
  "start_daemon fifo src_path dest_path =
     bind_outcome (start_log fifo []) (\<lambda>_ es. Returns () (es @ [Log ([10] @ cstr ''Start daemon Source: '' @
       c_str src_path @ cstr '' Destination: '' @ c_str dest_path @ [10])]))"

definition backuper_main ::
  "(byte list \<Rightarrow> 32 word) \<Rightarrow> bk_env \<Rightarrow> (byte list \<Rightarrow> entry list) \<Rightarrow> byte list \<Rightarrow> (nat \<Rightarrow> byte list \<Rightarrow> bool) \<Rightarrow>
   bool \<Rightarrow> byte list list \<Rightarrow> (int \<times> byte list) list \<Rightarrow> (unit, bk_effect list) outcome" where
  "backuper_main lstat env readdir g exists fifo argv reads =
     (case backuper_args argv of
        Returns (src_path, dest_path) _ \<Rightarrow>
          bind_outcome (start_daemon fifo src_path dest_path) (\<lambda>_ es.
          bind_outcome (copy_directory env g src_path dest_path (readdir (c_str src_path)) es) (\<lambda>_ es.
          watch_loop (check_event lstat env readdir g src_path dest_path) exists True src_path reads es))
      | _ \<Rightarrow> Aborts [])"

section \<open>Paths\<close>

lemma strncmp_eq_c_str:
  "strlen s < n \<Longrightarrow> strlen t < n \<Longrightarrow> strncmp s t n = 0 \<longleftrightarrow> c_str s = c_str t"
proof (induction n arbitrary: s t)
  case 0
  then show ?case by simp
next
  case (Suc n)
  show ?case
  proof (cases s)
    case Nil
    then show ?thesis by (cases t) (auto simp: uint_0_iff)
  next
    case (Cons a s')
    note s = this
    show ?thesis
    proof (cases t)
      case Nil
      with s show ?thesis by (auto simp: uint_0_iff)
    next
      case (Cons b t')
      with s Suc.prems Suc.IH [of s' t'] show ?thesis
        by (auto simp: strlen_def uint_0_iff dest: word_uint_eqI)
    qed
  qed
qed

lemma strcmp_eq_0: "strcmp s t = 0 \<longleftrightarrow> c_str s = c_str t"
  unfolding strcmp_def by (rule strncmp_eq_c_str) auto

lemma c_str_strcat [simp]: "c_str (strcat dst src) = c_str dst @ c_str src"
  by (simp add: strcat_def store_at_def take_strlen c_str_append c_str_append_nul)

lemma length_strcat:
  "strlen dst + strlen src < length dst \<Longrightarrow> length (strcat dst src) = length dst"
  by (simp add: strcat_def length_store_at strlen_def)

lemma c_str_strcpy_to [simp]: "c_str (strcpy_to dst src) = c_str src"
  by (simp add: strcpy_to_def store_at_def c_str_append_nul)

lemma length_strcpy_to: "strlen src < length dst \<Longrightarrow> length (strcpy_to dst src) = length dst"
  by (simp add: strcpy_to_def length_store_at strlen_def)

lemma c_str_make_path [simp]: "c_str (make_path fp dp name) = c_str dp @ 47 # c_str name"
  by (auto simp: make_path_def Let_def strcmp_eq_0)

lemma length_make_path:
  assumes "strlen dp + 1 + strlen name < length fp"
  shows "length (make_path fp dp name) = length fp"
proof -
  define base where "base = (if strcmp fp dp \<noteq> 0 then strcpy_to (fp[0 := 0]) dp else fp)"
  have base: "c_str base = c_str dp" "length base = length fp"
    using assms by (auto simp: base_def strcmp_eq_0 length_strcpy_to)
  have "length (strcat base (cstr ''/'')) = length fp"
    using assms base by (subst length_strcat) (auto simp: strlen_def)
  then show ?thesis
    using assms base unfolding make_path_def base_def [symmetric] Let_def
    by (subst length_strcat) (auto simp: strlen_def)
qed

section \<open>The copy mirrors the tree\<close>

text \<open>
  The directories below a directory and its files, as suffixes of its path: what the copy goes
  through, in the order of its loop.
\<close>

definition visited :: "byte list \<Rightarrow> bool" where
  "visited name \<longleftrightarrow> c_str name \<noteq> cstr ''.'' \<and> c_str name \<noteq> cstr ''..''"

fun copied_as_file :: "ftype \<Rightarrow> bool" where
  "copied_as_file DT_REG = True"
| "copied_as_file DT_LNK = True"
| "copied_as_file DT_SOCK = True"
| "copied_as_file t = False"

fun copied_as_dir :: "ftype \<Rightarrow> bool" where
  "copied_as_dir DT_DIR = True"
| "copied_as_dir DT_BLK = True"
| "copied_as_dir t = False"

fun tree_dirs :: "entry list \<Rightarrow> byte list list" where
  "tree_dirs [] = []"
| "tree_dirs (Entry name t sub # es) =
     (if visited name \<and> copied_as_dir t then map (\<lambda>s. 47 # c_str name @ s) ([] # tree_dirs sub) else []) @
     tree_dirs es"

fun tree_files :: "entry list \<Rightarrow> (byte list \<times> byte list) list" where
  "tree_files [] = []"
| "tree_files (Entry name t sub # es) =
     (if visited name \<and> copied_as_file t then [([], c_str name)]
      else if visited name \<and> copied_as_dir t then map (\<lambda>(s, f). (47 # c_str name @ s, f)) (tree_files sub)
      else []) @ tree_files es"

lemma file_type_bits:
  "dt_code t AND 8 = 0 \<longleftrightarrow> \<not> copied_as_file t"
  "\<not> copied_as_file t \<Longrightarrow> dt_code t AND 4 = 0 \<longleftrightarrow> \<not> copied_as_dir t"
  by (cases t; simp)+

lemma visited_iff:
  "strcmp name (cstr ''.'') \<noteq> 0 \<and> strcmp name (cstr ''..'') \<noteq> 0 \<longleftrightarrow> visited name"
proof -
  have "c_str (cstr ''.'') = cstr ''.''" "c_str (cstr ''..'') = cstr ''..''" by simp_all
  then show ?thesis by (simp only: visited_def strcmp_eq_0)
qed

definition mirrored :: "bk_env \<Rightarrow> byte list \<Rightarrow> byte list \<Rightarrow> entry list \<Rightarrow> bk_effect list \<Rightarrow> bool" where
  "mirrored env src dest es effs \<longleftrightarrow>
     filter is_Cp effs = map (\<lambda>(s, f). Cp (src @ s @ 47 # f) (dest @ s)) (tree_files es) \<and>
     filter is_Watch effs = map (\<lambda>s. Watch (src @ s)) (tree_dirs es) \<and>
     filter is_Mkdir effs = map Mkdir (filter (\<lambda>d. \<not> b_opendir env d) (map (\<lambda>s. dest @ s) (tree_dirs es))) \<and>
     filter is_Rm effs = []"

definition works :: "bk_env \<Rightarrow> byte list \<Rightarrow> byte list \<Rightarrow> bool" where
  "works env src dest \<longleftrightarrow> 0 \<le> b_inotify env \<and> 0 \<le> b_watch env src \<and> b_opendir env src \<and>
     (b_opendir env dest \<or> b_mkdir env dest)"

declare copy_directory.simps [simp del]

lemma copy_directory_works:
  assumes "works env (c_str src) (c_str dest)"
  shows "copy_directory env g src dest es w =
    Returns () (w @ [Watch (c_str src)] @ (if b_opendir env (c_str dest) then [] else [Mkdir (c_str dest)]) @
      copy_entries env g g src dest es)"
  using assms by (auto simp: copy_directory.simps works_def create_inotify_def open_dir_def Let_def)

lemma mirrored_Nil: "mirrored env src dest [] []"
  by (simp add: mirrored_def)

lemma mirrored_skip:
  "mirrored env src dest es effs \<Longrightarrow> \<not> visited name \<or> \<not> copied_as_file t \<and> \<not> copied_as_dir t \<Longrightarrow>
   mirrored env src dest (Entry name t sub # es) effs"
  by (auto simp: mirrored_def)

lemma mirrored_Log: "mirrored env src dest es effs \<Longrightarrow> mirrored env src dest es (Log l # effs)"
  by (simp add: mirrored_def)

lemma mirrored_file:
  "mirrored env src dest es effs \<Longrightarrow> visited name \<Longrightarrow> copied_as_file t \<Longrightarrow>
   mirrored env src dest (Entry name t sub # es) (Cp (src @ 47 # c_str name) dest # effs)"
  by (cases t) (auto simp: mirrored_def)

lemma mirrored_dir:
  assumes "mirrored env src dest es effs" and "visited name" and "copied_as_dir t"
    and "mirrored env (src @ 47 # c_str name) (dest @ 47 # c_str name) sub effs'"
  shows "mirrored env src dest (Entry name t sub # es)
    ([Watch (src @ 47 # c_str name)] @
     (if b_opendir env (dest @ 47 # c_str name) then [] else [Mkdir (dest @ 47 # c_str name)]) @ effs' @ effs)"
proof -
  have "\<not> copied_as_file t" using assms(3) by (cases t) auto
  with assms show ?thesis
    by (cases "b_opendir env (dest @ 47 # c_str name)") (simp_all add: mirrored_def filter_map o_def case_prod_beta)
qed

definition paths_fit :: "byte list \<Rightarrow> byte list \<Rightarrow> entry list \<Rightarrow> bool" where
  "paths_fit src dest es \<longleftrightarrow>
     (\<forall>s \<in> set ([] # tree_dirs es). length (src @ s) < PATH_SIZE \<and> length (dest @ s) < PATH_SIZE) \<and>
     (\<forall>(s, f) \<in> set (tree_files es). length (src @ s @ 47 # f) < PATH_SIZE)"

lemma copy_file_effects: "all_effects (copy_file s d) = [Log (cstr ''Copy file: '' @ c_str s @ cstr '' to '' @ c_str d @ [10]), Cp (c_str s) (c_str d)]"
  by (simp add: copy_file_def)

lemma copy_entries_mirrored:
  "\<forall>s \<in> set (tree_dirs es). works env (c_str src @ s) (c_str dest @ s) \<Longrightarrow>
   mirrored env (c_str src) (c_str dest) es (all_effects (copy_entries env g fp src dest es))"
proof (induction es arbitrary: fp src dest rule: tree_dirs.induct)
  case 1
  then show ?case by (simp add: mirrored_Nil)
next
  case (2 name t sub es)
  define fp' where "fp' = make_path fp src name"
  have IH: "mirrored env (c_str src) (c_str dest) es (all_effects (copy_entries env g fp'' src dest es))" for fp''
    using 2 by simp
  consider "\<not> visited name" | "visited name" "copied_as_file t"
    | "visited name" "\<not> copied_as_file t" "copied_as_dir t"
    | "visited name" "\<not> copied_as_file t" "\<not> copied_as_dir t" by blast
  then show ?case
  proof cases
    case 1
    with IH [of fp] show ?thesis by (simp add: visited_iff mirrored_skip del: cstr_simps)
  next
    case 2
    have "mirrored env (c_str src) (c_str dest) (Entry name t sub # es)
        (Cp (c_str src @ 47 # c_str name) (c_str dest) # all_effects (copy_entries env g fp' src dest es))"
      by (rule mirrored_file [OF IH 2])
    with 2 show ?thesis
      by (simp add: visited_iff file_type_bits Let_def copy_file_effects fp'_def mirrored_Log del: cstr_simps)
  next
    case 3
    define src' where "src' = make_path src src name"
    define dest' where "dest' = make_path dest dest name"
    have paths: "c_str src' = c_str src @ 47 # c_str name" "c_str dest' = c_str dest @ 47 # c_str name"
      by (simp_all add: src'_def dest'_def)
    have sub: "\<forall>s \<in> set (tree_dirs sub). works env (c_str src' @ s) (c_str dest' @ s)"
      using "2.prems" 3 by (auto simp: paths)
    have works: "works env (c_str src') (c_str dest')"
      using "2.prems" 3 by (auto simp: paths)
    have inner: "mirrored env (c_str src') (c_str dest') sub (all_effects (copy_entries env g g src' dest' sub))"
      using "2.IH"(1) [OF _ sub] 3 by blast
    have "mirrored env (c_str src) (c_str dest) (Entry name t sub # es)
        ([Watch (c_str src')] @ (if b_opendir env (c_str dest') then [] else [Mkdir (c_str dest')]) @
         all_effects (copy_entries env g g src' dest' sub) @ all_effects (copy_entries env g fp' src dest es))"
      unfolding paths by (rule mirrored_dir [OF IH 3(1,3) inner [unfolded paths]])
    with 3 copy_directory_works [OF works] show ?thesis
      by (simp add: visited_iff file_type_bits Let_def src'_def [symmetric] dest'_def [symmetric] fp'_def
          mirrored_Log del: cstr_simps split: if_splits)
  next
    case 4
    with IH [of fp'] show ?thesis
      by (simp add: visited_iff file_type_bits Let_def fp'_def mirrored_Log mirrored_skip del: cstr_simps)
  qed
qed

text \<open>
  C26: a backup of a directory, when no call fails and every path fits, leaves exactly one copy of each file of the
  tree in the directory that mirrors its own, makes each mirror directory that is missing, watches
  each directory once and removes nothing. Files are the entries whose type has the bit of
  \<open>DT_REG\<close>, directories those with the bit of \<open>DT_DIR\<close>.
\<close>

theorem copy_mirrors_tree:
  assumes "\<forall>s \<in> set ([] # tree_dirs es). works env (c_str src @ s) (c_str dest @ s)"
    and fits: "paths_fit (c_str src) (c_str dest) es"
  shows "\<exists>effs. copy_directory env g src dest es [] = Returns () effs \<and>
     filter is_Cp (all_effects effs) = map (\<lambda>(s, f). Cp (c_str src @ s @ 47 # f) (c_str dest @ s)) (tree_files es) \<and>
     filter is_Watch (all_effects effs) = map (\<lambda>s. Watch (c_str src @ s)) ([] # tree_dirs es) \<and>
     filter is_Mkdir (all_effects effs) =
       map Mkdir (filter (\<lambda>d. \<not> b_opendir env d) (map (\<lambda>s. c_str dest @ s) ([] # tree_dirs es))) \<and>
     filter is_Rm (all_effects effs) = []"
proof -
  have "works env (c_str src) (c_str dest)" using assms by simp
  note run = copy_directory_works [OF this]
  have "mirrored env (c_str src) (c_str dest) es (all_effects (copy_entries env g g src dest es))"
    by (rule copy_entries_mirrored) (use assms in simp)
  then show ?thesis
    unfolding run by (simp add: mirrored_def)
qed

definition example_tree :: "entry list" where
  "example_tree = [Entry (cstr ''.'') DT_DIR [], Entry (cstr ''a'') DT_REG [],
     Entry (cstr ''d'') DT_DIR [Entry (cstr ''b'') DT_REG [], Entry (cstr ''p'') DT_FIFO []]]"

definition example_env :: bk_env where
  "example_env = \<lparr>b_inotify = 3, b_watch = (\<lambda>_. 1), b_opendir = (\<lambda>p. p \<noteq> cstr ''/B/d''), b_mkdir = (\<lambda>_. True)\<rparr>"

lemma copy_mirrors_tree_witness:
  "\<exists>effs. copy_directory example_env [7, 0] (cstr ''/S'') (cstr ''/B'') example_tree [] = Returns () effs \<and>
     filter is_Cp (all_effects effs) = [Cp (cstr ''/S/a'') (cstr ''/B''), Cp (cstr ''/S/d/b'') (cstr ''/B/d'')] \<and>
     filter is_Watch (all_effects effs) = [Watch (cstr ''/S''), Watch (cstr ''/S/d'')] \<and>
     filter is_Mkdir (all_effects effs) = [Mkdir (cstr ''/B/d'')]"
proof -
  have tree: "tree_dirs example_tree = [cstr ''/d'']" "tree_files example_tree = [([], cstr ''a''), (cstr ''/d'', cstr ''b'')]"
    by (simp_all add: example_tree_def visited_def)
  have "\<forall>s \<in> set ([] # tree_dirs example_tree). works example_env (c_str (cstr ''/S'') @ s) (c_str (cstr ''/B'') @ s)"
    by (simp add: tree example_env_def works_def)
  moreover have "paths_fit (c_str (cstr ''/S'')) (c_str (cstr ''/B'')) example_tree"
    by (simp add: paths_fit_def tree PATH_SIZE_def)
  ultimately have both: "\<forall>s \<in> set ([] # tree_dirs example_tree). works example_env (c_str (cstr ''/S'') @ s) (c_str (cstr ''/B'') @ s)"
    "paths_fit (c_str (cstr ''/S'')) (c_str (cstr ''/B'')) example_tree" by blast+
  from copy_mirrors_tree [OF both, of "[7, 0]"] tree show ?thesis
    by (auto simp: example_env_def)
qed

section \<open>Events in a buffer\<close>

text \<open>
  What \<open>read\<close> gives for an event: the struct of 16 bytes and the name, padded with NULs to a
  multiple of 16 bytes.
\<close>

definition put32 :: "32 word \<Rightarrow> byte list" where
  "put32 w = [ucast w, ucast (drop_bit 8 w), ucast (drop_bit 16 w), ucast (drop_bit 24 w)]"

definition name_space :: "byte list \<Rightarrow> nat" where
  "name_space name = 16 * (length name div 16 + 1)"

type_synonym raw_event = "32 word \<times> 32 word \<times> 32 word \<times> byte list"

definition pack_event :: "raw_event \<Rightarrow> byte list" where
  "pack_event ev = (case ev of (wd, msk, cookie, name) \<Rightarrow>
     put32 wd @ put32 msk @ put32 cookie @ put32 (of_nat (name_space name)) @
     name @ replicate (name_space name - length name) 0)"

definition event_of :: "raw_event \<Rightarrow> inotify_event" where
  "event_of ev = (case ev of (wd, msk, cookie, name) \<Rightarrow>
     \<lparr>ev_mask = msk, ev_len = of_nat (name_space name), ev_name = name\<rparr>)"

lemma length_put32 [simp]: "length (put32 w) = 4"
  by (simp add: put32_def)

lemma load32_skip: "load32 (p @ bs) (length p + off) = load32 bs off"
  by (simp add: load32_def nth_append add.assoc)

lemma bit_pushed_byte:
  "n < 32 \<Longrightarrow> bit (push_bit k (ucast (b :: byte)) :: 32 word) n \<longleftrightarrow> k \<le> n \<and> n - k < 8 \<and> bit b (n - k)"
  using bit_imp_le_length [of b "n - k"]
  by (auto simp: bit_push_bit_iff bit_unsigned_iff)

lemma bit_load32:
  assumes n: "n < 32"
  shows "bit (load32 bs off) n = bit (bs ! (off + n div 8)) (n mod 8)"
proof -
  have load: "bit (load32 bs off) n \<longleftrightarrow> n < 8 \<and> bit (bs ! off) n \<or> 8 \<le> n \<and> n < 16 \<and> bit (bs ! (off + 1)) (n - 8) \<or>
      16 \<le> n \<and> n < 24 \<and> bit (bs ! (off + 2)) (n - 16) \<or> 24 \<le> n \<and> bit (bs ! (off + 3)) (n - 24)"
    using n bit_pushed_byte [of n 0 "bs ! off"]
    by (auto simp: load32_def bit_or_iff bit_pushed_byte)
  have m: "n mod 8 = n - 8 * (n div 8)" by (simp add: minus_mult_div_eq_mod)
  consider "n div 8 = 0" | "n div 8 = 1" | "n div 8 = 2" | "n div 8 = 3" using n by linarith
  then show ?thesis
  proof cases
    case 1
    then have "n < 8" "n mod 8 = n" by simp_all
    then show ?thesis unfolding load by simp
  next
    case 2
    then have "8 \<le> n" "n < 16" "n mod 8 = n - 8" using m by linarith+
    with 2 show ?thesis unfolding load by simp
  next
    case 3
    then have "16 \<le> n" "n < 24" "n mod 8 = n - 16" using m by linarith+
    with 3 show ?thesis unfolding load by simp
  next
    case 4
    then have "24 \<le> n" "n mod 8 = n - 24" using m by linarith+
    with 4 show ?thesis unfolding load by simp
  qed
qed

lemma nth_put32: "k < 4 \<Longrightarrow> put32 w ! k = ucast (drop_bit (8 * k) w)"
proof -
  assume "k < 4"
  then consider "k = 0" | "k = 1" | "k = 2" | "k = 3" by linarith
  then show ?thesis by cases (simp_all add: put32_def)
qed

lemma load32_put32 [simp]: "load32 (put32 w @ bs) 0 = w"
proof (rule bit_word_eqI)
  fix n :: nat
  assume "n < LENGTH(32)"
  then have "n div 8 < 4" "n < 32" by auto
  then show "bit (load32 (put32 w @ bs) 0) n = bit w n"
    by (simp add: bit_load32 nth_append nth_put32 bit_simps)
qed

lemma and_mask_iff:
  "w AND IN_MODIFY \<noteq> 0 \<longleftrightarrow> bit w 1"
  "w AND IN_MOVED_FROM \<noteq> 0 \<longleftrightarrow> bit w 6"
  "w AND IN_MOVED_TO \<noteq> 0 \<longleftrightarrow> bit w 7"
  "w AND IN_CREATE \<noteq> 0 \<longleftrightarrow> bit w 8"
  "w AND IN_DELETE \<noteq> 0 \<longleftrightarrow> bit w 9"
  using and_exp_eq_0_iff_not_bit [of w 1] and_exp_eq_0_iff_not_bit [of w 6] and_exp_eq_0_iff_not_bit [of w 7]
    and_exp_eq_0_iff_not_bit [of w 8] and_exp_eq_0_iff_not_bit [of w 9]
  by (simp_all add: in_masks)

lemma event_at_skip: "length p = 16 * k \<Longrightarrow> event_at (p @ bs) (k + i) = event_at bs i"
  using load32_skip [of p bs "16 * i + 4"] load32_skip [of p bs "16 * i + 12"]
  by (simp add: event_at_def distrib_left add.assoc)

lemma event_at_pack:
  assumes "0 \<notin> set (snd (snd (snd ev)))"
  shows "event_at (pack_event ev @ rest) 0 = event_of ev"
proof -
  obtain wd msk cookie name where ev: "ev = (wd, msk, cookie, name)" by (cases ev)
  let ?tail = "name @ replicate (name_space name - length name) 0 @ rest"
  have len: "length name < name_space name" by (simp add: name_space_def)
  then obtain m where m: "name_space name - length name = Suc m" by (cases "name_space name - length name") auto
  have msk: "load32 (pack_event ev @ rest) 4 = msk"
    using load32_skip [of "put32 wd" "put32 msk @ put32 cookie @ put32 (of_nat (name_space name)) @ ?tail" 0]
    by (simp add: pack_event_def ev)
  have len: "load32 (pack_event ev @ rest) 12 = of_nat (name_space name)"
    using load32_skip [of "put32 wd @ put32 msk @ put32 cookie" "put32 (of_nat (name_space name)) @ ?tail" 0]
    by (simp add: pack_event_def ev)
  have "drop 16 (pack_event ev @ rest) = ?tail"
    by (simp add: pack_event_def ev)
  then have "c_str (drop 16 (pack_event ev @ rest)) = name"
    using assms by (simp add: ev m c_str_append)
  with msk len show ?thesis by (simp add: event_at_def event_of_def ev)
qed

text \<open>The struct that begins at the name of an event: its length is bytes 12 to 15 of the name.\<close>

lemma event_at_name:
  assumes "ev = (wd, msk, cookie, name)" and "length name < 16"
  shows "event_at (pack_event ev @ rest) 1 =
    \<lparr>ev_mask = load32 (name @ replicate (16 - length name) 0) 4,
     ev_len = load32 (name @ replicate (16 - length name) 0) 12, ev_name = c_str rest\<rparr>"
proof -
  let ?head = "put32 wd @ put32 msk @ put32 cookie @ put32 16"
  have eq: "pack_event ev @ rest = ?head @ (name @ replicate (16 - length name) 0) @ rest"
    using assms by (simp add: pack_event_def name_space_def)
  have nth: "((name @ replicate (16 - length name) 0) @ rest) ! k = (name @ replicate (16 - length name) 0) ! k" if "k < 16" for k
    by (subst nth_append) (use that assms in simp)
  have "event_at (pack_event ev @ rest) 1 = event_at ((name @ replicate (16 - length name) 0) @ rest) 0"
    unfolding eq using event_at_skip [of ?head 1 _ 0] by simp
  then show ?thesis
    using assms nth by (simp add: event_at_def load32_def)
qed

lemma length_pack_event: "length (snd (snd (snd ev))) < 16 \<Longrightarrow> length (pack_event ev) = 32"
  by (cases ev) (simp add: pack_event_def name_space_def)

lemma load32_zero: "load32 bs off = 0"
  if "bs ! off = 0" "bs ! (off + 1) = 0" "bs ! (off + 2) = 0" "bs ! (off + 3) = 0"
  using that by (simp add: load32_def)

lemma event_count_nonneg: "n < 2 ^ 31 \<Longrightarrow> event_count (int n) = int (n div 16)"
proof -
  assume n: "n < 2 ^ 31"
  then have m: "int n mod 2 ^ 64 = int n" by (simp add: mod_pos_pos_trivial)
  have "int (n div 16) < 2 ^ 31" using n by auto
  then show ?thesis
    unfolding event_count_def m by (simp add: zdiv_int int_range_cast)
qed

lemma event_count_error: "event_count (- 1) = - 1"
  by (simp add: event_count_def)

lemma watch_loop_step:
  "event_count n = int c \<Longrightarrow> 0 < c \<Longrightarrow> handle_events check exists m src bs 0 c es = Returns () es' \<Longrightarrow>
   watch_loop check exists m src ((n, bs) # reads) es = watch_loop check exists m src reads es'"
  by (simp add: Let_def)

lemma check_event_without_name: "ev_len e = 0 \<Longrightarrow> check_event lstat env readdir g src dest i e = []"
  by (simp add: check_event_def)

lemma handle_events_Suc:
  assumes "\<And>k. exists k (c_str src)"
  shows "handle_events check exists m src bs i (Suc n) es =
    handle_events check exists m src bs (Suc i) n (es @ check i (event_at bs i))"
  using assms by (simp add: is_alife_def)

text \<open>What the loop does with packed events from the \<open>k\<close>-th on: one call for each.\<close>

fun handled :: "(nat \<Rightarrow> inotify_event \<Rightarrow> bk_effect list) \<Rightarrow> nat \<Rightarrow> raw_event list \<Rightarrow> bk_effect list" where
  "handled check k [] = []"
| "handled check k (ev # evs) = check (2 * k) (event_of ev) @ handled check (Suc k) evs"

lemma handle_packed:
  assumes "\<And>j. exists j (c_str src)" and "\<And>j e. ev_len e = 0 \<Longrightarrow> check j e = []"
    and "\<forall>ev \<in> set evs. 0 \<notin> set (snd (snd (snd ev))) \<and> length (snd (snd (snd ev))) \<le> 12" and "length p = 32 * k"
  shows "handle_events check exists m src (p @ concat (map pack_event evs) @ rest) (2 * k) (2 * length evs) es =
    Returns () (es @ handled check k evs)"
  using assms(3,4)
proof (induction evs arbitrary: p k es)
  case Nil
  then show ?case by simp
next
  case (Cons ev evs)
  obtain wd msk cookie name where ev: "ev = (wd, msk, cookie, name)" by (cases ev)
  have name: "0 \<notin> set name" "length name \<le> 12" using Cons.prems by (simp_all add: ev)
  let ?rest = "concat (map pack_event evs) @ rest"
  let ?bs = "p @ pack_event ev @ ?rest"
  have first: "event_at ?bs (2 * k) = event_of ev"
    using event_at_skip [of p "2 * k" "pack_event ev @ ?rest" 0] event_at_pack [of ev ?rest] Cons.prems name
    by (simp add: ev)
  have "event_at ?bs (Suc (2 * k)) = event_at (pack_event ev @ ?rest) 1"
    using event_at_skip [of p "2 * k" "pack_event ev @ ?rest" 1] Cons.prems by simp
  then have "ev_len (event_at ?bs (Suc (2 * k))) = 0"
    using event_at_name [OF ev] name by (auto intro!: load32_zero simp: nth_append)
  then have second: "check (Suc (2 * k)) (event_at ?bs (Suc (2 * k))) = []"
    by (rule assms(2))
  have "length (p @ pack_event ev) = 32 * Suc k"
    using Cons.prems length_pack_event [of ev] name by (simp add: ev)
  from Cons.IH [OF _ this] Cons.prems(1)
  have "handle_events check exists m src (?bs) (2 * Suc k) (2 * length evs) es' =
      Returns () (es' @ handled check (Suc k) evs)" for es'
    by simp
  then show ?case
    using first second by (simp add: handle_events_Suc [where exists = exists and src = src, OF assms(1)] del: handle_events.simps(2))
qed

text \<open>
  C27: when every name has at most 12 bytes and the paths fit, one \<open>read\<close> of 1 to 32 events is handled event by
  event, in their order and each once; the loop counts twice as many structs, those made of
  names do nothing.
\<close>

theorem short_names_handled:
  assumes "\<And>j. exists j (c_str src)"
    and "\<forall>ev \<in> set evs. 0 \<notin> set (snd (snd (snd ev))) \<and> length (snd (snd (snd ev))) \<le> 12"
    and "evs \<noteq> []" and "2 * length evs \<le> EVENTS_SIZE"
    and fits: "strlen src + 13 < PATH_SIZE" "strlen dest + 13 < PATH_SIZE"
  shows "watch_loop (check_event lstat env readdir g src dest) exists m src
      ((int (32 * length evs), concat (map pack_event evs) @ rest) # reads) es =
    watch_loop (check_event lstat env readdir g src dest) exists m src reads
      (es @ concat (map (\<lambda>k. check_event lstat env readdir g src dest (2 * k) (event_of (evs ! k))) [0..<length evs]))"
proof -
  have count: "event_count (int (32 * length evs)) = int (2 * length evs)"
    using assms(4) event_count_nonneg [of "32 * length evs"] by (simp add: EVENTS_SIZE_def)
  have handled: "handled check k evs = concat (map (\<lambda>j. check (2 * (k + j)) (event_of (evs ! j))) [0..<length evs])"
    for check k
    by (induction evs arbitrary: k)
      (simp_all add: map_upt_Suc del: upt_Suc)
  have empty: "check_event lstat env readdir g src dest j e = []" if "ev_len e = 0" for j e
    using that by (rule check_event_without_name)
  have "handle_events (check_event lstat env readdir g src dest) exists m src (concat (map pack_event evs) @ rest) 0
      (2 * length evs) es = Returns () (es @ handled (check_event lstat env readdir g src dest) 0 evs)"
    using handle_packed [where p = "[]" and k = 0 and exists = exists and src = src, OF assms(1) empty assms(2)] by simp
  then show ?thesis
    using assms(3) unfolding handled [of _ 0] by (intro watch_loop_step [OF count]) simp_all
qed

definition example_events :: "raw_event list" where
  "example_events = [(1, IN_CREATE, 0, cstr ''a''), (1, IN_DELETE, 0, cstr ''b'')]"

definition example_check :: "nat \<Rightarrow> inotify_event \<Rightarrow> bk_effect list" where
  "example_check = check_event (\<lambda>_. S_IFREG) example_env (\<lambda>_. []) [0] (cstr ''/S'') (cstr ''/B'')"

lemma example_create:
  "example_check i (event_of (1, IN_CREATE, 0, cstr ''a'')) =
   [event_log i ''create'' (cstr ''/S'') (event_of (1, IN_CREATE, 0, cstr ''a''))] @
   copy_file (make_path [0] (cstr ''/S'') (cstr ''a'')) (cstr ''/B'')"
  by (simp add: example_check_def check_event_def event_of_def name_space_def event_create_def is_regular_def
      IN_CREATE_def S_IFREG_def S_IFMT_def del: cstr_simps)

lemma example_delete:
  "example_check i (event_of (1, IN_DELETE, 0, cstr ''b'')) =
   [event_log i ''delete'' (cstr ''/S'') (event_of (1, IN_DELETE, 0, cstr ''b''))] @
   del (make_path [0] (cstr ''/B'') (cstr ''b''))"
  by (simp add: example_check_def check_event_def event_of_def name_space_def event_delete_def
      IN_CREATE_def IN_DELETE_def del: cstr_simps)

lemma short_names_handled_witness:
  "let effs = done_by (watch_loop example_check
     (\<lambda>_ _. True) True (cstr ''/S'') [(64, concat (map pack_event example_events) @ [])] []) in
   filter is_Cp effs = [Cp (cstr ''/S/a'') (cstr ''/B'')] \<and> filter is_Rm effs = [Rm (cstr ''/B/b'')]"
proof -
  have evs: "\<forall>ev \<in> set example_events. 0 \<notin> set (snd (snd (snd ev))) \<and> length (snd (snd (snd ev))) \<le> 12"
    "example_events \<noteq> []" "length example_events = 2"
    by (simp_all add: example_events_def)
  have fits: "strlen (cstr ''/S'') + 13 < PATH_SIZE" "strlen (cstr ''/B'') + 13 < PATH_SIZE"
    by (simp_all add: strlen_def PATH_SIZE_def)
  have "2 * length example_events \<le> EVENTS_SIZE" using evs(3) by (simp add: EVENTS_SIZE_def)
  note run = short_names_handled [where exists = "\<lambda>_ _. True", OF TrueI evs(1,2) this fits,
    where lstat = "\<lambda>_. S_IFREG" and env = example_env and readdir = "\<lambda>_. []" and g = "[0]" and m = True and rest = "[]" and reads = "[]" and es = "[]",
    folded example_check_def, unfolded evs(3)]
  have "[0..<2] = [0, 1 :: nat]" by (simp add: upt_rec)
  then have "concat (map (\<lambda>k. example_check (2 * k) (event_of (example_events ! k))) [0..<2]) =
      example_check 0 (event_of (1, IN_CREATE, 0, cstr ''a'')) @ example_check 2 (event_of (1, IN_DELETE, 0, cstr ''b''))"
    by (simp add: example_events_def del: cstr_simps)
  note run [unfolded this]
  then show ?thesis
    by (simp add: example_create example_delete copy_file_def del_def send_children_def event_log_def
        del: cstr_simps watch_loop.simps(2)) (simp add: watch_loop.simps(1))
qed

text \<open>
  C28: a name of 13 to 15 bytes is handled a second time as if it were an event of its own. When
  the bits of its bytes 4 and 5 read as a deletion, the process removes the path that the bytes behind
  the event give, and that is the whole backup directory when they are NULs: a new file
  \<open>backup.tar.bz2\<close> deletes its backup.
\<close>

theorem long_name_deletes:
  assumes "\<And>j. exists j (c_str src)" and "ev = (wd, msk, cookie, name)"
    and "0 \<notin> set name" and "13 \<le> length name" and "length name \<le> 15"
    and "\<not> bit (name ! 5) 0"
    and "bit (name ! 5) 1 \<or> \<not> bit (name ! 4) 1 \<and> \<not> bit (name ! 4) 7 \<and> bit (name ! 4) 6"
  shows "\<exists>es' es''. watch_loop (check_event lstat env readdir g src dest) exists m src
      ((int (length (pack_event ev)), pack_event ev @ rest) # reads) es =
    watch_loop (check_event lstat env readdir g src dest) exists m src reads
      (es @ check_event lstat env readdir g src dest 0 (event_of ev) @ es' @ [Rm (c_str dest @ 47 # c_str rest)] @ es'')"
proof -
  have len: "length (pack_event ev) = 32"
    using assms(2,5) by (intro length_pack_event) simp
  have count: "event_count (int (length (pack_event ev))) = int 2"
    using event_count_nonneg [of 32] by (simp add: len)
  let ?padded = "name @ replicate (16 - length name) 0"
  let ?spur = "\<lparr>ev_mask = load32 ?padded 4, ev_len = load32 ?padded 12, ev_name = c_str rest\<rparr>"
  have first: "event_at (pack_event ev @ rest) 0 = event_of ev"
    using event_at_pack [of ev rest] assms(2,3) by simp
  have second: "event_at (pack_event ev @ rest) (Suc 0) = ?spur"
    using event_at_name [OF assms(2)] assms(5) by simp
  have bits: "bit (load32 ?padded 4) n = bit (?padded ! (4 + n div 8)) (n mod 8)" if "n < 32" for n
    by (rule bit_load32 [OF that])
  have name4: "?padded ! 4 = name ! 4" "?padded ! 5 = name ! 5" "?padded ! 12 = name ! 12"
    using assms(4) by (simp_all add: nth_append)
  have "name ! 12 \<noteq> 0"
    using assms(3,4) nth_mem [of 12 name] by force
  then obtain b where b: "b < 8" "bit (name ! 12) b"
    using bit_word_eqI [of "name ! 12" 0] by auto
  then have "bit (load32 ?padded 12) b"
    using bit_load32 [of b ?padded 12] name4 by simp
  then have named: "load32 ?padded 12 \<noteq> 0" by auto
  have "\<exists>es' es''. check_event lstat env readdir g src dest (Suc 0) ?spur = es' @ [Rm (c_str dest @ 47 # c_str rest)] @ es''"
  proof -
    have del: "\<exists>es' es''. l # event_delete g dest ?spur = es' @ [Rm (c_str dest @ 47 # c_str rest)] @ es''" for l
      by (rule exI [of _ "[l, Log (cstr ''Delete: '' @ c_str dest @ 47 # c_str rest @ [10])]"])
        (simp add: event_delete_def del_def c_str_no_nul_id del: cstr_simps)
    show ?thesis
      using assms(6,7) named del
      by (auto simp: check_event_def and_mask_iff bits name4 del: exI)
  qed
  then obtain es' es'' where
    spur: "check_event lstat env readdir g src dest (Suc 0) ?spur = es' @ [Rm (c_str dest @ 47 # c_str rest)] @ es''"
    by blast
  show ?thesis
    by (intro exI [of _ es'] exI [of _ es''] watch_loop_step [OF count])
      (simp_all add: numeral_2_eq_2 is_alife_def assms(1) first second spur)
qed

lemma long_name_deletes_witness:
  "\<exists>es' es''. done_by (watch_loop
     (check_event (\<lambda>_. S_IFREG) example_env (\<lambda>_. []) [0] (cstr ''/S'') (cstr ''/B'')) (\<lambda>_ _. True) True (cstr ''/S'')
     [(32, pack_event (1, IN_CREATE, 0, cstr ''backup.tar.bz2'') @ replicate 992 0)] []) =
   es' @ [Rm (cstr ''/B/'')] @ es''"
proof -
  have nth: "cstr ''backup.tar.bz2'' ! 4 = 0x75" "cstr ''backup.tar.bz2'' ! 5 = 0x70" by simp_all
  have bits: "\<not> bit (0x70 :: byte) 0" "\<not> bit (0x75 :: byte) 1" "\<not> bit (0x75 :: byte) 7" "bit (0x75 :: byte) 6"
    by simp_all
  have nul: "0 \<notin> set (cstr ''backup.tar.bz2'')" by simp
  have len: "length (pack_event (1, IN_CREATE, 0, cstr ''backup.tar.bz2'')) = 32"
    by (simp add: length_pack_event)
  have "c_str (replicate 992 0 :: byte list) = []"
    using c_str_replicate_nul [of "[]" 992] by simp
  moreover have "\<not> bit (cstr ''backup.tar.bz2'' ! 5) 0"
    "bit (cstr ''backup.tar.bz2'' ! 5) 1 \<or> \<not> bit (cstr ''backup.tar.bz2'' ! 4) 1 \<and>
     \<not> bit (cstr ''backup.tar.bz2'' ! 4) 7 \<and> bit (cstr ''backup.tar.bz2'' ! 4) 6"
    unfolding nth using bits by auto
  note long_name_deletes [where exists = "\<lambda>_ _. True", OF TrueI refl nul _ _ this,
    where lstat = "\<lambda>_. S_IFREG" and env = example_env and readdir = "\<lambda>_. []" and g = "[0]" and src = "cstr ''/S''" and
      dest = "cstr ''/B''" and m = True and wd = 1 and msk = IN_CREATE and cookie = 0 and
      rest = "replicate 992 0" and reads = "[]" and es = "[]", unfolded len]
  moreover have "c_str (cstr ''/B'') @ [47] = cstr ''/B/''" by simp
  ultimately obtain es' es'' where "watch_loop
     (check_event (\<lambda>_. S_IFREG) example_env (\<lambda>_. []) [0] (cstr ''/S'') (cstr ''/B'')) (\<lambda>_ _. True) True (cstr ''/S'')
     [(32, pack_event (1, IN_CREATE, 0, cstr ''backup.tar.bz2'') @ replicate 992 0)] [] =
     Blocks (es' @ [Rm (cstr ''/B/'')] @ es'')"
    by (simp del: cstr_simps watch_loop.simps(2)) (metis append.assoc)
  then show ?thesis
    by (intro exI) (simp del: cstr_simps watch_loop.simps(2))
qed

end
