(* ===== verification/Daemon.thy ===== *)
theory Daemon
  imports Backuper
begin

text \<open>
  \<open>Daemon(backuper)/daemon.c\<close>: the program that reads commands and starts, stops and changes
  backupers, and moves their log from the fifo to a file. Its standard input is one list of bytes
  that \<open>scanf\<close> takes words and numbers from.
\<close>

definition BUF_SIZE :: nat where "BUF_SIZE = 1024"
definition COMMAND_SIZE :: nat where "COMMAND_SIZE = 128"

text \<open>The input that is left, \<open>buf\<close> and the arrays of \<open>main\<close>, what the fifo holds and the log file.\<close>

record daemon =
  d_in :: "byte list"
  d_buf :: "byte list"
  d_src :: "byte list"
  d_dest :: "byte list"
  d_beh :: "byte list"
  d_fifo :: "byte list"
  d_log :: "byte list"

datatype d_effect =
    Exec "byte list list"
  | Kill int string
  | Print "byte list"
  | Unlink "byte list"

section \<open>Reading words and numbers\<close>

text \<open>
  \<open>scanf ("%s", buf)\<close>: no bound on the word, and one that does not fit its array with its NUL is stored behind
  it, a fault; at the end of the input the array stays as it is.
\<close>

definition next_word :: "byte list \<Rightarrow> byte list \<times> byte list" where
  "next_word inp = (let s = dropWhile is_space inp in
     (takeWhile (\<lambda>b. \<not> is_space b) s, dropWhile (\<lambda>b. \<not> is_space b) s))"

definition scan_s ::
  "(daemon \<Rightarrow> byte list) \<Rightarrow> ((byte list \<Rightarrow> byte list) \<Rightarrow> daemon \<Rightarrow> daemon) \<Rightarrow> daemon \<Rightarrow> (bool, daemon) outcome" where
  "scan_s array field st =
     (case next_word (d_in st) of (w, rest) \<Rightarrow>
        if w = [] then Returns False (st\<lparr>d_in := []\<rparr>)
        else if length (array st) \<le> length w then Faults (st\<lparr>d_in := rest\<rparr>)
        else Returns True (field (store_at 0 (w @ [0])) (st\<lparr>d_in := rest\<rparr>)))"

text \<open>
  \<open>scanf ("%d", &pid)\<close>: a sign and digits; \<open>None\<close> when there is no digit, what was read of a
  sign is gone.
\<close>

definition scan_d :: "daemon \<Rightarrow> int option \<times> daemon" where
  "scan_d st =
     (let s = dropWhile is_space (d_in st);
          neg = (s \<noteq> [] \<and> hd s = of_char (CHR ''-''));
          s = (if s \<noteq> [] \<and> (hd s = of_char (CHR ''-'') \<or> hd s = of_char (CHR ''+'')) then tl s else s);
          ds = takeWhile is_digit s; v = dec_value ds in
      (if ds = [] then None
       else Some (sint (word_of_int (clamp_long (if neg then - v else v)) :: 32 word)),
       st\<lparr>d_in := dropWhile is_digit s\<rparr>))"

text \<open>The conversions of one format string: the first that fails ends the call.\<close>

definition and_scan :: "(bool, daemon) outcome \<Rightarrow> (daemon \<Rightarrow> (bool, daemon) outcome) \<Rightarrow> (bool, daemon) outcome" where
  "and_scan r f = bind_outcome r (\<lambda>ok st. if ok then f st else Returns False st)"

definition scan_paths :: "daemon \<Rightarrow> (bool, daemon) outcome" where
  "scan_paths st =
     and_scan (and_scan (scan_s d_src d_src_update st) (scan_s d_dest d_dest_update)) (scan_s d_beh d_beh_update)"

section \<open>The commands\<close>

text \<open>\<open>create_fifo\<close>: the error of \<open>mkfifo\<close>, if any, and whether \<open>open\<close> works.\<close>

definition create_fifo :: "string option \<Rightarrow> bool \<Rightarrow> (unit, d_effect list) outcome" where
  "create_fifo mkfifo opened =
     (if mkfifo \<noteq> None \<and> mkfifo \<noteq> Some ''EEXIST''
      then Exits 1 [Print (cstr ''Can't create fifo fifo_log for logging'' @ [10])]
      else if \<not> opened then Exits 1 [Print (cstr ''Can't open fifo fifo_log for logging'' @ [10])]
      else Returns () [])"

text \<open>\<open>start\<close>: the arguments that the child hands to the program; \<open>execl\<close> is taken to work.\<close>

definition start :: "byte list \<Rightarrow> byte list \<Rightarrow> byte list \<Rightarrow> d_effect list" where
  "start src dest behaviour = [Exec [cstr ''backuper'', c_str src, c_str dest, c_str behaviour]]"

definition stop :: "int \<Rightarrow> d_effect list" where
  "stop pid = [Kill pid ''SIGINT'']"

definition change :: "int \<Rightarrow> byte list \<Rightarrow> byte list \<Rightarrow> byte list \<Rightarrow> d_effect list" where
  "change pid src dest behaviour = stop pid @ start src dest behaviour"

text \<open>
  \<open>write_log\<close>: the fifo is open without blocking, so its loop ends when the fifo is empty.
\<close>

function write_log_loop :: "byte list \<Rightarrow> byte list \<Rightarrow> byte list" where
  "write_log_loop fifo log =
     (if fifo = [] then log else write_log_loop (drop BUF_SIZE fifo) (log @ take BUF_SIZE fifo))"
  by pat_completeness auto

termination by (relation "measure (\<lambda>(fifo, log). length fifo)") (auto simp: BUF_SIZE_def)

declare write_log_loop.simps [simp del]

definition write_log :: "bool \<Rightarrow> daemon \<Rightarrow> (d_effect list, daemon) outcome" where
  "write_log opened st =
     (if \<not> opened then Exits 1 st
      else Returns [] (st\<lparr>d_fifo := [], d_log := write_log_loop (d_fifo st) (d_log st)\<rparr>))"

text \<open>One round of \<open>while(1)\<close>: \<open>opened\<close> is the log file, \<open>pid0\<close> what an unread \<open>pid\<close> holds.\<close>

definition daemon_step :: "bool \<Rightarrow> int \<Rightarrow> daemon \<Rightarrow> (d_effect list, daemon) outcome" where
  "daemon_step opened pid0 st =
     bind_outcome (scan_s d_buf d_buf_update st) (\<lambda>_ st.
      if strcmp (d_buf st) (cstr ''start'') = 0 then
        bind_outcome (scan_paths st) (\<lambda>_ st. Returns (start (d_src st) (d_dest st) (d_beh st)) st)
      else if strcmp (d_buf st) (cstr ''stop'') = 0 then
        (case scan_d st of (pid, st) \<Rightarrow>
           Returns (stop (case pid of None \<Rightarrow> pid0 | Some p \<Rightarrow> p) @ [Print (cstr ''stopped successfully'' @ [10])]) st)
      else if strcmp (d_buf st) (cstr ''change'') = 0 then
        (case scan_d st of (pid, st) \<Rightarrow>
           bind_outcome (and_scan (Returns (pid \<noteq> None) st) scan_paths) (\<lambda>_ st.
           Returns (change (case pid of None \<Rightarrow> pid0 | Some p \<Rightarrow> p) (d_src st) (d_dest st) (d_beh st)) st))
      else if strcmp (d_buf st) (cstr ''log'') = 0 then
        bind_outcome (write_log opened st) (\<lambda>_ st. Returns [Print (cstr ''logged in file successfully'' @ [10])] st)
      else Returns [] st)"

text \<open>The first \<open>n\<close> rounds of the loop, with what they did.\<close>

primrec daemon_run :: "bool \<Rightarrow> int \<Rightarrow> nat \<Rightarrow> daemon \<Rightarrow> (d_effect list, daemon) outcome" where
  "daemon_run opened pid0 0 st = Returns [] st"
| "daemon_run opened pid0 (Suc n) st =
     bind_outcome (daemon_step opened pid0 st) (\<lambda>es st.
     bind_outcome (daemon_run opened pid0 n st) (\<lambda>fs st. Returns (es @ fs) st))"

text \<open>\<open>main\<close> with \<open>n\<close> rounds of its loop; the lines of its manual are left out.\<close>

definition daemon_main ::
  "byte list list \<Rightarrow> string option \<Rightarrow> bool \<Rightarrow> bool \<Rightarrow> int \<Rightarrow> nat \<Rightarrow> daemon \<Rightarrow> (d_effect list, daemon) outcome" where
  "daemon_main argv mkfifo fifo opened pid0 n st =
     (let es = (if 1 < length argv \<and> strcmp (cstr ''clean'') (argv ! 1) = 0
                then [Unlink (cstr ''fifo_log''), Print (cstr ''Fifo was cleaned'' @ [10])] else []) in
      case create_fifo mkfifo fifo of
        Returns _ _ \<Rightarrow> bind_outcome (daemon_run opened pid0 n st) (\<lambda>fs st. Returns (es @ fs) st)
      | _ \<Rightarrow> Exits 1 st)"

section \<open>Words of the input\<close>

definition is_word :: "byte list \<Rightarrow> bool" where
  "is_word w \<longleftrightarrow> w \<noteq> [] \<and> 0 \<notin> set w \<and> (\<forall>b \<in> set w. \<not> is_space b)"

lemma next_word_word:
  assumes "is_word w"
  shows "next_word (w @ 32 # rest) = (w, 32 # rest)" "next_word (32 # w @ 32 # rest) = (w, 32 # rest)"
    "next_word (32 # w) = (w, [])" "next_word (32 # w @ 10 # rest) = (w, 10 # rest)"
proof -
  have drop: "dropWhile is_space (w @ r) = w @ r" for r
    using assms by (cases w) (auto simp: is_word_def)
  have sp: "is_space 32" "is_space 10" by (simp_all add: is_space_def)
  have take: "takeWhile (\<lambda>b. \<not> is_space b) w = w" "dropWhile (\<lambda>b. \<not> is_space b) w = []"
    "takeWhile (\<lambda>b. \<not> is_space b) (w @ r) = w @ takeWhile (\<lambda>b. \<not> is_space b) r"
    "dropWhile (\<lambda>b. \<not> is_space b) (w @ r) = dropWhile (\<lambda>b. \<not> is_space b) r" for r
    using assms by (auto simp: is_word_def takeWhile_append dropWhile_append)
  show "next_word (w @ 32 # rest) = (w, 32 # rest)" "next_word (32 # w @ 32 # rest) = (w, 32 # rest)"
    "next_word (32 # w) = (w, [])" "next_word (32 # w @ 10 # rest) = (w, 10 # rest)"
    using drop [of "[]"] drop by (simp_all add: next_word_def Let_def sp take)
qed

lemma c_str_scanned: "is_word w \<Longrightarrow> c_str (store_at 0 (w @ [0]) buf) = w"
  by (simp add: store_at_def is_word_def c_str_append_nul)

lemma write_log_loop_all: "write_log_loop fifo log = log @ fifo"
  by (induction fifo log rule: write_log_loop.induct) (subst write_log_loop.simps, simp)

lemma write_log_moves:
  "write_log True st = Returns [] (st\<lparr>d_fifo := [], d_log := d_log st @ d_fifo st\<rparr>)"
  by (simp add: write_log_def write_log_loop_all)

lemma scan_s_word:
  assumes "next_word (d_in st) = (w, rest)" and "w \<noteq> []" and "length w < length (array st)"
  shows "scan_s array field st = Returns True (field (store_at 0 (w @ [0])) (st\<lparr>d_in := rest\<rparr>))"
  using assms by (simp add: scan_s_def)

lemma scan_s_long:
  assumes "next_word (d_in st) = (w, rest)" and "length (array st) \<le> length w" and "w \<noteq> []"
  shows "scan_s array field st = Faults (st\<lparr>d_in := rest\<rparr>)"
  using assms by (simp add: scan_s_def)

lemma scan_s_end: "dropWhile is_space (d_in st) = [] \<Longrightarrow> scan_s array field st = Returns False (st\<lparr>d_in := []\<rparr>)"
  by (simp add: scan_s_def next_word_def Let_def del: dropWhile_eq_Nil_conv)

lemma is_word_start: "is_word (cstr ''start'')"
  by (simp add: is_word_def is_space_def)

text \<open>The sizes that \<open>main\<close> declares.\<close>

definition daemon_ok :: "daemon \<Rightarrow> bool" where
  "daemon_ok st \<longleftrightarrow> length (d_buf st) = COMMAND_SIZE \<and> length (d_src st) = PATH_SIZE \<and> length (d_dest st) = PATH_SIZE \<and>
     length (d_beh st) = 10"

lemma scan_paths_words:
  assumes "d_in st = 32 # s @ 32 # d @ 32 # b @ 10 # rest" and "is_word s" and "is_word d" and "is_word b"
  shows "length s < length (d_src st) \<Longrightarrow> length d < length (d_dest st) \<Longrightarrow> length b < length (d_beh st) \<Longrightarrow>
      scan_paths st = Returns True (st\<lparr>d_in := 10 # rest, d_src := store_at 0 (s @ [0]) (d_src st),
        d_dest := store_at 0 (d @ [0]) (d_dest st), d_beh := store_at 0 (b @ [0]) (d_beh st)\<rparr>)"
    and "\<not> (length s < length (d_src st) \<and> length d < length (d_dest st) \<and> length b < length (d_beh st)) \<Longrightarrow>
      \<exists>st'. scan_paths st = Faults st'"
proof -
  have ne: "s \<noteq> []" "d \<noteq> []" "b \<noteq> []" using assms(2-4) by (simp_all add: is_word_def)
  note words = next_word_word(2) [OF assms(2), of "d @ 32 # b @ 10 # rest"]
    next_word_word(2) [OF assms(3), of "b @ 10 # rest"] next_word_word(4) [OF assms(4), of rest]
  show "length s < length (d_src st) \<Longrightarrow> length d < length (d_dest st) \<Longrightarrow> length b < length (d_beh st) \<Longrightarrow>
      scan_paths st = Returns True (st\<lparr>d_in := 10 # rest, d_src := store_at 0 (s @ [0]) (d_src st),
        d_dest := store_at 0 (d @ [0]) (d_dest st), d_beh := store_at 0 (b @ [0]) (d_beh st)\<rparr>)"
    using ne words by (simp add: scan_paths_def and_scan_def scan_s_def assms(1))
  show "\<not> (length s < length (d_src st) \<and> length d < length (d_dest st) \<and> length b < length (d_beh st)) \<Longrightarrow>
      \<exists>st'. scan_paths st = Faults st'"
    using ne words
    by (cases "length s < length (d_src st)"; cases "length d < length (d_dest st)")
      (simp_all add: scan_paths_def and_scan_def scan_s_def assms(1) not_less)
qed

lemma strcmp_lits:
  "strcmp s (cstr ''start'') = 0 \<longleftrightarrow> c_str s = cstr ''start''"
  by (simp add: strcmp_eq_0)

text \<open>
  C29: the line \<open>start S D B\<close> makes the daemon start \<open>backuper\<close> with these three words, when they fit their arrays of 128, 128
  and 10 bytes, and the backuper, which asserts that it has two, ends before it has copied anything. A
  longer word is stored beyond its array and nothing is started.
\<close>

theorem daemon_start_aborts:
  assumes "is_word s" and "is_word d" and "is_word b" and "daemon_ok st"
    and "d_in st = cstr ''start'' @ 32 # s @ 32 # d @ 32 # b @ 10 # rest"
  shows "if length s < 128 \<and> length d < 128 \<and> length b < 10
    then \<exists>argv st'. daemon_step opened pid0 st = Returns [Exec argv] st' \<and> d_in st' = 10 # rest \<and> daemon_ok st' \<and>
      argv = [cstr ''backuper'', s, d, b] \<and>
      backuper_main lstat env readdir g exists fifo argv reads = Aborts []
    else \<exists>st'. daemon_step opened pid0 st = Faults st'"
proof -
  define st1 where "st1 = st\<lparr>d_in := 32 # s @ 32 # d @ 32 # b @ 10 # rest,
    d_buf := store_at 0 (cstr ''start'' @ [0]) (d_buf st)\<rparr>"
  have sizes: "length (d_buf st) = 128" "length (d_src st1) = 128" "length (d_dest st1) = 128" "length (d_beh st1) = 10"
    using assms(4) by (simp_all add: daemon_ok_def st1_def COMMAND_SIZE_def PATH_SIZE_def)
  have "next_word (d_in st) = (cstr ''start'', 32 # s @ 32 # d @ 32 # b @ 10 # rest)"
    using next_word_word(1) [OF is_word_start] assms(5) by (simp del: cstr_simps)
  then have buf: "scan_s d_buf d_buf_update st = Returns True st1"
    using scan_s_word [of st "cstr ''start''" _ d_buf d_buf_update] sizes(1) by (simp add: st1_def)
  have cmd: "strcmp (d_buf st1) (cstr ''start'') = 0"
    using c_str_scanned [OF is_word_start] by (simp add: strcmp_lits st1_def del: cstr_simps)
  have step: "daemon_step opened pid0 st = bind_outcome (scan_paths st1) (\<lambda>_ st. Returns (start (d_src st) (d_dest st) (d_beh st)) st)"
    unfolding daemon_step_def buf bind_outcome.simps if_P [OF cmd] ..
  have line: "d_in st1 = 32 # s @ 32 # d @ 32 # b @ 10 # rest" by (simp add: st1_def)
  note paths = scan_paths_words [OF line assms(1-3), unfolded sizes(2-4)]
  show ?thesis
  proof (cases "length s < 128 \<and> length d < 128 \<and> length b < 10")
    case True
    let ?st = "st1\<lparr>d_in := 10 # rest, d_src := store_at 0 (s @ [0]) (d_src st1),
      d_dest := store_at 0 (d @ [0]) (d_dest st1), d_beh := store_at 0 (b @ [0]) (d_beh st1)\<rparr>"
    have "c_str (cstr ''start'') = cstr ''start''" by simp
    have "daemon_step opened pid0 st = Returns [Exec [cstr ''backuper'', s, d, b]] ?st"
      using True by (simp add: step paths(1) start_def c_str_scanned assms(1-3) del: cstr_simps)
    moreover have "daemon_ok ?st"
      using True assms(4) sizes by (simp add: daemon_ok_def st1_def length_store_at COMMAND_SIZE_def PATH_SIZE_def)
    moreover have "backuper_main lstat env readdir g exists fifo [cstr ''backuper'', s, d, b] reads = Aborts []"
      by (simp add: backuper_main_def backuper_args_def del: cstr_simps)
    ultimately show ?thesis using True by (auto simp del: cstr_simps)
  next
    case False
    with paths(2) step show ?thesis by (auto simp del: cstr_simps)
  qed
qed

definition example_daemon :: "byte list \<Rightarrow> daemon" where
  "example_daemon inp = \<lparr>d_in = inp, d_buf = replicate 128 0, d_src = replicate 128 0, d_dest = replicate 128 0,
     d_beh = replicate 10 0, d_fifo = [], d_log = []\<rparr>"

lemma daemon_start_aborts_witness:
  "\<exists>st' st''. daemon_step True 0 (example_daemon (cstr ''start S D link'' @ [10])) =
      Returns [Exec (map cstr [''backuper'', ''S'', ''D'', ''link''])] st' \<and>
    daemon_step True 0 (example_daemon (cstr ''start S D links-as-links'' @ [10])) = Faults st''"
proof -
  have words: "is_word (cstr ''S'')" "is_word (cstr ''D'')" "is_word (cstr ''link'')" "is_word (cstr ''links-as-links'')"
    by (simp_all add: is_word_def is_space_def)
  have ok: "daemon_ok (example_daemon inp)" for inp
    by (simp add: daemon_ok_def example_daemon_def COMMAND_SIZE_def PATH_SIZE_def)
  have line: "d_in (example_daemon (cstr ''start S D link'' @ [10])) =
      cstr ''start'' @ 32 # cstr ''S'' @ 32 # cstr ''D'' @ 32 # cstr ''link'' @ 10 # []"
    "d_in (example_daemon (cstr ''start S D links-as-links'' @ [10])) =
      cstr ''start'' @ 32 # cstr ''S'' @ 32 # cstr ''D'' @ 32 # cstr ''links-as-links'' @ 10 # []"
    by (simp_all add: example_daemon_def)
  have short: "length (cstr ''S'') < 128 \<and> length (cstr ''D'') < 128 \<and> length (cstr ''link'') < 10" by simp
  have "\<exists>st'. daemon_step True 0 (example_daemon (cstr ''start S D link'' @ [10])) =
      Returns [Exec (map cstr [''backuper'', ''S'', ''D'', ''link''])] st'"
    using daemon_start_aborts [OF words(1-3) ok line(1), where opened = True and ?pid0.0 = 0]
    unfolding if_P [OF short] list.map by blast
  moreover have "\<exists>st''. daemon_step True 0 (example_daemon (cstr ''start S D links-as-links'' @ [10])) = Faults st''"
    using daemon_start_aborts [OF words(1,2,4) ok line(2), where opened = True and ?pid0.0 = 0] by simp
  ultimately show ?thesis by blast
qed

text \<open>
  At the end of its input the daemon goes on for ever with the last command: after a \<open>start\<close> it
  forks another backuper in each round.
\<close>

theorem daemon_eof_forks:
  assumes "dropWhile is_space (d_in st) = []" and "c_str (d_buf st) = cstr ''start''"
  shows "\<exists>st'. daemon_run opened pid0 n st =
    Returns (replicate n (Exec [cstr ''backuper'', c_str (d_src st), c_str (d_dest st), c_str (d_beh st)])) st'"
proof -
  have step: "daemon_step opened pid0 st = Returns (start (d_src st) (d_dest st) (d_beh st)) (st\<lparr>d_in := []\<rparr>)"
    if "dropWhile is_space (d_in st) = []" "c_str (d_buf st) = cstr ''start''" for st
    using that by (simp add: daemon_step_def Let_def scan_s_end strcmp_lits scan_paths_def and_scan_def del: cstr_simps dropWhile_eq_Nil_conv)
  show ?thesis
    using assms
  proof (induction n arbitrary: st)
    case 0
    then show ?case by simp
  next
    case (Suc n)
    from Suc.IH [of "st\<lparr>d_in := []\<rparr>"] Suc.prems obtain st' where
      "daemon_run opened pid0 n (st\<lparr>d_in := []\<rparr>) =
        Returns (replicate n (Exec [cstr ''backuper'', c_str (d_src st), c_str (d_dest st), c_str (d_beh st)])) st'"
      by (auto simp del: cstr_simps)
    with step [OF Suc.prems] show ?case by (simp add: start_def del: cstr_simps)
  qed
qed

lemma daemon_eof_forks_witness:
  "\<exists>st'. daemon_run True 0 1000 (example_daemon [10]\<lparr>d_buf := cstr ''start''\<rparr>) =
    Returns (replicate 1000 (Exec [cstr ''backuper'', [], [], []])) st'"
  using daemon_eof_forks [of "example_daemon [10]\<lparr>d_buf := cstr ''start''\<rparr>" True 0 1000]
    c_str_replicate_nul [of "[]" 128] c_str_replicate_nul [of "[]" 10]
  by (simp add: example_daemon_def is_space_def)

end
