(* ===== verification/Stick_Dirty.thy ===== *)
theory Stick_Dirty
  imports Operator_Stick
begin

text \<open>
  \<open>Operator_Stick/main_stick_dirty.c\<close>: the pipeline runner with its debug output. It prints the
  commands and each child prints its words (to a terminal, line by line); the array of argument
  pointers has eight bytes for each command of the pipeline, where \<open>main_stick.c\<close> has one for each character. The functions that do the same as in
  \<open>main_stick.c\<close> have the prefix \<open>dirty_\<close> and are shown equal to those of \<open>Operator_Stick\<close>.
\<close>

section \<open>Opening, reading, pipes\<close>

definition dirty_my_open :: "nat \<Rightarrow> fdtab \<Rightarrow> (nat, fdtab) outcome" where
  "dirty_my_open argc fds =
     (if argc = 2 then (case alloc_fd Command_file fds of (fd, fds) \<Rightarrow> Returns fd fds) else Exits 0 fds)"

definition dirty_my_read :: "byte list \<Rightarrow> byte list \<Rightarrow> nat \<Rightarrow> fdtab \<Rightarrow> byte list \<times> fdtab" where
  "dirty_my_read data heap fd fds =
     (let size = length data in (take (size - 1) data @ drop (size - 1) heap, close_fd fd fds))"

text \<open>The loops with their counter: \<open>n\<close> rounds from \<open>i\<close> on.\<close>

primrec dirty_create_loop :: "nat \<Rightarrow> nat \<Rightarrow> nat list \<Rightarrow> fdtab \<Rightarrow> nat list \<times> fdtab" where
  "dirty_create_loop i 0 pipes fds = (pipes, fds)"
| "dirty_create_loop i (Suc n) pipes fds =
     (case pipe i fds of (ends, fds) \<Rightarrow> dirty_create_loop (Suc i) n (pipes @ ends) fds)"

definition dirty_create_pipes :: "nat \<Rightarrow> fdtab \<Rightarrow> nat list \<times> fdtab" where
  "dirty_create_pipes count fds = dirty_create_loop 0 count [] fds"

primrec dirty_close_loop :: "nat list \<Rightarrow> nat \<Rightarrow> nat \<Rightarrow> fdtab \<Rightarrow> fdtab" where
  "dirty_close_loop pipes i 0 fds = fds"
| "dirty_close_loop pipes i (Suc n) fds =
     dirty_close_loop pipes (Suc i) n (close_fd (pipes ! (2 * i + 1)) (close_fd (pipes ! (i * 2)) fds))"

definition dirty_close_pipes :: "nat list \<Rightarrow> nat \<Rightarrow> fdtab \<Rightarrow> fdtab" where
  "dirty_close_pipes pipes count fds = dirty_close_loop pipes 0 count fds"

definition dirty_get_coms_count :: "(nat \<Rightarrow> nat) \<Rightarrow> byte list \<Rightarrow> nat option" where
  "dirty_get_coms_count usable all_commands =
     (if 0 \<in> set all_commands \<and> strlen all_commands + 1 \<le> usable 8
      then (let temp = c_str all_commands in Some (count_tokens (of_char (CHR ''|'')) temp 0))
      else None)"

definition dirty_wait_children :: "nat \<Rightarrow> nat \<Rightarrow> nat" where
  "dirty_wait_children count children = ((\<lambda>left. left - 1) ^^ count) children"

lemma dirty_wait_same: "dirty_wait_children count children = wait_children count children"
  by (induction count) (simp_all add: dirty_wait_children_def wait_children_left)

lemma dirty_create_loop_on:
  "create_pipes i fds = (pipes, fds') \<Longrightarrow> dirty_create_loop i n pipes fds' = create_pipes (i + n) fds"
proof (induction n arbitrary: i pipes fds')
  case (Suc n)
  obtain ends fds2 where p: "pipe i fds' = (ends, fds2)" by fastforce
  with Suc.prems have "create_pipes (Suc i) fds = (pipes @ ends, fds2)" by simp
  from Suc.IH [OF this] p show ?case by simp
qed simp

lemma dirty_close_loop_on:
  "dirty_close_loop pipes i n (close_pipes pipes i fds) = close_pipes pipes (i + n) fds"
proof (induction n arbitrary: i)
  case (Suc n)
  from Suc [of "Suc i"] show ?case by simp
qed simp

lemma dirty_same [simp]:
  "dirty_my_open = my_open" "dirty_my_read = my_read" "dirty_create_pipes = create_pipes"
  "dirty_close_pipes = close_pipes" "dirty_get_coms_count = get_coms_count"
  using dirty_create_loop_on [of 0] dirty_close_loop_on [of _ 0]
  by (auto simp: fun_eq_iff dirty_my_open_def my_open_def dirty_my_read_def my_read_def dirty_create_pipes_def
      dirty_close_pipes_def dirty_get_coms_count_def get_coms_count_def Let_def not_less)

section \<open>Commands\<close>

text \<open>
  The loop of \<open>do_subcoms\<close> from the \<open>i\<close>-th of \<open>places\<close> places of the array on: the lines printed and the words
  stored; \<open>None\<close> when a store, the last one of \<open>NULL\<close> included, is behind the array.
\<close>

fun store_tokens :: "nat \<Rightarrow> nat \<Rightarrow> byte list list \<Rightarrow> (byte list list \<times> byte list list) option" where
  "store_tokens places i [] = (if i < places then Some ([], []) else None)"
| "store_tokens places i (t # ts) =
     (if i < places
      then map_option (\<lambda>(lines, arr). ((cstr ''token: ('' @ t @ cstr '')'' @ [10]) # lines, t # arr))
        (store_tokens places (Suc i) ts)
      else None)"

definition dirty_do_subcoms ::
  "(nat \<Rightarrow> nat) \<Rightarrow> (byte list list \<Rightarrow> bool) \<Rightarrow> byte list \<Rightarrow> nat list \<Rightarrow> nat \<Rightarrow> nat \<Rightarrow> fdtab \<Rightarrow>
   (byte list list \<times> subcoms) option" where
  "dirty_do_subcoms usable execvp command pipes count com_id fds =
     (case store_tokens (usable (count * 8) div 8) 0 (tokens (of_char (CHR '' '')) command) of
        None \<Rightarrow> None
      | Some (lines, arr_subcoms) \<Rightarrow>
          (let fds = (if com_id \<noteq> 0 then dup2 (pipes ! (2 * (com_id - 1))) 0 fds else fds);
               fds = (if com_id < count - 1 then dup2 (pipes ! (2 * com_id + 1)) 1 fds else fds);
               fds = dirty_close_pipes pipes count fds in
           Some (lines, if arr_subcoms \<noteq> [] \<and> execvp arr_subcoms then Executes arr_subcoms fds else Goes_on fds)))"

text \<open>The loop of \<open>main\<close>: what each child prints and what it executes, if it does.\<close>

primrec dirty_loop ::
  "(nat \<Rightarrow> nat) \<Rightarrow> (byte list list \<Rightarrow> bool) \<Rightarrow> nat list \<Rightarrow> nat \<Rightarrow> nat \<Rightarrow> nat \<Rightarrow> byte list \<Rightarrow> fdtab \<Rightarrow>
   (byte list list \<times> (byte list list \<times> fdtab) option) list option" where
  "dirty_loop usable execvp pipes count i 0 all_commands fds = Some []"
| "dirty_loop usable execvp pipes count i (Suc n) all_commands fds =
     (case strtok_r (of_char (CHR ''|'')) all_commands of (command, all_commands) \<Rightarrow>
        (case (case command of None \<Rightarrow> None
               | Some command \<Rightarrow>
                   (case dirty_do_subcoms usable execvp command pipes count i fds of
                      None \<Rightarrow> None
                    | Some (lines, Executes argv fds') \<Rightarrow> Some [(lines, Some (argv, fds'))]
                    | Some (lines, Goes_on fds') \<Rightarrow>
                        map_option (\<lambda>ps. (lines, None) # ps)
                          (dirty_loop usable execvp pipes count (Suc i) n all_commands fds'))) of
           None \<Rightarrow> None
         | Some child \<Rightarrow>
             map_option (\<lambda>ps. child @ ps) (dirty_loop usable execvp pipes count (Suc i) n all_commands fds)))"

definition dirty_main ::
  "(nat \<Rightarrow> nat) \<Rightarrow> (byte list list \<Rightarrow> bool) \<Rightarrow> nat \<Rightarrow> byte list \<Rightarrow> byte list \<Rightarrow> fdtab \<Rightarrow>
   (byte list \<times> (byte list list \<times> (byte list list \<times> fdtab) option) list option, fdtab) outcome" where
  "dirty_main usable execvp argc data heap fds =
     bind_outcome (dirty_my_open argc fds) (\<lambda>fd fds.
       case dirty_my_read data heap fd fds of (all_commands, fds) \<Rightarrow>
       case dirty_get_coms_count usable all_commands of
         None \<Rightarrow> Faults fds
       | Some comd_count \<Rightarrow>
           let line = cstr ''commands: ('' @ c_str all_commands @ cstr '')'' @ [9] @ cstr '' count: '' @
             dec_of_int (int comd_count) @ [10] in
           case dirty_create_pipes comd_count fds of (pipes, fds) \<Rightarrow>
           Returns (line, dirty_loop usable execvp pipes comd_count 0 comd_count all_commands fds)
             (dirty_close_pipes pipes comd_count fds))"

section \<open>The two versions\<close>

definition token_line :: "byte list \<Rightarrow> byte list" where
  "token_line t = cstr ''token: ('' @ t @ cstr '')'' @ [10]"

lemma store_tokens_room:
  "store_tokens places i ts = (if i + length ts < places then Some (map token_line ts, ts) else None)"
  by (induction ts arbitrary: i) (auto simp: token_line_def)

text \<open>What a command does once its array has room.\<close>

definition child_of :: "(byte list list \<Rightarrow> bool) \<Rightarrow> byte list list \<Rightarrow> fdtab \<Rightarrow> subcoms" where
  "child_of execvp argv fds = (if argv \<noteq> [] \<and> execvp argv then Executes argv fds else Goes_on fds)"

lemma dirty_do_subcoms_words:
  assumes "0 \<notin> set t"
  shows "dirty_do_subcoms usable execvp t pipes count i fds =
     (if length (words 32 t) < usable (count * 8) div 8
      then Some (map token_line (words 32 t), child_of execvp (words 32 t) (child_table pipes count i fds)) else None)"
  using assms by (simp add: dirty_do_subcoms_def child_of_def child_table_def store_tokens_room tokens_words Let_def)

lemma clean_do_subcoms_words:
  assumes "0 \<notin> set t" and "8 * (length (words 32 t) + 1) \<le> usable (length t)"
  shows "do_subcoms usable execvp t pipes count i fds = Some (child_of execvp (words 32 t) (child_table pipes count i fds))"
  using assms by (simp add: do_subcoms_words child_of_def)

text \<open>The children that execute something.\<close>

definition executed :: "('l \<times> 'e option) list \<Rightarrow> 'e list" where
  "executed ps = concat (map (\<lambda>(lines, e). case e of None \<Rightarrow> [] | Some x \<Rightarrow> [x]) ps)"

lemma executed_simps [simp]:
  "executed [] = []" "executed ((lines, Some e) # ps) = e # executed ps"
  "executed ((lines, None) # ps) = executed ps" "executed (ps @ qs) = executed ps @ executed qs"
  by (simp_all add: executed_def)

lemma dirty_loop_same:
  assumes "0 \<notin> set s" and "n = length (words 124 s)"
    and "\<forall>c \<in> set (words 124 s). length (words 32 c) < usable (count * 8) div 8"
  shows "\<exists>ps. dirty_loop usable execvp pipes count i n s fds = Some ps \<and>
    (arrays_fit usable (words 124 s) \<longrightarrow> fork_loop usable execvp pipes count i n s fds = Some (executed ps)) \<and>
    (\<forall>(lines, e) \<in> set ps. \<exists>c \<in> set (words 124 s). lines = map token_line (words 32 c) \<and>
      (case e of None \<Rightarrow> True | Some x \<Rightarrow> fst x = words 32 c))"
  using assms
proof (induction n arbitrary: s i fds)
  case 0
  then show ?case by simp
next
  case (Suc n)
  obtain t rest where
    t: "strtok_r 124 s = (Some t, rest)" "0 \<notin> set t" "0 \<notin> set rest" "words 124 s = t # words 124 rest"
    using strtok_r_words [OF Suc.prems(1), of 124] Suc.prems(2) by auto
  have len: "n = length (words 124 rest)"
    and room: "\<forall>c \<in> set (words 124 rest). length (words 32 c) < usable (count * 8) div 8"
    using Suc.prems(2,3) t(4) by simp_all
  let ?fds = "child_table pipes count i fds" and ?w = "words 32 t"
  have child: "dirty_do_subcoms usable execvp t pipes count i fds = Some (map token_line ?w, child_of execvp ?w ?fds)"
    using Suc.prems(3) t(4) by (simp add: dirty_do_subcoms_words [OF t(2)])
  have fit: "do_subcoms usable execvp t pipes count i fds = Some (child_of execvp ?w ?fds) \<and> arrays_fit usable (words 124 rest)"
    if "arrays_fit usable (words 124 s)"
    using that clean_do_subcoms_words [OF t(2), of usable] t(4) by (simp add: arrays_fit_def)
  let ?good = "\<lambda>rs ps. \<forall>(lines, e) \<in> set ps. \<exists>c \<in> set rs. lines = map token_line (words 32 c) \<and>
      (case e of None \<Rightarrow> True | Some x \<Rightarrow> fst x = words 32 c)"
  note IH = Suc.IH [OF t(3) len room, of "Suc i"]
  obtain ps where ps: "dirty_loop usable execvp pipes count (Suc i) n rest fds = Some ps"
    "arrays_fit usable (words 124 rest) \<longrightarrow> fork_loop usable execvp pipes count (Suc i) n rest fds = Some (executed ps)"
    "?good (words 124 rest) ps"
    using IH [of fds] by blast
  show ?case
  proof (cases "?w \<noteq> [] \<and> execvp ?w")
    case True
    with ps child t fit show ?thesis
      by (intro exI [of _ "(map token_line ?w, Some (?w, ?fds)) # ps"]) (auto simp: child_of_def)
  next
    case False
    obtain qs where qs: "dirty_loop usable execvp pipes count (Suc i) n rest ?fds = Some qs"
      "arrays_fit usable (words 124 rest) \<longrightarrow> fork_loop usable execvp pipes count (Suc i) n rest ?fds = Some (executed qs)"
      "?good (words 124 rest) qs"
      using IH [of ?fds] by blast
    with False ps child t fit show ?thesis
      by (intro exI [of _ "(map token_line ?w, None) # qs @ ps"]) (auto simp: child_of_def)
  qed
qed

lemma dirty_loop_overrun:
  assumes "0 \<notin> set s" and "n = length (words 124 s)"
    and "\<exists>c \<in> set (words 124 s). usable (count * 8) div 8 \<le> length (words 32 c)"
  shows "dirty_loop usable execvp pipes count i n s fds = None"
  using assms
proof (induction n arbitrary: s i)
  case 0
  then show ?case by simp
next
  case (Suc n)
  obtain t rest where
    t: "strtok_r 124 s = (Some t, rest)" "0 \<notin> set t" "0 \<notin> set rest" "words 124 s = t # words 124 rest"
    using strtok_r_words [OF Suc.prems(1), of 124] Suc.prems(2) by auto
  show ?case
  proof (cases "usable (count * 8) div 8 \<le> length (words 32 t)")
    case True
    with t show ?thesis by (simp add: dirty_do_subcoms_words)
  next
    case False
    with Suc.prems t have "dirty_loop usable execvp pipes count (Suc i) n rest fds = None"
      by (intro Suc.IH) auto
    with t show ?thesis by (simp split: option.splits)
  qed
qed

lemma dirty_loop_c_str:
  "dirty_loop usable execvp pipes count i n (c_str s) fds = dirty_loop usable execvp pipes count i n s fds"
  by (cases n) (simp_all add: strtok_r_c_str)

lemma dirty_main_long:
  assumes "0 \<notin> set (seen_text data heap) \<or> usable 8 \<le> length (c_str (seen_text data heap))" and "fds = [Some a, Some b, Some c]"
  shows "dirty_main usable execvp 2 data heap fds = Faults (fds @ [None])"
proof -
  have "my_open 2 fds = Returns 3 (fds @ [Some Command_file])"
    "my_read data heap 3 (fds @ [Some Command_file]) = (seen_text data heap, fds @ [None])"
    using assms(2) by (simp_all add: my_open_def alloc_fd_def my_read_def close_fd_def seen_text_def)
  moreover have "get_coms_count usable (seen_text data heap) = None"
    using assms(1) by (auto simp: get_coms_count_def strlen_def)
  ultimately show ?thesis by (simp add: dirty_main_def)
qed

section \<open>Properties\<close>



end
