(* ===== verification/Small_Programs.thy ===== *)
theory Small_Programs
  imports Operator_Stick
begin

text \<open>
  Three of the examples in \<open>SimplePrograms\<close>: a table of sum functions that libraries fill when they are
  loaded (\<open>SharedLibrary\<close>), a file copied through shared memory (\<open>Shared memory\<close>), and a program run with an environment of
  its own (\<open>Envp/env.c\<close>).
\<close>

section \<open>The table of sums\<close>

text \<open>The two structs that the libraries register, and which function each points to.\<close>

datatype field_id = M16 | MN

record field_state =
  f_table :: "int \<rightharpoonup> field_id"
  f_m :: "field_id \<Rightarrow> int"

definition field_start :: field_state where
  "field_start = \<lparr>f_table = Map.empty, f_m = (\<lambda>f. case f of M16 \<Rightarrow> 16 | MN \<Rightarrow> 0)\<rparr>"

text \<open>\<open>fields\<close> has 256 places; a store or load outside of it is a fault.\<close>

definition register_field :: "field_id \<Rightarrow> field_state \<Rightarrow> (int, field_state) outcome" where
  "register_field f st =
     (if 256 < f_m st f then Returns (-1) st
      else if f_m st f < 0 \<or> 255 < f_m st f then Faults st
      else Returns 0 (st\<lparr>f_table := (f_table st)(f_m st f \<mapsto> f)\<rparr>))"

definition sum16 :: "int \<Rightarrow> int \<Rightarrow> int" where
  "sum16 a b = (a + b) AND 15"

definition sumn :: "int \<Rightarrow> int \<Rightarrow> field_state \<Rightarrow> (int, field_state) outcome" where
  "sumn a b st = (if f_m st MN = 0 then Faults st else Returns ((a + b) smod f_m st MN) st)"

text \<open>\<open>sum\<close>, for sums that an \<open>int\<close> can hold.\<close>

definition sum_field :: "int \<Rightarrow> int \<Rightarrow> int \<Rightarrow> field_state \<Rightarrow> (int, field_state) outcome" where
  "sum_field m a b st =
     (if m < 0 \<or> 255 < m then Faults st
      else
        (let (f, st) = (case f_table st m of
            Some f \<Rightarrow> (Some f, st)
          | None \<Rightarrow> (case f_table st 0 of
              None \<Rightarrow> (None, st)
            | Some f \<Rightarrow> (Some f, st\<lparr>f_m := (f_m st)(f := m)\<rparr>))) in
         case f of None \<Rightarrow> Faults st | Some M16 \<Rightarrow> Returns (sum16 a b) st | Some MN \<Rightarrow> sumn a b st))"

text \<open>The loop of \<open>main\<close>: \<open>s\<close> wraps around in practice.\<close>

primrec sum_steps :: "nat \<Rightarrow> int \<Rightarrow> int \<Rightarrow> int \<Rightarrow> 32 word \<Rightarrow> field_state \<Rightarrow> (32 word, field_state) outcome" where
  "sum_steps 0 m a b s st = Returns s st"
| "sum_steps (Suc n) m a b s st =
     bind_outcome (sum_field m a b st) (\<lambda>r st. sum_steps n m a b (s + word_of_int r) st)"

lemma and_15: "(v :: int) AND 15 = v mod 16"
  using take_bit_eq_mask [of 4 v] by (simp add: take_bit_eq_mod mask_eq_exp_minus_1)

text \<open>Either library gives the same sums modulo 16, of numbers whose sum is not negative.\<close>

lemma sum_libraries_agree:
  assumes "0 \<le> a + b"
  shows "\<exists>st. bind_outcome (register_field M16 field_start) (\<lambda>_. sum_steps n 16 a b s) =
      Returns (s + of_nat n * word_of_int ((a + b) mod 16)) st"
    and "\<exists>st. bind_outcome (register_field MN field_start) (\<lambda>_. sum_steps n 16 a b s) =
      Returns (s + of_nat n * word_of_int ((a + b) mod 16)) st"
proof -
  have a: "sum_steps n 16 a b s st = Returns (s + of_nat n * word_of_int ((a + b) mod 16)) st"
    if "f_table st 16 = Some M16" for st
    using that by (induction n arbitrary: s) (simp_all add: sum_field_def sum16_def and_15 algebra_simps)
  then show "\<exists>st. bind_outcome (register_field M16 field_start) (\<lambda>_. sum_steps n 16 a b s) =
      Returns (s + of_nat n * word_of_int ((a + b) mod 16)) st"
    by (simp add: register_field_def field_start_def)
  have smod: "(a + b) smod 16 = (a + b) mod 16"
    using assms by (cases "a + b = 0") (simp_all add: smod_int_alt_def)
  have "\<exists>st'. sum_steps n 16 a b s st = Returns (s + of_nat n * word_of_int ((a + b) mod 16)) st'"
    if "f_table st 16 = None" "f_table st 0 = Some MN" for st
    using that
  proof (induction n arbitrary: s st)
    case 0
    then show ?case by simp
  next
    case (Suc n)
    then show ?case
      using Suc.IH [of "st\<lparr>f_m := (f_m st)(MN := 16)\<rparr>" "s + word_of_int ((a + b) mod 16)"]
      by (simp add: sum_field_def sumn_def smod algebra_simps)
  qed
  then show "\<exists>st. bind_outcome (register_field MN field_start) (\<lambda>_. sum_steps n 16 a b s) =
      Returns (s + of_nat n * word_of_int ((a + b) mod 16)) st"
    by (simp add: register_field_def field_start_def)
qed

text \<open>The limit is one too high: a field for 256 is stored behind the table.\<close>

lemma register_field_past_end: "f_m st f = 256 \<Longrightarrow> register_field f st = Faults st"
  by (simp add: register_field_def)

section \<open>A copy through shared memory\<close>

text \<open>The segment with the bytes and the one with their number.\<close>

record copy_segs =
  cs_memory :: "byte list option"
  cs_size :: "int option"

text \<open>\<open>shmget\<close> with \<open>IPC_CREAT\<close>: not for an old segment that is too small, nor for a new one of size 0.\<close>

definition get_memory :: "nat \<Rightarrow> copy_segs \<Rightarrow> copy_segs option" where
  "get_memory n segs =
     (case cs_memory segs of
        Some bs \<Rightarrow> if length bs < n then None else Some segs
      | None \<Rightarrow> if n = 0 then None else Some (segs\<lparr>cs_memory := Some (replicate n 0)\<rparr>))"

text \<open>A segment that \<open>shmget\<close> refuses is attached at -1; copying any byte there is a fault.\<close>

definition sen :: "byte list \<Rightarrow> copy_segs \<Rightarrow> (unit, copy_segs) outcome" where
  "sen data segs =
     (case get_memory (length data) segs of
        None \<Rightarrow> if data = [] then Returns () (segs\<lparr>cs_size := Some 0\<rparr>) else Faults segs
      | Some segs \<Rightarrow>
          Returns () (segs\<lparr>cs_memory := map_option (store_at 0 data) (cs_memory segs),
            cs_size := Some (int (length data))\<rparr>))"

definition rec_copy :: "copy_segs \<Rightarrow> (byte list, copy_segs) outcome" where
  "rec_copy segs =
     (let n = nat (case cs_size segs of None \<Rightarrow> 0 | Some n \<Rightarrow> n) in
      case get_memory n segs of
        None \<Rightarrow> if n = 0 then Returns [] (segs\<lparr>cs_size := None\<rparr>) else Faults segs
      | Some segs \<Rightarrow>
          Returns (take n (the (cs_memory segs))) (segs\<lparr>cs_memory := None, cs_size := None\<rparr>))"

text \<open>What one program has read the other writes, unless a smaller segment is left from before.\<close>

lemma copy_roundtrip:
  assumes "\<forall>bs. cs_memory segs = Some bs \<longrightarrow> length data \<le> length bs"
  shows "bind_outcome (sen data segs) (\<lambda>_. rec_copy) = Returns data \<lparr>cs_memory = None, cs_size = None\<rparr>"
  using assms
  by (cases segs; cases "cs_memory segs"; cases "data = []")
    (auto simp: sen_def rec_copy_def get_memory_def store_at_def Let_def)

lemma copy_stale_segment: "cs_memory segs = Some bs \<Longrightarrow> length bs < length data \<Longrightarrow> sen data segs = Faults segs"
  by (auto simp: sen_def get_memory_def)

section \<open>A program with its environment\<close>

text \<open>The arguments and the environment that \<open>run\<close> gives to \<open>execve\<close>.\<close>

definition env_run :: "byte list list \<Rightarrow> byte list list \<times> byte list list" where
  "env_run argv = (tokens (of_char (CHR '' '')) (argv ! 1), drop 2 argv)"

lemma env_run_words: "0 \<notin> set cmd \<Longrightarrow> env_run (self # cmd # env) = (words 32 cmd, env)"
  by (simp add: env_run_def tokens_words)

end
