(* ===== verification/List_Ring.thy ===== *)
theory List_Ring
  imports C_Prelude
begin

text \<open>
  \<open>SimplePrograms/List/list.c\<close>: doubly linked rings of structs that hold their own links, in a
  store from addresses to structs.
\<close>

record list_node =
  l_next :: nat
  l_prev :: nat
  l_value :: int

type_synonym store = "nat \<Rightarrow> list_node"

definition set_next :: "nat \<Rightarrow> nat \<Rightarrow> store \<Rightarrow> store" where
  "set_next p v h = h(p := (h p)\<lparr>l_next := v\<rparr>)"

definition set_prev :: "nat \<Rightarrow> nat \<Rightarrow> store \<Rightarrow> store" where
  "set_prev p v h = h(p := (h p)\<lparr>l_prev := v\<rparr>)"

definition list_add_between :: "nat \<Rightarrow> nat \<Rightarrow> nat \<Rightarrow> store \<Rightarrow> store" where
  "list_add_between item prev nxt h =
     set_next item nxt (set_prev item prev (set_prev nxt item (set_next prev item h)))"

definition list_init :: "nat \<Rightarrow> store \<Rightarrow> store" where
  "list_init l h = set_next l l (set_prev l l h)"

definition list_add :: "nat \<Rightarrow> nat \<Rightarrow> store \<Rightarrow> store" where
  "list_add new head h = list_add_between new head (l_next (h head)) h"

definition list_add_back :: "nat \<Rightarrow> nat \<Rightarrow> store \<Rightarrow> store" where
  "list_add_back new head h = list_add_between new (l_prev (h head)) head h"

definition list_del :: "nat \<Rightarrow> store \<Rightarrow> store" where
  "list_del old h =
     (let h = set_next (l_prev (h old)) (l_next (h old)) h in
      set_prev (l_next (h old)) (l_prev (h old)) h)"

text \<open>The links after \<open>main\<close>, with the head and the three items at four addresses.\<close>

definition list_main :: "nat \<Rightarrow> nat \<Rightarrow> nat \<Rightarrow> nat \<Rightarrow> store \<Rightarrow> store" where
  "list_main l it1 it2 it3 h =
     (let h = h(it1 := (h it1)\<lparr>l_value := 1\<rparr>); h = h(it2 := (h it2)\<lparr>l_value := 2\<rparr>); h = h(it3 := (h it3)\<lparr>l_value := 3\<rparr>)
      in list_add it3 l (list_del l (list_add it2 l (list_add it1 l (list_init l h)))))"

section \<open>Chains of links\<close>

fun linked :: "store \<Rightarrow> nat list \<Rightarrow> bool" where
  "linked h (x # y # r) \<longleftrightarrow> l_next (h x) = y \<and> l_prev (h y) = x \<and> linked h (y # r)"
| "linked h _ \<longleftrightarrow> True"

text \<open>\<open>xs\<close> are the addresses of a ring, in the order of the \<open>next\<close> links.\<close>

definition ring :: "store \<Rightarrow> nat list \<Rightarrow> bool" where
  "ring h xs \<longleftrightarrow> xs \<noteq> [] \<and> distinct xs \<and> linked h (xs @ [hd xs])"

lemma store_simps [simp]:
  "l_next (set_next p v h q) = (if q = p then v else l_next (h q))"
  "l_prev (set_next p v h q) = l_prev (h q)"
  "l_prev (set_prev p v h q) = (if q = p then v else l_prev (h q))"
  "l_next (set_prev p v h q) = l_next (h q)"
  "l_value (set_next p v h q) = l_value (h q)" "l_value (set_prev p v h q) = l_value (h q)"
  by (auto simp: set_next_def set_prev_def)

lemma linked_append: "linked h (xs @ y # ys) \<longleftrightarrow> linked h (xs @ [y]) \<and> linked h (y # ys)"
  by (induction h xs rule: linked.induct) simp_all

lemma in_tl: "x \<in> set (tl xs) \<Longrightarrow> x \<in> set xs"
  by (cases xs) auto

lemma linked_frame:
  "linked h xs \<Longrightarrow> (\<And>a. a \<in> set (butlast xs) \<Longrightarrow> l_next (h' a) = l_next (h a)) \<Longrightarrow>
   (\<And>b. b \<in> set (tl xs) \<Longrightarrow> l_prev (h' b) = l_prev (h b)) \<Longrightarrow> linked h' xs"
  by (induction h xs rule: linked.induct) auto

lemma linked_insert:
  assumes "linked h (us @ a # b # vs)" and "new \<notin> set (us @ a # b # vs)"
    and "a \<notin> set us" "a \<notin> set (butlast (b # vs))" "b \<notin> set (tl (us @ [a]))" "b \<notin> set vs"
  shows "linked (list_add_between new a b h) (us @ a # new # b # vs)"
proof -
  let ?h = "list_add_between new a b h"
  have parts: "linked h (us @ [a])" "linked h (b # vs)"
    using assms(1) linked_append [of h us a "b # vs"] by (auto elim: linked.elims)
  have "linked ?h (us @ [a])"
    by (rule linked_frame [OF parts(1)]) (use assms in \<open>auto simp: list_add_between_def butlast_append dest: in_tl\<close>)
  moreover have "new \<notin> set (butlast (b # vs))" "new \<notin> set vs" "new \<noteq> b"
    using assms(2) in_set_butlastD [of new "b # vs"] by auto
  then have "linked ?h (b # vs)"
    by (intro linked_frame [OF parts(2)]) (use assms(4,6) in \<open>auto simp: list_add_between_def simp del: butlast.simps\<close>)
  moreover have "linked ?h [a, new, b]"
    using assms(2) by (auto simp: list_add_between_def)
  ultimately show ?thesis
    using linked_append [of ?h us a "new # b # vs"] by simp
qed

lemma linked_delete:
  assumes "linked h (us @ a # old # b # vs)" and "old \<notin> set (us @ a # b # vs)"
    and "a \<notin> set us" "a \<notin> set (butlast (b # vs))" "b \<notin> set (tl (us @ [a]))" "b \<notin> set vs"
  shows "linked (list_del old h) (us @ a # b # vs) \<and> list_del old h old = h old"
proof -
  have parts: "linked h (us @ [a])" "linked h (b # vs)" "l_prev (h old) = a" "l_next (h old) = b"
    using assms(1) linked_append [of h us a "old # b # vs"] by auto
  have del: "list_del old h = set_prev b a (set_next a b h)"
    using assms(2) parts(3,4) by (auto simp: list_del_def)
  have "linked (list_del old h) (us @ [a])"
    unfolding del by (rule linked_frame [OF parts(1)]) (use assms in \<open>auto simp: butlast_append dest: in_tl\<close>)
  moreover have "linked (list_del old h) (b # vs)"
    unfolding del by (rule linked_frame [OF parts(2)]) (use assms in \<open>auto dest: in_set_butlastD\<close>)
  moreover have "linked (list_del old h) [a, b]"
    unfolding del by simp
  moreover have "list_del old h old = h old"
    using assms(2) by (auto simp: del set_next_def set_prev_def)
  ultimately show ?thesis
    using linked_append [of "list_del old h" us a "b # vs"] by simp
qed

lemma ring_init: "ring (list_init l h) [l]"
  by (simp add: ring_def list_init_def)

lemma ring_add:
  assumes "ring h (head # xs)" and "new \<notin> set (head # xs)"
  shows "ring (list_add new head h) (head # new # xs)"
proof -
  obtain b vs where ys: "xs @ [head] = b # vs" by (cases "xs @ [head]") auto
  have l: "linked h (head # b # vs)" using assms(1) ys by (simp add: ring_def)
  have d: "distinct (b # vs)" "head \<notin> set (butlast (b # vs))" "new \<notin> set (b # vs)"
    using assms unfolding ys [symmetric] by (auto simp: ring_def)
  have "linked (list_add_between new head b h) ([] @ head # new # b # vs)"
    by (rule linked_insert) (use l d assms in auto)
  moreover have "l_next (h head) = b" using l by simp
  ultimately show ?thesis
    using assms ys by (auto simp: ring_def list_add_def)
qed

lemma ring_add_back:
  assumes "ring h (head # xs)" and "new \<notin> set (head # xs)"
  shows "ring (list_add_back new head h) (head # xs @ [new])"
proof -
  obtain us a where ys: "head # xs = us @ [a]" by (metis append_butlast_last_id list.distinct(1))
  have hd: "hd (us @ [a]) = head" using ys by (metis list.sel(1))
  have r: "linked h ((us @ [a]) @ [head])" "distinct (us @ [a])"
    using assms(1) hd by (simp_all add: ring_def ys)
  have l: "linked h (us @ [a, head])" using r(1) by simp
  have new: "new \<notin> set (us @ [a])" using assms(2) unfolding ys .
  have "tl (us @ [a]) = xs" using ys by (metis list.sel(3))
  then have d: "a \<notin> set us" "head \<notin> set (tl (us @ [a]))" "new \<notin> set (us @ [a])" "new \<noteq> head"
    using assms r(2) new by (auto simp: ring_def)
  have "linked (list_add_between new a head h) (us @ a # new # head # [])"
    by (rule linked_insert) (use l d assms in auto)
  moreover have "l_prev (h head) = a" using l linked_append [of h us a "[head]"] by simp
  moreover have "(head # xs @ [new]) @ [head] = us @ [a, new, head]" using ys by simp
  moreover have "distinct (head # xs @ [new])" using assms by (auto simp: ring_def)
  ultimately show ?thesis
    unfolding ring_def list_add_back_def by (metis list.distinct(1) list.sel(1))
qed

lemma ring_del:
  assumes "ring h (old # xs)" and "xs \<noteq> []"
  shows "ring (list_del old h) xs \<and> list_del old h old = h old"
proof -
  obtain us a where ys: "xs = us @ [a]" using assms(2) by (metis append_butlast_last_id)
  let ?b = "hd xs"
  have "linked h (old # xs @ [old])" using assms(1) by (simp add: ring_def)
  then have "linked h (xs @ [old])" "l_next (h old) = ?b" "l_prev (h ?b) = old"
    using assms(2) by (cases xs; simp)+
  then have l: "linked h (us @ a # old # ?b # [])"
    using linked_append [of h "us @ [a]" old "[?b]"] by (simp add: ys)
  have dist: "distinct xs" "old \<notin> set xs" using assms by (simp_all add: ring_def)
  then have "?b \<notin> set (tl xs)" "?b \<in> set xs" using assms(2) by (cases xs; simp)+
  then have d: "a \<notin> set us" "?b \<notin> set (tl (us @ [a]))" "old \<notin> set (us @ [a])" "old \<noteq> ?b"
    using dist ys by auto
  have "linked (list_del old h) (us @ a # ?b # []) \<and> list_del old h old = h old"
    by (rule linked_delete) (use l d ys in auto)
  then show ?thesis
    using assms by (auto simp: ring_def ys)
qed

lemma linked_neighbour: "linked h (x # xs @ [y]) \<Longrightarrow> z \<in> set (xs @ [y]) \<Longrightarrow> l_prev (h z) \<in> set (x # xs) \<and> l_next (h (l_prev (h z))) = z"
  by (induction xs arbitrary: x) auto

lemma ring_neighbours:
  assumes "ring h ys" and "z \<in> set ys"
  shows "l_prev (h z) \<in> set ys \<and> l_next (h (l_prev (h z))) = z"
proof -
  obtain x xs where ys: "ys = x # xs" using assms by (cases ys) auto
  then show ?thesis
    using assms linked_neighbour [of h x xs x z] by (auto simp: ring_def)
qed

text \<open>
  C33: the operations keep the ring: \<open>list_init\<close> makes one of the head alone, \<open>list_add\<close> puts the item behind
  the head, \<open>list_add_back\<close> before it, \<open>list_del\<close> takes an item out and leaves its own links, which still
  lead into the ring. So \<open>main\<close>, which deletes the head and adds an item to it, ends with a head that
  is in no ring.
\<close>

theorem list_operations_keep_ring:
  assumes "ring h (head # xs)" and "new \<notin> set (head # xs)" and "xs \<noteq> []" and "distinct [l, it1, it2, it3]"
  shows "ring (list_init head h0) [head] \<and>
    ring (list_add new head h) (head # new # xs) \<and>
    ring (list_add_back new head h) (head # xs @ [new]) \<and>
    ring (list_del head h) xs \<and> list_del head h head = h head \<and>
    (\<forall>ys. ring (list_main l it1 it2 it3 h0) ys \<longrightarrow> l \<notin> set ys)"
proof -
  have broken: "l \<notin> set ys" if "ring (list_main l it1 it2 it3 h0) ys" for ys
  proof
    assume "l \<in> set ys"
    let ?h = "list_main l it1 it2 it3 h0"
    have links: "l_next (?h l) = it3" "l_prev (?h l) = it1" "l_next (?h it1) = it2"
      using assms(4) by (auto simp: list_main_def list_add_def list_add_between_def list_del_def list_init_def Let_def)
    have pred: "\<exists>q. q \<in> set ys \<and> l_prev (?h l) = q \<and> l_next (?h q) = l"
      using that \<open>l \<in> set ys\<close> ring_neighbours by blast
    with links assms(4) show False by auto
  qed
  show ?thesis
    using ring_init ring_add [OF assms(1,2)] ring_add_back [OF assms(1,2)] ring_del [OF assms(1,3)] broken by blast
qed

lemma list_operations_keep_ring_witness:
  "\<exists>h. ring (list_add 7 1 h) [1, 7, 2] \<and> ring (list_add_back 7 1 h) [1, 2, 7] \<and> ring (list_del 1 h) [2] \<and>
    (\<forall>ys. ring (list_main 1 2 3 4 h) ys \<longrightarrow> 1 \<notin> set ys)"
proof -
  define h where "h = list_add 2 1 (list_init 1 (\<lambda>_. \<lparr>l_next = 0, l_prev = 0, l_value = 0\<rparr>))"
  have "ring h [1, 2]" unfolding h_def using ring_add [OF ring_init] by simp
  from list_operations_keep_ring [OF this, of 7 1 2 3 4 h] show ?thesis
    by (intro exI [of _ h]) simp
qed

end
