(* ===== verification/File_Locks.thy ===== *)
theory File_Locks
  imports C_Prelude
begin

text \<open>
  \<open>SimplePrograms/Lock\<close>: \<open>setlock.c\<close> takes a shared lock on the first byte of a file and an
  exclusive one on the last, \<open>getlock.c\<close> and \<open>getlocks(loop).c\<close> ask for a lock in the way of
  theirs. The record locks of one file are a list, as \<open>fcntl\<close> keeps them.
\<close>

section \<open>Record locks\<close>

record flock =
  l_type :: int
  l_whence :: int
  l_start :: int
  l_len :: int
  l_pid :: int

definition F_RDLCK :: int where "F_RDLCK = 0"
definition F_WRLCK :: int where "F_WRLCK = 1"
definition F_UNLCK :: int where "F_UNLCK = 2"
definition SEEK_SET :: int where "SEEK_SET = 0"
definition SEEK_CUR :: int where "SEEK_CUR = 1"
definition SEEK_END :: int where "SEEK_END = 2"

lemmas lock_consts = F_RDLCK_def F_WRLCK_def F_UNLCK_def SEEK_SET_def SEEK_CUR_def SEEK_END_def

text \<open>A lock that is held: its bytes go from the first to the last, or on without end.\<close>

record held =
  h_pid :: int
  h_type :: int
  h_first :: int
  h_last :: "int option"

record file_world =
  fw_data :: "byte list"
  fw_locks :: "held list"
  fw_out :: "byte list"

text \<open>The bytes a \<open>flock\<close> is about; \<open>None\<close> when they would start before the file.\<close>

definition lock_range :: "int \<Rightarrow> int \<Rightarrow> flock \<Rightarrow> (int \<times> int option) option" where
  "lock_range fsize pos fl =
     (if l_whence fl \<notin> {SEEK_SET, SEEK_CUR, SEEK_END} then None
      else
        (let base = (if l_whence fl = SEEK_SET then 0 else if l_whence fl = SEEK_CUR then pos else fsize) + l_start fl;
             first = (if l_len fl < 0 then base + l_len fl else base);
             final = (if l_len fl < 0 then Some (base - 1) else if l_len fl = 0 then None
                     else Some (base + l_len fl - 1)) in
         if first < 0 then None else Some (first, final)))"

definition before :: "int option \<Rightarrow> int \<Rightarrow> bool" where
  "before end_at n = (case end_at of None \<Rightarrow> False | Some k \<Rightarrow> k < n)"

definition overlaps :: "int \<times> int option \<Rightarrow> held \<Rightarrow> bool" where
  "overlaps r h \<longleftrightarrow> \<not> before (snd r) (h_first h) \<and> \<not> before (h_last h) (fst r)"

definition conflicts :: "int \<Rightarrow> int \<Rightarrow> int \<times> int option \<Rightarrow> held \<Rightarrow> bool" where
  "conflicts pid type r h \<longleftrightarrow> h_pid h \<noteq> pid \<and> overlaps r h \<and> (type = F_WRLCK \<or> h_type h = F_WRLCK)"

text \<open>What is left of an own lock beside the bytes that get a new one.\<close>

definition cut_lock :: "int \<times> int option \<Rightarrow> held \<Rightarrow> held list" where
  "cut_lock r h =
     (if overlaps r h
      then (if h_first h < fst r then [h\<lparr>h_last := Some (fst r - 1)\<rparr>] else []) @
           (case snd r of None \<Rightarrow> []
            | Some k \<Rightarrow> if before (h_last h) (k + 1) then [] else [h\<lparr>h_first := k + 1\<rparr>])
      else [h])"

text \<open>\<open>F_SETLK\<close> for a lock that is not \<open>F_UNLCK\<close>, and \<open>F_GETLK\<close>; -1 when they fail.\<close>

definition setlk :: "int \<Rightarrow> int \<Rightarrow> flock \<Rightarrow> file_world \<Rightarrow> int \<times> file_world" where
  "setlk pid pos fl w =
     (case lock_range (int (length (fw_data w))) pos fl of
        None \<Rightarrow> (-1, w)
      | Some r \<Rightarrow>
          if \<exists>h \<in> set (fw_locks w). conflicts pid (l_type fl) r h then (-1, w)
          else (0, w\<lparr>fw_locks := concat (map (\<lambda>h. if h_pid h = pid then cut_lock r h else [h]) (fw_locks w)) @
                 [\<lparr>h_pid = pid, h_type = l_type fl, h_first = fst r, h_last = snd r\<rparr>]\<rparr>))"

definition getlk :: "int \<Rightarrow> int \<Rightarrow> flock \<Rightarrow> file_world \<Rightarrow> int \<times> flock" where
  "getlk pid pos fl w =
     (case lock_range (int (length (fw_data w))) pos fl of
        None \<Rightarrow> (-1, fl)
      | Some r \<Rightarrow>
          (case find (conflicts pid (l_type fl) r) (fw_locks w) of
             None \<Rightarrow> (0, fl\<lparr>l_type := F_UNLCK\<rparr>)
           | Some h \<Rightarrow>
               (0, \<lparr>l_type = h_type h, l_whence = SEEK_SET, l_start = h_first h,
                    l_len = (case h_last h of None \<Rightarrow> 0 | Some k \<Rightarrow> k - h_first h + 1), l_pid = h_pid h\<rparr>)))"

text \<open>\<open>close\<close> and the end of a process drop all its locks on the file.\<close>

definition drop_locks :: "int \<Rightarrow> file_world \<Rightarrow> file_world" where
  "drop_locks pid w = w\<lparr>fw_locks := filter (\<lambda>h. h_pid h \<noteq> pid) (fw_locks w)\<rparr>"

definition fl_print :: "byte list \<Rightarrow> file_world \<Rightarrow> file_world" where
  "fl_print s w = w\<lparr>fw_out := fw_out w @ s\<rparr>"

section \<open>setlock.c\<close>

definition hello :: "byte list" where
  "hello = cstr ''Hello, locked world!'' @ [10]"

text \<open>
  \<open>main\<close> up to its \<open>sleep\<close>, during which it holds the locks; \<open>fd\<close> is what \<open>open\<close> gives. The
  text is written before any lock is asked for.
\<close>

definition setlock_main :: "int \<Rightarrow> nat \<Rightarrow> int \<Rightarrow> file_world \<Rightarrow> (unit, file_world) outcome" where
  "setlock_main pid argc fd w =
     bind_outcome (c_assert (1 < argc) w) (\<lambda>_ w.
     let f1 = \<lparr>l_type = F_RDLCK, l_whence = SEEK_SET, l_start = 0, l_len = 1, l_pid = 0\<rparr>;
         f2 = \<lparr>l_type = F_WRLCK, l_whence = SEEK_END, l_start = 0, l_len = -1, l_pid = 0\<rparr> in
     bind_outcome (c_assert (0 < fd) w) (\<lambda>_ w.
     let w = w\<lparr>fw_data := store_at 0 hello (fw_data w)\<rparr>; pos = int (length hello);
         (ret, w) = setlk pid pos f1 w in
     if ret < 0 then Exits 0 (drop_locks pid (fl_print (cstr ''can't set lock'' @ [10]) w))
     else
       (let w = fl_print (cstr ''set RDLCK'' @ [10]) w; (ret, w) = setlk pid pos f2 w in
        if ret < 0 then Exits 0 (drop_locks pid (fl_print (cstr ''can't set lock'' @ [10]) w))
        else Returns () (fl_print (cstr ''set WRLCK'' @ [10]) w))))"

text \<open>After the \<open>sleep\<close>.\<close>

definition setlock_close :: "int \<Rightarrow> file_world \<Rightarrow> file_world" where
  "setlock_close pid w = drop_locks pid w"

section \<open>getlock.c and getlocks(loop).c\<close>

definition type_name :: "int \<Rightarrow> string" where
  "type_name t = (if t = F_WRLCK then ''F_WRLCK'' else if t = F_RDLCK then ''F_RDLCK''
     else if t = F_UNLCK then ''F_UNLCK'' else ''UNKNOWN'')"

definition whence_name :: "int \<Rightarrow> string" where
  "whence_name n = (if n = SEEK_CUR then ''SEEK_CUR'' else if n = SEEK_END then ''SEEK_END''
     else if n = SEEK_SET then ''SEEK_SET'' else ''UNKNOWN'')"

text \<open>The lines of \<open>print_flock\<close> behind the name of the type.\<close>

definition flock_rest :: "flock \<Rightarrow> byte list" where
  "flock_rest fl = cstr ''Whence: '' @ cstr (whence_name (l_whence fl)) @ [10] @
     cstr ''Length: '' @ dec_of_int (l_len fl) @ [10] @ cstr ''Pid: '' @ dec_of_int (l_pid fl) @ [10] @
     cstr ''Start offset: '' @ dec_of_int (l_start fl) @ [10, 10]"

definition print_flock :: "flock \<Rightarrow> byte list" where
  "print_flock fl = cstr ''LOCK INFO:'' @ [10] @ cstr ''Lock type: '' @ cstr (type_name (l_type fl)) @ [10] @
     flock_rest fl"

definition getlock_main :: "int \<Rightarrow> nat \<Rightarrow> int \<Rightarrow> file_world \<Rightarrow> (unit, file_world) outcome" where
  "getlock_main pid argc fd w =
     bind_outcome (c_assert (1 < argc) w) (\<lambda>_ w.
     let fl = \<lparr>l_type = 0, l_whence = SEEK_SET, l_start = 0, l_len = 0, l_pid = 0\<rparr> in
     bind_outcome (c_assert (0 < fd) w) (\<lambda>_ w.
     let (ret, fl) = getlk pid 0 fl w;
         w = (if ret < 0 then drop_locks pid (fl_print (cstr ''error'' @ [10]) w) else w) in
     Returns () (drop_locks pid (fl_print (print_flock fl) w))))"

text \<open>\<open>print_flock\<close> of \<open>getlocks(loop).c\<close> has no case for \<open>F_UNLCK\<close>.\<close>

definition print_flock_loop :: "flock \<Rightarrow> byte list" where
  "print_flock_loop fl = cstr ''LOCK INFO:'' @ [10] @ cstr ''Lock type: '' @
     cstr (if l_type fl = F_WRLCK then ''F_WRLCK'' else if l_type fl = F_RDLCK then ''F_RDLCK'' else ''UNKNOWN'') @ [10] @
     flock_rest fl"

definition getlocks_main :: "int \<Rightarrow> nat \<Rightarrow> int \<Rightarrow> file_world \<Rightarrow> (unit, file_world) outcome" where
  "getlocks_main pid argc fd w =
     (let fl = \<lparr>l_type = F_RDLCK, l_whence = SEEK_SET + 2, l_start = 0, l_len = 0, l_pid = 0\<rparr> in
     bind_outcome (c_assert (1 < argc) w) (\<lambda>_ w.
     bind_outcome (c_assert (0 < fd) w) (\<lambda>_ w.
     let (ret, fl) = getlk pid 0 fl w;
         w = (if ret < 0 then drop_locks pid (fl_print (cstr ''error'' @ [10]) w) else w) in
     Returns () (drop_locks pid (fl_print (print_flock_loop fl) w)))))"

section \<open>No two processes with locks in conflict\<close>

definition locks_ok :: "held list \<Rightarrow> bool" where
  "locks_ok hs \<longleftrightarrow> (\<forall>h \<in> set hs. \<forall>g \<in> set hs. h_pid h \<noteq> h_pid g \<longrightarrow> overlaps (h_first h, h_last h) g \<longrightarrow>
     h_type h \<noteq> F_WRLCK \<and> h_type g \<noteq> F_WRLCK)"

lemma overlaps_sym: "overlaps (h_first h, h_last h) g = overlaps (h_first g, h_last g) h"
  by (auto simp: overlaps_def)

lemma cut_part:
  assumes "c \<in> set (cut_lock r h)"
  shows "h_pid c = h_pid h" and "h_type c = h_type h"
    and "overlaps (h_first g, h_last g) c \<Longrightarrow> overlaps (h_first g, h_last g) h"
  using assms
  by (auto simp: cut_lock_def overlaps_def before_def split: if_splits option.splits)

lemma setlk_ok:
  assumes ok: "locks_ok (fw_locks w)" and "setlk pid pos fl w = (ret, w')"
  shows "locks_ok (fw_locks w')"
proof (cases "fw_locks w' = fw_locks w")
  case False
  then obtain r where lr: "lock_range (int (length (fw_data w))) pos fl = Some r"
    using assms(2) by (cases "lock_range (int (length (fw_data w))) pos fl") (simp_all add: setlk_def)
  have free: "\<not> (\<exists>h \<in> set (fw_locks w). conflicts pid (l_type fl) r h)"
  proof
    assume "\<exists>h \<in> set (fw_locks w). conflicts pid (l_type fl) r h"
    then have "setlk pid pos fl w = (-1, w)" unfolding setlk_def lr by simp
    with assms(2) False show False by simp
  qed
  have w': "fw_locks w' = concat (map (\<lambda>h. if h_pid h = pid then cut_lock r h else [h]) (fw_locks w)) @
      [\<lparr>h_pid = pid, h_type = l_type fl, h_first = fst r, h_last = snd r\<rparr>]"
    using assms(2) by (simp only: setlk_def lr option.case free if_False prod.inject) (auto simp del: concat_map_singleton)
  have r: "h \<in> set (fw_locks w) \<Longrightarrow> \<not> conflicts pid (l_type fl) r h" for h using free by blast
  let ?new = "\<lparr>h_pid = pid, h_type = l_type fl, h_first = fst r, h_last = snd r\<rparr>"
  have old: "\<exists>h' \<in> set (fw_locks w). h_pid h = h_pid h' \<and> h_type h = h_type h' \<and>
      (\<forall>g. overlaps (h_first g, h_last g) h \<longrightarrow> overlaps (h_first g, h_last g) h')"
    if "h \<in> set (fw_locks w')" "h \<noteq> ?new" for h
  proof -
    from that w' obtain h' where h': "h' \<in> set (fw_locks w)" "h \<in> set (if h_pid h' = pid then cut_lock r h' else [h'])" by auto
    show ?thesis
    proof (cases "h_pid h' = pid")
      case True
      with h'(2) have "h \<in> set (cut_lock r h')" by simp
      from cut_part [OF this] h'(1) show ?thesis by (intro bexI [of _ h'] conjI allI impI)
    next
      case False
      with h' show ?thesis by (intro bexI [of _ h']) simp_all
    qed
  qed
  have new: "h_type h \<noteq> F_WRLCK \<and> l_type fl \<noteq> F_WRLCK"
    if h: "h \<in> set (fw_locks w')" "h_pid h \<noteq> pid" "overlaps (h_first ?new, h_last ?new) h" for h
  proof -
    have "h \<noteq> ?new" using h(2) by auto
    from old [OF h(1) this] obtain h' where
      h': "h' \<in> set (fw_locks w)" "h_pid h = h_pid h'" "h_type h = h_type h'" "overlaps (h_first ?new, h_last ?new) h'"
      using h(3) by blast
    with r [OF h'(1)] h(2) show ?thesis by (auto simp: conflicts_def)
  qed
  show ?thesis unfolding locks_ok_def
  proof (intro ballI impI)
    fix h g
    assume hg: "h \<in> set (fw_locks w')" "g \<in> set (fw_locks w')" "h_pid h \<noteq> h_pid g"
      "overlaps (h_first h, h_last h) g"
    show "h_type h \<noteq> F_WRLCK \<and> h_type g \<noteq> F_WRLCK"
    proof (cases "h = ?new \<or> g = ?new")
      case True
      then show ?thesis
        using hg new [of h] new [of g] overlaps_sym [of h g] by auto
    next
      case False
      from old [OF hg(2)] False obtain g' where
        g': "g' \<in> set (fw_locks w)" "h_pid g = h_pid g'" "h_type g = h_type g'" "overlaps (h_first h, h_last h) g'"
        using hg(4) by blast
      from old [OF hg(1)] False obtain h' where
        h': "h' \<in> set (fw_locks w)" "h_pid h = h_pid h'" "h_type h = h_type h'" "overlaps (h_first g', h_last g') h'"
        using g'(4) overlaps_sym [of h g'] by blast
      with ok g' hg(3) overlaps_sym [of h' g'] show ?thesis unfolding locks_ok_def by metis
    qed
  qed
qed (use ok in simp)

section \<open>Properties\<close>

text \<open>The two locks of a process on a file of \<open>n\<close> bytes.\<close>

definition two_locks :: "int \<Rightarrow> nat \<Rightarrow> held list" where
  "two_locks pid n =
     [\<lparr>h_pid = pid, h_type = F_RDLCK, h_first = 0, h_last = Some 0\<rparr>,
      \<lparr>h_pid = pid, h_type = F_WRLCK, h_first = int n - 1, h_last = Some (int n - 1)\<rparr>]"

lemma length_hello: "length hello = 21"
  by (simp add: hello_def)

lemma hello_nonempty [simp]: "hello \<noteq> []"
  using length_hello by auto

lemma hello_twice: "store_at 0 hello (store_at 0 hello data) = store_at 0 hello data"
  by (simp add: store_at_def)

lemma setlock_first:
  assumes "fw_locks w = []" and "1 < argc" and "0 < fd"
  shows "setlock_main p argc fd w = Returns ()
    (w\<lparr>fw_data := store_at 0 hello (fw_data w), fw_locks := two_locks p (max 21 (length (fw_data w))),
       fw_out := fw_out w @ cstr ''set RDLCK'' @ [10] @ cstr ''set WRLCK'' @ [10]\<rparr>)"
  using assms
  by (simp add: setlock_main_def setlk_def lock_range_def lock_consts fl_print_def two_locks_def conflicts_def
      cut_lock_def overlaps_def before_def length_hello Let_def store_at_def max_def del: cstr_simps)

lemma setlock_second:
  assumes "fw_locks w = two_locks p (max 21 n)" and "length (fw_data w) = max 21 n" and "p \<noteq> q"
    and "1 < argc" and "0 < fd"
  shows "setlock_main q argc fd w = Exits 0
    (w\<lparr>fw_data := store_at 0 hello (fw_data w),
       fw_out := fw_out w @ cstr ''set RDLCK'' @ [10] @ cstr ''can't set lock'' @ [10]\<rparr>)"
  using assms
  by (simp add: setlock_main_def setlk_def lock_range_def lock_consts fl_print_def two_locks_def conflicts_def
      cut_lock_def overlaps_def before_def drop_locks_def length_hello Let_def length_store_at del: cstr_simps)

lemma getlock_sees:
  assumes "fw_locks w = two_locks p n" and "0 < n" and "p \<noteq> q" and "1 < argc" and "0 < fd"
    and "length (fw_data w) = n"
  shows "getlock_main q argc fd w = Returns () (fl_print (print_flock
      \<lparr>l_type = F_WRLCK, l_whence = SEEK_SET, l_start = int n - 1, l_len = 1, l_pid = p\<rparr>) w)"
    and "getlocks_main q argc fd w = Returns () (fl_print (print_flock_loop
      \<lparr>l_type = F_UNLCK, l_whence = SEEK_END, l_start = 0, l_len = 0, l_pid = 0\<rparr>) w)"
  using assms
  by (simp_all add: getlock_main_def getlocks_main_def getlk_def lock_range_def lock_consts fl_print_def
      two_locks_def conflicts_def overlaps_def before_def drop_locks_def Let_def)

lemma getlock_free:
  assumes "fw_locks w = []" and "1 < argc" and "0 < fd"
  shows "getlock_main q argc fd w = Returns () (fl_print (print_flock
      \<lparr>l_type = F_UNLCK, l_whence = SEEK_SET, l_start = 0, l_len = 0, l_pid = 0\<rparr>) w)"
  using assms
  by (simp add: getlock_main_def getlk_def lock_range_def lock_consts fl_print_def drop_locks_def Let_def)

text \<open>
  A process of \<open>setlock.c\<close> on a file without locks gets both; while it sleeps a second one shares
  the first byte, fails at the last, and leaves with nothing changed; \<open>getlock.c\<close> shows the lock of
  the last byte and its owner, and no lock afterwards. \<open>getlocks(loop).c\<close> asks behind the end of the
  file, where no lock is, and prints \<open>UNKNOWN\<close>.
\<close>

theorem lock_session:
  assumes "fw_locks w = []" and "p \<noteq> q" and "1 < argc" and "0 < fd"
  shows "\<exists>w1. setlock_main p argc fd w = Returns () w1 \<and> locks_ok (fw_locks w1) \<and>
    fw_out w1 = fw_out w @ cstr ''set RDLCK'' @ [10] @ cstr ''set WRLCK'' @ [10] \<and>
    setlock_main q argc fd w1 = Exits 0
      (fl_print (cstr ''set RDLCK'' @ [10] @ cstr ''can't set lock'' @ [10]) w1) \<and>
    getlock_main q argc fd w1 = Returns () (fl_print (print_flock
      \<lparr>l_type = F_WRLCK, l_whence = SEEK_SET, l_start = int (length (fw_data w1)) - 1, l_len = 1, l_pid = p\<rparr>) w1) \<and>
    getlocks_main q argc fd w1 = Returns () (fl_print (cstr ''LOCK INFO:'' @ [10] @ cstr ''Lock type: UNKNOWN'' @ [10] @
      flock_rest \<lparr>l_type = F_UNLCK, l_whence = SEEK_END, l_start = 0, l_len = 0, l_pid = 0\<rparr>) w1) \<and>
    getlock_main q argc fd (setlock_close p w1) = Returns () (fl_print (print_flock
      \<lparr>l_type = F_UNLCK, l_whence = SEEK_SET, l_start = 0, l_len = 0, l_pid = 0\<rparr>) (setlock_close p w1))"
proof -
  let ?n = "max 21 (length (fw_data w))"
  define w1 where "w1 = w\<lparr>fw_data := store_at 0 hello (fw_data w), fw_locks := two_locks p ?n,
    fw_out := fw_out w @ cstr ''set RDLCK'' @ [10] @ cstr ''set WRLCK'' @ [10]\<rparr>"
  have w1: "fw_locks w1 = two_locks p ?n" "length (fw_data w1) = ?n"
    by (simp_all add: w1_def store_at_def length_hello max_def)
  have again: "store_at 0 hello (fw_data w1) = fw_data w1" by (simp add: w1_def hello_twice)
  have "setlock_main q argc fd w1 = Exits 0 (fl_print (cstr ''set RDLCK'' @ [10] @ cstr ''can't set lock'' @ [10]) w1)"
    using setlock_second [OF w1 assms(2-4)] by (simp add: again fl_print_def del: cstr_simps)
  moreover have "setlock_main p argc fd w = Returns () w1"
    unfolding w1_def by (rule setlock_first [OF assms(1,3,4)])
  moreover have "locks_ok (fw_locks w1)" by (simp add: w1(1) two_locks_def locks_ok_def)
  moreover have "fw_locks (setlock_close p w1) = []"
    by (simp add: setlock_close_def drop_locks_def w1(1) two_locks_def)
  moreover have "0 < ?n" by simp
  moreover have unknown: "print_flock_loop \<lparr>l_type = F_UNLCK, l_whence = SEEK_END, l_start = 0, l_len = 0, l_pid = 0\<rparr> =
      cstr ''LOCK INFO:'' @ [10] @ cstr ''Lock type: UNKNOWN'' @ [10] @
      flock_rest \<lparr>l_type = F_UNLCK, l_whence = SEEK_END, l_start = 0, l_len = 0, l_pid = 0\<rparr>"
    by (simp add: print_flock_loop_def lock_consts)
  ultimately show ?thesis
    using getlock_sees [OF w1(1) _ assms(2-4) w1(2)] getlock_free [OF _ assms(3,4)] w1(2)
    by (intro exI [of _ w1]) (simp add: w1_def del: cstr_simps)
qed

theorem lock_session_witness:
  "\<exists>w1. setlock_main 7 2 3 \<lparr>fw_data = [], fw_locks = [], fw_out = []\<rparr> = Returns () w1 \<and>
    setlock_main 8 2 3 w1 = Exits 0 (fl_print (cstr ''set RDLCK'' @ [10] @ cstr ''can't set lock'' @ [10]) w1)"
  using lock_session [of "\<lparr>fw_data = [], fw_locks = [], fw_out = []\<rparr>" 7 8 2 3] by (auto simp del: cstr_simps)

end
