(* ===== verification/Ipc_Examples.thy ===== *)
theory Ipc_Examples
  imports C_Prelude
begin

text \<open>
  More of \<open>SimplePrograms\<close>: two programs that exchange their pids over a message queue
  (\<open>Messages\<close>), the numbers of a tree of processes (\<open>Pid_Num\<close>), readers of fifos
  (\<open>Fifo\<close>, \<open>Poll\<close>), a switch (\<open>Enum\<close>) and a look at the environment (\<open>Envp\<close>).
\<close>

section \<open>The message queue\<close>

text \<open>
  Where the two programs stand: before \<open>msgget\<close>, \<open>msgsnd\<close>, \<open>msgrcv\<close>, or at the end with the pid
  printed. \<open>R_lost\<close> is the receiver whose \<open>msgget\<close> found no queue: its calls fail, and it
  prints what its variable held.
\<close>

datatype sen_pc = S_get | S_send | S_recv | S_done int
datatype rec_pc = R_get | R_recv | R_send int | R_done int | R_lost int

record exchange =
  ex_sen :: sen_pc
  ex_rec :: rec_pc
  ex_queue :: "(int \<times> int) list option"

definition msg_forward :: int where "msg_forward = 1"
definition msg_back :: int where "msg_back = 2"

text \<open>\<open>msgrcv\<close> with a positive type: the first message of that type.\<close>

fun msgrcv :: "int \<Rightarrow> (int \<times> int) list \<Rightarrow> (int \<times> (int \<times> int) list) option" where
  "msgrcv t [] = None"
| "msgrcv t ((u, v) # q) =
     (if u = t then Some (v, q)
      else (case msgrcv t q of None \<Rightarrow> None | Some (v', q') \<Rightarrow> Some (v', (u, v) # q')))"

text \<open>The next call of \<open>sen.c\<close>, whose pid is \<open>spid\<close>; \<open>None\<close> while it waits or at its end.\<close>

definition sen_step :: "int \<Rightarrow> exchange \<Rightarrow> exchange option" where
  "sen_step spid st =
     (case ex_sen st of
        S_get \<Rightarrow> Some (st\<lparr>ex_sen := S_send, ex_queue := Some (case ex_queue st of None \<Rightarrow> [] | Some q \<Rightarrow> q)\<rparr>)
      | S_send \<Rightarrow> Some (st\<lparr>ex_sen := S_recv, ex_queue := map_option (\<lambda>q. q @ [(msg_forward, spid)]) (ex_queue st)\<rparr>)
      | S_recv \<Rightarrow>
          (case ex_queue st of
             None \<Rightarrow> None
           | Some q \<Rightarrow>
               (case msgrcv msg_back q of
                  None \<Rightarrow> None
                | Some (v, q') \<Rightarrow> Some (st\<lparr>ex_sen := S_done v, ex_queue := Some q'\<rparr>)))
      | S_done v \<Rightarrow> None)"

definition rec_step :: "int \<Rightarrow> int \<Rightarrow> exchange \<Rightarrow> exchange option" where
  "rec_step rpid junk st =
     (case ex_rec st of
        R_get \<Rightarrow> Some (st\<lparr>ex_rec := (if ex_queue st = None then R_lost junk else R_recv)\<rparr>)
      | R_recv \<Rightarrow>
          (case ex_queue st of
             None \<Rightarrow> None
           | Some q \<Rightarrow>
               (case msgrcv msg_forward q of
                  None \<Rightarrow> None
                | Some (v, q') \<Rightarrow> Some (st\<lparr>ex_rec := R_send v, ex_queue := Some q'\<rparr>)))
      | R_send v \<Rightarrow> Some (st\<lparr>ex_rec := R_done v, ex_queue := map_option (\<lambda>q. q @ [(msg_back, rpid)]) (ex_queue st)\<rparr>)
      | R_done v \<Rightarrow> None
      | R_lost v \<Rightarrow> None)"

inductive ex_reach :: "int \<Rightarrow> int \<Rightarrow> int \<Rightarrow> exchange \<Rightarrow> bool" for spid rpid junk where
  start: "ex_reach spid rpid junk \<lparr>ex_sen = S_get, ex_rec = R_get, ex_queue = None\<rparr>"
| sen: "ex_reach spid rpid junk st \<Longrightarrow> sen_step spid st = Some st' \<Longrightarrow> ex_reach spid rpid junk st'"
| rec_: "ex_reach spid rpid junk st \<Longrightarrow> rec_step rpid junk st = Some st' \<Longrightarrow> ex_reach spid rpid junk st'"

text \<open>The states of the exchange: the queue holds the one message that is under way.\<close>

inductive ex_ok :: "int \<Rightarrow> int \<Rightarrow> int \<Rightarrow> exchange \<Rightarrow> bool" for spid rpid junk where
  "ex_ok spid rpid junk \<lparr>ex_sen = S_get, ex_rec = R_get, ex_queue = None\<rparr>"
| "ex_ok spid rpid junk \<lparr>ex_sen = S_get, ex_rec = R_lost junk, ex_queue = None\<rparr>"
| "r \<in> {R_get, R_recv, R_lost junk} \<Longrightarrow> ex_ok spid rpid junk \<lparr>ex_sen = S_send, ex_rec = r, ex_queue = Some []\<rparr>"
| "r \<in> {R_get, R_recv, R_lost junk} \<Longrightarrow>
    ex_ok spid rpid junk \<lparr>ex_sen = S_recv, ex_rec = r, ex_queue = Some [(msg_forward, spid)]\<rparr>"
| "ex_ok spid rpid junk \<lparr>ex_sen = S_recv, ex_rec = R_send spid, ex_queue = Some []\<rparr>"
| "ex_ok spid rpid junk \<lparr>ex_sen = S_recv, ex_rec = R_done spid, ex_queue = Some [(msg_back, rpid)]\<rparr>"
| "ex_ok spid rpid junk \<lparr>ex_sen = S_done rpid, ex_rec = R_done spid, ex_queue = Some []\<rparr>"

lemmas ex_ok_intros = ex_ok.intros [simplified insert_iff]

lemma ex_ok_step:
  assumes "ex_ok spid rpid junk st"
  shows "sen_step spid st = Some st' \<Longrightarrow> ex_ok spid rpid junk st'"
    and "rec_step rpid junk st = Some st' \<Longrightarrow> ex_ok spid rpid junk st'"
  using assms
  by (cases rule: ex_ok.cases; auto simp: sen_step_def rec_step_def msg_forward_def msg_back_def
      intro!: ex_ok_intros [unfolded msg_forward_def msg_back_def])+

lemma ex_reach_ok: "ex_reach spid rpid junk st \<Longrightarrow> ex_ok spid rpid junk st"
  by (induction rule: ex_reach.induct) (auto intro: ex_ok_step ex_ok_intros)

text \<open>
  C37: whatever order the two programs run in, each prints the pid of the other and the queue is
  empty in the end, unless the receiver looked for the queue before the sender made it: then it
  prints what its variable held and the sender waits for ever. There is no other way to stop.
\<close>

theorem message_exchange:
  assumes "ex_reach spid rpid junk st"
  shows "(\<forall>v. ex_sen st = S_done v \<longrightarrow> v = rpid) \<and>
    (\<forall>v. ex_rec st = R_send v \<or> ex_rec st = R_done v \<longrightarrow> v = spid) \<and>
    (sen_step spid st = None \<and> rec_step rpid junk st = None \<longleftrightarrow>
      ex_sen st = S_done rpid \<and> ex_rec st = R_done spid \<and> ex_queue st = Some [] \<or>
      ex_sen st = S_recv \<and> ex_rec st = R_lost junk)"
  using ex_reach_ok [OF assms]
  by (cases rule: ex_ok.cases) (auto simp: sen_step_def rec_step_def msg_forward_def msg_back_def)

theorem message_exchange_witness:
  "\<exists>st. ex_reach 10 20 5 st \<and> ex_rec st = R_lost 5 \<and> ex_sen st = S_recv \<and> sen_step 10 st = None"
proof -
  let ?s0 = "\<lparr>ex_sen = S_get, ex_rec = R_get, ex_queue = None\<rparr>"
  let ?s1 = "\<lparr>ex_sen = S_get, ex_rec = R_lost 5, ex_queue = None\<rparr>"
  let ?s2 = "\<lparr>ex_sen = S_send, ex_rec = R_lost 5, ex_queue = Some []\<rparr>"
  let ?s3 = "\<lparr>ex_sen = S_recv, ex_rec = R_lost 5, ex_queue = Some [(msg_forward, 10)]\<rparr>"
  have "rec_step 20 5 ?s0 = Some ?s1" "sen_step 10 ?s1 = Some ?s2" "sen_step 10 ?s2 = Some ?s3"
    by (simp_all add: rec_step_def sen_step_def)
  then have "ex_reach 10 20 5 ?s3" using ex_reach.start ex_reach.sen ex_reach.rec_ by metis
  with message_exchange [OF this] show ?thesis by (intro exI [of _ ?s3]) simp
qed

section \<open>A tree of processes\<close>

text \<open>
  \<open>pidsnnums.c\<close>: \<open>*number++\<close> moves the pointer and leaves the number; \<open>heap\<close> is the memory from
  the allocated \<open>int\<close> on. The numbers printed, in their order: a process waits for each child.
\<close>

primrec pid_loop :: "(nat \<Rightarrow> int) \<Rightarrow> nat \<Rightarrow> nat \<Rightarrow> int list" where
  "pid_loop heap 0 number = []"
| "pid_loop heap (Suc n) number =
     (heap (number + 1) # pid_loop heap n (number + 1)) @ pid_loop heap n number"

definition pid_main :: "(nat \<Rightarrow> int) \<Rightarrow> int list" where
  "pid_main heap = (let heap = heap(0 := 1) in heap 0 # pid_loop heap 3 0)"

lemma pid_main_numbers: "pid_main heap = [1, heap 1, heap 2, heap 3, heap 2, heap 1, heap 2, heap 1]"
  by (simp add: pid_main_def numeral_eq_Suc)

lemma length_pid_loop: "Suc (length (pid_loop heap n k)) = 2 ^ n"
proof (induction n arbitrary: k)
  case (Suc n)
  have "length (pid_loop heap (Suc n) k) = Suc (length (pid_loop heap n (k + 1))) + length (pid_loop heap n k)" by simp
  with Suc [of "k + 1"] Suc [of k] show ?case by simp
qed simp

section \<open>Fifos\<close>

text \<open>
  \<open>fifo.c\<close> holds both ends: after its own two words it waits for ever. \<open>buf\<close> is what the 1024
  bytes of the array and the memory behind hold before; nothing ends the text that was read.
\<close>

definition fifo_loop :: "byte list \<Rightarrow> byte list list \<Rightarrow> (unit, byte list) outcome" where
  "fifo_loop buf reads =
     Blocks (concat (map (\<lambda>(i, r). c_str (foldl (\<lambda>b s. store_at 0 s b) buf (take (Suc i) reads)))
       (zip [0..<length reads] reads)))"

definition fifo_main :: "int \<Rightarrow> int \<Rightarrow> byte list \<Rightarrow> byte list \<times> (unit, byte list) outcome" where
  "fifo_main check_mk fd_fifo buf =
     (if check_mk = -1 then (cstr ''Can't create fifo fifo for logging'' @ [10], Exits 1 [])
      else if fd_fifo = -1 then (cstr ''Can't open fifo fifo for logging'' @ [10], Exits 1 [])
      else (cstr ''fd: '' @ dec_of_int fd_fifo @ [10], fifo_loop buf [cstr ''str'' @ [9] @ cstr ''hello'' @ [10]]))"

lemma fifo_prints_what_follows:
  assumes "0 \<le> fd" and "length buf = 1024" and "0 \<notin> set (take 1014 (drop 10 buf))"
  shows "\<exists>out. snd (fifo_main 0 fd buf) = Blocks out \<and> 1024 \<le> length out"
proof -
  let ?s = "cstr ''str'' @ [9] @ cstr ''hello'' @ [10]"
  have "c_str (?s @ drop 10 buf) = ?s @ drop 10 buf"
    using assms by (intro c_str_no_nul_id) (auto simp: take_all_iff)
  moreover have "length ?s = 10" by simp
  then have "store_at 0 ?s buf = ?s @ drop 10 buf" by (simp only: store_at_def take_0 append_Nil add_0)
  ultimately have "snd (fifo_main 0 fd buf) = Blocks (?s @ drop 10 buf)"
    using assms(1) by (simp add: fifo_main_def fifo_loop_def)
  then show ?thesis using assms(2) by simp
qed

text \<open>
  A read of \<open>b.c\<close> and of \<open>poll.c\<close>: the NUL goes behind what was read, so a full buffer has it
  one byte behind its end; \<open>None\<close> there.
\<close>

definition read_nul :: "nat \<Rightarrow> byte list \<Rightarrow> byte list option" where
  "read_nul n bs = (if length bs < n then Some (c_str (bs @ [0])) else None)"

fun fifo_b_loop :: "byte list list \<Rightarrow> byte list option" where
  "fifo_b_loop [] = Some []"
| "fifo_b_loop (bs # reads) =
     (if bs = [] then Some []
      else (case read_nul 1024 bs of
              None \<Rightarrow> None
            | Some s \<Rightarrow> map_option (\<lambda>out. cstr ''count: '' @ dec_of_int (int (length bs)) @ cstr '' ('' @ s @ cstr '')'' @ out)
                (fifo_b_loop reads)))"

text \<open>A round of \<open>poll.c\<close>: the names, whether \<open>POLLIN\<close> is set, and what \<open>read\<close> gives.\<close>

fun poll_round :: "(byte list \<times> bool \<times> byte list option) list \<Rightarrow> byte list option" where
  "poll_round [] = Some []"
| "poll_round ((name, pollin, r) # fds) =
     (if pollin \<and> (case r of None \<Rightarrow> False | Some bs \<Rightarrow> bs \<noteq> [])
      then (case read_nul 10000 (the r) of
              None \<Rightarrow> None
            | Some s \<Rightarrow> map_option (\<lambda>out. cstr ''fifo: '' @ name @ [9] @ cstr ''read: '' @ s @ out) (poll_round fds))
      else poll_round fds)"

lemma read_nul_text: "length bs < n \<Longrightarrow> 0 \<notin> set bs \<Longrightarrow> read_nul n bs = Some bs"
  by (simp add: read_nul_def c_str_append_nul)

lemma read_nul_full: "length bs = n \<Longrightarrow> read_nul n bs = None"
  by (simp add: read_nul_def)

section \<open>A switch, and the environment\<close>

text \<open>\<open>default\<close> stands before \<open>dog\<close> and falls through to it.\<close>

definition choice_main :: "int \<Rightarrow> byte list" where
  "choice_main my_choice =
     (if my_choice = 1 then cstr ''cat'' @ [10]
      else if my_choice = 2 then cstr ''dog'' @ [10]
      else cstr ''dog or snake left'' @ [10] @ cstr ''dog'' @ [10])"

text \<open>\<open>getenv\<close>: what follows the name and \<open>=\<close> in the first such entry.\<close>

definition getenv :: "byte list \<Rightarrow> byte list list \<Rightarrow> byte list option" where
  "getenv name env =
     (case find (\<lambda>e. prefix (name @ cstr ''='') e) env of
        None \<Rightarrow> None | Some e \<Rightarrow> Some (drop (length name + 1) e))"

text \<open>\<open>getenv.c\<close> asks for \<open>name\<close>, not for the value of the variable \<open>name\<close>, which is \<open>MY_VAR\<close>.\<close>

definition getenv_main :: "byte list list \<Rightarrow> byte list" where
  "getenv_main env = (case getenv (cstr ''name'') env of Some s \<Rightarrow> s @ [10] | None \<Rightarrow> cstr ''Not found'' @ [10])"

definition get_all_envp_main :: "byte list list \<Rightarrow> byte list" where
  "get_all_envp_main envp = concat (map (\<lambda>e. e @ [10]) envp)"

lemma getenv_misses: "getenv_main [cstr ''MY_VAR='' @ v] = cstr ''Not found'' @ [10]"
  by (simp add: getenv_main_def getenv_def)

end
