(* ===== verification/File_Examples.thy ===== *)
theory File_Examples
  imports Ipc_Examples
begin

text \<open>
  The programs of \<open>SimplePrograms\<close> around files: the writer and the reader of \<open>Fifo\<close> (\<open>a.c\<close> and \<open>b.c\<close>) as
  two processes with steps, \<open>poll.c\<close>, and \<open>Lstat\<close>, \<open>RealPath\<close>, \<open>Output directory\<close> and \<open>Ls-la\<close>.
\<close>

section \<open>A writer and a reader\<close>

text \<open>
  Where the programs stand. \<open>a.c\<close> removes the file, makes a fifo, opens it for writing, waits for a key and
  writes twice; its \<open>open\<close> waits for a reader (\<open>W_wait\<close>). \<open>b.c\<close> opens the fifo for reading without waiting, waits for a
  key and reads until a \<open>read\<close> gives nothing; then it ends (\<open>R_end\<close>), which closes the fifo.
\<close>

datatype writer_pc = W_unlink | W_make | W_open | W_wait | W_key | W_str | W_hello | W_done | W_exit | W_killed
datatype reader_pc = R_open | R_key | R_read | R_end | R_done | R_exit

text \<open>
  Files are numbered: 0 is a fifo left from before, 1 the one that \<open>a.c\<close> makes. \<open>ff_fd\<close> is the file that the
  reader has open, \<open>ff_pipe\<close> what is in the new fifo, \<open>ff_out\<close> the texts that the reader has printed; \<open>ff_sent\<close> is what
  the writes that succeeded have written and \<open>ff_lost\<close> what was in the fifo when its last reader closed it.
\<close>

record fifo_pair =
  ff_file :: "nat option"
  ff_writer :: writer_pc
  ff_reader :: reader_pc
  ff_fd :: "nat option"
  ff_pipe :: "byte list"
  ff_out :: "byte list list"
  ff_sent :: "byte list"
  ff_lost :: "byte list"

definition str_part :: "byte list" where "str_part = cstr ''str'' @ [9]"
definition hello_part :: "byte list" where "hello_part = cstr ''hello'' @ [10]"

fun writes_open :: "writer_pc \<Rightarrow> bool" where
  "writes_open W_key = True"
| "writes_open W_str = True"
| "writes_open W_hello = True"
| "writes_open _ = False"

text \<open>A write when nobody has the fifo open for reading ends the program with \<open>SIGPIPE\<close>.\<close>

definition fifo_write :: "byte list \<Rightarrow> writer_pc \<Rightarrow> fifo_pair \<Rightarrow> fifo_pair" where
  "fifo_write bs pc st =
     (if ff_fd st = Some 1 then st\<lparr>ff_writer := pc, ff_pipe := ff_pipe st @ bs, ff_sent := ff_sent st @ bs\<rparr>
      else st\<lparr>ff_writer := W_killed\<rparr>)"

definition writer_step :: "bool \<Rightarrow> fifo_pair \<Rightarrow> fifo_pair option" where
  "writer_step made st =
     (case ff_writer st of
        W_unlink \<Rightarrow> Some (st\<lparr>ff_writer := W_make, ff_file := None\<rparr>)
      | W_make \<Rightarrow> Some (if made then st\<lparr>ff_writer := W_open, ff_file := Some 1\<rparr> else st\<lparr>ff_writer := W_exit\<rparr>)
      | W_open \<Rightarrow> Some (st\<lparr>ff_writer := (if ff_fd st = Some 1 then W_key else W_wait)\<rparr>)
      | W_key \<Rightarrow> Some (st\<lparr>ff_writer := W_str\<rparr>)
      | W_str \<Rightarrow> Some (fifo_write str_part W_hello st)
      | W_hello \<Rightarrow> Some (fifo_write hello_part W_done st)
      | _ \<Rightarrow> None)"

text \<open>
  The \<open>open\<close> of the reader wakes a writer that waits for it. \<open>read\<close> gives what is there, at most 1024 bytes; an empty fifo
  gives -1 while a writer has it open and otherwise 0, and both end the loop. The writer may move before the
  descriptor is closed at the end of the program; what is in the fifo then is thrown away.
\<close>

definition woken :: "nat \<Rightarrow> writer_pc \<Rightarrow> writer_pc" where
  "woken f w = (if f = 1 \<and> w = W_wait then W_key else w)"

definition reader_step :: "fifo_pair \<Rightarrow> fifo_pair option" where
  "reader_step st =
     (case ff_reader st of
        R_open \<Rightarrow> Some (case ff_file st of
            None \<Rightarrow> st\<lparr>ff_reader := R_exit\<rparr>
          | Some f \<Rightarrow> st\<lparr>ff_reader := R_key, ff_fd := Some f, ff_writer := woken f (ff_writer st)\<rparr>)
      | R_key \<Rightarrow> Some (st\<lparr>ff_reader := R_read\<rparr>)
      | R_read \<Rightarrow>
          (let here = (if ff_fd st = Some 1 then ff_pipe st else []) in
           Some (if here = [] then st\<lparr>ff_reader := R_end\<rparr>
                 else st\<lparr>ff_out := ff_out st @ [take 1024 here], ff_pipe := drop 1024 here\<rparr>))
      | R_end \<Rightarrow> Some (st\<lparr>ff_reader := R_done, ff_fd := None, ff_lost := ff_lost st @ ff_pipe st, ff_pipe := []\<rparr>)
      | _ \<Rightarrow> None)"

text \<open>\<open>left\<close>: whether a fifo is there from before; \<open>made\<close>: whether \<open>mkfifo\<close> succeeds.\<close>

definition fifo_start :: "bool \<Rightarrow> fifo_pair" where
  "fifo_start left = \<lparr>ff_file = (if left then Some 0 else None), ff_writer = W_unlink, ff_reader = R_open,
     ff_fd = None, ff_pipe = [], ff_out = [], ff_sent = [], ff_lost = []\<rparr>"

inductive fifo_reach :: "bool \<Rightarrow> bool \<Rightarrow> nat \<Rightarrow> fifo_pair \<Rightarrow> bool" for left made where
  start: "fifo_reach left made 0 (fifo_start left)"
| writer: "fifo_reach left made k st \<Longrightarrow> writer_step made st = Some st' \<Longrightarrow> fifo_reach left made (Suc k) st'"
| reader: "fifo_reach left made k st \<Longrightarrow> reader_step st = Some st' \<Longrightarrow> fifo_reach left made (Suc k) st'"

text \<open>A given order of steps, the writer's as \<open>True\<close>.\<close>

fun fifo_steps :: "bool \<Rightarrow> bool list \<Rightarrow> fifo_pair \<Rightarrow> fifo_pair option" where
  "fifo_steps made [] st = Some st"
| "fifo_steps made (w # ws) st =
     (case if w then writer_step made st else reader_step st of
        None \<Rightarrow> None
      | Some st' \<Rightarrow> fifo_steps made ws st')"

lemma fifo_steps_reach:
  "fifo_reach left made k st \<Longrightarrow> fifo_steps made ws st = Some st' \<Longrightarrow> fifo_reach left made (k + length ws) st'"
proof (induction ws arbitrary: k st)
  case (Cons w ws)
  from Cons.prems(2) obtain st1 where "(if w then writer_step made st else reader_step st) = Some st1"
    "fifo_steps made ws st1 = Some st'" by (auto split: option.splits)
  with Cons.prems(1) Cons.IH [of "Suc k" st1] show ?case
    by (auto split: if_splits intro: fifo_reach.writer fifo_reach.reader)
qed simp

section \<open>What passes through the fifo\<close>

fun written :: "writer_pc \<Rightarrow> byte list" where
  "written W_hello = str_part"
| "written W_done = str_part @ hello_part"
| "written _ = []"

definition reader_ended :: "fifo_pair \<Rightarrow> bool" where
  "reader_ended st \<longleftrightarrow> ff_reader st = R_done \<or> ff_reader st = R_exit"

definition whole :: "byte list" where "whole = str_part @ hello_part"

definition possible_outputs :: "byte list list list" where
  "possible_outputs = [[], [str_part], [str_part, hello_part], [str_part @ hello_part]]"

text \<open>The writer has the fifo open, or has had it.\<close>

definition opened :: "writer_pc \<Rightarrow> bool" where
  "opened w \<longleftrightarrow> w \<in> {W_key, W_str, W_hello, W_done, W_killed}"

definition fifo_inv :: "fifo_pair \<Rightarrow> bool" where
  "fifo_inv st \<longleftrightarrow>
     ff_out st \<in> set possible_outputs \<and>
     (ff_fd st \<noteq> None \<longleftrightarrow> ff_reader st \<in> {R_key, R_read, R_end}) \<and>
     concat (ff_out st) @ ff_lost st @ ff_pipe st = ff_sent st \<and>
     (ff_writer st = W_killed \<longrightarrow> ff_sent st = [] \<or> ff_sent st = str_part) \<and>
     (ff_writer st \<noteq> W_killed \<longrightarrow> ff_sent st = written (ff_writer st)) \<and>
     (ff_fd st \<noteq> Some 1 \<longrightarrow> ff_pipe st = [] \<and> (opened (ff_writer st) \<longrightarrow> reader_ended st)) \<and>
     (ff_lost st \<noteq> [] \<longrightarrow> ff_reader st = R_done) \<and>
     (ff_fd st = Some 1 \<longrightarrow> ff_writer st \<noteq> W_killed \<and> ff_writer st \<noteq> W_wait) \<and>
     (ff_reader st = R_key \<or> ff_reader st = R_open \<longrightarrow> ff_out st = [])"

lemma parts: "str_part = [115, 116, 114, 9]" "hello_part = [104, 101, 108, 108, 111, 10]"
  by (simp_all add: str_part_def hello_part_def)

lemma fifo_invD:
  assumes "fifo_inv st"
  shows "ff_out st \<in> set possible_outputs"
    and "ff_fd st \<noteq> None \<longleftrightarrow> ff_reader st \<in> {R_key, R_read, R_end}"
    and "concat (ff_out st) @ ff_lost st @ ff_pipe st = ff_sent st"
    and "(ff_writer st = W_killed \<longrightarrow> ff_sent st = [] \<or> ff_sent st = str_part) \<and>
      (ff_writer st \<noteq> W_killed \<longrightarrow> ff_sent st = written (ff_writer st))"
    and "ff_fd st \<noteq> Some 1 \<longrightarrow> ff_pipe st = [] \<and> (opened (ff_writer st) \<longrightarrow> reader_ended st)"
    and "ff_lost st \<noteq> [] \<longrightarrow> ff_reader st = R_done"
    and "ff_fd st = Some 1 \<longrightarrow> ff_writer st \<noteq> W_killed \<and> ff_writer st \<noteq> W_wait"
    and "ff_reader st = R_key \<or> ff_reader st = R_open \<longrightarrow> ff_out st = []"
  using assms unfolding fifo_inv_def by blast+

text \<open>What a read finds is the rest of what has been written.\<close>

lemma next_output:
  assumes "out \<in> set possible_outputs" and "concat out @ rest = written w" and "rest \<noteq> []"
  shows "out @ [rest] \<in> set possible_outputs \<and> take 1024 rest = rest \<and> drop 1024 rest = []"
  using assms by (cases w) (auto simp: possible_outputs_def parts)

fun writer_left :: "writer_pc \<Rightarrow> nat" where
  "writer_left W_unlink = 6"
| "writer_left W_make = 5"
| "writer_left W_open = 4"
| "writer_left W_wait = 3"
| "writer_left W_key = 3"
| "writer_left W_str = 2"
| "writer_left W_hello = 1"
| "writer_left _ = 0"

fun reader_left :: "reader_pc \<Rightarrow> nat \<Rightarrow> nat" where
  "reader_left R_open n = 6"
| "reader_left R_key n = 5"
| "reader_left R_read n = 4 - n"
| "reader_left R_end n = 1"
| "reader_left _ n = 0"

definition fifo_left :: "fifo_pair \<Rightarrow> nat" where
  "fifo_left st = writer_left (ff_writer st) + reader_left (ff_reader st) (length (ff_out st))"

lemma writer_step_inv:
  assumes inv: "fifo_inv st" and step: "writer_step made st = Some st'"
  shows "fifo_inv st' \<and> fifo_left st' < fifo_left st"
proof -
  note D = fifo_invD [OF inv]
  have quiet: ?thesis if "ff_writer st \<noteq> W_killed" "ff_writer st \<noteq> W_wait" "written pc = written (ff_writer st)" "pc \<noteq> W_killed"
      "st' = st\<lparr>ff_writer := pc, ff_file := f\<rparr>" "writer_left pc < writer_left (ff_writer st)"
      "opened pc \<Longrightarrow> opened (ff_writer st) \<or> ff_fd st = Some 1" "pc = W_wait \<Longrightarrow> ff_fd st \<noteq> Some 1" for pc f
    using D that unfolding fifo_inv_def fifo_left_def by (simp add: reader_ended_def) blast
  have writes: ?thesis if "opened (ff_writer st)" "ff_writer st \<noteq> W_killed" "st' = fifo_write bs pc st"
      "written (ff_writer st) @ bs = written pc" "pc \<noteq> W_killed" "pc \<noteq> W_wait"
      "writer_left pc < writer_left (ff_writer st)" "written (ff_writer st) \<in> {[], str_part}" for bs pc
  proof (cases "ff_fd st = Some 1")
    case True
    have "concat (ff_out st) @ ff_lost st @ ff_pipe st @ bs = ff_sent st @ bs"
      using D(3) by (metis append_assoc)
    moreover have "ff_sent st @ bs = written pc" using D(4) that(2,4) by simp
    ultimately show ?thesis
      using True D(1,2,6,8) that(3,5-7) by (simp add: fifo_write_def fifo_inv_def fifo_left_def)
  next
    case False
    then have "st' = st\<lparr>ff_writer := W_killed\<rparr>" using that(3) by (simp add: fifo_write_def)
    moreover have "ff_sent st = [] \<or> ff_sent st = str_part" using D(4) that(2,8) by simp
    moreover have "reader_ended st" "ff_pipe st = []" using D(5) False that(1) by simp_all
    ultimately show ?thesis
      using False D(1-3,6,8) that(7) by (auto simp: fifo_inv_def fifo_left_def reader_ended_def)
  qed
  show ?thesis
  proof (cases "ff_writer st")
    case W_unlink
    with step show ?thesis using quiet [of W_make None] by (simp add: writer_step_def opened_def)
  next
    case W_make
    with step show ?thesis
      using quiet [of W_open "Some 1"] quiet [of W_exit "ff_file st"] by (auto simp: writer_step_def opened_def split: if_splits)
  next
    case W_open
    with step show ?thesis
      using quiet [of W_key "ff_file st"] quiet [of W_wait "ff_file st"]
      by (auto simp: writer_step_def opened_def split: if_splits)
  next
    case W_key
    with step have "st' = st\<lparr>ff_writer := W_str, ff_file := ff_file st\<rparr>" by (cases st) (auto simp: writer_step_def)
    with W_key show ?thesis using quiet [of W_str "ff_file st"] by (simp add: opened_def)
  next
    case W_str
    with step show ?thesis using writes [of str_part W_hello] by (simp add: writer_step_def opened_def)
  next
    case W_hello
    with step show ?thesis using writes [of hello_part W_done] by (simp add: writer_step_def opened_def)
  qed (use step in \<open>simp_all add: writer_step_def\<close>)
qed

lemma reader_step_inv:
  assumes inv: "fifo_inv st" and step: "reader_step st = Some st'"
  shows "fifo_inv st' \<and> fifo_left st' < fifo_left st"
proof -
  note D = fifo_invD [OF inv]
  show ?thesis
  proof (cases "ff_reader st")
    case R_open
    show ?thesis
    proof (cases "ff_file st")
      case None
      with R_open step have "st' = st\<lparr>ff_reader := R_exit\<rparr>" by (simp add: reader_step_def)
      with R_open D show ?thesis by (simp add: fifo_inv_def fifo_left_def reader_ended_def)
    next
      case (Some f)
      with R_open step have st': "st' = st\<lparr>ff_reader := R_key, ff_fd := Some f, ff_writer := woken f (ff_writer st)\<rparr>"
        by (simp add: reader_step_def)
      have "\<not> opened (ff_writer st)" using R_open D(2,5) by (auto simp: reader_ended_def)
      then have "written (woken f (ff_writer st)) = written (ff_writer st)" "ff_writer st \<noteq> W_killed" "woken f (ff_writer st) \<noteq> W_killed"
        "f = 1 \<Longrightarrow> woken f (ff_writer st) \<noteq> W_wait" "f \<noteq> 1 \<Longrightarrow> \<not> opened (woken f (ff_writer st))"
        "writer_left (woken f (ff_writer st)) = writer_left (ff_writer st)"
        by (auto simp: woken_def opened_def)
      with R_open D show ?thesis by (cases "f = 1") (simp_all add: st' fifo_inv_def fifo_left_def reader_ended_def)
    qed
  next
    case R_key
    with step have "st' = st\<lparr>ff_reader := R_read\<rparr>" by (simp add: reader_step_def)
    with R_key D show ?thesis by (auto simp: fifo_inv_def fifo_left_def reader_ended_def)
  next
    case R_read
    define here where "here = (if ff_fd st = Some 1 then ff_pipe st else [])"
    have read: "reader_step st = Some (if here = [] then st\<lparr>ff_reader := R_end\<rparr>
        else st\<lparr>ff_out := ff_out st @ [take 1024 here], ff_pipe := drop 1024 here\<rparr>)"
      using R_read by (simp add: reader_step_def here_def Let_def)
    show ?thesis
    proof (cases "here = []")
      case True
      with read step have "st' = st\<lparr>ff_reader := R_end\<rparr>" by simp
      moreover have "length (ff_out st) < 3" using D(1) by (auto simp: possible_outputs_def)
      ultimately show ?thesis using R_read D by (simp add: fifo_inv_def fifo_left_def reader_ended_def)
    next
      case False
      then have here: "here = ff_pipe st" "ff_fd st = Some 1" by (auto simp: here_def split: if_splits)
      have sent: "ff_lost st = []" "ff_writer st \<noteq> W_killed" "ff_sent st = written (ff_writer st)"
        using D(4,6,7) R_read here(2) by auto
      with D(3) have "concat (ff_out st) @ ff_pipe st = written (ff_writer st)" by simp
      from next_output [OF D(1) this] False here have
        out: "ff_out st @ [here] \<in> set possible_outputs" "take 1024 here = here" "drop 1024 here = []" by auto
      with read step False have "st' = st\<lparr>ff_out := ff_out st @ [here], ff_pipe := []\<rparr>" by simp
      moreover have "length (ff_out st) < 2" using out(1) by (auto simp: possible_outputs_def)
      ultimately show ?thesis using R_read D out here sent by (simp add: fifo_inv_def fifo_left_def)
    qed
  next
    case R_end
    with step have "st' = st\<lparr>ff_reader := R_done, ff_fd := None, ff_lost := ff_lost st @ ff_pipe st, ff_pipe := []\<rparr>"
      by (simp add: reader_step_def)
    with R_end D show ?thesis by (simp add: fifo_inv_def fifo_left_def reader_ended_def)
  qed (use step in \<open>simp_all add: reader_step_def\<close>)
qed

lemma fifo_reach_inv: "fifo_reach left made k st \<Longrightarrow> fifo_inv st \<and> k + fifo_left st \<le> 12"
proof (induction rule: fifo_reach.induct)
  case start
  show ?case by (simp add: fifo_start_def fifo_inv_def fifo_left_def possible_outputs_def opened_def)
next
  case (writer k st st')
  with writer_step_inv [of st made st'] show ?case by auto
next
  case (reader k st st')
  with reader_step_inv [of st st'] show ?case by auto
qed


section \<open>Single programs\<close>

text \<open>
  \<open>Lstat/b.c\<close>: each round has what \<open>lstat\<close> answers and whether \<open>scanf\<close> finds a number. The number is stored
  where the result of \<open>lstat\<close>, 0 or -1, points to.
\<close>

fun lstat_loop :: "(bool \<times> bool) list \<Rightarrow> byte list \<Rightarrow> (unit, byte list) outcome" where
  "lstat_loop [] w = Blocks w"
| "lstat_loop ((found, number) # rounds) w =
     (let w = w @ (if found then cstr ''est'' else cstr ''nety'') @ [10] in
      if number then Faults w else lstat_loop rounds w)"

definition lstat_main :: "byte list list \<Rightarrow> (byte list \<Rightarrow> (bool \<times> bool) list) \<Rightarrow> (unit, byte list) outcome" where
  "lstat_main argv rounds = bind_outcome (c_assert (1 < length argv) []) (\<lambda>_ w. lstat_loop (rounds (argv ! 1)) w)"

text \<open>
  \<open>RealPath/realpath.c\<close>: \<open>resolve\<close> is the path the kernel finds, \<open>junk\<close> what the buffer of 20 bytes held.
\<close>

definition realpath_main :: "(byte list \<Rightarrow> byte list option) \<Rightarrow> byte list \<Rightarrow> (byte list, unit) outcome" where
  "realpath_main resolve junk =
     (case resolve (cstr ''./backuper/../Seminars'') of
        None \<Rightarrow> Returns (cstr ''res: ('' @ c_str junk @ cstr '') ((null))'' @ [10]) ()
      | Some p \<Rightarrow>
          if 20 < length p + 1 then Faults ()
          else Returns (cstr ''res: ('' @ p @ cstr '') ('' @ p @ cstr '')'' @ [10]) ())"

text \<open>\<open>Output directory/dirout.c\<close>: \<open>readdir\<close> gives the names one after the other, then \<open>NULL\<close>.\<close>

definition dirout_main :: "byte list list \<Rightarrow> (byte list \<Rightarrow> byte list list option) \<Rightarrow> (unit, byte list) outcome" where
  "dirout_main argv opendir =
     bind_outcome (c_assert (1 < length argv) []) (\<lambda>_ w.
     bind_outcome (c_assert (opendir (argv ! 1) \<noteq> None) w) (\<lambda>_ w.
     Returns () (w @ concat (map (\<lambda>name. name @ [10]) (the (opendir (argv ! 1)))))))"

text \<open>\<open>Ls-la/lsla.c\<close>: what is executed in place of the program, or 0 if it cannot be.\<close>

definition lsla_main :: "bool \<Rightarrow> (byte list \<times> byte list list) + int" where
  "lsla_main found = (if found then Inl (cstr ''/bin/ls'', [cstr ''ls'', cstr ''-la'', cstr ''/'']) else Inr 0)"

text \<open>
  \<open>Poll/poll.c\<close>: each round has the result of \<open>poll\<close> and, for each fifo, whether \<open>POLLIN\<close> is set and what
  \<open>read\<close> gives. Behind the loop, which a wait without timeout does not leave, \<open>free\<close> is given an array.
\<close>

fun poll_loop ::
  "byte list list \<Rightarrow> (int \<times> (bool \<times> byte list option) list) list \<Rightarrow> byte list \<Rightarrow> (unit, byte list) outcome" where
  "poll_loop names [] w = Blocks w"
| "poll_loop names ((respoll, fds) # rounds) w =
     (if respoll = 0 then Faults w
      else
        (case poll_round (zip names fds) of
           None \<Rightarrow> Faults w
         | Some out \<Rightarrow> poll_loop names rounds (w @ out)))"

definition poll_main ::
  "byte list list \<Rightarrow> (byte list \<Rightarrow> int) \<Rightarrow> (int \<times> (bool \<times> byte list option) list) list \<Rightarrow> (unit, byte list) outcome" where
  "poll_main argv open_fifo rounds =
     bind_outcome (c_assert (0 < length argv - 1) []) (\<lambda>_ w.
     bind_outcome (c_assert (list_all (\<lambda>name. 0 < open_fifo name) (tl argv)) w) (\<lambda>_ w.
     poll_loop (tl argv) rounds w))"

text \<open>Once every writer has gone \<open>poll\<close> answers at once with \<open>POLLHUP\<close>, for ever: the loop turns and prints nothing.\<close>

lemma poll_spins:
  assumes "\<forall>r \<in> set rounds. r = (1, map (\<lambda>_. (False, None)) names)"
  shows "poll_loop names rounds w = Blocks w"
  using assms
proof (induction rounds)
  case (Cons r rounds)
  have "poll_round (zip ns (map (\<lambda>_. (False, None)) ns)) = Some []" for ns by (induction ns) auto
  with Cons show ?case by simp
qed simp

lemma lstat_first_number:
  "lstat_loop (map (\<lambda>found. (found, False)) fs @ (g, True) # rounds) w =
    Faults (w @ concat (map (\<lambda>found. (if found then cstr ''est'' else cstr ''nety'') @ [10]) (fs @ [g])))"
  by (induction fs arbitrary: w) (simp_all add: Let_def)

lemma realpath_long:
  assumes "resolve (cstr ''./backuper/../Seminars'') = Some p" and "20 \<le> length p"
  shows "realpath_main resolve junk = Faults ()"
  using assms by (simp add: realpath_main_def)

lemma dirout_lines:
  assumes "opendir d = Some names"
  shows "dirout_main [a, d] opendir = Returns () (concat (map (\<lambda>name. name @ [10]) names))"
  using assms by (simp add: dirout_main_def)

section \<open>The property\<close>

text \<open>
  C38: \<open>a.c\<close> and \<open>b.c\<close> of \<open>Fifo\<close> in any order, with or without a fifo left from before. What the reader has printed, in
  at most two pieces, followed by what was lost with the fifo and by what is still in it, is what the writes that
  succeeded have written. Something is lost only when the reader ends: a write that comes between its last \<open>read\<close> and the
  end of the program succeeds and is never read. A write after that ends the writer with \<open>SIGPIPE\<close>, with less than the
  whole text written. After at most twelve steps nothing moves, and then the reader has ended, the fifo is empty,
  and the writer has ended too or waits for ever for a reader.
\<close>

theorem fifo_pair_text:
  assumes "fifo_reach left made k st"
  shows "ff_out st \<in> set possible_outputs \<and> k \<le> 12 \<and>
    concat (ff_out st) @ ff_lost st @ ff_pipe st = ff_sent st \<and>
    (ff_writer st \<noteq> W_killed \<longrightarrow> ff_sent st = written (ff_writer st)) \<and>
    (ff_writer st = W_killed \<longrightarrow> reader_ended st \<and> (ff_sent st = [] \<or> ff_sent st = str_part)) \<and>
    (ff_lost st \<noteq> [] \<longrightarrow> ff_reader st = R_done) \<and> (reader_ended st \<longrightarrow> ff_pipe st = []) \<and>
    (writer_step made st = None \<and> reader_step st = None \<longleftrightarrow> reader_ended st \<and>
      (ff_writer st = W_done \<or> ff_writer st = W_exit \<or> ff_writer st = W_killed \<or> ff_writer st = W_wait))"
proof -
  from fifo_reach_inv [OF assms] have inv: "fifo_inv st" and k: "k \<le> 12" by auto
  note D = fifo_invD [OF inv]
  have reader: "reader_step st = None \<longleftrightarrow> reader_ended st"
    by (cases "ff_reader st") (simp_all add: reader_step_def reader_ended_def Let_def)
  have writer: "writer_step made st = None \<longleftrightarrow>
      ff_writer st = W_done \<or> ff_writer st = W_exit \<or> ff_writer st = W_killed \<or> ff_writer st = W_wait"
    by (cases "ff_writer st") (simp_all add: writer_step_def)
  have "ff_fd st = None" if "reader_ended st" using D(2) that by (auto simp: reader_ended_def)
  then have "reader_ended st \<longrightarrow> ff_pipe st = []" using D(5) by simp
  moreover have "ff_writer st = W_killed \<longrightarrow> reader_ended st \<and> (ff_sent st = [] \<or> ff_sent st = str_part)"
    using D(4,5,7) by (auto simp: opened_def)
  moreover have "ff_writer st \<noteq> W_killed \<longrightarrow> ff_sent st = written (ff_writer st)" using D(4) by simp
  ultimately show ?thesis using D(1,3,6) k unfolding reader writer by blast
qed

text \<open>
  The reader gets the first piece alone; the second one comes too late, and ends the writer, or comes between the last
  \<open>read\<close> and the end of the reader, and is lost although both programs end as they should.
\<close>

theorem fifo_pair_text_witness:
  "(\<exists>st. fifo_reach False True 11 st \<and> ff_out st = [str_part] \<and> ff_writer st = W_killed \<and> ff_sent st = str_part \<and>
      reader_ended st) \<and>
   (\<exists>st. fifo_reach False True 11 st \<and> ff_out st = [str_part] \<and> ff_writer st = W_done \<and> ff_lost st = hello_part \<and>
      ff_sent st = str_part @ hello_part)"
proof
  let ?ws = "[True, True, False, True, True, True, False, False, False, False, True]"
  obtain st where st: "fifo_steps True ?ws (fifo_start False) = Some st" "ff_out st = [str_part]" "ff_writer st = W_killed"
      "ff_sent st = str_part"
    by (simp add: writer_step_def reader_step_def fifo_write_def fifo_start_def woken_def parts Let_def)
  from fifo_steps_reach [OF fifo_reach.start st(1)] have "fifo_reach False True 11 st" by (simp add: eval_nat_numeral)
  with st fifo_pair_text [OF this]
  show "\<exists>st. fifo_reach False True 11 st \<and> ff_out st = [str_part] \<and> ff_writer st = W_killed \<and> ff_sent st = str_part \<and>
      reader_ended st" by blast
next
  let ?ws = "[True, True, False, True, True, True, False, False, False, True, False]"
  obtain st where st: "fifo_steps True ?ws (fifo_start False) = Some st" "ff_out st = [str_part]" "ff_writer st = W_done"
      "ff_lost st = hello_part"
    by (simp add: writer_step_def reader_step_def fifo_write_def fifo_start_def woken_def parts Let_def)
  from fifo_steps_reach [OF fifo_reach.start st(1)] have reach: "fifo_reach False True 11 st" by (simp add: eval_nat_numeral)
  have "ff_sent st = str_part @ hello_part" using fifo_pair_text [OF reach] st(3) by simp
  with st reach
  show "\<exists>st. fifo_reach False True 11 st \<and> ff_out st = [str_part] \<and> ff_writer st = W_done \<and> ff_lost st = hello_part \<and>
      ff_sent st = str_part @ hello_part" by blast
qed

end
