(* ===== verification/Inotify_Watch.thy ===== *)
theory Inotify_Watch
  imports Backuper
begin

text \<open>
  \<open>SimplePrograms/Inotify/inotify.c\<close>: a watch on one path that prints its events. Like the
  backuper it takes what \<open>read\<close> gives for an array of structs of 16 bytes; here the last of them
  is left out.
\<close>

definition IN_MOVE_SELF :: "32 word" where "IN_MOVE_SELF = 0x800"

definition arr_size :: nat where "arr_size = 100"

definition show_event :: "nat \<Rightarrow> inotify_event \<Rightarrow> byte list" where
  "show_event i ev =
     dec_of_int (int i) @ cstr ''   path: '' @ ev_name ev @ cstr ''  '' @
     (if ev_mask ev AND IN_CREATE \<noteq> 0 then cstr ''event: create'' @ [10]
      else if ev_mask ev AND IN_DELETE \<noteq> 0 then cstr ''event: delete'' @ [10]
      else if ev_mask ev AND IN_MOVE_SELF \<noteq> 0 then cstr ''event: move'' @ [10]
      else cstr ''UNKNOWN'' @ [10])"

text \<open>
  A round of the loop: \<open>res\<close> is what \<open>read\<close> returns, \<open>bs\<close> the buffer. \<open>count\<close> is a \<open>size_t\<close>, so
  \<open>count - 1\<close> wraps around at 0, and an error of \<open>read\<close> gives a large count; the accesses then
  leave the array.
\<close>

definition inotify_round :: "int \<Rightarrow> byte list \<Rightarrow> (byte list, unit) outcome" where
  "inotify_round res bs =
     (let count = (res mod 2 ^ 64) div 16; rounds = (count - 1) mod 2 ^ 64 in
      if int arr_size < rounds then Faults ()
      else Returns (concat (map (\<lambda>i. show_event i (event_at bs i)) [0..<nat rounds]) @ [10]) ())"

text \<open>The loop: a fault ends it, otherwise it waits for the next events.\<close>

fun inotify_loop :: "(int \<times> byte list) list \<Rightarrow> byte list \<Rightarrow> (unit, byte list) outcome" where
  "inotify_loop [] out = Blocks out"
| "inotify_loop ((res, bs) # reads) out =
     (case inotify_round res bs of
        Returns s _ \<Rightarrow> inotify_loop reads (out @ s)
      | _ \<Rightarrow> Faults out)"

definition inotify_main ::
  "nat \<Rightarrow> int \<Rightarrow> int \<Rightarrow> (int \<times> byte list) list \<Rightarrow> (unit, byte list) outcome" where
  "inotify_main argc inot watch reads =
     bind_outcome (c_assert (1 < argc) []) (\<lambda>_ w.
     bind_outcome (c_assert (0 \<le> inot) w) (\<lambda>_ w.
     bind_outcome (c_assert (0 \<le> watch) w) (\<lambda>_ w.
     inotify_loop reads w)))"

lemma inotify_round_count:
  assumes "0 < n" and "n \<le> 100"
  shows "inotify_round (int (16 * n)) bs =
    Returns (concat (map (\<lambda>i. show_event i (event_at bs i)) [0..<n - 1]) @ [10]) ()"
proof -
  have count: "(int (16 * n) mod 2 ^ 64) div 16 = int n"
    using assms by (simp add: mod_pos_pos_trivial)
  have rounds: "(int n - 1) mod 2 ^ 64 = int (n - 1)"
    using assms by (simp add: mod_pos_pos_trivial of_nat_diff)
  show ?thesis
    unfolding inotify_round_def Let_def count rounds using assms(2) by (simp add: arr_size_def)
qed

lemma inotify_round_error: "inotify_round (- 1) bs = Faults ()" "inotify_round 0 bs = Faults ()"
  by (simp_all add: inotify_round_def arr_size_def)

lemma length_packed: "\<forall>ev \<in> set evs. length (snd (snd (snd ev))) < 16 \<Longrightarrow>
    length (concat (map pack_event evs)) = 32 * length evs"
  by (induction evs) (auto simp: length_pack_event)

lemma event_at_even:
  assumes "\<forall>ev \<in> set evs. length (snd (snd (snd ev))) < 16 \<and> 0 \<notin> set (snd (snd (snd ev)))"
    and "k < length evs"
  shows "event_at (concat (map pack_event evs) @ rest) (2 * k) = event_of (evs ! k)"
proof -
  let ?p = "concat (map pack_event (take k evs))" and ?q = "concat (map pack_event (drop (Suc k) evs)) @ rest"
  have split: "evs = take k evs @ evs ! k # drop (Suc k) evs" by (rule id_take_nth_drop [OF assms(2)])
  have "concat (map pack_event evs) @ rest = ?p @ pack_event (evs ! k) @ ?q"
    by (subst split) simp
  moreover have "length ?p = 16 * (2 * k)"
    using length_packed [of "take k evs"] assms by (auto dest: in_set_takeD)
  moreover have "0 \<notin> set (snd (snd (snd (evs ! k))))" using assms nth_mem by blast
  ultimately show ?thesis
    using event_at_skip [of ?p "2 * k" "pack_event (evs ! k) @ ?q" 0] event_at_pack by simp
qed

section \<open>Properties\<close>

text \<open>
  For a read that brings events with short names, the program prints each of them, in order,
  and between two of them a line made of the name of the first taken as an event; a single
  event is printed alone. An event without a name, such as the move of the watched path, is not
  printed when it comes alone; an error of \<open>read\<close> makes the program run out of its array.
\<close>

theorem inotify_lines:
  assumes "\<forall>ev \<in> set evs. length (snd (snd (snd ev))) < 16 \<and> 0 \<notin> set (snd (snd (snd ev)))"
    and "evs \<noteq> []" and "length evs \<le> 50"
  shows "\<exists>shown. length shown = 2 * length evs - 1 \<and>
    inotify_round (int (32 * length evs)) (concat (map pack_event evs)) = Returns (concat shown @ [10]) () \<and>
    (\<forall>k < length evs. shown ! (2 * k) = show_event (2 * k) (event_of (evs ! k))) \<and>
    inotify_round 16 buf = Returns [10] () \<and> inotify_round (- 1) buf = Faults ()"
proof -
  let ?bs = "concat (map pack_event evs)" and ?n = "2 * length evs"
  define shown where "shown = map (\<lambda>i. show_event i (event_at ?bs i)) [0..<?n - 1]"
  have "inotify_round (int (16 * ?n)) ?bs = Returns (concat shown @ [10]) ()"
    unfolding shown_def by (rule inotify_round_count) (use assms in auto)
  moreover have "shown ! (2 * k) = show_event (2 * k) (event_of (evs ! k))" if k: "k < length evs" for k
  proof -
    have "2 * k < ?n - 1" using k by linarith
    then have "shown ! (2 * k) = show_event (2 * k) (event_at ?bs (2 * k))"
      unfolding shown_def by (subst nth_map) (simp, simp only: nth_upt add_0)
    then show ?thesis using event_at_even [OF assms(1) k, of "[]"] by simp
  qed
  moreover have "inotify_round 16 buf = Returns [10] ()"
    using inotify_round_count [of 1 buf] by simp
  ultimately show ?thesis
    using inotify_round_error by (intro exI [of _ shown]) (simp add: shown_def)
qed

theorem inotify_lines_witness:
  "inotify_round 32 (pack_event (1, IN_CREATE, 0, cstr ''a'')) =
    Returns (show_event 0 (event_of (1, IN_CREATE, 0, cstr ''a'')) @ [10]) ()"
proof -
  have "\<forall>ev \<in> set [(1, IN_CREATE, 0, cstr ''a'')]. length (snd (snd (snd ev))) < 16 \<and> 0 \<notin> set (snd (snd (snd ev)))"
    by simp
  from inotify_lines [OF this, of "[]"] obtain shown where
    "length shown = 1" "inotify_round 32 (pack_event (1, IN_CREATE, 0, cstr ''a'')) = Returns (concat shown @ [10]) ()"
    "shown ! 0 = show_event 0 (event_of (1, IN_CREATE, 0, cstr ''a''))" by auto
  then show ?thesis by (cases shown) auto
qed

end
