(* ===== verification/Pi_Threads.thy ===== *)
theory Pi_Threads
  imports C_Prelude Complex_Main "HOL-Library.Signed_Division"
begin

text \<open>
  \<open>SimplePrograms/Threads/integrate_Pi.c\<close>: threads that each add up rectangles below
  \<open>2 sqrt(1 - x^2)\<close> over a part of the interval from -1 to 1. What the processor does with
  \<open>double\<close> is a parameter, the record \<open>arith\<close>; \<open>exact\<close> is its instance without rounding.
\<close>

record 'd arith =
  f_int :: "int \<Rightarrow> 'd"
  f_add :: "'d \<Rightarrow> 'd \<Rightarrow> 'd"
  f_sub :: "'d \<Rightarrow> 'd \<Rightarrow> 'd"
  f_mul :: "'d \<Rightarrow> 'd \<Rightarrow> 'd"
  f_div :: "'d \<Rightarrow> 'd \<Rightarrow> 'd"
  f_sqrt :: "'d \<Rightarrow> 'd"

definition exact :: "real arith" where
  "exact = \<lparr>f_int = of_int, f_add = (+), f_sub = (-), f_mul = (*), f_div = (/), f_sqrt = sqrt\<rparr>"

record 'd zone =
  z_left :: 'd
  z_right :: 'd
  z_count :: int

text \<open>A thread in \<open>integrate\<close>: its argument, the counter of its loop and the place it has allocated.\<close>

record 'd thread =
  th_zone :: "'d zone"
  th_i :: int
  th_res :: 'd

definition zone_width :: "'d arith \<Rightarrow> 'd zone \<Rightarrow> 'd" where
  "zone_width ar z = f_div ar (f_sub ar (z_right z) (z_left z)) (f_int ar (z_count z))"

definition midpoint :: "'d arith \<Rightarrow> 'd zone \<Rightarrow> int \<Rightarrow> 'd" where
  "midpoint ar z i =
     (let width = zone_width ar z in
      f_add ar (f_add ar (z_left z) (f_mul ar (f_int ar i) width)) (f_div ar width (f_int ar 2)))"

definition rectangle :: "'d arith \<Rightarrow> 'd zone \<Rightarrow> int \<Rightarrow> 'd" where
  "rectangle ar z i =
     (let width = zone_width ar z; x = midpoint ar z i in
      f_mul ar (f_mul ar (f_int ar 2) (f_sqrt ar (f_sub ar (f_int ar 1) (f_mul ar x x)))) width)"

definition integrate_start :: "'d arith \<Rightarrow> 'd zone \<Rightarrow> 'd thread" where
  "integrate_start ar z = \<lparr>th_zone = z, th_i = 0, th_res = f_int ar 0\<rparr>"

definition thread_done :: "'d thread \<Rightarrow> bool" where
  "thread_done th \<longleftrightarrow> z_count (th_zone th) \<le> th_i th"

text \<open>One round of the loop of \<open>integrate\<close>; a thread that has ended makes no more.\<close>

definition integrate_step :: "'d arith \<Rightarrow> 'd thread \<Rightarrow> 'd thread" where
  "integrate_step ar th =
     (if thread_done th then th
      else th\<lparr>th_res := f_add ar (th_res th) (rectangle ar (th_zone th) (th_i th)), th_i := th_i th + 1\<rparr>)"

text \<open>The threads side by side: the schedule names the thread that makes the next round.\<close>

definition run_threads :: "'d arith \<Rightarrow> nat list \<Rightarrow> 'd thread list \<Rightarrow> 'd thread list" where
  "run_threads ar sched ths = foldl (\<lambda>ths t. ths[t := integrate_step ar (ths ! t)]) ths sched"

definition make_zone :: "'d arith \<Rightarrow> int \<Rightarrow> int \<Rightarrow> int \<Rightarrow> 'd zone" where
  "make_zone ar n m i =
     \<lparr>z_left = f_add ar (f_int ar (- 1)) (f_div ar (f_mul ar (f_int ar 2) (f_int ar i)) (f_int ar n)),
      z_right = f_add ar (f_int ar (- 1)) (f_div ar (f_mul ar (f_int ar 2) (f_int ar (i + 1))) (f_int ar n)),
      z_count = m sdiv n\<rparr>"

text \<open>
  \<open>create\<close> gives the result of \<open>pthread_create\<close> for each thread. \<open>pthread_join\<close> waits for a thread
  that the schedule leaves unfinished. The value is the first number printed.
\<close>

definition pi_main :: "'d arith \<Rightarrow> (nat \<Rightarrow> int) \<Rightarrow> nat list \<Rightarrow> byte list list \<Rightarrow> ('d, unit) outcome" where
  "pi_main ar create sched argv =
     (if length argv < 3 then Faults ()
      else
        (let n = atoi (argv ! 1); m = atoi (argv ! 2) in
         if \<exists>i \<in> set [0..<nat n]. create i \<noteq> 0 then Exits 1 ()
         else
           (let ths = run_threads ar sched (map (\<lambda>i. integrate_start ar (make_zone ar n m (int i))) [0..<nat n]) in
            if list_all thread_done ths then Returns (foldl (f_add ar) (f_int ar 0) (map th_res ths)) ()
            else Blocks ())))"

section \<open>Threads do not disturb one another\<close>

lemma length_run_threads: "length (run_threads ar sched ths) = length ths"
  by (induction sched arbitrary: ths) (simp_all add: run_threads_def)

lemma run_threads_nth:
  "t < length ths \<Longrightarrow> run_threads ar sched ths ! t = (integrate_step ar ^^ count_list sched t) (ths ! t)"
proof (induction sched arbitrary: ths)
  case (Cons u sched)
  then have "run_threads ar (u # sched) ths ! t =
        (integrate_step ar ^^ count_list sched t) (ths[u := integrate_step ar (ths ! u)] ! t)"
    by (simp add: run_threads_def)
  then show ?case by (auto simp: nth_list_update funpow_swap1 Cons.prems)
qed (simp add: run_threads_def)

text \<open>What \<open>integrate\<close> gives back when it is left alone.\<close>

definition integral :: "'d arith \<Rightarrow> 'd zone \<Rightarrow> 'd" where
  "integral ar z = foldl (\<lambda>res i. f_add ar res (rectangle ar z (int i))) (f_int ar 0) [0..<nat (z_count z)]"

lemma integrate_rounds:
  assumes "int k \<le> z_count z"
  shows "(integrate_step ar ^^ k) (integrate_start ar z) =
    \<lparr>th_zone = z, th_i = int k,
     th_res = foldl (\<lambda>res i. f_add ar res (rectangle ar z (int i))) (f_int ar 0) [0..<k]\<rparr>"
  using assms
proof (induction k)
  case (Suc k)
  then show ?case by (simp add: integrate_step_def thread_done_def)
qed (simp add: integrate_start_def)

lemma integrate_all_rounds:
  assumes "nat (z_count z) \<le> k" and "0 \<le> z_count z"
  shows "th_res ((integrate_step ar ^^ k) (integrate_start ar z)) = integral ar z"
    and "thread_done ((integrate_step ar ^^ k) (integrate_start ar z))"
proof -
  let ?c = "nat (z_count z)"
  define th where "th = (integrate_step ar ^^ ?c) (integrate_start ar z)"
  have th: "thread_done th" "th_res th = integral ar z"
    using integrate_rounds [of ?c z ar] assms(2) by (simp_all add: th_def thread_done_def integral_def)
  have stay: "(integrate_step ar ^^ j) th = th" for j
    by (induction j) (simp_all add: integrate_step_def th(1))
  have "(integrate_step ar ^^ k) (integrate_start ar z) = (integrate_step ar ^^ (k - ?c)) th"
    using assms(1) by (simp add: th_def flip: funpow_add comp_apply [of "integrate_step ar ^^ (k - ?c)"])
  with stay th show "th_res ((integrate_step ar ^^ k) (integrate_start ar z)) = integral ar z"
    and "thread_done ((integrate_step ar ^^ k) (integrate_start ar z))" by simp_all
qed

lemma make_zone_count: "z_count (make_zone ar (int n) (int m) i) = int (m div n)"
  by (cases "n = 0"; cases "m = 0") (simp_all add: make_zone_def signed_divide_int_def zdiv_int)

text \<open>
  Whatever the arithmetic and the schedule, the program adds the integrals in the order of the
  threads as soon as each thread has had its rounds.
\<close>

lemma pi_main_sum:
  assumes "3 \<le> length argv" and n: "atoi (argv ! 1) = int n" and m: "atoi (argv ! 2) = int m"
    and "\<forall>i<n. create i = 0" and "\<forall>t<n. m div n \<le> count_list sched t"
  shows "pi_main ar create sched argv =
    Returns (foldl (f_add ar) (f_int ar 0)
      (map (\<lambda>i. integral ar (make_zone ar (int n) (int m) (int i))) [0..<n])) ()"
proof -
  let ?z = "\<lambda>i. make_zone ar (int n) (int m) (int i)"
  define ths where "ths = map (\<lambda>i. integrate_start ar (?z i)) [0..<n]"
  note count = make_zone_count [of ar n m]
  have run: "run_threads ar sched ths ! t = (integrate_step ar ^^ count_list sched t) (integrate_start ar (?z t))"
    if "t < n" for t
    using run_threads_nth [of t ths] that by (simp add: ths_def)
  have len: "length (run_threads ar sched ths) = n"
    by (simp add: length_run_threads ths_def)
  have "thread_done (run_threads ar sched ths ! t)" "th_res (run_threads ar sched ths ! t) = integral ar (?z t)"
    if "t < n" for t
    using integrate_all_rounds [of "?z t" "count_list sched t" ar] assms(5) that run [OF that] count by auto
  then have "list_all thread_done (run_threads ar sched ths)"
    and "map th_res (run_threads ar sched ths) = map (\<lambda>i. integral ar (?z i)) [0..<n]"
    using len by (auto simp: list_all_length intro: nth_equalityI)
  then show ?thesis
    using assms(1,4) unfolding pi_main_def n m Let_def nat_int by (simp flip: ths_def)
qed

section \<open>Without rounding the sum is close to pi\<close>

definition half_circle :: "real \<Rightarrow> real" where
  "half_circle x = 2 * sqrt (1 - x\<^sup>2)"

text \<open>How far the function has moved up and down between -1 and \<open>x\<close>.\<close>

definition variation :: "real \<Rightarrow> real" where
  "variation x = (if x \<le> 0 then half_circle x else 4 - half_circle x)"

lemma half_circle_le: "\<bar>x\<bar> \<le> \<bar>y\<bar> \<Longrightarrow> half_circle y \<le> half_circle x"
  by (simp add: half_circle_def abs_le_square_iff)

lemma half_circle_le_2: "half_circle x \<le> 2"
  using half_circle_le [of 0 x] by (simp add: half_circle_def)

lemma variation_bound: "x \<le> y \<Longrightarrow> \<bar>half_circle x - half_circle y\<bar> \<le> variation y - variation x"
  using half_circle_le [of x y] half_circle_le [of y x] half_circle_le_2 [of x] half_circle_le_2 [of y]
  by (auto simp: variation_def)

lemma variation_within:
  assumes "a \<le> x" "x \<le> b" "a \<le> y" "y \<le> b"
  shows "\<bar>half_circle x - half_circle y\<bar> \<le> variation b - variation a"
proof (cases "x \<le> y")
  case True
  with variation_bound [of x y] variation_bound [of a x] variation_bound [of y b] assms show ?thesis by linarith
next
  case False
  with variation_bound [of y x] variation_bound [of a y] variation_bound [of x b] assms show ?thesis by linarith
qed

text \<open>An antiderivative on the open interval, continuous on the closed one.\<close>

definition area :: "real \<Rightarrow> real" where
  "area x = x * sqrt (1 - x\<^sup>2) + arcsin x"

lemma area_derivative:
  assumes "- 1 < x" "x < 1"
  shows "DERIV area x :> half_circle x"
proof -
  have pos: "0 < 1 - x\<^sup>2" using assms by (simp add: abs_square_less_1 abs_less_iff)
  then have sq: "sqrt (1 - x\<^sup>2) * sqrt (1 - x\<^sup>2) = 1 - x\<^sup>2" by simp
  have "DERIV area x :> 1 * sqrt (1 - x\<^sup>2) + (- (2 * x)) * (inverse (sqrt (1 - x\<^sup>2)) / 2) * x + inverse (sqrt (1 - x\<^sup>2))"
    unfolding area_def [abs_def] using assms pos
    by (auto intro!: derivative_eq_intros simp: field_simps)
  also have "1 * sqrt (1 - x\<^sup>2) + (- (2 * x)) * (inverse (sqrt (1 - x\<^sup>2)) / 2) * x + inverse (sqrt (1 - x\<^sup>2)) =
      half_circle x"
    using pos sq by (simp add: half_circle_def field_simps power2_eq_square)
  finally show ?thesis .
qed

lemma area_mean:
  assumes "a < b" "- 1 \<le> a" "b \<le> 1"
  shows "\<exists>z. a < z \<and> z < b \<and> area b - area a = (b - a) * half_circle z"
proof -
  have "continuous_on {a..b} area"
    unfolding area_def [abs_def] using assms
    by (intro continuous_intros continuous_on_arcsin) auto
  moreover have "area differentiable (at x)" if "a < x" "x < b" for x
    using area_derivative [of x] that assms by (auto simp: real_differentiable_def)
  ultimately obtain l z where z: "a < z" "z < b" "DERIV area z :> l" "area b - area a = (b - a) * l"
    using MVT [OF assms(1), of area] by auto
  then have "l = half_circle z" using area_derivative [of z] assms DERIV_unique by fastforce
  with z show ?thesis by blast
qed

definition grid :: "nat \<Rightarrow> nat \<Rightarrow> real" where
  "grid N j = - 1 + 2 * real j / real N"

lemma midpoint_sum_near_pi:
  assumes "0 < N"
  shows "\<bar>(\<Sum>j<N. half_circle (grid N j + 1 / real N) * (2 / real N)) - pi\<bar> \<le> 8 / real N"
proof -
  let ?g = "grid N" and ?w = "2 / real N"
  have step: "?g (Suc j) - ?g j = ?w" "?g j < ?g j + 1 / real N" "?g j + 1 / real N < ?g (Suc j)" for j
    using assms by (simp_all add: grid_def field_simps)
  have ends: "?g 0 = - 1" "?g N = 1" using assms by (simp_all add: grid_def)
  have range: "- 1 \<le> ?g j" "?g (Suc j) \<le> 1" if "j < N" for j
    using assms that by (simp_all add: grid_def field_simps)
  have "\<bar>half_circle (?g j + 1 / real N) * ?w - (area (?g (Suc j)) - area (?g j))\<bar> \<le>
      (variation (?g (Suc j)) - variation (?g j)) * ?w" if j: "j < N" for j
  proof -
    obtain z where z: "?g j < z" "z < ?g (Suc j)"
        "area (?g (Suc j)) - area (?g j) = (?g (Suc j) - ?g j) * half_circle z"
      using area_mean [of "?g j" "?g (Suc j)"] step [of j] range [OF j] by auto
    have eq: "half_circle (?g j + 1 / real N) * ?w - (area (?g (Suc j)) - area (?g j)) =
        (half_circle (?g j + 1 / real N) - half_circle z) * ?w"
      unfolding z(3) step(1) by (simp add: algebra_simps)
    have "\<bar>half_circle (?g j + 1 / real N) - half_circle z\<bar> \<le> variation (?g (Suc j)) - variation (?g j)"
      by (rule variation_within) (use step [of j] z in auto)
    then show ?thesis
      unfolding eq abs_mult by (intro mult_mono) simp_all
  qed
  then have "\<bar>\<Sum>j<N. half_circle (?g j + 1 / real N) * ?w - (area (?g (Suc j)) - area (?g j))\<bar> \<le>
      (\<Sum>j<N. (variation (?g (Suc j)) - variation (?g j)) * ?w)"
    by (intro order.trans [OF sum_abs] sum_mono) auto
  moreover have "(\<Sum>j<N. area (?g (Suc j)) - area (?g j)) = pi"
    using sum_lessThan_telescope [of "\<lambda>j. area (?g j)" N] ends by (simp add: area_def)
  moreover have "(\<Sum>j<N. (variation (?g (Suc j)) - variation (?g j)) * ?w) = 8 / real N"
    using ends unfolding sum_distrib_right [symmetric] sum_lessThan_telescope [of "\<lambda>j. variation (?g j)"]
    by (simp add: variation_def half_circle_def)
  ultimately show ?thesis by (simp add: sum_subtractf)
qed

lemma foldl_add_sum: "foldl (\<lambda>res i. res + f i) (0 :: real) [0..<k] = (\<Sum>i<k. f i)"
  by (induction k) simp_all

lemma make_zone_width:
  assumes "0 < n" and "0 < m div n"
  shows "zone_width exact (make_zone exact (int n) (int m) (int i)) = 2 / real (n * (m div n))"
proof -
  let ?z = "make_zone exact (int n) (int m) (int i)" and ?c = "m div n"
  show ?thesis
    using assms unfolding zone_width_def make_zone_count by (simp add: exact_def make_zone_def field_simps)
qed

lemma midpoint_exact:
  assumes "0 < n" and "0 < m div n"
  shows "midpoint exact (make_zone exact (int n) (int m) (int i)) (int k) =
    grid (n * (m div n)) (i * (m div n) + k) + 1 / real (n * (m div n))"
  using assms unfolding midpoint_def make_zone_width [OF assms] Let_def
  by (simp add: make_zone_def exact_def grid_def field_simps)

lemma midpoint_inside:
  assumes "0 < n" and "0 < m div n" and "i < n" and "k < m div n"
  shows "\<bar>midpoint exact (make_zone exact (int n) (int m) (int i)) (int k)\<bar> < 1"
proof -
  let ?c = "m div n"
  have "i * ?c + k < Suc i * ?c" using assms(4) by simp
  also have "\<dots> \<le> n * ?c" using assms(3) by (intro mult_right_mono) simp_all
  finally have "i * ?c + k < n * ?c" .
  then have j: "real (i * ?c + k) + 1 \<le> real (n * ?c)" "0 < real (n * ?c)" by linarith+
  then have "grid (n * ?c) (i * ?c + k) + 1 / real (n * ?c) = (2 * real (i * ?c + k) + 1) / real (n * ?c) - 1"
    unfolding grid_def by (simp add: field_simps del: of_nat_mult of_nat_add)
  moreover have "0 < (2 * real (i * ?c + k) + 1) / real (n * ?c)"
    using j by (intro divide_pos_pos) (simp_all del: of_nat_mult of_nat_add)
  moreover have "(2 * real (i * ?c + k) + 1) / real (n * ?c) < 2"
  proof -
    have "2 * a + 1 < 2 * b" if "a + 1 \<le> b" for a b :: real using that by linarith
    from this [OF j(1)] show ?thesis using j(2) by (simp add: divide_less_eq del: of_nat_mult of_nat_add)
  qed
  ultimately show ?thesis unfolding midpoint_exact [OF assms(1,2)] by linarith
qed

lemma rectangle_exact:
  assumes "0 < n" and "0 < m div n"
  shows "rectangle exact (make_zone exact (int n) (int m) (int i)) (int k) =
    half_circle (grid (n * (m div n)) (i * (m div n) + k) + 1 / real (n * (m div n))) * (2 / real (n * (m div n)))"
  unfolding rectangle_def make_zone_width [OF assms] midpoint_exact [OF assms] Let_def
  by (simp add: exact_def half_circle_def power2_eq_square)

lemma integrals_exact:
  assumes "0 < n" and "0 < m div n"
  shows "foldl (f_add exact) (f_int exact 0)
      (map (\<lambda>i. integral exact (make_zone exact (int n) (int m) (int i))) [0..<n]) =
    (\<Sum>j<n * (m div n). half_circle (grid (n * (m div n)) j + 1 / real (n * (m div n))) * (2 / real (n * (m div n))))"
proof -
  let ?c = "m div n"
  let ?f = "\<lambda>j. half_circle (grid (n * ?c) j + 1 / real (n * ?c)) * (2 / real (n * ?c))"
  have "integral exact (make_zone exact (int n) (int m) (int i)) = (\<Sum>k<?c. ?f (i * ?c + k))" for i
    unfolding integral_def make_zone_count nat_int
    unfolding rectangle_exact [OF assms] using foldl_add_sum [of "\<lambda>k. ?f (i * ?c + k)" ?c]
    by (simp add: exact_def)
  moreover have "(\<Sum>k<?c. ?f (i * ?c + k)) = sum ?f {i * ?c..<i * ?c + ?c}" for i
    using sum.shift_bounds_nat_ivl [of ?f 0 "i * ?c" ?c] by (simp add: add.commute lessThan_atLeast0)
  ultimately show ?thesis
    using foldl_add_sum [of "\<lambda>i. sum ?f {i * ?c..<i * ?c + ?c}" n] sum.nat_group [of ?f ?c n]
    by (simp add: exact_def foldl_map)
qed

section \<open>Properties\<close>

text \<open>
  C31: \<open>integrate_Pi\<close> with \<open>n\<close> threads and \<open>m \<ge> n\<close> rectangles adds the same numbers in the same order
  however its threads are scheduled, whatever the arithmetic; without rounding, the number
  it prints differs from pi by at most 8 divided by the rectangles it uses, which are \<open>m\<close> less the
  remainder that the division by \<open>n\<close> loses; and no square root of a negative number is taken.
\<close>

theorem my_pi_near:
  assumes "3 \<le> length argv" and "atoi (argv ! 1) = int n" and "atoi (argv ! 2) = int m"
    and "0 < n" and "n \<le> m"
    and "\<forall>i<n. create i = 0" and "\<forall>t<n. m div n \<le> count_list sched t" and "\<forall>t<n. m div n \<le> count_list sched' t"
  shows "pi_main ar create sched argv = pi_main ar create sched' argv \<and>
    (\<exists>r. pi_main exact create sched argv = Returns r () \<and> \<bar>r - pi\<bar> \<le> 8 / real (m - m mod n)) \<and>
    (\<forall>i<n. \<forall>k<m div n. \<bar>midpoint exact (make_zone exact (int n) (int m) (int i)) (int k)\<bar> < 1)"
proof -
  have c: "0 < m div n" using assms(4,5) by (simp add: div_greater_zero_iff)
  have N: "n * (m div n) = m - m mod n" by (simp add: minus_mod_eq_mult_div)
  let ?r = "\<Sum>j<n * (m div n). half_circle (grid (n * (m div n)) j + 1 / real (n * (m div n))) * (2 / real (n * (m div n)))"
  have "pi_main exact create sched argv = Returns ?r ()"
    using pi_main_sum [OF assms(1,2,3,6,7), of exact] unfolding integrals_exact [OF assms(4) c] .
  moreover have "\<bar>?r - pi\<bar> \<le> 8 / real (n * (m div n))"
    by (rule midpoint_sum_near_pi) (use assms(4) c in simp)
  moreover have "pi_main ar create sched argv = pi_main ar create sched' argv"
    using pi_main_sum [OF assms(1,2,3,6,7)] pi_main_sum [OF assms(1,2,3,6,8)] by metis
  ultimately show ?thesis using midpoint_inside [OF assms(4) c] unfolding N by metis
qed

theorem my_pi_near_witness:
  "\<exists>r. pi_main exact (\<lambda>_. 0) [0, 0, 1, 0, 1, 1, 1, 1, 0] [cstr ''pi'', cstr ''2'', cstr ''9''] = Returns r () \<and>
    \<bar>r - pi\<bar> \<le> 1"
proof -
  have args: "atoi (cstr ''2'') = 2" "atoi (cstr ''9'') = 9"
    using atoi_digits [of "[50]" "[]"] atoi_digits [of "[57]" "[]"]
    by (simp_all add: is_digit_def dec_value_def digit_val_def)
  have rounds: "\<forall>t<2. 9 div 2 \<le> count_list [0, 0, 1, 0, 1, 1, 1, 1, 0] (t :: nat)"
    by (simp add: less_2_cases_iff)
  show ?thesis
    using my_pi_near [of "[cstr ''pi'', cstr ''2'', cstr ''9'']" 2 9 "\<lambda>_. 0", OF _ _ _ _ _ _ rounds rounds] args
    by simp
qed

end
