(* ===== verification/Spec2Isabelle.thy ===== *)
theory Spec2Isabelle
  imports BizzBuzz Signal_Stop Attach_Conc Destroy_Conc Stack_Waits Stack_Life Stack_Kill Posix_Stack Sock_Session Sock_Start Sock_Setup Log_Lib
    Daemon Stick_Dirty Small_Programs List_Ring File_Locks File_Examples Inotify_Watch Pi_Threads
begin

text \<open>
  A model of the C programs of this repository, each a component with theories of its own. The
  programs do not call one another, except that the server of \<open>Socket\<close> logs with \<open>log.c\<close>, its
  client and server share \<open>lib.c\<close>, \<open>UDP.c\<close> and \<open>TCP.c\<close>, and \<open>daemon.c\<close> starts \<open>backuper.c\<close>. Names of
  definitions are those of the source; \<open>old_\<close> marks the older of two versions.

  \<^bold>\<open>Shared by all.\<close> \<open>C_Prelude\<close> has bytes (\<open>8 word\<close>), NUL-terminated strings in buffers, \<open>strncmp\<close>,
  \<open>snprintf\<close>, \<open>atoi\<close>, decimal numbers and \<open>outcome\<close>: a call returns, exits, fails an \<open>assert\<close>, faults or
  blocks for ever. \<open>Posix_Files\<close> has the files that \<open>open\<close>, \<open>read\<close> and \<open>write\<close> see.

  \<^bold>\<open>BizzBuzz\<close> (\<open>bzbz_file.c\<close>). \<open>bz_body\<close> is a round of the byte loop with the local variables as the record
  \<open>bz_state\<close>, \<open>bz_filter\<close> the loop, \<open>bz_main\<close> the program. The loop is refined to a function on words: what the
  filter writes for each word, what the last byte of the file does to it, which errors lose the
  destination.

  \<^bold>\<open>Signal copy\<close> (\<open>sender.c\<close>, \<open>receiver.c\<close>). \<open>Signal_Bits\<close> has the bits of a byte on both sides, tied by the
  locale \<open>bit_codec\<close>. \<open>Signal_Copy\<close> has both programs as state machines with a place for each \<open>kill\<close> and
  \<open>sigwaitinfo\<close>, and the pending sets that merge equal signals: the schedule of a copy, its length, the
  race of its beginning, the bounds of the receiver's array. \<open>Signal_Stop\<close> adds the stops of the user, which leave
  a prefix of the file and no program waiting, and a second sender, which breaks a copy.

  \<^bold>\<open>Stack\<close> (\<open>stack.c\<close>, \<open>stack_old.c\<close>). \<open>Stack_Spec\<close> states the contract of a bounded stack as the locale
  \<open>bounded_stack\<close>. \<open>SysV_Ipc\<close> models shared memory and semaphore sets, \<open>Shm_Stack\<close> every function of
  \<open>stack.c\<close> for one process (interpretation \<open>shm\<close>), \<open>Posix_Stack\<close> those of the older version (interpretation
  \<open>posix\<close>). \<open>Shm_Stack_Conc\<close> takes \<open>push\<close> and \<open>pop\<close> apart into their system calls for any number of
  processes that may give up or die between any two: mutual exclusion, linearization, progress,
  and that an undisturbed process computes what the function of \<open>Shm_Stack\<close> does. \<open>Shm_World\<close> shows what
  every operation leaves of the tables of the kernel. \<open>Stack_Tests\<close> has the programs of \<open>tests\<close>: scripts of
  calls run by 2, 32 and 2048 processes over the concurrent stack, and two that run call by call; \<open>Stack_Waits\<close> the three
  whose calls can fail, where a process may give up its wait for the flag.
  \<open>Attach_Conc\<close> has \<open>attach_stack\<close> call by call for processes that share a key: what they end with, and the
  race that makes one of them fail, \<open>Stack_Life\<close> joins it to \<open>push\<close> and \<open>pop\<close>, so that \<open>fork1.c\<close> and \<open>fork2.c\<close> run from their
  first call on, \<open>Stack_Kill\<close> has the \<open>killpg\<close> at the end of \<open>fork2.c\<close>, and \<open>Destroy_Conc\<close> \<open>push\<close> and \<open>pop\<close> after \<open>mark_destruct\<close> has taken the semaphores
  away from under them.

  \<^bold>\<open>Socket\<close>. \<open>Sock_Lib\<close> has \<open>lib.c\<close> (commands, ids, the exclusive-or cipher with the locale \<open>cipher\<close>),
  \<open>Sock_Net\<close> the frames of \<open>UDP.c\<close> and \<open>TCP.c\<close> over queues of datagrams and streams of bytes, \<open>Sock_Udp\<close> the
  table of clients and the loop of the UDP master, a refinement of a finite map (locale
  \<open>client_table\<close>), \<open>Sock_Server\<close> the handlers and slaves of \<open>server.c\<close>, \<open>Sock_Client\<close> the client and what
  goes from its terminal to the server. \<open>Sock_System\<close> puts the UDP master, its pipes and the slaves it
  forks together as one step relation, with the invariant that keeps the clients apart and the
  schedule in which a quit is lost. \<open>Sock_Session\<close> follows a request from the terminal of the client
  through both processes of the server and back, \<open>Sock_Start\<close> has how servers, clients and
  slaves come by their sockets and pipes over the sockets of a host. \<open>Sock_Drafts\<close> and \<open>Sock_Setup\<close> have the older programs of
  \<open>trash\<close>: their loops and messages, and how they come by their sockets over a table of names, ports and
  listening sockets. \<open>Log_Lib\<close> has both
  versions of \<open>log.c\<close>.

  \<^bold>\<open>Backup\<close> (\<open>backuper.c\<close>, \<open>daemon.c\<close>). In \<open>Backuper\<close> a process is a list of effects and a fork holds those of
  the child. \<open>copy_directory\<close> is the first copy of a tree of entries; \<open>event_at\<close> reads events from the
  bytes of \<open>read\<close>, \<open>check_event\<close> handles one, \<open>watch_loop\<close> all. \<open>Daemon\<close> has the commands, read from the bytes of
  the standard input, and the programs they start. The lemmas show that the copy mirrors the tree,
  when events are handled once, when they are not, and that the daemon's call fits no backuper.

  \<^bold>\<open>Pipelines and lists\<close>. \<open>Operator_Stick\<close> (\<open>main_stick.c\<close>) has the splitting of a command file, the pipes and
  the descriptor table of each child; \<open>Stick_Dirty\<close> its first version, equal to it where its array is
  long enough. \<open>List_Ring\<close> (\<open>list.c\<close>) has linked rings in a store of structs.
  \<open>Small_Programs\<close> has the table of sums of \<open>SharedLibrary\<close>, the copy of \<open>Shared memory\<close> and \<open>env.c\<close>.

  \<^bold>\<open>Examples\<close> (\<open>SimplePrograms\<close>). \<open>File_Locks\<close> has record locks as a table of ranges and the programs of
  \<open>Lock\<close>; \<open>Ipc_Examples\<close> the message queue of \<open>Messages\<close> with both programs as steps, the process tree of
  \<open>Pid_Num\<close>, readers of fifos, \<open>Enum\<close> and \<open>Envp\<close>; \<open>File_Examples\<close> the writer and the reader of \<open>Fifo\<close> as steps over one fifo, \<open>Poll\<close>,
  \<open>Lstat\<close>, \<open>RealPath\<close>, \<open>Output directory\<close> and \<open>Ls-la\<close>; \<open>Inotify_Watch\<close> the watcher of \<open>Inotify\<close>, which reads events as
  the backuper does; \<open>Pi_Threads\<close> the threads of \<open>integrate_Pi.c\<close>, under any schedule and with the
  arithmetic of \<open>double\<close> as a parameter, and how close the sum is to pi when nothing is rounded.

  \<^bold>\<open>Bounds.\<close> Loops are structural or have a measure (bytes left, characters left). Where a loop has
  no end of its own (\<open>client_run\<close>, \<open>daemon_run\<close>, the steps of processes) the number of rounds or steps is a
  parameter and the theorems hold for every number. Buffers keep their sizes (\<open>BUFSZ\<close> 256, \<open>LOGBUFSZ\<close> 256,
  \<open>PATH_SIZE\<close> 128, \<open>EVENTS_SIZE\<close> 64, ten clients), integers their width where it can matter.

  \<^bold>\<open>Taken for granted.\<close> Memory is never exhausted, identifiers and addresses of segments and semaphores
  are not used again, calls that succeed leave \<open>errno\<close> alone, only the two programs of a signal copy, its user and, in one
  lemma, a second sender send its signals, the memory behind a block that is too small is free,
  what a program prints leaves its buffer at once. What calls outside the repository
  answer (\<open>opendir\<close>, \<open>lstat\<close>, \<open>inotify\<close>, \<open>execvp\<close>, \<open>ctime\<close>, the network) is a parameter.

  \<^bold>\<open>Not modelled.\<close> Text on the terminal where a theory does not say otherwise, timing, process numbers
  inside messages, rounding of \<open>double\<close>; \<open>start_daemon\<close> of \<open>lib.c\<close>, a single library call; \<open>signal_handling\<close> of \<open>client.c\<close>, which nothing calls; the sleeps of the test
  programs of the stack.
\<close>

end
